(* ===== verification/JPrelude.thy ===== *)
theory JPrelude
  imports Main "HOL-Library.Word"
begin

text \<open>
  Shared vocabulary of the development: the C++ unsigned arithmetic written on
  \<open>nat\<close> with its wrap-around, array blits, the collections of rewrite rules the
  component theories extend, and list facts used by more than one component.
\<close>

named_theorems u32_simps "wrapping unsigned arithmetic inside its range"
named_theorems inv_intros "introduction rules for the components' invariants"

subsection \<open>Unsigned 32-bit arithmetic on natural numbers\<close>

text \<open>
  \<open>unsigned int\<close> values are natural numbers below \<open>2 ^ 32\<close>; additions, subtractions
  and products reduce modulo \<open>2 ^ 32\<close>, as the language prescribes.
\<close>

definition u32_add :: "nat \<Rightarrow> nat \<Rightarrow> nat" where
  "u32_add a b = (a + b) mod 2 ^ 32"

definition u32_sub :: "nat \<Rightarrow> nat \<Rightarrow> nat" where
  "u32_sub a b = (a + 2 ^ 32 - b) mod 2 ^ 32"

definition u32_mul :: "nat \<Rightarrow> nat \<Rightarrow> nat" where
  "u32_mul a b = (a * b) mod 2 ^ 32"

definition align8 :: "nat \<Rightarrow> nat" where
  "align8 n = n - n mod 8"

lemma u32_add_exact [u32_simps]: "a + b < 2 ^ 32 \<Longrightarrow> u32_add a b = a + b"
  by (simp add: u32_add_def)

lemma u32_sub_exact [u32_simps]: "b \<le> a \<Longrightarrow> a < 2 ^ 32 \<Longrightarrow> u32_sub a b = a - b"
proof -
  assume "b \<le> a" and a: "a < 2 ^ 32"
  then have "a + 2 ^ 32 - b = (a - b) + 2 ^ 32" by simp
  then have "u32_sub a b = ((a - b) + 2 ^ 32) mod 2 ^ 32" by (simp only: u32_sub_def)
  also have "\<dots> = (a - b) mod 2 ^ 32" by (rule mod_add_self2)
  also have "\<dots> = a - b" using a by simp
  finally show ?thesis .
qed

lemma u32_mul_exact [u32_simps]: "a * b < 2 ^ 32 \<Longrightarrow> u32_mul a b = a * b"
  by (simp add: u32_mul_def)

lemma u32_add_bound: "u32_add a b < 2 ^ 32"
  by (simp add: u32_add_def)

lemma u32_sub_bound: "u32_sub a b < 2 ^ 32"
  by (simp add: u32_sub_def)

lemma u32_mul_bound: "u32_mul a b < 2 ^ 32"
  by (simp add: u32_mul_def)

lemma align8_le [simp]: "align8 n \<le> n"
  by (simp add: align8_def)

lemma align8_dvd [simp]: "8 dvd align8 n"
  by (simp add: align8_def dvd_minus_mod)

lemma align8_mod [simp]: "align8 n mod 8 = 0"
  using align8_dvd by (simp only: dvd_eq_mod_eq_0)

lemma align8_id: "8 dvd n \<Longrightarrow> align8 n = n"
  by (simp add: align8_def dvd_eq_mod_eq_0)

lemma align8_gt: "n < align8 n + 8"
proof -
  have "n mod 8 < 8" "n mod 8 \<le> n" by simp_all
  then show ?thesis unfolding align8_def by linarith
qed

text \<open>The same for \<open>uint64_t\<close>.\<close>

definition u64_add :: "nat \<Rightarrow> nat \<Rightarrow> nat" where
  "u64_add a b = (a + b) mod 2 ^ 64"

definition u64_sub :: "nat \<Rightarrow> nat \<Rightarrow> nat" where
  "u64_sub a b = (a + 2 ^ 64 - b) mod 2 ^ 64"

lemma u64_add_exact [u32_simps]: "a + b < 2 ^ 64 \<Longrightarrow> u64_add a b = a + b"
  by (simp add: u64_add_def)

lemma u64_sub_exact [u32_simps]: "b \<le> a \<Longrightarrow> a < 2 ^ 64 \<Longrightarrow> u64_sub a b = a - b"
proof -
  assume "b \<le> a" and a: "a < 2 ^ 64"
  then have "a + 2 ^ 64 - b = (a - b) + 2 ^ 64" by simp
  then have "u64_sub a b = ((a - b) + 2 ^ 64) mod 2 ^ 64" by (simp only: u64_sub_def)
  also have "\<dots> = (a - b) mod 2 ^ 64" by (rule mod_add_self2)
  also have "\<dots> = a - b" using a by simp
  finally show ?thesis .
qed

type_synonym byte = "8 word"

subsection \<open>Copying array ranges\<close>

text \<open>
  \<open>blit dst d src s n\<close> is the loop \<open>for(i=0; i<n; i++) dst[d+i] = src[s+i]\<close>.
\<close>

fun blit :: "'a list \<Rightarrow> nat \<Rightarrow> 'a list \<Rightarrow> nat \<Rightarrow> nat \<Rightarrow> 'a list" where
  "blit dst d src s 0 = dst"
| "blit dst d src s (Suc n) = blit (dst[d := src ! s]) (Suc d) src (Suc s) n"

lemma length_blit [simp]: "length (blit dst d src s n) = length dst"
  by (induction n arbitrary: dst d s) simp_all

lemma nth_blit:
  "d + n \<le> length dst \<Longrightarrow> i < length dst \<Longrightarrow>
   blit dst d src s n ! i = (if d \<le> i \<and> i < d + n then src ! (s + (i - d)) else dst ! i)"
proof (induction n arbitrary: dst d s)
  case 0
  then show ?case by auto
next
  case (Suc n)
  have "blit (dst[d := src ! s]) (Suc d) src (Suc s) n ! i =
      (if Suc d \<le> i \<and> i < Suc d + n then src ! (Suc s + (i - Suc d))
       else (dst[d := src ! s]) ! i)"
    by (rule Suc.IH) (use Suc.prems in simp_all)
  with Suc.prems show ?case
    by (cases "i = d") (auto simp: Suc_diff_Suc)
qed

text \<open>The \<open>len\<close> elements from offset \<open>off\<close>.\<close>

definition chunk :: "nat \<Rightarrow> nat \<Rightarrow> 'a list \<Rightarrow> 'a list" where
  "chunk off len xs = take len (drop off xs)"

lemma length_chunk [simp]: "length (chunk off len xs) = min len (length xs - off)"
  by (simp add: chunk_def)

lemma nth_chunk: "i < len \<Longrightarrow> off + i < length xs \<Longrightarrow> chunk off len xs ! i = xs ! (off + i)"
  by (simp add: chunk_def)

lemma chunk_blit_same:
  assumes "off + length p \<le> length dst"
  shows "chunk off (length p) (blit dst off p 0 (length p)) = p"
  by (rule nth_equalityI) (use assms in \<open>auto simp: nth_chunk nth_blit\<close>)

lemma chunk_blit_other:
  assumes "off + n \<le> length dst" "off' + len \<le> off \<or> off + n \<le> off'"
  shows "chunk off' len (blit dst off p s n) = chunk off' len dst"
  by (rule nth_equalityI) (use assms in \<open>auto simp: nth_chunk nth_blit\<close>)

lemma slots_disjoint:
  assumes "i \<noteq> (j::nat)" "r \<le> w" shows "i * w + r \<le> j * w \<or> j * w + w \<le> i * w"
proof (cases "i < j")
  case True
  then have "Suc i * w \<le> j * w" by (intro mult_le_mono1) simp
  then show ?thesis using assms by simp
next
  case False
  then have "Suc j * w \<le> i * w" using assms by (intro mult_le_mono1) simp
  then show ?thesis by simp
qed

text \<open>The last \<open>n\<close> elements of a list.\<close>

definition takelast :: "nat \<Rightarrow> 'a list \<Rightarrow> 'a list" where
  "takelast n xs = drop (length xs - n) xs"

lemma length_takelast [simp]: "length (takelast n xs) = min n (length xs)"
  by (simp add: takelast_def)

lemma takelast_short [simp]: "length xs \<le> n \<Longrightarrow> takelast n xs = xs"
  by (simp add: takelast_def)

lemma takelast_takelast_append:
  "takelast n (takelast n xs @ ys) = takelast n (xs @ ys)"
proof (cases "length xs \<le> n")
  case True
  then show ?thesis by simp
next
  case False
  then show ?thesis by (simp add: takelast_def add.commute)
qed

end
