(* ===== verification/BQueue.thy ===== *)
theory BQueue
  imports Main
begin

text \<open>
  The blocking queue between the steps of a processing chain, from \<open>src/src/bqueue.h\<close>. Every
  operation runs under one mutex, so an operation is a function on the queue that says whether
  the caller must wait on its condition variable and which condition variables it signals. A
  step relation then interleaves the operations of any number of threads: blocked threads sit in
  the waiting list of a condition variable, a signal moves one of them (a broadcast all of them)
  to the threads that compete for the mutex, and spurious wake-ups are allowed.
\<close>

datatype pop_result_type = pop_success | pop_timeout | pop_disabled
datatype push_result_type = push_success | push_overflow | push_disabled

record 'e bqueue =
  enable_push :: bool
  enable_pop :: bool
  queue :: "'e list"
  nPush :: nat
  nPop :: nat
  capacity :: nat

text \<open>\<open>capacity_type(-1)\<close>: a queue of the default constructor is disabled.\<close>

definition invalid_size :: nat where "invalid_size = 2 ^ 64 - 1"

definition bq_init :: "nat \<Rightarrow> 'e bqueue" where
  "bq_init cap = \<lparr>enable_push = (cap \<noteq> invalid_size), enable_pop = (cap \<noteq> invalid_size), queue = [],
     nPush = 0, nPop = 0, capacity = cap\<rparr>"

datatype wake = No_Wake | Signal | Broadcast

text \<open>What an operation does to the two condition variables: first \<open>condition_push\<close>.\<close>

type_synonym wakes = "wake \<times> wake"

subsection \<open>Enabling and disabling\<close>

definition bq_disable :: "'e bqueue \<Rightarrow> 'e bqueue \<times> wakes" where
  "bq_disable q = (q\<lparr>enable_push := False, enable_pop := False, queue := []\<rparr>, Broadcast, Broadcast)"

definition bq_delayed_disable :: "'e bqueue \<Rightarrow> 'e bqueue \<times> wakes" where
  "bq_delayed_disable q =
     (let q = q\<lparr>enable_push := False\<rparr>;
          q = (if queue q = [] then q\<lparr>enable_pop := False\<rparr> else q)
      in (q, Broadcast, if \<not> enable_pop q then Broadcast else No_Wake))"

definition bq_disable_pop :: "'e bqueue \<Rightarrow> 'e bqueue \<times> wakes" where
  "bq_disable_pop q = (q\<lparr>enable_pop := False\<rparr>, No_Wake, Broadcast)"

definition bq_resize_enable :: "nat \<Rightarrow> 'e bqueue \<Rightarrow> 'e bqueue \<times> wakes" where
  "bq_resize_enable newcap q =
     (q\<lparr>enable_push := True, enable_pop := True, queue := [],
        capacity := (if newcap \<noteq> 0 then newcap else capacity q)\<rparr>, Broadcast, Broadcast)"

definition bq_enable :: "'e bqueue \<Rightarrow> 'e bqueue \<times> wakes" where
  "bq_enable q = bq_resize_enable 0 q"

definition bq_resize_enable_push :: "nat \<Rightarrow> 'e bqueue \<Rightarrow> 'e bqueue \<times> wakes" where
  "bq_resize_enable_push newcap q =
     (q\<lparr>enable_push := True, queue := [],
        capacity := (if newcap \<noteq> 0 then newcap else capacity q)\<rparr>, Broadcast, No_Wake)"

definition bq_enable_pop_only :: "'e bqueue \<Rightarrow> 'e bqueue \<times> wakes" where
  "bq_enable_pop_only q = (q\<lparr>enable_pop := True\<rparr>, No_Wake, Broadcast)"

definition bq_clear :: "'e bqueue \<Rightarrow> 'e bqueue \<times> wakes" where
  "bq_clear q =
     (let did_pop = (queue q \<noteq> []);
          q' = q\<lparr>queue := []\<rparr>;
          q' = (if \<not> enable_push q' then q'\<lparr>enable_pop := False\<rparr> else q')
      in (q', if nPush q' > 0 \<and> did_pop then Broadcast else No_Wake, No_Wake))"

subsection \<open>Pushing\<close>

text \<open>Entering \<open>push\<close>, its wait condition, and what follows the loop.\<close>

definition push_enter :: "'e bqueue \<Rightarrow> 'e bqueue" where
  "push_enter q = q\<lparr>nPush := nPush q + 1\<rparr>"

definition push_waits :: "'e bqueue \<Rightarrow> bool" where
  "push_waits q \<longleftrightarrow> enable_push q \<and> length (queue q) \<ge> capacity q"

definition push_finish :: "'e \<Rightarrow> 'e bqueue \<Rightarrow> 'e bqueue \<times> bool \<times> wakes" where
  "push_finish b q =
     (let did_push = enable_push q;
          q' = q\<lparr>queue := (if did_push then queue q @ [b] else queue q), nPush := nPush q - 1\<rparr>
      in (q', did_push, No_Wake, if nPop q' > 0 \<and> did_push then Signal else No_Wake))"

definition bq_try_push :: "'e \<Rightarrow> 'e bqueue \<Rightarrow> 'e bqueue \<times> push_result_type \<times> wakes" where
  "bq_try_push b q =
     (if \<not> enable_push q then (q, push_disabled, No_Wake, No_Wake)
      else if length (queue q) \<ge> capacity q then (q, push_overflow, No_Wake, No_Wake)
      else (q\<lparr>queue := queue q @ [b]\<rparr>, push_success, No_Wake,
            if nPop q > 0 then Signal else No_Wake))"

subsection \<open>Popping\<close>

definition pop_enter :: "'e bqueue \<Rightarrow> 'e bqueue" where
  "pop_enter q = q\<lparr>nPop := nPop q + 1\<rparr>"

definition pop_waits :: "'e bqueue \<Rightarrow> bool" where
  "pop_waits q \<longleftrightarrow> enable_pop q \<and> queue q = []"

text \<open>After an element was taken from a queue that is not pushed to any more, popping ends too.\<close>

definition pop_close :: "'e bqueue \<Rightarrow> 'e bqueue" where
  "pop_close q =
     (let q = (if \<not> enable_push q \<and> queue q = [] then q\<lparr>enable_pop := False\<rparr> else q)
      in q\<lparr>nPop := nPop q - 1\<rparr>)"

definition pop_finish :: "'e bqueue \<Rightarrow> 'e bqueue \<times> 'e option \<times> wakes" where
  "pop_finish q =
     (let did_pop = enable_pop q;
          b = (if did_pop then Some (hd (queue q)) else None);
          q' = pop_close (if did_pop then q\<lparr>queue := tl (queue q)\<rparr> else q)
      in (q', b, if nPush q' > 0 \<and> did_pop then Signal else No_Wake,
          if nPop q' > 0 \<and> \<not> enable_pop q' then Broadcast else No_Wake))"

text \<open>The result of the timed pop and of \<open>trypop\<close>: an element, or why there is none.\<close>

definition take_front :: "'e bqueue \<Rightarrow> 'e bqueue \<times> 'e option \<times> pop_result_type" where
  "take_front q =
     (if enable_pop q
      then (case queue q of b # bs \<Rightarrow> (q\<lparr>queue := bs\<rparr>, Some b, pop_success)
            | [] \<Rightarrow> (q, None, pop_timeout))
      else (q, None, pop_disabled))"

definition timed_pop_waits :: "bool \<Rightarrow> 'e bqueue \<Rightarrow> bool" where
  "timed_pop_waits timed_out q \<longleftrightarrow> enable_pop q \<and> queue q = [] \<and> \<not> timed_out"

definition timed_pop_finish :: "'e bqueue \<Rightarrow> 'e bqueue \<times> 'e option \<times> pop_result_type \<times> wakes" where
  "timed_pop_finish q =
     (case take_front q of
        (q1, b, r) \<Rightarrow>
          (let q' = pop_close q1
           in (q', b, r, if nPush q' > 0 \<and> r = pop_success then Signal else No_Wake, No_Wake)))"

definition bq_trypop :: "'e bqueue \<Rightarrow> 'e bqueue \<times> 'e option \<times> pop_result_type \<times> wakes" where
  "bq_trypop q = timed_pop_finish (pop_enter q)"

text \<open>\<open>try_push\<close> is declared \<open>bool\<close> and returns its \<open>push_result_type\<close>: \<open>push_success\<close>, which is 0,
  is returned as \<open>false\<close>.\<close>

definition try_push_returns :: "push_result_type \<Rightarrow> bool" where
  "try_push_returns r \<longleftrightarrow> r \<noteq> push_success"

subsection \<open>Control operations\<close>

datatype control =
    Disable | Delayed_Disable | Disable_Pop | Resize_Enable nat | Resize_Enable_Push nat
  | Enable_Pop_Only | Clear

fun control_op :: "control \<Rightarrow> 'e bqueue \<Rightarrow> 'e bqueue \<times> wakes" where
  "control_op Disable q = bq_disable q"
| "control_op Delayed_Disable q = bq_delayed_disable q"
| "control_op Disable_Pop q = bq_disable_pop q"
| "control_op (Resize_Enable n) q = bq_resize_enable n q"
| "control_op (Resize_Enable_Push n) q = bq_resize_enable_push n q"
| "control_op Enable_Pop_Only q = bq_enable_pop_only q"
| "control_op Clear q = bq_clear q"

lemmas control_defs = bq_disable_def bq_delayed_disable_def bq_disable_pop_def bq_resize_enable_def
  bq_resize_enable_push_def bq_enable_pop_only_def bq_clear_def

subsection \<open>Threads on one queue\<close>

datatype popper = Plain | Timed | Timed_Out

text \<open>The pushers (with their element) and poppers that wait for a signal, and those that were woken
  and must take the mutex again.\<close>

record 'e bsys =
  bq :: "'e bqueue"
  push_waiting :: "'e list"
  push_ready :: "'e list"
  pop_waiting :: "popper list"
  pop_ready :: "popper list"

inductive moves :: "wake \<Rightarrow> 'a list \<Rightarrow> 'a list \<Rightarrow> 'a list \<Rightarrow> 'a list \<Rightarrow> bool" where
  stay: "moves No_Wake w r w r"
| nobody: "moves Signal [] r [] r"
| one: "moves Signal (xs @ x # ys) r (xs @ ys) (x # r)"
| all: "moves Broadcast w r [] (w @ r)"

inductive_cases moves_stay [elim!]: "moves No_Wake w r w' r'"
inductive_cases moves_signal: "moves Signal w r w' r'"
inductive_cases moves_all [elim!]: "moves Broadcast w r w' r'"

inductive settle :: "'e bqueue \<times> wakes \<Rightarrow> 'e bsys \<Rightarrow> 'e bsys \<Rightarrow> bool" where
  "moves wp (push_waiting s) (push_ready s) pw pr \<Longrightarrow> moves wo (pop_waiting s) (pop_ready s) ow r \<Longrightarrow>
   settle (q, wp, wo) s
     \<lparr>bq = q, push_waiting = pw, push_ready = pr, pop_waiting = ow, pop_ready = r\<rparr>"

inductive_cases settleE: "settle (q, wp, wo) s s'"

datatype 'e label =
    Tau | Pushed 'e | Popped 'e | Timed_Pop "'e option" | Try_Pop "'e option" | Control control

inductive bstep :: "'e bsys \<Rightarrow> 'e label \<Rightarrow> 'e bsys \<Rightarrow> bool" where
  push_block: "push_waits (push_enter (bq s)) \<Longrightarrow>
     bstep s Tau (s\<lparr>bq := push_enter (bq s), push_waiting := b # push_waiting s\<rparr>)"
| push_now: "\<not> push_waits (push_enter (bq s)) \<Longrightarrow> push_finish b (push_enter (bq s)) = (q, ok, w) \<Longrightarrow>
     settle (q, w) s s' \<Longrightarrow> bstep s (if ok then Pushed b else Tau) s'"
| push_again: "push_ready s = xs @ b # ys \<Longrightarrow> push_waits (bq s) \<Longrightarrow>
     bstep s Tau (s\<lparr>push_ready := xs @ ys, push_waiting := b # push_waiting s\<rparr>)"
| push_resume: "push_ready s = xs @ b # ys \<Longrightarrow> \<not> push_waits (bq s) \<Longrightarrow>
     push_finish b (bq s) = (q, ok, w) \<Longrightarrow> settle (q, w) (s\<lparr>push_ready := xs @ ys\<rparr>) s' \<Longrightarrow>
     bstep s (if ok then Pushed b else Tau) s'"
| try_push: "bq_try_push b (bq s) = (q, r, w) \<Longrightarrow> settle (q, w) s s' \<Longrightarrow>
     bstep s (if r = push_success then Pushed b else Tau) s'"
| pop_block: "pop_waits (pop_enter (bq s)) \<Longrightarrow>
     bstep s Tau (s\<lparr>bq := pop_enter (bq s), pop_waiting := Plain # pop_waiting s\<rparr>)"
| pop_now: "\<not> pop_waits (pop_enter (bq s)) \<Longrightarrow> pop_finish (pop_enter (bq s)) = (q, e, w) \<Longrightarrow>
     settle (q, w) s s' \<Longrightarrow> bstep s (case e of None \<Rightarrow> Tau | Some b \<Rightarrow> Popped b) s'"
| pop_again: "pop_ready s = xs @ Plain # ys \<Longrightarrow> pop_waits (bq s) \<Longrightarrow>
     bstep s Tau (s\<lparr>pop_ready := xs @ ys, pop_waiting := Plain # pop_waiting s\<rparr>)"
| pop_resume: "pop_ready s = xs @ Plain # ys \<Longrightarrow> \<not> pop_waits (bq s) \<Longrightarrow>
     pop_finish (bq s) = (q, e, w) \<Longrightarrow> settle (q, w) (s\<lparr>pop_ready := xs @ ys\<rparr>) s' \<Longrightarrow>
     bstep s (case e of None \<Rightarrow> Tau | Some b \<Rightarrow> Popped b) s'"
| timed_block: "timed_pop_waits False (pop_enter (bq s)) \<Longrightarrow>
     bstep s (Timed_Pop None) (s\<lparr>bq := pop_enter (bq s), pop_waiting := Timed # pop_waiting s\<rparr>)"
| timed_now: "\<not> timed_pop_waits False (pop_enter (bq s)) \<Longrightarrow>
     timed_pop_finish (pop_enter (bq s)) = (q, e, r, w) \<Longrightarrow> settle (q, w) s s' \<Longrightarrow>
     bstep s (Timed_Pop e) s'"
| timed_again: "pop_ready s = xs @ Timed # ys \<Longrightarrow> timed_pop_waits False (bq s) \<Longrightarrow>
     bstep s (Timed_Pop None) (s\<lparr>pop_ready := xs @ ys, pop_waiting := Timed # pop_waiting s\<rparr>)"
| timed_resume: "pop_ready s = xs @ p # ys \<Longrightarrow> p = Timed \<or> p = Timed_Out \<Longrightarrow>
     \<not> timed_pop_waits (p = Timed_Out) (bq s) \<Longrightarrow> timed_pop_finish (bq s) = (q, e, r, w) \<Longrightarrow>
     settle (q, w) (s\<lparr>pop_ready := xs @ ys\<rparr>) s' \<Longrightarrow> bstep s (Timed_Pop e) s'"
| timed_expires: "pop_waiting s = xs @ Timed # ys \<Longrightarrow>
     bstep s (Timed_Pop None) (s\<lparr>pop_waiting := xs @ ys, pop_ready := Timed_Out # pop_ready s\<rparr>)"
| trypop: "bq_trypop (bq s) = (q, e, r, w) \<Longrightarrow> settle (q, w) s s' \<Longrightarrow> bstep s (Try_Pop e) s'"
| control: "settle (control_op c (bq s)) s s' \<Longrightarrow> bstep s (Control c) s'"
| spurious_push: "moves Signal (push_waiting s) (push_ready s) w r \<Longrightarrow>
     bstep s Tau (s\<lparr>push_waiting := w, push_ready := r\<rparr>)"
| spurious_pop: "moves Signal (pop_waiting s) (pop_ready s) w r \<Longrightarrow>
     bstep s Tau (s\<lparr>pop_waiting := w, pop_ready := r\<rparr>)"

definition bsys_init :: "nat \<Rightarrow> 'e bsys" where
  "bsys_init cap = \<lparr>bq = bq_init cap, push_waiting = [], push_ready = [], pop_waiting = [],
     pop_ready = []\<rparr>"

inductive brun :: "'e bsys \<Rightarrow> 'e label list \<Rightarrow> 'e bsys \<Rightarrow> bool" for s where
  start: "brun s [] s"
| step: "brun s ls s' \<Longrightarrow> bstep s' l s'' \<Longrightarrow> brun s (ls @ [l]) s''"

subsection \<open>First in, first out\<close>

primrec pushed :: "'e label list \<Rightarrow> 'e list" where
  "pushed [] = []"
| "pushed (l # ls) = (case l of Pushed b \<Rightarrow> [b] | _ \<Rightarrow> []) @ pushed ls"

primrec popped :: "'e label list \<Rightarrow> 'e list" where
  "popped [] = []"
| "popped (l # ls) = (case l of Popped b \<Rightarrow> [b] | Timed_Pop (Some b) \<Rightarrow> [b]
     | Try_Pop (Some b) \<Rightarrow> [b] | _ \<Rightarrow> []) @ popped ls"

definition keeps_elements :: "'e label \<Rightarrow> bool" where
  "keeps_elements l \<longleftrightarrow> (\<forall>c. l = Control c \<longrightarrow> c \<in> {Delayed_Disable, Disable_Pop, Enable_Pop_Only})"

lemma pushed_append [simp]: "pushed (xs @ ys) = pushed xs @ pushed ys" by (induction xs) simp_all
lemma popped_append [simp]: "popped (xs @ ys) = popped xs @ popped ys" by (induction xs) simp_all

lemma settle_bq: "settle (q, w) s s' \<Longrightarrow> bq s' = q"
  by (cases w) (auto elim: settleE)

lemmas op_defs = push_enter_def push_waits_def push_finish_def bq_try_push_def pop_enter_def
  pop_waits_def pop_finish_def pop_close_def take_front_def timed_pop_waits_def
  timed_pop_finish_def bq_trypop_def

lemma pop_close_queue [simp]: "queue (pop_close q) = queue q" "capacity (pop_close q) = capacity q"
  "enable_push (pop_close q) = enable_push q" "nPush (pop_close q) = nPush q"
  "nPop (pop_close q) = nPop q - 1"
  by (simp_all add: pop_close_def Let_def)

lemma pop_finish_queue:
  "pop_finish q = (q', e, w) \<Longrightarrow> \<not> pop_waits q \<Longrightarrow>
   (case e of None \<Rightarrow> queue q' = queue q | Some b \<Rightarrow> queue q = b # queue q')"
  by (cases "queue q") (auto simp: pop_finish_def pop_waits_def Let_def split: if_splits)

lemma timed_pop_finish_queue:
  "timed_pop_finish q = (q', e, r, w) \<Longrightarrow>
   (case e of None \<Rightarrow> queue q' = queue q | Some b \<Rightarrow> queue q = b # queue q')"
  by (cases "queue q") (auto simp: timed_pop_finish_def take_front_def Let_def split: if_splits)

lemma bstep_queue:
  assumes "bstep s l s'" "keeps_elements l"
  shows "popped [l] @ queue (bq s') = queue (bq s) @ pushed [l]"
  using assms
proof cases
  case (pop_now q e w)
  with pop_finish_queue [OF pop_now(3,2)] show ?thesis
    by (cases e) (auto simp: pop_enter_def dest: settle_bq)
next
  case (pop_resume xs ys q e w)
  with pop_finish_queue [OF pop_resume(4,3)] show ?thesis
    by (cases e) (auto dest: settle_bq)
next
  case (timed_now q e r w)
  with timed_pop_finish_queue [OF timed_now(3)] show ?thesis
    by (cases e) (auto simp: pop_enter_def dest: settle_bq)
next
  case (timed_resume xs p ys q e r w)
  with timed_pop_finish_queue [OF timed_resume(5)] show ?thesis
    by (cases e) (auto dest: settle_bq)
next
  case (trypop q e r w)
  with timed_pop_finish_queue [of "pop_enter (bq s)" q e r w] show ?thesis
    by (cases e) (auto simp: pop_enter_def bq_trypop_def dest: settle_bq)
next
  case (control c)
  have "bq s' = fst (control_op c (bq s))"
    by (rule settle_bq [of _ "snd (control_op c (bq s))"]) (use control(2) in simp)
  with control(1) assms(2) show ?thesis
    by (auto simp: keeps_elements_def control_defs Let_def)
qed (auto simp: op_defs Let_def dest: settle_bq split: if_splits)

text \<open>C12: Elements leave the queue in the order in which they entered, none lost or doubled: for any
  interleaving of threads that push and pop in any way, without operations that empty the queue,
  what was popped followed by what is queued is what was queued followed by what was pushed.\<close>

theorem queue_is_fifo:
  assumes "brun s ls s'" "\<forall>l\<in>set ls. keeps_elements l"
  shows "popped ls @ queue (bq s') = queue (bq s) @ pushed ls"
  using assms
proof (induction rule: brun.induct)
  case start
  then show ?case by simp
next
  case (step ls s' l s'')
  then have "popped ls @ queue (bq s') = queue (bq s) @ pushed ls"
    and "popped [l] @ queue (bq s'') = queue (bq s') @ pushed [l]"
    using bstep_queue [of s' l s''] by auto
  then show ?case by (metis append.assoc popped_append pushed_append)
qed

subsection \<open>No thread sleeps that could go on\<close>

lemma moves_facts:
  assumes "moves w ws rs ws' rs'"
  shows "length ws' + length rs' = length ws + length rs" "length rs \<le> length rs'"
    "ws' \<noteq> [] \<Longrightarrow> ws \<noteq> []" "w = Broadcast \<Longrightarrow> ws' = []"
    "w = Signal \<Longrightarrow> ws' \<noteq> [] \<Longrightarrow> length rs < length rs'" "set ws' \<union> set rs' = set ws \<union> set rs"
    "rs \<noteq> [] \<Longrightarrow> rs' \<noteq> []"
  using assms by (cases; auto)+

definition push_inv :: "'e bsys \<Rightarrow> bool" where
  "push_inv s \<longleftrightarrow> nPush (bq s) = length (push_waiting s) + length (push_ready s)
     \<and> nPop (bq s) = length (pop_waiting s) + length (pop_ready s)
     \<and> length (queue (bq s)) \<le> capacity (bq s)
     \<and> (push_waiting s \<noteq> [] \<longrightarrow> enable_push (bq s)
          \<and> capacity (bq s) \<le> length (queue (bq s)) + length (push_ready s))"

lemma push_inv_init: "push_inv (bsys_init cap)"
  by (simp add: push_inv_def bsys_init_def bq_init_def)

text \<open>The outcome of an operation keeps the invariant when it signals enough.\<close>

lemma settle_push_inv:
  assumes "settle (q, wp, wo) s s'" "nPush q = length (push_waiting s) + length (push_ready s)"
    "nPop q = length (pop_waiting s) + length (pop_ready s)" "length (queue q) \<le> capacity q"
    "push_waiting s \<noteq> [] \<Longrightarrow> wp \<noteq> Broadcast \<Longrightarrow> enable_push q \<and>
       capacity q \<le> length (queue q) + length (push_ready s) + (if wp = Signal then 1 else 0)"
  shows "push_inv s'"
  using assms(1)
proof (rule settleE)
  fix pw pr ow r
  assume m: "moves wp (push_waiting s) (push_ready s) pw pr" "moves wo (pop_waiting s) (pop_ready s) ow r"
    and s': "s' = \<lparr>bq = q, push_waiting = pw, push_ready = pr, pop_waiting = ow, pop_ready = r\<rparr>"
  show ?thesis
    using moves_facts [OF m(1)] moves_facts(1) [OF m(2)] assms(2-5)
    by (cases wp) (auto simp: push_inv_def s')
qed

lemma pop_finish_cases:
  assumes "pop_finish q = (q', e, wp, wo)" "\<not> pop_waits q"
  shows "nPush q' = nPush q" "nPop q' = nPop q - 1" "capacity q' = capacity q"
    "enable_push q' = enable_push q" "length (queue q) \<le> length (queue q') + (if wp = Signal then 1 else 0) \<or> nPush q = 0"
    "length (queue q') \<le> length (queue q)" "wp \<noteq> Broadcast"
    "wo = (if nPop q' > 0 \<and> \<not> enable_pop q' then Broadcast else No_Wake)"
    "enable_pop q' \<Longrightarrow> enable_pop q \<and> length (queue q) = Suc (length (queue q'))"
  using assms by (cases "queue q"; auto simp: pop_finish_def pop_waits_def pop_close_def Let_def split: if_splits)+

lemma timed_pop_finish_cases:
  assumes "timed_pop_finish q = (q', e, r, wp, wo)"
  shows "nPush q' = nPush q" "nPop q' = nPop q - 1" "capacity q' = capacity q"
    "enable_push q' = enable_push q" "length (queue q) \<le> length (queue q') + (if wp = Signal then 1 else 0) \<or> nPush q = 0"
    "length (queue q') \<le> length (queue q)" "wp \<noteq> Broadcast" "wo = No_Wake"
    "enable_pop q' \<Longrightarrow> enable_pop q" "enable_pop q \<Longrightarrow> \<not> enable_pop q' \<Longrightarrow> \<not> enable_push q \<and> queue q' = []"
  using assms by (cases "queue q"; auto simp: timed_pop_finish_def take_front_def pop_close_def Let_def split: if_splits)+

lemma bstep_push_inv: "bstep s l s' \<Longrightarrow> push_inv s \<Longrightarrow> push_inv s'"
proof (induction rule: bstep.induct)
  case (push_now s b q ok w s')
  obtain wp wo where w: "w = (wp, wo)" by (cases w)
  show ?case
    by (rule settle_push_inv [OF push_now(3) [unfolded w]])
      (use push_now w in \<open>auto simp: push_finish_def push_waits_def push_enter_def push_inv_def Let_def split: if_splits\<close>)
next
  case (push_resume s xs b ys q ok w s')
  obtain wp wo where w: "w = (wp, wo)" by (cases w)
  show ?case
    by (rule settle_push_inv [OF push_resume(4) [unfolded w]])
      (use push_resume w in \<open>auto simp: push_finish_def push_waits_def push_inv_def Let_def split: if_splits\<close>)
next
  case (try_push b s q r w s')
  obtain wp wo where w: "w = (wp, wo)" by (cases w)
  show ?case
    by (rule settle_push_inv [OF try_push(2) [unfolded w]])
      (use try_push w in \<open>auto simp: bq_try_push_def push_inv_def Let_def split: if_splits\<close>)
next
  case (pop_now s q e w s')
  obtain wp wo where w: "w = (wp, wo)" by (cases w)
  note f = pop_finish_cases [OF pop_now(2) [unfolded w] pop_now(1)]
  show ?case
    by (rule settle_push_inv [OF pop_now(3) [unfolded w]])
      (use f(1-7) pop_now.prems in \<open>auto simp: pop_enter_def push_inv_def\<close>)
next
  case (pop_resume s xs ys q e w s')
  obtain wp wo where w: "w = (wp, wo)" by (cases w)
  note f = pop_finish_cases [OF pop_resume(3) [unfolded w] pop_resume(2)]
  show ?case
    by (rule settle_push_inv [OF pop_resume(4) [unfolded w]])
      (use f(1-7) pop_resume.prems pop_resume(1) in \<open>auto simp: push_inv_def\<close>)
next
  case (timed_now s q e r w s')
  obtain wp wo where w: "w = (wp, wo)" by (cases w)
  note f = timed_pop_finish_cases [OF timed_now(2) [unfolded w]]
  show ?case
    by (rule settle_push_inv [OF timed_now(3) [unfolded w]])
      (use f(1-7) timed_now.prems in \<open>auto simp: pop_enter_def push_inv_def\<close>)
next
  case (timed_resume s xs p ys q e r w s')
  obtain wp wo where w: "w = (wp, wo)" by (cases w)
  note f = timed_pop_finish_cases [OF timed_resume(4) [unfolded w]]
  show ?case
    by (rule settle_push_inv [OF timed_resume(5) [unfolded w]])
      (use f(1-7) timed_resume.prems timed_resume(1) in \<open>auto simp: push_inv_def\<close>)
next
  case (trypop s q e r w s')
  obtain wp wo where w: "w = (wp, wo)" by (cases w)
  note f = timed_pop_finish_cases [OF trypop(1) [unfolded w bq_trypop_def]]
  show ?case
    by (rule settle_push_inv [OF trypop(2) [unfolded w]])
      (use f(1-7) trypop.prems in \<open>auto simp: pop_enter_def push_inv_def\<close>)
next
  case (control c s s')
  obtain q wp wo where w: "control_op c (bq s) = (q, wp, wo)" by (cases "control_op c (bq s)") auto
  show ?case
    by (rule settle_push_inv [OF control(1) [unfolded w]])
      (use control.prems w in \<open>cases c; auto simp: control_defs push_inv_def Let_def split: if_splits\<close>)+
next
  case (spurious_push s w r)
  from moves_facts [OF spurious_push.hyps] spurious_push.prems show ?case by (auto simp: push_inv_def)
next
  case (spurious_pop s w r)
  from moves_facts [OF spurious_pop.hyps] spurious_pop.prems show ?case by (auto simp: push_inv_def)
qed (auto simp: push_inv_def op_defs)

lemma brun_push_inv: "brun s ls s' \<Longrightarrow> push_inv s \<Longrightarrow> push_inv s'"
  by (induction rule: brun.induct) (auto intro: bstep_push_inv)

text \<open>C13: A pusher never sleeps on a queue it could push to, or that is disabled: in every state that is
  reachable by any interleaving of all operations, when threads wait to push, the queue is
  enabled and every free slot has a woken thread that will try to fill it. The queue never
  exceeds its capacity.\<close>

theorem pushers_not_stranded:
  assumes "brun (bsys_init cap) ls s"
  shows "length (queue (bq s)) \<le> capacity (bq s)
    \<and> (push_waiting s \<noteq> [] \<longrightarrow> enable_push (bq s)
         \<and> capacity (bq s) - length (queue (bq s)) \<le> length (push_ready s))"
  using brun_push_inv [OF assms push_inv_init] by (auto simp: push_inv_def)

text \<open>
  For poppers this needs more: a timed pop that takes the last element of a closing queue does
  not wake the others. The invariant holds for runs without timed pops, in which popping is only
  enabled again on a queue that can be pushed to.
\<close>

fun calm :: "'e bsys \<Rightarrow> 'e label \<Rightarrow> bool" where
  "calm s (Timed_Pop e) \<longleftrightarrow> False"
| "calm s (Control Enable_Pop_Only) \<longleftrightarrow> enable_push (bq s)"
| "calm s l \<longleftrightarrow> True"

inductive calm_run :: "'e bsys \<Rightarrow> 'e label list \<Rightarrow> 'e bsys \<Rightarrow> bool" for s where
  calm_start: "calm_run s [] s"
| calm_step: "calm_run s ls s' \<Longrightarrow> bstep s' l s'' \<Longrightarrow> calm s' l \<Longrightarrow> calm_run s (ls @ [l]) s''"

definition pop_inv :: "'e bsys \<Rightarrow> bool" where
  "pop_inv s \<longleftrightarrow> nPop (bq s) = length (pop_waiting s) + length (pop_ready s)
     \<and> set (pop_waiting s) \<union> set (pop_ready s) \<subseteq> {Plain}
     \<and> (\<not> enable_push (bq s) \<and> queue (bq s) = [] \<longrightarrow> \<not> enable_pop (bq s))
     \<and> (pop_waiting s \<noteq> [] \<longrightarrow>
          (if enable_pop (bq s) then length (queue (bq s)) \<le> length (pop_ready s)
           else pop_ready s \<noteq> []))"

lemma pop_inv_init: "pop_inv (bsys_init cap)"
  by (simp add: pop_inv_def bsys_init_def bq_init_def)

lemma settle_pop_inv:
  assumes "settle (q, wp, wo) s s'" "nPop q = length (pop_waiting s) + length (pop_ready s)"
    "set (pop_waiting s) \<union> set (pop_ready s) \<subseteq> {Plain}"
    "\<not> enable_push q \<and> queue q = [] \<Longrightarrow> \<not> enable_pop q"
    "pop_waiting s \<noteq> [] \<Longrightarrow> wo \<noteq> Broadcast \<Longrightarrow>
       (if enable_pop q then length (queue q) \<le> length (pop_ready s) + (if wo = Signal then 1 else 0)
        else pop_ready s \<noteq> [])"
  shows "pop_inv s'"
  using assms(1)
proof (rule settleE)
  fix pw pr ow r
  assume m: "moves wo (pop_waiting s) (pop_ready s) ow r"
    and s': "s' = \<lparr>bq = q, push_waiting = pw, push_ready = pr, pop_waiting = ow, pop_ready = r\<rparr>"
  show ?thesis
    using moves_facts [OF m] assms(2-5)
    by (cases wo) (auto simp: pop_inv_def s' split: if_splits)
qed

lemma bstep_pop_inv: "bstep s l s' \<Longrightarrow> calm s l \<Longrightarrow> pop_inv s \<Longrightarrow> pop_inv s'"
proof (induction rule: bstep.induct)
  case (push_now s b q ok w s')
  obtain wp wo where w: "w = (wp, wo)" by (cases w)
  show ?case
    by (rule settle_pop_inv [OF push_now(3) [unfolded w]])
      (use push_now w in \<open>auto simp: push_finish_def push_enter_def pop_inv_def Let_def split: if_splits\<close>)
next
  case (push_resume s xs b ys q ok w s')
  obtain wp wo where w: "w = (wp, wo)" by (cases w)
  show ?case
    by (rule settle_pop_inv [OF push_resume(4) [unfolded w]])
      (use push_resume w in \<open>auto simp: push_finish_def pop_inv_def Let_def split: if_splits\<close>)
next
  case (try_push b s q r w s')
  obtain wp wo where w: "w = (wp, wo)" by (cases w)
  show ?case
    by (rule settle_pop_inv [OF try_push(2) [unfolded w]])
      (use try_push w in \<open>auto simp: bq_try_push_def pop_inv_def split: if_splits\<close>)
next
  case (pop_now s q e w s')
  obtain wp wo where w: "w = (wp, wo)" by (cases w)
  note f = pop_finish_cases [OF pop_now(2) [unfolded w] pop_now(1)]
  show ?case
    by (rule settle_pop_inv [OF pop_now(3) [unfolded w]])
      (use f pop_now w in \<open>auto simp: pop_enter_def pop_inv_def pop_finish_def pop_close_def Let_def
         split: if_splits\<close>)
next
  case (pop_resume s xs ys q e w s')
  obtain wp wo where w: "w = (wp, wo)" by (cases w)
  note f = pop_finish_cases [OF pop_resume(3) [unfolded w] pop_resume(2)]
  show ?case
    by (rule settle_pop_inv [OF pop_resume(4) [unfolded w]])
      (use f pop_resume w in \<open>auto simp: pop_inv_def pop_finish_def pop_close_def Let_def
         split: if_splits\<close>)
next
  case (trypop s q e r w s')
  obtain wp wo where w: "w = (wp, wo)" by (cases w)
  note f = timed_pop_finish_cases [OF trypop(1) [unfolded w bq_trypop_def]]
  show ?case
    by (rule settle_pop_inv [OF trypop(2) [unfolded w]])
      (use f trypop w in \<open>auto simp: bq_trypop_def pop_enter_def pop_inv_def timed_pop_finish_def
         take_front_def pop_close_def Let_def split: if_splits list.splits\<close>)
next
  case (control c s s')
  obtain q wp wo where w: "control_op c (bq s) = (q, wp, wo)" by (cases "control_op c (bq s)") auto
  show ?case
    by (rule settle_pop_inv [OF control(1) [unfolded w]])
      (use control.prems w in \<open>cases c; auto simp: control_defs pop_inv_def Let_def split: if_splits\<close>)+
next
  case (spurious_push s w r)
  then show ?case by (auto simp: pop_inv_def)
next
  case (spurious_pop s w r)
  from moves_facts [OF spurious_pop.hyps] spurious_pop.prems show ?case
    by (auto simp: pop_inv_def split: if_splits)
qed (auto simp: pop_inv_def op_defs split: if_splits)

lemma calm_run_pop_inv: "calm_run s ls s' \<Longrightarrow> pop_inv s \<Longrightarrow> pop_inv s'"
  by (induction rule: calm_run.induct) (auto intro: bstep_pop_inv)


text \<open>One popper that waits and is woken by a pusher.\<close>

definition two_wait :: "nat bsys" where
  "two_wait = (bsys_init 2)\<lparr>bq := (bq_init 2)\<lparr>nPop := 2\<rparr>, pop_waiting := [Plain, Plain]\<rparr>"

definition one_woken :: "nat bsys" where
  "one_woken = (bsys_init 2)\<lparr>bq := (bq_init 2)\<lparr>nPop := 2, queue := [7]\<rparr>, pop_waiting := [Plain],
     pop_ready := [Plain]\<rparr>"

lemma one_woken_run: "calm_run (bsys_init 2) [Tau, Tau, Pushed 7] one_woken"
proof -
  let ?s0 = "bsys_init 2 :: nat bsys"
  let ?s1 = "?s0\<lparr>bq := (bq_init 2)\<lparr>nPop := 1\<rparr>, pop_waiting := [Plain]\<rparr>"
  have init: "bq_init 2 = \<lparr>enable_push = True, enable_pop = True, queue = [], nPush = 0, nPop = 0,
      capacity = 2\<rparr>" by (simp add: bq_init_def invalid_size_def)
  have "bstep ?s0 Tau ?s1"
    using bstep.pop_block [of ?s0] by (simp add: op_defs init bsys_init_def)
  then have r1: "calm_run ?s0 [Tau] ?s1" using calm_step [OF calm_start] by fastforce
  have "bstep ?s1 Tau two_wait"
    using bstep.pop_block [of ?s1] by (simp add: op_defs init bsys_init_def two_wait_def numeral_2_eq_2 [symmetric])
  then have r2: "calm_run ?s0 [Tau, Tau] two_wait" using calm_step [OF r1] by fastforce
  let ?q = "(bq_init 2)\<lparr>nPop := 2, queue := [7]\<rparr>"
  have "settle (?q, No_Wake, Signal) two_wait one_woken"
    using settle.intros [of No_Wake two_wait "[]" "[]" Signal "[Plain]" "[Plain]" ?q]
      moves.one [of "[]" Plain "[Plain]" "[]"] moves.stay [of "[]" "[]"]
    by (simp add: two_wait_def one_woken_def bsys_init_def)
  moreover have "push_finish 7 (push_enter (bq two_wait)) = (?q, True, No_Wake, Signal)"
    by (simp add: op_defs two_wait_def init)
  ultimately have "bstep two_wait (Pushed 7) one_woken"
    using bstep.push_now [of two_wait 7] by (fastforce simp: op_defs two_wait_def init)
  then show ?thesis using calm_step [OF r2] by fastforce
qed


text \<open>The state the pushers' property speaks of is reached by a second push on a queue of one.\<close>

lemma calm_run_brun: "calm_run s ls s' \<Longrightarrow> brun s ls s'"
  by (induction rule: calm_run.induct) (auto intro: brun.intros)

theorem pushers_not_stranded_witness: "length (queue (bq one_woken)) \<le> capacity (bq one_woken)"
  using pushers_not_stranded [OF calm_run_brun [OF one_woken_run]] by blast

theorem queue_is_fifo_witness:
  "popped [Tau, Tau, Pushed 7] @ queue (bq one_woken) =
     queue (bq (bsys_init 2)) @ pushed [Tau, Tau, Pushed (7 :: nat)]"
  by (rule queue_is_fifo [OF calm_run_brun [OF one_woken_run]]) (simp add: keeps_elements_def)


subsection \<open>Draining a closed queue\<close>

fun pop_n :: "nat \<Rightarrow> 'e bqueue \<Rightarrow> 'e bqueue \<times> 'e option list" where
  "pop_n 0 q = (q, [])"
| "pop_n (Suc n) q =
     (case pop_finish (pop_enter q) of
        (q', e, w) \<Rightarrow> (case pop_n n q' of (q'', es) \<Rightarrow> (q'', e # es)))"

text \<open>Closing a queue loses nothing: after \<open>delayed_disable\<close> no element is accepted, the pops that
  follow return exactly the elements that were queued, in order and without waiting, and every
  later pop fails.\<close>

theorem delayed_disable_drains:
  assumes "enable_pop q"
  defines "q1 \<equiv> fst (bq_delayed_disable q)"
  shows "fst (snd (push_finish b (push_enter q1))) = False \<and> \<not> push_waits (push_enter q1)
    \<and> snd (pop_n (length (queue q) + k) q1) = map Some (queue q) @ replicate k None"
proof -
  have closed: "snd (pop_n k q) = replicate k None" if "\<not> enable_pop q" for k and q :: "'a bqueue"
    using that
  proof (induction k arbitrary: q)
    case (Suc k)
    let ?q = "fst (pop_finish (pop_enter q))"
    have "\<not> enable_pop ?q" "fst (snd (pop_finish (pop_enter q))) = None"
      using Suc.prems by (simp_all add: op_defs Let_def)
    with Suc.IH [of ?q] show ?case by (auto split: prod.splits)
  qed simp
  have drain: "snd (pop_n (length (queue q) + k) q) = map Some (queue q) @ replicate k None"
    if "\<not> enable_push q" "enable_pop q \<longleftrightarrow> queue q \<noteq> []" for k and q :: "'a bqueue"
    using that
  proof (induction "queue q" arbitrary: q)
    case Nil
    then show ?case using closed [of q k] by simp
  next
    case (Cons e es)
    let ?q = "fst (pop_finish (pop_enter q))"
    have "queue ?q = es" "\<not> enable_push ?q" "enable_pop ?q \<longleftrightarrow> queue ?q \<noteq> []"
      "fst (snd (pop_finish (pop_enter q))) = Some e"
      using Cons.prems Cons.hyps(2) [symmetric] by (simp_all add: op_defs Let_def)
    with Cons.hyps(1) [of ?q] Cons.hyps(2) [symmetric] show ?case by (auto split: prod.splits)
  qed
  have "\<not> enable_push q1" "enable_pop q1 \<longleftrightarrow> queue q1 \<noteq> []" "queue q1 = queue q"
    using assms by (simp_all add: bq_delayed_disable_def Let_def)
  with drain [of q1 k] show ?thesis by (simp add: op_defs Let_def)
qed

theorem delayed_disable_drains_witness:
  "snd (pop_n (2 + 1) (fst (bq_delayed_disable ((bq_init 4)\<lparr>queue := [3, 5 :: nat]\<rparr>)))) =
     [Some 3, Some 5, None]"
  using delayed_disable_drains [of "(bq_init 4)\<lparr>queue := [3, 5 :: nat]\<rparr>" 0 1]
  by (simp add: bq_init_def invalid_size_def numeral_3_eq_3 del: pop_n.simps)

text \<open>\<open>try_push\<close> reports the opposite of what it did.\<close>

lemma try_push_reports_failure:
  "bq_try_push b q = (q', r, w) \<Longrightarrow> try_push_returns r \<longleftrightarrow> q' = q"
  by (auto simp: bq_try_push_def try_push_returns_def split: if_splits dest: arg_cong [where f = queue])

end
