(* ===== verification/Chain.thy ===== *)
theory Chain
  imports JPrelude BQueue
begin

text \<open>
  Processing chains, from \<open>src/src/chain.h\<close> and \<open>src/src/chain.cc\<close>: a producer, any number of
  intermediate steps and a consumer, each run by one or more threads, with a blocking queue between
  each step and the next. The record \<open>chainimpl\<close> has the members of the class and, below them, the
  part of the machine they refer to: the memory of the user data, the threads with their program
  counters, the rest of the member function that holds the lock of the chain, and the history of the
  run, which nothing in the code reads.

  A thread is its step and its program counter in \<open>chain::run_step\<close>. The thread function of a step
  is a parameter: in each of its local states it works, pops from its input queue, pushes to its output
  queue or returns (throwing an exception is caught and is the same as returning). The result of
  working depends on a number that stands for what the thread read from the outside.
  A push or a pop is one step that can be taken when its wait condition does not hold: that a thread waiting
  in the queue is woken then is shown in \<open>BQueue\<close>. The member functions \<open>run\<close> and \<open>stop\<close> hold the
  lock of the chain while threads are running, so they are lists of pending operations: the threads
  move between any two of them, and what needs the lock waits until the list is empty.
\<close>

datatype chain_exception = Assertion | Type_Mismatch | No_Userdata | User_Exception | Undefined_Access

subsection \<open>Steps and queues\<close>

text \<open>\<open>chain::internalstep\<close> with the members of its \<open>sync_type\<close> (\<open>sy_\<close>) and the counter of its
  \<open>runstepargs\<close>. A consumer has no function to set the queue depth (\<open>st_has_setqd\<close>). Pointers to user data are addresses.\<close>

record cstep =
  st_haveUD :: bool
  st_qdepth :: nat
  st_stepid :: nat
  st_nthread :: nat
  st_udptr :: "nat option"
  st_udtype :: string
  st_has_setqd :: bool
  st_threads :: "nat list"
  st_rsa_nthread :: nat
  sy_cancelled :: bool
  sy_userdata :: "nat option"
  sy_qdepth :: nat
  sy_stepid :: nat

record 'e iqueue =
  iq_queue :: "'e bqueue"
  iq_elementtype :: string

text \<open>A function registered for a step: the type of its argument and what it does to the user data;
  \<open>None\<close> is throwing.\<close>

record 'u stepfn =
  sf_step :: nat
  sf_argtype :: string
  sf_call :: "'u \<Rightarrow> 'u option"

subsection \<open>Threads and pending operations\<close>

datatype ('l, 'e) action = Work "nat \<Rightarrow> 'l" | Pop "'e option \<Rightarrow> 'l" | Push 'e "bool \<Rightarrow> 'l" | Return

datatype 'l pc = Body 'l | Leave_Step | Signal_Out | Signal_In | Leave_Chain | Do_Finals | Gone

datatype 'u op =
    Enable_Queue nat | Start_Step nat | Create_Threads nat nat | All_Started | Start_Failed
  | Cancel "'u stepfn" | Set_Cancel nat | Disable_Queue nat | Delay_Queue nat | Set_Cancelled

record ('l, 'e, 'u) chainimpl =
  ch_closed :: bool
  ch_running :: bool
  ch_joining :: bool
  ch_cancelled :: bool
  ch_finalized :: bool
  ch_steps :: "cstep list"
  ch_queues :: "'e iqueue list"
  ch_finals :: "nat list"
  ch_nthreads :: nat
  ch_cleanups :: "'u stepfn list"
  ch_cancellations :: "'u stepfn list"
  heap :: "nat \<Rightarrow> 'u option"
  next_address :: nat
  thr :: "(nat \<times> 'l pc) list"
  todo :: "'u op list"
  waiters :: nat
  made :: nat
  short_steps :: "nat list"
  finals_done :: "nat list"
  joined :: "nat list"

definition chain_new :: "('l, 'e, 'u) chainimpl" where
  "chain_new = \<lparr>ch_closed = False, ch_running = False, ch_joining = False, ch_cancelled = False,
     ch_finalized = False, ch_steps = [], ch_queues = [], ch_finals = [], ch_nthreads = 0, ch_cleanups = [],
     ch_cancellations = [], heap = (\<lambda>_. None), next_address = 0, thr = [], todo = [], waiters = 0,
     made = 0, short_steps = [], finals_done = [], joined = []\<rparr>"

subsection \<open>Building a chain\<close>

definition internalstep :: "string \<Rightarrow> nat \<Rightarrow> nat \<Rightarrow> bool \<Rightarrow> cstep" where
  "internalstep udtp sid depth setqd = \<lparr>st_haveUD = False, st_qdepth = depth, st_stepid = sid, st_nthread = 1,
     st_udptr = None, st_udtype = udtp, st_has_setqd = setqd, st_threads = [], st_rsa_nthread = 0,
     sy_cancelled = False, sy_userdata = None, sy_qdepth = 0, sy_stepid = 0\<rparr>"

definition internalq :: "string \<Rightarrow> nat \<Rightarrow> 'e iqueue" where
  "internalq tp qlen = \<lparr>iq_queue = bq_init qlen, iq_elementtype = tp\<rparr>"

text \<open>The three kinds of \<open>chain::add\<close>. Each is given the types of its queues and of its user data and the type the function
  that makes the user data returns; \<open>None\<close> is a failed assertion.\<close>

definition add_producer :: "string \<Rightarrow> string \<Rightarrow> string \<Rightarrow> nat \<Rightarrow> ('l, 'e, 'u) chainimpl \<Rightarrow> ('l, 'e, 'u) chainimpl option" where
  "add_producer out ud mk qlen c =
     (if ch_steps c \<noteq> [] \<or> mk \<noteq> ud then None
      else Some (c\<lparr>ch_queues := ch_queues c @ [internalq out qlen],
                   ch_steps := ch_steps c @ [internalstep ud 0 qlen True]\<rparr>))"

definition chain_add_step :: "string \<Rightarrow> string \<Rightarrow> string \<Rightarrow> string \<Rightarrow> nat \<Rightarrow> ('l, 'e, 'u) chainimpl \<Rightarrow> ('l, 'e, 'u) chainimpl option" where
  "chain_add_step inp out ud mk qlen c =
     (if ch_steps c = [] \<or> ch_closed c \<or> mk \<noteq> ud \<or> iq_elementtype (last (ch_queues c)) \<noteq> inp then None
      else Some (c\<lparr>ch_queues := ch_queues c @ [internalq out qlen],
                   ch_steps := map (\<lambda>s. s\<lparr>st_qdepth := u32_add (st_qdepth s) (u32_add qlen 1)\<rparr>) (ch_steps c)
                     @ [internalstep ud (length (ch_steps c)) qlen True]\<rparr>))"

definition add_consumer :: "string \<Rightarrow> string \<Rightarrow> string \<Rightarrow> ('l, 'e, 'u) chainimpl \<Rightarrow> ('l, 'e, 'u) chainimpl option" where
  "add_consumer inp ud mk c =
     (if ch_steps c = [] \<or> ch_closed c \<or> mk \<noteq> ud \<or> iq_elementtype (last (ch_queues c)) \<noteq> inp then None
      else Some (c\<lparr>ch_steps := ch_steps c @ [internalstep ud (length (ch_steps c)) 0 False],
                   ch_closed := True\<rparr>))"

definition chain_nthread :: "nat \<Rightarrow> nat \<Rightarrow> ('l, 'e, 'u) chainimpl \<Rightarrow> ('l, 'e, 'u) chainimpl option" where
  "chain_nthread s n c =
     (if ch_running c \<or> \<not> s < length (ch_steps c) \<or> n = 0 then None
      else Some (c\<lparr>ch_steps := (ch_steps c)[s := (ch_steps c ! s)\<lparr>st_nthread := n\<rparr>]\<rparr>))"

definition register_cancel :: "'u stepfn \<Rightarrow> ('l, 'e, 'u) chainimpl \<Rightarrow> ('l, 'e, 'u) chainimpl option" where
  "register_cancel f c =
     (if ch_running c \<or> \<not> sf_step f < length (ch_steps c) then None
      else Some (c\<lparr>ch_cancellations := ch_cancellations c @ [f]\<rparr>))"

definition register_cleanup :: "'u stepfn \<Rightarrow> ('l, 'e, 'u) chainimpl \<Rightarrow> ('l, 'e, 'u) chainimpl option" where
  "register_cleanup f c =
     (if ch_running c \<or> \<not> sf_step f < length (ch_steps c) then None
      else Some (c\<lparr>ch_cleanups := ch_cleanups c @ [f]\<rparr>))"

definition register_final :: "nat \<Rightarrow> ('l, 'e, 'u) chainimpl \<Rightarrow> ('l, 'e, 'u) chainimpl" where
  "register_final f c = c\<lparr>ch_finals := ch_finals c @ [f]\<rparr>"

definition chain_empty :: "('l, 'e, 'u) chainimpl \<Rightarrow> bool" where
  "chain_empty c = (ch_steps c = [])"

subsection \<open>Acting on a step or a queue\<close>

definition on_step :: "nat \<Rightarrow> (cstep \<Rightarrow> cstep) \<Rightarrow> ('l, 'e, 'u) chainimpl \<Rightarrow> ('l, 'e, 'u) chainimpl" where
  "on_step s f c = c\<lparr>ch_steps := (ch_steps c)[s := f (ch_steps c ! s)]\<rparr>"

definition on_queue :: "nat \<Rightarrow> ('e bqueue \<Rightarrow> 'e bqueue) \<Rightarrow> ('l, 'e, 'u) chainimpl \<Rightarrow> ('l, 'e, 'u) chainimpl" where
  "on_queue i f c = c\<lparr>ch_queues := (ch_queues c)[i := (ch_queues c ! i)\<lparr>iq_queue := f (iq_queue (ch_queues c ! i))\<rparr>]\<rparr>"

definition wrap_ud :: "'u stepfn \<Rightarrow> cstep \<Rightarrow> (nat \<Rightarrow> 'u option) \<Rightarrow> chain_exception + (nat \<Rightarrow> 'u option)" where
  "wrap_ud f s h =
     (if st_udtype s \<noteq> sf_argtype f then Inl Type_Mismatch
      else if \<not> st_haveUD s then Inr h
      else case st_udptr s of None \<Rightarrow> Inl No_Userdata
           | Some a \<Rightarrow> (case h a of None \<Rightarrow> Inl Undefined_Access
                        | Some u \<Rightarrow> (case sf_call f u of None \<Rightarrow> Inl User_Exception
                                     | Some u' \<Rightarrow> Inr (h(a \<mapsto> u')))))"

definition communicate :: "'u stepfn \<Rightarrow> ('l, 'e, 'u) chainimpl \<Rightarrow> chain_exception + ('l, 'e, 'u) chainimpl" where
  "communicate f c =
     (if \<not> sf_step f < length (ch_steps c) then Inl Assertion
      else case wrap_ud f (ch_steps c ! sf_step f) (heap c) of
             Inl e \<Rightarrow> Inl e | Inr h \<Rightarrow> Inr (c\<lparr>heap := h\<rparr>))"

subsection \<open>Running\<close>

definition chain_run :: "('l, 'e, 'u) chainimpl \<Rightarrow> chain_exception + ('l, 'e, 'u) chainimpl" where
  "chain_run c =
     (if \<not> ch_closed c \<or> ch_running c then Inl Assertion
      else Inr (c\<lparr>ch_nthreads := 0, ch_steps := map (\<lambda>s. s\<lparr>st_haveUD := False\<rparr>) (ch_steps c),
                  todo := map Enable_Queue (rev [0..<length (ch_queues c)])
                    @ map Start_Step (rev [0..<length (ch_steps c)]) @ [All_Started],
                  made := 0, short_steps := [], finals_done := []\<rparr>))"

text \<open>The start of one step: its user data, made as \<open>u\<close> or by an exception (\<open>None\<close>), then its threads.\<close>

definition start_step :: "nat \<Rightarrow> 'u option \<Rightarrow> ('l, 'e, 'u) chainimpl \<Rightarrow> ('l, 'e, 'u) chainimpl" where
  "start_step s u c =
     (case u of None \<Rightarrow> c\<lparr>todo := [Start_Failed]\<rparr>
      | Some u \<Rightarrow>
          (let a = next_address c; is = ch_steps c ! s
           in on_step s (\<lambda>is. is\<lparr>st_udptr := Some a, st_haveUD := True, sy_userdata := Some a,
                 sy_qdepth := (if st_has_setqd is then st_qdepth is else sy_qdepth is),
                 sy_stepid := st_stepid is, sy_cancelled := False, st_rsa_nthread := st_nthread is\<rparr>)
               (c\<lparr>heap := (heap c)(a \<mapsto> u), next_address := a + 1,
                  todo := Create_Threads s (st_nthread is) # todo c\<rparr>)))"

text \<open>When \<open>pthread_create\<close> fails the inner loop is left with \<open>n \<noteq> 0\<close>; the increment of the outer loop is still
  done before its condition ends it, and the test that follows is whether the first step was passed.\<close>

fun create_threads :: "'l \<Rightarrow> bool \<Rightarrow> nat \<Rightarrow> nat \<Rightarrow> ('l, 'e, 'u) chainimpl \<Rightarrow> ('l, 'e, 'u) chainimpl" where
  "create_threads l ok s 0 c = c"
| "create_threads l ok s (Suc n) c =
     (if ok then on_step s (\<lambda>is. is\<lparr>st_threads := st_threads is @ [length (thr c)]\<rparr>)
                   (c\<lparr>thr := thr c @ [(s, Body l)], ch_nthreads := ch_nthreads c + 1, made := made c + 1,
                      todo := Create_Threads s n # todo c\<rparr>)
      else c\<lparr>short_steps := s # short_steps c, todo := [if s = 0 then All_Started else Start_Failed]\<rparr>)"

subsection \<open>Stopping\<close>

definition stop_ops :: "bool \<Rightarrow> ('l, 'e, 'u) chainimpl \<Rightarrow> 'u op list" where
  "stop_ops gently c = map Cancel (ch_cancellations c) @ map Set_Cancel [0..<length (ch_steps c)]
     @ (if gently then [Delay_Queue 0] else map Disable_Queue [0..<length (ch_queues c)]) @ [Set_Cancelled]"

definition chain_stop :: "bool \<Rightarrow> ('l, 'e, 'u) chainimpl \<Rightarrow> ('l, 'e, 'u) chainimpl" where
  "chain_stop gently c =
     (if \<not> ch_running c \<or> \<not> ch_closed c \<or> ch_cancelled c then c else c\<lparr>todo := stop_ops gently c\<rparr>)"

definition chain_delayed_disable :: "('l, 'e, 'u) chainimpl \<Rightarrow> ('l, 'e, 'u) chainimpl" where
  "chain_delayed_disable c =
     (if \<not> ch_running c \<or> \<not> ch_closed c \<or> ch_cancelled c then c
      else on_queue 0 (\<lambda>q. fst (bq_delayed_disable q)) c)"

text \<open>\<open>join_and_cleanup\<close>: the caller waits for another one that is joining already, or joins. It gives up the
  lock until every thread in the lists of the steps has ended.\<close>

definition join_enter :: "('l, 'e, 'u) chainimpl \<Rightarrow> ('l, 'e, 'u) chainimpl" where
  "join_enter c = (if \<not> ch_running c then c else if ch_joining c then c\<lparr>waiters := waiters c + 1\<rparr>
                   else c\<lparr>ch_joining := True\<rparr>)"

definition can_join :: "('l, 'e, 'u) chainimpl \<Rightarrow> bool" where
  "can_join c \<longleftrightarrow> ch_joining c \<and> todo c = [] \<and> (\<forall>s \<in> set (ch_steps c). \<forall>t \<in> set (st_threads s). snd (thr c ! t) = Gone)"

primrec do_cleanups :: "'u stepfn list \<Rightarrow> ('l, 'e, 'u) chainimpl \<Rightarrow> ('l, 'e, 'u) chainimpl \<times> bool" where
  "do_cleanups [] c = (c, True)"
| "do_cleanups (f # fs) c = (case communicate f c of Inl _ \<Rightarrow> (c, False) | Inr c' \<Rightarrow> do_cleanups fs c')"

definition delete_ud :: "cstep \<Rightarrow> (nat \<Rightarrow> 'u option) \<Rightarrow> (nat \<Rightarrow> 'u option)" where
  "delete_ud s h = (case st_udptr s of None \<Rightarrow> h | Some a \<Rightarrow> h(a := None))"

definition join_finish :: "('l, 'e, 'u) chainimpl \<Rightarrow> ('l, 'e, 'u) chainimpl" where
  "join_finish c =
     (let c = c\<lparr>joined := joined c @ concat (map st_threads (ch_steps c)), ch_running := False, ch_joining := False\<rparr>
      in case do_cleanups (ch_cleanups c) c of
           (c, True) \<Rightarrow> c\<lparr>heap := fold delete_ud (rev (ch_steps c)) (heap c),
                         ch_steps := map (\<lambda>s. s\<lparr>st_udptr := None\<rparr>) (ch_steps c), waiters := 0\<rparr>
         | (c, False) \<Rightarrow> c)"

text \<open>One pending operation; \<open>u\<close> is what the function making user data returns, \<open>ok\<close> whether a
  thread could be created.\<close>

fun exec_op :: "(nat \<Rightarrow> 'l) \<Rightarrow> 'u option \<Rightarrow> bool \<Rightarrow> 'u op \<Rightarrow> ('l, 'e, 'u) chainimpl \<Rightarrow> ('l, 'e, 'u) chainimpl" where
  "exec_op init u ok (Enable_Queue i) c = on_queue i (\<lambda>q. fst (bq_enable q)) c"
| "exec_op init u ok (Start_Step s) c = start_step s u c"
| "exec_op init u ok (Create_Threads s n) c = create_threads (init s) ok s n c"
| "exec_op init u ok All_Started c = c\<lparr>ch_running := True, ch_cancelled := False, ch_finalized := False\<rparr>"
| "exec_op init u ok Start_Failed c =
     chain_stop False (c\<lparr>ch_running := True, ch_cancelled := False, ch_finalized := False\<rparr>)"
| "exec_op init u ok (Cancel f) c = (case communicate f c of Inl _ \<Rightarrow> c\<lparr>todo := []\<rparr> | Inr c' \<Rightarrow> c')"
| "exec_op init u ok (Set_Cancel s) c = on_step s (\<lambda>is. is\<lparr>sy_cancelled := True\<rparr>) c"
| "exec_op init u ok (Disable_Queue i) c = on_queue i (\<lambda>q. fst (bq_disable q)) c"
| "exec_op init u ok (Delay_Queue i) c = on_queue i (\<lambda>q. fst (bq_delayed_disable q)) c"
| "exec_op init u ok Set_Cancelled c = join_enter (c\<lparr>ch_cancelled := True\<rparr>)"

subsection \<open>The threads\<close>

definition set_pc :: "nat \<Rightarrow> 'l pc \<Rightarrow> ('l, 'e, 'u) chainimpl \<Rightarrow> ('l, 'e, 'u) chainimpl" where
  "set_pc t p c = c\<lparr>thr := (thr c)[t := (fst (thr c ! t), p)]\<rparr>"

text \<open>The last thread of a step counts down to 0 and signals, the last one of the chain runs the final
  functions.\<close>

definition leave_step :: "nat \<Rightarrow> ('l, 'e, 'u) chainimpl \<Rightarrow> ('l, 'e, 'u) chainimpl" where
  "leave_step t c =
     (let s = fst (thr c ! t); n = st_rsa_nthread (ch_steps c ! s) - 1
      in set_pc t (if n = 0 then Signal_Out else Leave_Chain) (on_step s (\<lambda>is. is\<lparr>st_rsa_nthread := n\<rparr>) c))"

definition leave_chain :: "nat \<Rightarrow> ('l, 'e, 'u) chainimpl \<Rightarrow> ('l, 'e, 'u) chainimpl" where
  "leave_chain t c =
     (let n = ch_nthreads c - 1
      in set_pc t (if n = 0 then Do_Finals else Gone) (c\<lparr>ch_nthreads := n\<rparr>))"

definition do_finals :: "('l, 'e, 'u) chainimpl \<Rightarrow> ('l, 'e, 'u) chainimpl" where
  "do_finals c =
     (if \<not> ch_running c \<or> ch_finalized c then c
      else c\<lparr>finals_done := finals_done c @ ch_finals c, ch_finalized := True\<rparr>)"

text \<open>The next step of thread \<open>t\<close>; \<open>None\<close> when it has to wait, or has ended. The first step has no input
  queue and the last one no output queue: their functions are \<open>chain::nop\<close>.\<close>

definition body_next :: "(nat \<Rightarrow> 'l \<Rightarrow> ('l, 'e) action) \<Rightarrow> nat \<Rightarrow> nat \<Rightarrow> nat \<Rightarrow> 'l \<Rightarrow> ('l, 'e, 'u) chainimpl \<Rightarrow>
    ('l, 'e, 'u) chainimpl option" where
  "body_next prog x t s l c =
     (case prog s l of
        Work f \<Rightarrow> Some (set_pc t (Body (f x)) c)
      | Pop f \<Rightarrow>
          (if s = 0 \<or> \<not> s - 1 < length (ch_queues c) then None
           else let q = pop_enter (iq_queue (ch_queues c ! (s - 1)))
                in if pop_waits q then None
                   else case pop_finish q of (q', e, w) \<Rightarrow>
                     Some (set_pc t (Body (f e)) (on_queue (s - 1) (\<lambda>_. q') c)))
      | Push b f \<Rightarrow>
          (if \<not> s < length (ch_queues c) then None
           else let q = push_enter (iq_queue (ch_queues c ! s))
                in if push_waits q then None
                   else case push_finish b q of (q', ok, w) \<Rightarrow>
                     Some (set_pc t (Body (f ok)) (on_queue s (\<lambda>_. q') c)))
      | Return \<Rightarrow> Some (set_pc t Leave_Step c))"

definition run_step :: "(nat \<Rightarrow> 'l \<Rightarrow> ('l, 'e) action) \<Rightarrow> nat \<Rightarrow> nat \<Rightarrow> ('l, 'e, 'u) chainimpl \<Rightarrow>
    ('l, 'e, 'u) chainimpl option" where
  "run_step prog x t c =
     (let s = fst (thr c ! t)
      in case snd (thr c ! t) of
           Body l \<Rightarrow> body_next prog x t s l c
         | Leave_Step \<Rightarrow> Some (leave_step t c)
         | Signal_Out \<Rightarrow> Some (set_pc t Signal_In
             (if s < length (ch_queues c) then on_queue s (\<lambda>q. fst (bq_delayed_disable q)) c else c))
         | Signal_In \<Rightarrow> Some (set_pc t Leave_Chain
             (if s > 0 then on_queue (s - 1) (\<lambda>q. fst (bq_disable q)) c else c))
         | Leave_Chain \<Rightarrow> if todo c \<noteq> [] then None else Some (leave_chain t c)
         | Do_Finals \<Rightarrow> Some (set_pc t Gone (do_finals c))
         | Gone \<Rightarrow> None)"

subsection \<open>Everything that can happen\<close>

inductive chain_step :: "(nat \<Rightarrow> 'l \<Rightarrow> ('l, 'e) action) \<Rightarrow> (nat \<Rightarrow> 'l) \<Rightarrow>
    ('l, 'e, 'u) chainimpl \<Rightarrow> ('l, 'e, 'u) chainimpl \<Rightarrow> bool" for prog init where
  op: "todo c = p # ps \<Longrightarrow> chain_step prog init c (exec_op init u ok p (c\<lparr>todo := ps\<rparr>))"
| run: "todo c = [] \<Longrightarrow> chain_run c = Inr c' \<Longrightarrow> chain_step prog init c c'"
| stop: "todo c = [] \<Longrightarrow> chain_step prog init c (chain_stop gently c)"
| delayed_disable: "todo c = [] \<Longrightarrow> chain_step prog init c (chain_delayed_disable c)"
| wait: "todo c = [] \<Longrightarrow> chain_step prog init c (join_enter c)"
| join: "can_join c \<Longrightarrow> chain_step prog init c (join_finish c)"
| thread: "t < length (thr c) \<Longrightarrow> run_step prog x t c = Some c' \<Longrightarrow> chain_step prog init c c'"

inductive chain_reach :: "(nat \<Rightarrow> 'l \<Rightarrow> ('l, 'e) action) \<Rightarrow> (nat \<Rightarrow> 'l) \<Rightarrow>
    ('l, 'e, 'u) chainimpl \<Rightarrow> ('l, 'e, 'u) chainimpl \<Rightarrow> bool" for prog init c0 where
  here: "chain_reach prog init c0 c0"
| more: "chain_reach prog init c0 c \<Longrightarrow> chain_step prog init c c' \<Longrightarrow> chain_reach prog init c0 c'"

end
