(* ===== verification/ChainRun.thy ===== *)
theory ChainRun
  imports Chain
begin

text \<open>
  What holds while a processing chain of \<open>Chain\<close> runs: the invariants of its steps, one group for the
  shape of the chain and of the pending operations, one for the threads, one for the counters and
  the signals of leaving threads, one for the final functions and one for the user data; and from them that
  a chain never gets stuck and what each run does exactly once.
\<close>

subsection \<open>Counting threads\<close>

definition past_chain :: "'l pc \<Rightarrow> bool" where
  "past_chain p \<longleftrightarrow> p = Do_Finals \<or> p = Gone"

definition in_body :: "'l pc \<Rightarrow> bool" where
  "in_body p \<longleftrightarrow> (case p of Body _ \<Rightarrow> True | Leave_Step \<Rightarrow> True | _ \<Rightarrow> False)"

definition count :: "('a \<Rightarrow> bool) \<Rightarrow> 'a list \<Rightarrow> nat" where
  "count P xs = length (filter P xs)"

lemma count_simps [simp]: "count P [] = 0" "count P (x # xs) = of_bool (P x) + count P xs"
  "count P (xs @ ys) = count P xs + count P ys"
  by (auto simp: count_def)

lemma count_update:
  "t < length xs \<Longrightarrow> count P (xs[t := x]) + of_bool (P (xs ! t)) = count P xs + of_bool (P x)"
proof (induction xs arbitrary: t)
  case (Cons y ys)
  then show ?case by (cases t) auto
qed simp

lemma count_pos: "t < length xs \<Longrightarrow> P (xs ! t) \<Longrightarrow> count P xs > 0"
  by (auto simp: count_def filter_empty_conv)

lemma count_zero: "count P xs = 0 \<longleftrightarrow> (\<forall>t < length xs. \<not> P (xs ! t))"
  by (auto simp: count_def filter_empty_conv all_set_conv_all_nth)

definition alive :: "(nat \<times> 'l pc) list \<Rightarrow> nat" where
  "alive ts = count (\<lambda>x. \<not> past_chain (snd x)) ts"

definition in_step :: "nat \<Rightarrow> (nat \<times> 'l pc) list \<Rightarrow> nat" where
  "in_step s ts = count (\<lambda>x. fst x = s \<and> in_body (snd x)) ts"

definition in_finals :: "(nat \<times> 'l pc) list \<Rightarrow> nat" where
  "in_finals ts = count (\<lambda>x. snd x = Do_Finals) ts"

lemmas counts = alive_def in_step_def in_finals_def

subsection \<open>The shape of the chain and of its pending operations\<close>

primrec starting_op :: "'u op \<Rightarrow> bool" where
  "starting_op (Enable_Queue i) = True"
| "starting_op (Start_Step s) = True"
| "starting_op (Create_Threads s n) = True"
| "starting_op All_Started = True"
| "starting_op Start_Failed = True"
| "starting_op (Cancel f) = False"
| "starting_op (Set_Cancel s) = False"
| "starting_op (Disable_Queue i) = False"
| "starting_op (Delay_Queue i) = False"
| "starting_op Set_Cancelled = False"

fun start_list :: "'u op list \<Rightarrow> bool" where
  "start_list [] = False"
| "start_list (All_Started # ps) = (ps = [])"
| "start_list (Start_Failed # ps) = (ps = [])"
| "start_list (Enable_Queue i # ps) = start_list ps"
| "start_list (p # ps) = (starting_op p \<and> start_list ps \<and> (\<forall>i. Enable_Queue i \<notin> set ps))"

fun starts :: "'u op list \<Rightarrow> nat list" where
  "starts [] = []"
| "starts (Start_Step s # ps) = s # starts ps"
| "starts (p # ps) = starts ps"

fun pending_threads :: "nat \<Rightarrow> 'u op list \<Rightarrow> nat" where
  "pending_threads s (Create_Threads s' n # ps) = (if s = s' then n else 0)"
| "pending_threads s ps = 0"

definition queue_ok :: "'e bqueue \<Rightarrow> bool" where
  "queue_ok q \<longleftrightarrow> capacity q > 0 \<and> (\<not> enable_push q \<and> queue q = [] \<longrightarrow> \<not> enable_pop q)"

definition shape :: "('l, 'e, 'u) chainimpl \<Rightarrow> bool" where
  "shape c \<longleftrightarrow> ch_closed c \<and> length (ch_steps c) = Suc (length (ch_queues c))
     \<and> (\<forall>t < length (thr c). fst (thr c ! t) < length (ch_steps c))
     \<and> (\<forall>s < length (ch_steps c). st_nthread (ch_steps c ! s) > 0)
     \<and> (\<forall>i < length (ch_queues c). queue_ok (iq_queue (ch_queues c ! i))) \<and> (ch_joining c \<longrightarrow> ch_running c)"

definition todo_ok :: "('l, 'e, 'u) chainimpl \<Rightarrow> bool" where
  "todo_ok c \<longleftrightarrow>
     (start_list (todo c) \<and> \<not> ch_running c
      \<or> (\<forall>p \<in> set (todo c). \<not> starting_op p) \<and> (todo c \<noteq> [] \<longrightarrow> ch_running c))
     \<and> (\<forall>i. Enable_Queue i \<in> set (todo c) \<longrightarrow> (\<forall>s < length (ch_steps c). \<not> st_haveUD (ch_steps c ! s)))
     \<and> (\<forall>s. Start_Step s \<in> set (todo c) \<longrightarrow> s < length (ch_steps c) \<and> \<not> st_haveUD (ch_steps c ! s))
     \<and> distinct (starts (todo c))
     \<and> (\<forall>s n. Create_Threads s n \<in> set (todo c) \<longrightarrow> s < length (ch_steps c) \<and> st_haveUD (ch_steps c ! s))
     \<and> (\<forall>s n. Create_Threads s n \<notin> set (tl (todo c)))"

lemma starts_append [simp]: "starts (xs @ ys) = starts xs @ starts ys"
  by (induction xs rule: starts.induct) auto

lemma starts_map [simp]: "starts (map Start_Step xs) = xs" "starts (map Enable_Queue xs) = []"
  "starts (map Set_Cancel xs) = []" "starts (map Disable_Queue xs) = []"
  by (induction xs) simp_all

lemma starts_cancel [simp]: "starts (map Cancel fs) = []"
  by (induction fs) simp_all

lemma starts_set [simp]: "s \<in> set (starts ps) \<longleftrightarrow> Start_Step s \<in> set ps"
  by (induction ps rule: starts.induct) auto

lemma start_list_append [simp]: "start_list (map Enable_Queue xs @ ps) = start_list ps"
  by (induction xs) simp_all

lemma start_list_steps [simp]: "start_list (map Start_Step xs @ [All_Started])"
  by (induction xs) auto

lemma start_list_ops: "start_list ps \<Longrightarrow> p \<in> set ps \<Longrightarrow> starting_op p"
  by (induction ps rule: start_list.induct) auto

lemma set_tl: "x \<in> set (tl xs) \<Longrightarrow> x \<in> set xs"
  by (cases xs) auto

lemma stop_ops_facts:
  "p \<in> set (stop_ops g c) \<Longrightarrow> \<not> starting_op p" "starts (stop_ops g c) = []" "stop_ops g c \<noteq> []"
  by (auto simp: stop_ops_def split: if_splits)

subsection \<open>Queues stay in order\<close>

lemma queue_ok_ops [simp]:
  "capacity q > 0 \<Longrightarrow> queue_ok (fst (bq_enable q))" "queue_ok q \<Longrightarrow> queue_ok (fst (bq_disable q))"
  "queue_ok q \<Longrightarrow> queue_ok (fst (bq_delayed_disable q))"
  by (auto simp: queue_ok_def bq_enable_def control_defs Let_def)

lemma queue_ok_push: "queue_ok q \<Longrightarrow> push_finish b (push_enter q) = (q', ok, w) \<Longrightarrow> queue_ok q'"
  by (auto simp: queue_ok_def push_finish_def push_enter_def Let_def)

lemma queue_ok_pop: "queue_ok q \<Longrightarrow> pop_finish (pop_enter q) = (q', e, w) \<Longrightarrow> queue_ok q'"
  by (cases "enable_pop q"; cases "\<not> enable_push q \<and> tl (queue q) = []")
    (auto simp: queue_ok_def pop_finish_def pop_enter_def pop_close_def Let_def split: if_splits)

subsection \<open>What an operation leaves alone\<close>

lemma on_queue_fields [simp]:
  "ch_closed (on_queue i f c) = ch_closed c" "ch_running (on_queue i f c) = ch_running c"
  "ch_joining (on_queue i f c) = ch_joining c" "ch_cancelled (on_queue i f c) = ch_cancelled c"
  "ch_finalized (on_queue i f c) = ch_finalized c" "ch_steps (on_queue i f c) = ch_steps c"
  "length (ch_queues (on_queue i f c)) = length (ch_queues c)"
  "ch_nthreads (on_queue i f c) = ch_nthreads c" "heap (on_queue i f c) = heap c"
  "next_address (on_queue i f c) = next_address c" "thr (on_queue i f c) = thr c"
  "todo (on_queue i f c) = todo c" "made (on_queue i f c) = made c"
  "short_steps (on_queue i f c) = short_steps c" "finals_done (on_queue i f c) = finals_done c"
  "ch_finals (on_queue i f c) = ch_finals c"
  by (simp_all add: on_queue_def)

lemma on_queue_nth [simp]:
  "j < length (ch_queues c) \<Longrightarrow> iq_queue (ch_queues (on_queue i f c) ! j) =
     (if i = j then f (iq_queue (ch_queues c ! j)) else iq_queue (ch_queues c ! j))"
  by (simp add: on_queue_def nth_list_update)

lemma on_step_nth [simp]:
  "j < length (ch_steps c) \<Longrightarrow> ch_steps (on_step s g c) ! j = (if s = j then g (ch_steps c ! j) else ch_steps c ! j)"
  by (simp add: on_step_def nth_list_update)

lemma on_step_fields [simp]:
  "ch_closed (on_step s g c) = ch_closed c" "ch_running (on_step s g c) = ch_running c"
  "ch_joining (on_step s g c) = ch_joining c" "ch_cancelled (on_step s g c) = ch_cancelled c"
  "ch_finalized (on_step s g c) = ch_finalized c" "length (ch_steps (on_step s g c)) = length (ch_steps c)"
  "ch_queues (on_step s g c) = ch_queues c"
  "ch_nthreads (on_step s g c) = ch_nthreads c" "heap (on_step s g c) = heap c"
  "next_address (on_step s g c) = next_address c" "thr (on_step s g c) = thr c"
  "todo (on_step s g c) = todo c" "made (on_step s g c) = made c"
  "short_steps (on_step s g c) = short_steps c" "finals_done (on_step s g c) = finals_done c"
  "ch_finals (on_step s g c) = ch_finals c"
  by (simp_all add: on_step_def)

lemma set_pc_fields [simp]:
  "ch_closed (set_pc t p c) = ch_closed c" "ch_running (set_pc t p c) = ch_running c"
  "ch_joining (set_pc t p c) = ch_joining c" "ch_cancelled (set_pc t p c) = ch_cancelled c"
  "ch_finalized (set_pc t p c) = ch_finalized c" "ch_steps (set_pc t p c) = ch_steps c"
  "ch_queues (set_pc t p c) = ch_queues c"
  "ch_nthreads (set_pc t p c) = ch_nthreads c" "heap (set_pc t p c) = heap c"
  "next_address (set_pc t p c) = next_address c" "thr (set_pc t p c) = (thr c)[t := (fst (thr c ! t), p)]"
  "todo (set_pc t p c) = todo c" "made (set_pc t p c) = made c"
  "short_steps (set_pc t p c) = short_steps c" "finals_done (set_pc t p c) = finals_done c"
  "ch_finals (set_pc t p c) = ch_finals c"
  by (simp_all add: set_pc_def)

lemma communicate_heap:
  assumes "communicate f c = Inr c'"
  obtains h where "c' = c\<lparr>heap := h\<rparr>" "dom h = dom (heap c)"
proof -
  obtain h where h: "wrap_ud f (ch_steps c ! sf_step f) (heap c) = Inr h" "c' = c\<lparr>heap := h\<rparr>"
    using assms by (auto simp: communicate_def split: if_splits sum.splits)
  then have "dom h = dom (heap c)"
    by (auto simp: wrap_ud_def split: if_splits option.splits)
  with h that show ?thesis by blast
qed

text \<open>Every step of a thread sets its program counter, after at most one change of a queue, of the
  counter of its step or of the chain.\<close>

lemma run_step_cases:
  assumes "run_step prog x t c = Some c'"
  obtains
    (work) l f where "snd (thr c ! t) = Body l" "c' = set_pc t (Body (f x)) c"
  | (pop) l f i q e w where "snd (thr c ! t) = Body l" "i < length (ch_queues c)"
      "pop_finish (pop_enter (iq_queue (ch_queues c ! i))) = (q, e, w)"
      "c' = set_pc t (Body (f e)) (on_queue i (\<lambda>_. q) c)"
  | (push) l f i b q ok w where "snd (thr c ! t) = Body l" "i < length (ch_queues c)"
      "push_finish b (push_enter (iq_queue (ch_queues c ! i))) = (q, ok, w)"
      "c' = set_pc t (Body (f ok)) (on_queue i (\<lambda>_. q) c)"
  | (return) l where "snd (thr c ! t) = Body l" "c' = set_pc t Leave_Step c"
  | (leave) "snd (thr c ! t) = Leave_Step" "c' = leave_step t c"
  | (out) "snd (thr c ! t) = Signal_Out" "c' = set_pc t Signal_In (if fst (thr c ! t) < length (ch_queues c)
        then on_queue (fst (thr c ! t)) (\<lambda>q. fst (bq_delayed_disable q)) c else c)"
  | (inp) "snd (thr c ! t) = Signal_In" "c' = set_pc t Leave_Chain (if fst (thr c ! t) > 0
        then on_queue (fst (thr c ! t) - 1) (\<lambda>q. fst (bq_disable q)) c else c)"
  | (chain) "snd (thr c ! t) = Leave_Chain" "todo c = []" "c' = leave_chain t c"
  | (finals) "snd (thr c ! t) = Do_Finals" "c' = set_pc t Gone (do_finals c)"
proof (cases "snd (thr c ! t)")
  case (Body l)
  then have *: "body_next prog x t (fst (thr c ! t)) l c = Some c'"
    using assms by (simp add: run_step_def)
  show ?thesis
  proof (cases "prog (fst (thr c ! t)) l")
    case (Work f)
    then show ?thesis using * by (intro work [OF Body, of f]) (simp add: body_next_def)
  next
    case (Pop f)
    obtain q e w where "pop_finish (pop_enter (iq_queue (ch_queues c ! (fst (thr c ! t) - 1)))) = (q, e, w)"
      using prod_cases3 by blast
    then show ?thesis using * Pop
      by (intro pop [OF Body, of "fst (thr c ! t) - 1"])
        (auto simp: body_next_def Let_def split: if_splits)
  next
    case (Push b f)
    obtain q e w where "push_finish b (push_enter (iq_queue (ch_queues c ! fst (thr c ! t)))) = (q, e, w)"
      using prod_cases3 by blast
    then show ?thesis using * Push
      by (intro push [OF Body, of "fst (thr c ! t)"])
        (auto simp: body_next_def Let_def split: if_splits)
  next
    case Return
    then show ?thesis using * by (intro return [OF Body]) (simp add: body_next_def)
  qed
next
  case Leave_Step
  then show ?thesis using assms by (intro leave) (auto simp: run_step_def)
next
  case Signal_Out
  then show ?thesis using assms by (intro out) (auto simp: run_step_def Let_def)
next
  case Signal_In
  then show ?thesis using assms by (intro inp) (auto simp: run_step_def Let_def)
next
  case Leave_Chain
  then show ?thesis using assms by (intro chain) (auto simp: run_step_def split: if_splits)
next
  case Do_Finals
  then show ?thesis using assms by (intro finals) (auto simp: run_step_def)
next
  case Gone
  then show ?thesis using assms by (simp add: run_step_def)
qed

subsection \<open>The shape is kept\<close>

lemma shape_on_queue [intro!]:
  "shape c \<Longrightarrow> (i < length (ch_queues c) \<Longrightarrow> queue_ok (iq_queue (ch_queues c ! i)) \<Longrightarrow>
     queue_ok (f (iq_queue (ch_queues c ! i)))) \<Longrightarrow> shape (on_queue i f c)"
  by (auto simp: shape_def)

lemma nth_update_same: "(\<And>x. g (f x) = g x) \<Longrightarrow> g (xs[s := f (xs ! s)] ! i) = g (xs ! i)"
  by (cases "s < length xs"; cases "i = s") (auto simp: not_less list_update_beyond)

lemma shape_on_step [simp]: "(\<And>is. st_nthread (f is) = st_nthread is) \<Longrightarrow> shape (on_step s f c) = shape c"
  by (simp add: shape_def on_step_def nth_update_same [of st_nthread])

lemma shape_set_pc [intro!]: "shape c \<Longrightarrow> t < length (thr c) \<Longrightarrow> shape (set_pc t p c)"
  by (auto simp: shape_def set_pc_def nth_list_update)

lemma shape_fields [simp]:
  "shape (c\<lparr>todo := ps\<rparr>) = shape c" "shape (c\<lparr>heap := h\<rparr>) = shape c" "shape (c\<lparr>ch_nthreads := n\<rparr>) = shape c"
  "shape (c\<lparr>next_address := n\<rparr>) = shape c" "shape (c\<lparr>short_steps := ss\<rparr>) = shape c"
  "shape (c\<lparr>made := n\<rparr>) = shape c" "shape (c\<lparr>ch_cancelled := b\<rparr>) = shape c" "shape (c\<lparr>finals_done := ff\<rparr>) = shape c"
  "shape (c\<lparr>waiters := n\<rparr>) = shape c" "shape (c\<lparr>ch_finalized := b\<rparr>) = shape c"
  by (simp_all add: shape_def)

lemma todo_ok_on_queue [simp]: "todo_ok (on_queue i f c) = todo_ok c"
  by (simp add: todo_ok_def)

lemma todo_ok_set_pc [simp]: "todo_ok (set_pc t p c) = todo_ok c"
  by (simp add: todo_ok_def)

lemma todo_ok_on_step [simp]: "(\<And>is. st_haveUD (f is) = st_haveUD is) \<Longrightarrow> todo_ok (on_step s f c) = todo_ok c"
  by (simp add: todo_ok_def on_step_def nth_update_same [of st_haveUD])

lemma todo_ok_fields [simp]:
  "todo_ok (c\<lparr>heap := h\<rparr>) = todo_ok c" "todo_ok (c\<lparr>ch_nthreads := n\<rparr>) = todo_ok c"
  "todo_ok (c\<lparr>next_address := n\<rparr>) = todo_ok c" "todo_ok (c\<lparr>short_steps := ss\<rparr>) = todo_ok c"
  "todo_ok (c\<lparr>made := n\<rparr>) = todo_ok c" "todo_ok (c\<lparr>ch_cancelled := b\<rparr>) = todo_ok c" "todo_ok (c\<lparr>finals_done := ff\<rparr>) = todo_ok c"
  "todo_ok (c\<lparr>waiters := n\<rparr>) = todo_ok c" "todo_ok (c\<lparr>ch_finalized := b\<rparr>) = todo_ok c"
  "todo_ok (c\<lparr>thr := ts\<rparr>) = todo_ok c" "todo_ok (c\<lparr>ch_joining := b\<rparr>) = todo_ok c"
  by (simp_all add: todo_ok_def)

lemma todo_ok_tl:
  "todo c = p # ps \<Longrightarrow> todo_ok c \<Longrightarrow> p \<noteq> All_Started \<Longrightarrow> p \<noteq> Start_Failed \<Longrightarrow> todo_ok (c\<lparr>todo := ps\<rparr>)"
  by (cases p; cases ps) (auto simp: todo_ok_def)

lemma todo_ok_stop [simp]: "ch_running c \<Longrightarrow> todo_ok (c\<lparr>todo := stop_ops g c'\<rparr>)"
  by (auto simp: todo_ok_def stop_ops_facts(2) dest: stop_ops_facts(1) dest!: list.set_sel(2) [OF stop_ops_facts(3)])

lemma thread_shape:
  assumes "run_step prog x t c = Some c'" "t < length (thr c)" "shape c" "todo_ok c"
  shows "shape c' \<and> todo_ok c'"
  using assms(1)
proof (cases rule: run_step_cases)
  case (pop l f i q e w)
  then show ?thesis using assms(2-4) by (auto dest: queue_ok_pop)
next
  case (push l f i b q ok w)
  then show ?thesis using assms(2-4) by (auto dest: queue_ok_push)
qed (use assms(2-4) in \<open>auto simp: leave_step_def leave_chain_def do_finals_def Let_def\<close>)

lemma todo_ok_indices:
  assumes "todo_ok c" "todo c = p # ps"
  shows "p = Start_Step s \<Longrightarrow> s < length (ch_steps c) \<and> \<not> st_haveUD (ch_steps c ! s)"
    "p = Create_Threads s n \<Longrightarrow> s < length (ch_steps c) \<and> st_haveUD (ch_steps c ! s)"
    "p = All_Started \<or> p = Start_Failed \<Longrightarrow> ps = [] \<and> \<not> ch_running c"
    "starting_op p \<Longrightarrow> start_list (p # ps) \<and> \<not> ch_running c"
    "\<not> starting_op p \<Longrightarrow> ch_running c \<and> (\<forall>p \<in> set ps. \<not> starting_op p)"
  using assms start_list_ops [of "p # ps" p] by (auto simp: todo_ok_def)

lemma start_step_shape:
  assumes "shape c" "todo_ok c" "todo c = Start_Step s # ps"
  shows "shape (start_step s u (c\<lparr>todo := ps\<rparr>)) \<and> todo_ok (start_step s u (c\<lparr>todo := ps\<rparr>))"
proof (cases u)
  case None
  then show ?thesis using assms by (auto simp: start_step_def todo_ok_def)
next
  case (Some v)
  note s = todo_ok_indices [OF assms(2,3)]
  have "start_list (Create_Threads s n # ps)" for n
    using s(4) by simp
  moreover have "s \<notin> set (starts ps)" using assms(2,3) by (simp add: todo_ok_def)
  moreover have "Create_Threads i n \<notin> set ps" for i n
    using assms(2,3) by (auto simp: todo_ok_def)
  ultimately show ?thesis using Some assms s
    by (auto simp: start_step_def Let_def todo_ok_def)
qed

lemma create_threads_shape:
  assumes "shape c" "todo_ok c" "todo c = Create_Threads s n # ps"
  shows "shape (create_threads l ok s n (c\<lparr>todo := ps\<rparr>)) \<and> todo_ok (create_threads l ok s n (c\<lparr>todo := ps\<rparr>))"
proof (cases n)
  case 0
  then show ?thesis using assms todo_ok_tl [of c] by simp
next
  case (Suc m)
  note s = todo_ok_indices [OF assms(2,3)]
  show ?thesis
  proof (cases ok)
    case True
    have "todo_ok (c\<lparr>todo := Create_Threads s m # ps\<rparr>)"
      using assms(2,3) by (auto simp: todo_ok_def)
    moreover have "shape (c\<lparr>thr := thr c @ [(s, Body l)]\<rparr>)"
      using assms(1) s by (auto simp: shape_def nth_append)
    ultimately show ?thesis using Suc True assms(1)
      by (auto simp: shape_def todo_ok_def)
  next
    case False
    then show ?thesis using Suc assms s by (auto simp: todo_ok_def)
  qed
qed

lemma exec_op_shape:
  assumes "shape c" "todo_ok c" "todo c = p # ps"
  shows "shape (exec_op init u ok p (c\<lparr>todo := ps\<rparr>)) \<and> todo_ok (exec_op init u ok p (c\<lparr>todo := ps\<rparr>))"
proof -
  note s = todo_ok_indices [OF assms(2,3)]
  have tl: "todo_ok (c\<lparr>todo := ps\<rparr>)" if "p \<noteq> All_Started" "p \<noteq> Start_Failed"
    by (rule todo_ok_tl [OF assms(3,2) that])
  show ?thesis
  proof (cases p)
    case (Enable_Queue i)
    then show ?thesis using assms tl by (auto simp: queue_ok_def [of "iq_queue _"])
  next
    case (Start_Step i)
    then show ?thesis using start_step_shape assms by auto
  next
    case (Create_Threads i n)
    then show ?thesis using create_threads_shape [OF assms(1,2), of i n ps "init i" ok] assms(3) by auto
  next
    case All_Started
    then show ?thesis using assms s by (auto simp: shape_def todo_ok_def)
  next
    case Start_Failed
    then show ?thesis using assms s by (auto simp: chain_stop_def shape_def)
  next
    case (Cancel f)
    then have "todo_ok (c\<lparr>todo := []\<rparr>)" using s assms by (simp add: todo_ok_def)
    then show ?thesis using Cancel assms tl by (auto split: sum.splits elim!: communicate_heap)
  next
    case (Disable_Queue i)
    then show ?thesis using assms tl by auto
  next
    case (Delay_Queue i)
    then show ?thesis using assms tl by auto
  next
    case Set_Cancelled
    then show ?thesis using assms tl s by (auto simp: join_enter_def shape_def)
  qed (use assms tl in auto)
qed

lemma cleanups_fields:
  "do_cleanups fs c = (c', b) \<Longrightarrow> \<exists>h. c' = c\<lparr>heap := h\<rparr> \<and> dom h = dom (heap c)"
proof (induction fs arbitrary: c)
  case Nil
  then show ?case by (auto intro: exI [of _ "heap c"])
next
  case (Cons f fs)
  show ?case
  proof (cases "communicate f c")
    case (Inl e)
    then show ?thesis using Cons.prems by (auto intro: exI [of _ "heap c"])
  next
    case (Inr c1)
    then obtain h where "c1 = c\<lparr>heap := h\<rparr>" "dom h = dom (heap c)" by (rule communicate_heap)
    with Inr Cons show ?thesis by fastforce
  qed
qed

lemma join_finish_cases:
  obtains h where "dom h = dom (heap c)" "join_finish c =
      c\<lparr>joined := joined c @ concat (map st_threads (ch_steps c)), ch_running := False, ch_joining := False, heap := h\<rparr>"
  | h where "join_finish c =
      c\<lparr>joined := joined c @ concat (map st_threads (ch_steps c)), ch_running := False, ch_joining := False, heap := h,
        ch_steps := map (\<lambda>s. s\<lparr>st_udptr := None\<rparr>) (ch_steps c), waiters := 0\<rparr>"
proof -
  let ?c = "c\<lparr>joined := joined c @ concat (map st_threads (ch_steps c)), ch_running := False, ch_joining := False\<rparr>"
  obtain c1 b where c1: "do_cleanups (ch_cleanups c) ?c = (c1, b)" by fastforce
  then obtain h where h: "c1 = ?c\<lparr>heap := h\<rparr>" "dom h = dom (heap c)" using cleanups_fields by fastforce
  show ?thesis
  proof (cases b)
    case True
    then show ?thesis using c1 h by (intro that(2) [of "fold delete_ud (rev (ch_steps c)) h"]) (simp add: join_finish_def)
  next
    case False
    then show ?thesis using c1 h by (intro that(1) [of h]) (simp_all add: join_finish_def)
  qed
qed

lemma chain_step_shape:
  assumes "chain_step prog init c c'" "shape c \<and> todo_ok c"
  shows "shape c' \<and> todo_ok c'"
  using assms
proof (induction rule: chain_step.induct)
  case (op c p ps u ok)
  then show ?case using exec_op_shape by blast
next
  case (run c c')
  then show ?case
    by (auto simp: chain_run_def shape_def todo_ok_def distinct_rev split: if_splits dest!: set_tl)
next
  case (stop c gently)
  then show ?case by (auto simp: chain_stop_def)
next
  case (delayed_disable c)
  then show ?case by (auto simp: chain_delayed_disable_def)
next
  case (wait c)
  then show ?case by (auto simp: join_enter_def shape_def)
next
  case (join c)
  then show ?case
    by (cases rule: join_finish_cases [of c]) (auto simp: can_join_def shape_def todo_ok_def)
next
  case (thread t c x c')
  then show ?case using thread_shape by blast
qed

subsection \<open>Threads and their user data\<close>

definition active :: "('l, 'e, 'u) chainimpl \<Rightarrow> bool" where
  "active c \<longleftrightarrow> ch_running c \<or> start_list (todo c)"

definition has_userdata :: "('l, 'e, 'u) chainimpl \<Rightarrow> nat \<Rightarrow> bool" where
  "has_userdata c s \<longleftrightarrow> (\<exists>a. st_udptr (ch_steps c ! s) = Some a \<and> sy_userdata (ch_steps c ! s) = Some a \<and> a \<in> dom (heap c))"

definition threads_ok :: "('l, 'e, 'u) chainimpl \<Rightarrow> bool" where
  "threads_ok c \<longleftrightarrow>
     (\<forall>t < length (thr c). t \<in> set (st_threads (ch_steps c ! fst (thr c ! t))))
     \<and> (\<forall>t < length (thr c). snd (thr c ! t) \<noteq> Gone \<longrightarrow> active c \<and> st_haveUD (ch_steps c ! fst (thr c ! t)))
     \<and> (\<forall>s < length (ch_steps c). active c \<and> st_haveUD (ch_steps c ! s) \<longrightarrow> has_userdata c s)"

lemma not_active: "todo_ok c \<Longrightarrow> \<not> active c \<Longrightarrow> todo c = [] \<and> \<not> ch_running c"
  by (auto simp: todo_ok_def active_def)

lemma threads_ok_on_queue [simp]: "threads_ok (on_queue i f c) = threads_ok c"
  by (simp add: threads_ok_def active_def has_userdata_def)

lemma threads_ok_set_pc:
  assumes "threads_ok c" "t < length (thr c)" "snd (thr c ! t) \<noteq> Gone"
  shows "threads_ok (set_pc t p c)"
  using assms by (auto simp: threads_ok_def active_def has_userdata_def nth_list_update)

lemma threads_ok_on_step:
  assumes "\<And>is. st_threads (f is) = st_threads is \<and> st_haveUD (f is) = st_haveUD is \<and>
    st_udptr (f is) = st_udptr is \<and> sy_userdata (f is) = sy_userdata is"
  shows "threads_ok (on_step s f c) = threads_ok c"
  using assms
  by (simp add: threads_ok_def active_def has_userdata_def on_step_def nth_update_same [of st_threads]
      nth_update_same [of st_haveUD] nth_update_same [of st_udptr] nth_update_same [of sy_userdata])

lemma threads_ok_fields [simp]:
  "threads_ok (c\<lparr>ch_nthreads := n\<rparr>) = threads_ok c" "threads_ok (c\<lparr>short_steps := ss\<rparr>) = threads_ok c"
  "threads_ok (c\<lparr>made := n\<rparr>) = threads_ok c" "threads_ok (c\<lparr>ch_cancelled := b\<rparr>) = threads_ok c"
  "threads_ok (c\<lparr>finals_done := ff\<rparr>) = threads_ok c" "threads_ok (c\<lparr>waiters := n\<rparr>) = threads_ok c"
  "threads_ok (c\<lparr>ch_finalized := b\<rparr>) = threads_ok c" "threads_ok (c\<lparr>ch_joining := b\<rparr>) = threads_ok c"
  "threads_ok (c\<lparr>next_address := n\<rparr>) = threads_ok c" "dom h = dom (heap c) \<Longrightarrow> threads_ok (c\<lparr>heap := h\<rparr>) = threads_ok c"
  by (simp_all add: threads_ok_def active_def has_userdata_def)

lemma threads_ok_todo:
  "threads_ok c \<Longrightarrow> active (c\<lparr>todo := ps\<rparr>) = active c \<Longrightarrow> threads_ok (c\<lparr>todo := ps\<rparr>)"
  by (simp add: threads_ok_def has_userdata_def)

lemma threads_ok_running: "threads_ok c \<Longrightarrow> active c \<Longrightarrow> threads_ok (c\<lparr>ch_running := True\<rparr>)"
  by (simp add: threads_ok_def has_userdata_def active_def)

lemma active_simps [simp]:
  "active (on_queue i f c) = active c" "active (on_step s g c) = active c" "active (set_pc t p c) = active c"
  by (simp_all add: active_def)

lemma run_step_not_gone: "run_step prog x t c = Some c' \<Longrightarrow> snd (thr c ! t) \<noteq> Gone"
  by (auto simp: run_step_def Let_def)

lemma thread_threads_ok:
  assumes "run_step prog x t c = Some c'" "t < length (thr c)" "threads_ok c"
  shows "threads_ok c'"
  using assms(1)
proof (cases rule: run_step_cases)
qed (use assms(2,3) in \<open>auto simp: leave_step_def leave_chain_def do_finals_def Let_def threads_ok_on_step
    intro!: threads_ok_set_pc\<close>)

lemma start_step_threads:
  assumes "threads_ok c" "shape c" "todo_ok c" "todo c = Start_Step s # ps"
  shows "threads_ok (start_step s u (c\<lparr>todo := ps\<rparr>))"
proof (cases u)
  case None
  then show ?thesis using assms
    by (auto simp: start_step_def active_def todo_ok_def intro!: threads_ok_todo)
next
  case (Some v)
  note s = todo_ok_indices [OF assms(3,4)]
  have "active c" using s(4) assms(4) by (simp add: active_def)
  moreover have "active (c\<lparr>todo := Create_Threads s n # ps\<rparr>)" for n
    using s(4) by (simp add: active_def)
  ultimately show ?thesis using Some assms(1,2) s
    by (auto simp: shape_def threads_ok_def start_step_def Let_def has_userdata_def active_def) blast
qed

lemma create_threads_threads:
  assumes "threads_ok c" "shape c" "todo_ok c" "todo c = Create_Threads s n # ps"
  shows "threads_ok (create_threads l ok s n (c\<lparr>todo := ps\<rparr>))"
proof -
  note s = todo_ok_indices [OF assms(3,4)]
  have a: "active c" "start_list ps" using s(4) assms(4) by (simp_all add: active_def)
  show ?thesis
  proof (cases "n = 0 \<or> \<not> ok")
    case True
    then show ?thesis using assms(1) a by (cases n) (auto simp: active_def intro!: threads_ok_todo)
  next
    case False
    then obtain m where "n = Suc m" "ok" by (cases n) auto
    moreover have "active (c\<lparr>todo := Create_Threads s m # ps\<rparr>)" using s(4) by (simp add: active_def)
    ultimately show ?thesis using assms(1,2) s a
      by (auto simp: threads_ok_def has_userdata_def active_def nth_append shape_def)
  qed
qed

lemma exec_op_threads:
  assumes "threads_ok c" "shape c" "todo_ok c" "todo c = p # ps"
  shows "threads_ok (exec_op init u ok p (c\<lparr>todo := ps\<rparr>))"
proof -
  note s = todo_ok_indices [OF assms(3,4)]
  have a: "active c" using s(4,5) assms(4) by (cases "starting_op p") (auto simp: active_def)
  have tl: "threads_ok (c\<lparr>todo := ps\<rparr>)" if "p \<noteq> All_Started" "p \<noteq> Start_Failed"
  proof (rule threads_ok_todo [OF assms(1)])
    show "active (c\<lparr>todo := ps\<rparr>) = active c"
      using a s(4,5) assms(4) that by (cases p) (auto simp: active_def)
  qed
  have run: "threads_ok (c\<lparr>todo := ps, ch_running := True\<rparr>)" for ps
    using assms(1) a by (simp add: threads_ok_def has_userdata_def active_def)
  show ?thesis
  proof (cases p)
    case (Start_Step i)
    then show ?thesis using start_step_threads [OF assms(1-3)] assms(4) by auto
  next
    case (Create_Threads i n)
    then show ?thesis using create_threads_threads [OF assms(1-3), of i n ps "init i" ok] assms(4) by auto
  next
    case All_Started
    then show ?thesis using run by simp
  next
    case Start_Failed
    then show ?thesis using run by (auto simp: chain_stop_def threads_ok_def has_userdata_def active_def)
  next
    case (Cancel f)
    then have "threads_ok (c\<lparr>todo := []\<rparr>)"
      using s assms(1) by (intro threads_ok_todo) (auto simp: active_def)
    then show ?thesis using Cancel tl by (auto split: sum.splits elim!: communicate_heap)
  next
    case Set_Cancelled
    then show ?thesis using tl by (auto simp: join_enter_def)
  qed (use tl in \<open>auto simp: threads_ok_on_step\<close>)
qed

lemma can_join_gone: "can_join c \<Longrightarrow> threads_ok c \<Longrightarrow> shape c \<Longrightarrow> t < length (thr c) \<Longrightarrow> snd (thr c ! t) = Gone"
  unfolding can_join_def threads_ok_def shape_def by (metis nth_mem)

lemma idle_gone: "todo_ok c \<Longrightarrow> threads_ok c \<Longrightarrow> todo c = [] \<Longrightarrow> \<not> ch_running c \<Longrightarrow> t < length (thr c) \<Longrightarrow> snd (thr c ! t) = Gone"
  by (auto simp: threads_ok_def active_def)

lemma chain_step_threads:
  assumes "chain_step prog init c c'" "shape c \<and> todo_ok c \<and> threads_ok c"
  shows "threads_ok c'"
  using assms
proof (induction rule: chain_step.induct)
  case (op c p ps u ok)
  then show ?case using exec_op_threads by blast
next
  case (run c c')
  then have "t < length (thr c) \<Longrightarrow> snd (thr c ! t) = Gone" for t
    using idle_gone by (auto simp: chain_run_def split: if_splits)
  with run show ?case
    by (auto simp: chain_run_def shape_def threads_ok_def split: if_splits)
next
  case (stop c gently)
  then show ?case by (auto simp: chain_stop_def active_def intro!: threads_ok_todo)
next
  case (delayed_disable c)
  then show ?case by (auto simp: chain_delayed_disable_def)
next
  case (wait c)
  then show ?case by (auto simp: join_enter_def)
next
  case (join c)
  then have "t < length (thr c) \<Longrightarrow> snd (thr c ! t) = Gone" for t
    using can_join_gone by blast
  with join show ?case
    by (cases rule: join_finish_cases [of c]) (auto simp: can_join_def shape_def threads_ok_def active_def)
next
  case (thread t c x c')
  then show ?case using thread_threads_ok by blast
qed

subsection \<open>Counters and signals\<close>

definition signals :: "('l, 'e, 'u) chainimpl \<Rightarrow> nat \<Rightarrow> bool" where
  "signals c s \<longleftrightarrow> (st_rsa_nthread (ch_steps c ! s) = 0 \<longrightarrow>
     (s < length (ch_queues c) \<longrightarrow> (\<forall>t < length (thr c). thr c ! t \<noteq> (s, Signal_Out)) \<longrightarrow>
        \<not> enable_push (iq_queue (ch_queues c ! s)))
     \<and> (s > 0 \<longrightarrow> (\<forall>t < length (thr c). thr c ! t \<noteq> (s, Signal_Out) \<and> thr c ! t \<noteq> (s, Signal_In)) \<longrightarrow>
        \<not> enable_push (iq_queue (ch_queues c ! (s - 1)))))"

definition complete :: "('l, 'e, 'u) chainimpl \<Rightarrow> nat \<Rightarrow> bool" where
  "complete c s \<longleftrightarrow> s < length (ch_steps c) \<and> st_haveUD (ch_steps c ! s) \<and> s \<notin> set (short_steps c)"

definition counters :: "('l, 'e, 'u) chainimpl \<Rightarrow> bool" where
  "counters c \<longleftrightarrow> ch_nthreads c = alive (thr c)
     \<and> (\<forall>s. complete c s \<longrightarrow>
          st_rsa_nthread (ch_steps c ! s) = in_step s (thr c) + pending_threads s (todo c) \<and> signals c s)"

lemma signals_mono:
  assumes "signals c s" "s < Suc (length (ch_queues c))"
    "st_rsa_nthread (ch_steps c' ! s) = 0 \<Longrightarrow> st_rsa_nthread (ch_steps c ! s) = 0"
    "length (ch_queues c') = length (ch_queues c)"
    "\<And>i. i < length (ch_queues c) \<Longrightarrow> enable_push (iq_queue (ch_queues c' ! i)) \<Longrightarrow> enable_push (iq_queue (ch_queues c ! i))"
    "\<And>t p. t < length (thr c) \<Longrightarrow> thr c ! t = (s, p) \<Longrightarrow> p = Signal_Out \<or> p = Signal_In \<Longrightarrow>
       t < length (thr c') \<and> thr c' ! t = (s, p)"
  shows "signals c' s"
proof -
  have "s - 1 < length (ch_queues c)" if "s > 0" using that assms(2) by simp
  then show ?thesis using assms(1,3,4,5) assms(6) unfolding signals_def by fastforce
qed

lemma counters_on_queue:
  assumes "counters c" "shape c" "i < length (ch_queues c) \<Longrightarrow> enable_push (f (iq_queue (ch_queues c ! i))) \<Longrightarrow>
    enable_push (iq_queue (ch_queues c ! i))"
  shows "counters (on_queue i f c)"
proof -
  have "signals (on_queue i f c) s" if "complete c s" for s
  proof (rule signals_mono [of c])
    show "signals c s" "s < Suc (length (ch_queues c))"
      using assms(1,2) that by (auto simp: counters_def complete_def shape_def)
  qed (use assms(3) in \<open>auto split: if_splits\<close>)
  then show ?thesis
    using assms(1) by (auto simp: counters_def complete_def)
qed

lemma alive_set: "t < length ts \<Longrightarrow>
    alive (ts[t := x]) + of_bool (\<not> past_chain (snd (ts ! t))) = alive ts + of_bool (\<not> past_chain (snd x))"
  unfolding alive_def by (rule count_update)

lemma in_step_set: "t < length ts \<Longrightarrow>
    in_step s (ts[t := x]) + of_bool (fst (ts ! t) = s \<and> in_body (snd (ts ! t)))
      = in_step s ts + of_bool (fst x = s \<and> in_body (snd x))"
  unfolding in_step_def by (rule count_update)

lemma in_finals_set: "t < length ts \<Longrightarrow>
    in_finals (ts[t := x]) + of_bool (snd (ts ! t) = Do_Finals) = in_finals ts + of_bool (snd x = Do_Finals)"
  unfolding in_finals_def by (rule count_update)

text \<open>A move of a thread that is no signal and leaves neither its step nor the chain.\<close>

lemma counters_set_pc:
  assumes "counters c" "shape c" "t < length (thr c)" "in_body p = in_body (snd (thr c ! t))"
    "past_chain p = past_chain (snd (thr c ! t))"
    "\<not> (snd (thr c ! t) = Signal_Out \<or> snd (thr c ! t) = Signal_In)"
  shows "counters (set_pc t p c)"
proof -
  have "alive (thr (set_pc t p c)) = alive (thr c)" "in_step s (thr (set_pc t p c)) = in_step s (thr c)" for s
    using alive_set [OF assms(3), of "(fst (thr c ! t), p)"] in_step_set [OF assms(3), of s "(fst (thr c ! t), p)"] assms
    by simp_all
  moreover have "signals (set_pc t p c) s" if "complete c s" for s
  proof (rule signals_mono [of c])
    show "signals c s" "s < Suc (length (ch_queues c))"
      using assms(1,2) that by (auto simp: counters_def complete_def shape_def)
  qed (use assms(3,6) in \<open>auto simp: nth_list_update\<close>)
  ultimately show ?thesis
    using assms(1) by (auto simp: counters_def complete_def)
qed

lemma counters_leave_step:
  assumes "counters c" "shape c" "t < length (thr c)" "snd (thr c ! t) = Leave_Step"
  shows "counters (leave_step t c)"
proof -
  obtain s0 where s0: "thr c ! t = (s0, Leave_Step)" using assms(4) by (cases "thr c ! t") auto
  have len: "s0 < length (ch_steps c)" using assms(2,3) s0 by (auto simp: shape_def)
  let ?n = "st_rsa_nthread (ch_steps c ! s0) - 1"
  let ?c = "leave_step t c"
  let ?x = "(s0, if ?n = 0 then Signal_Out else Leave_Chain :: 'a pc)"
  have c': "thr ?c = (thr c)[t := ?x]" "ch_queues ?c = ch_queues c"
    "ch_nthreads ?c = ch_nthreads c" "todo ?c = todo c"
    by (simp_all add: leave_step_def Let_def s0)
  have rsa: "st_rsa_nthread (ch_steps ?c ! s) = (if s = s0 then ?n else st_rsa_nthread (ch_steps c ! s))"
    if "s < length (ch_steps c)" for s
    using that by (simp add: leave_step_def Let_def s0)
  have comp: "complete ?c s = complete c s" for s
    using len by (auto simp: leave_step_def Let_def s0 complete_def split: if_splits)
  have al: "alive (thr ?c) = alive (thr c)"
    using alive_set [OF assms(3), of ?x] s0 by (simp add: c' past_chain_def split: if_splits)
  have ins: "in_step s (thr ?c) + of_bool (s = s0) = in_step s (thr c)" for s
    using in_step_set [OF assms(3), of s ?x] s0 by (auto simp: c' in_body_def)
  have "st_rsa_nthread (ch_steps ?c ! s) = in_step s (thr ?c) + pending_threads s (todo ?c) \<and> signals ?c s"
    if "complete ?c s" for s
  proof -
    have s: "complete c s" "s < length (ch_steps c)" using that comp by (auto simp: complete_def)
    then have old: "st_rsa_nthread (ch_steps c ! s) = in_step s (thr c) + pending_threads s (todo c)" "signals c s"
      using assms(1) by (auto simp: counters_def)
    have "signals ?c s"
    proof (cases "s = s0")
      case True
      then show ?thesis using rsa [OF s(2)] assms(3) by (auto simp: signals_def c')
    next
      case False
      show ?thesis
      proof (rule signals_mono [OF old(2)])
        show "s < Suc (length (ch_queues c))" using assms(2) s(2) by (simp add: shape_def)
      qed (use False rsa [OF s(2)] s0 assms(3) in \<open>auto simp: c' nth_list_update\<close>)
    qed
    then show ?thesis using old(1) ins [of s] rsa [OF s(2)] by (auto simp: c')
  qed
  then show ?thesis using assms(1) al by (simp add: counters_def c')
qed

lemma counters_signal:
  assumes c: "counters c" "shape c" "t < length (thr c)"
    and pc: "thr c ! t = (s0, Signal_Out) \<and> p = Signal_In \<and> (s0 < length (ch_queues c) \<longrightarrow> i = s0)
      \<or> thr c ! t = (s0, Signal_In) \<and> p = Leave_Chain \<and> (s0 > 0 \<longrightarrow> i = s0 - 1)"
    and f: "\<And>q. \<not> enable_push (f q)"
  shows "counters (set_pc t p (on_queue i f c))"
proof -
  let ?c = "set_pc t p (on_queue i f c)"
  have ps: "\<not> past_chain p" "\<not> past_chain (snd (thr c ! t))" "\<not> in_body p" "\<not> in_body (snd (thr c ! t))"
    using pc by (auto simp: past_chain_def in_body_def)
  have cnt: "alive (thr ?c) = alive (thr c)" "in_step s (thr ?c) = in_step s (thr c)" for s
    using alive_set [OF c(3), of "(fst (thr c ! t), p)"] in_step_set [OF c(3), of s "(fst (thr c ! t), p)"] ps
    by simp_all
  have "signals ?c s" if s: "complete c s" for s
  proof -
    have old: "signals c s" "s < Suc (length (ch_queues c))"
      using c s by (auto simp: counters_def complete_def shape_def)
    show ?thesis
    proof (cases "s = s0")
      case False
      then show ?thesis using pc c(3)
        by (intro signals_mono [OF old]) (auto simp: nth_list_update f split: if_splits)
    next
      case True
      have off: "j < length (ch_queues c) \<Longrightarrow> j = i \<Longrightarrow> \<not> enable_push (iq_queue (ch_queues ?c ! j))" for j
        by (simp add: f)
      have mono: "j < length (ch_queues c) \<Longrightarrow> enable_push (iq_queue (ch_queues ?c ! j)) \<Longrightarrow>
          enable_push (iq_queue (ch_queues c ! j))" for j
        by (simp add: f split: if_splits)
      have rest: "length (ch_queues ?c) = length (ch_queues c)" "ch_steps ?c = ch_steps c"
        "length (thr ?c) = length (thr c)" by simp_all
      from pc show ?thesis
      proof
        assume pc: "thr c ! t = (s0, Signal_Out) \<and> p = Signal_In \<and> (s0 < length (ch_queues c) \<longrightarrow> i = s0)"
        then have "thr ?c ! t = (s0, Signal_In)" using c(3) by simp
        then show ?thesis
          using pc c(3) off [of s0] True unfolding signals_def rest by metis
      next
        assume pc: "thr c ! t = (s0, Signal_In) \<and> p = Leave_Chain \<and> (s0 > 0 \<longrightarrow> i = s0 - 1)"
        then have "t' < length (thr c) \<Longrightarrow> thr c ! t' = (s0, Signal_Out) \<Longrightarrow> thr ?c ! t' = (s0, Signal_Out)" for t'
          by (cases "t' = t") simp_all
        moreover have "s0 > 0 \<Longrightarrow> s0 - 1 < length (ch_queues c)" using old(2) True by simp
        ultimately show ?thesis
          using pc old(1) off [of "s0 - 1"] mono [of s0] True unfolding signals_def rest by metis
      qed
    qed
  qed
  then show ?thesis using c(1) cnt by (auto simp: counters_def complete_def)
qed

lemma counters_leave_chain:
  assumes "counters c" "shape c" "t < length (thr c)" "snd (thr c ! t) = Leave_Chain"
  shows "counters (leave_chain t c)"
proof -
  let ?x = "(fst (thr c ! t), if ch_nthreads c - 1 = 0 then Do_Finals else Gone :: 'a pc)"
  have c': "thr (leave_chain t c) = (thr c)[t := ?x]" "ch_nthreads (leave_chain t c) = ch_nthreads c - 1"
    by (simp_all add: leave_chain_def Let_def)
  have "ch_nthreads (leave_chain t c) = alive (thr (leave_chain t c))"
    using alive_set [OF assms(3), of ?x] assms(1,4) by (auto simp: counters_def c' past_chain_def split: if_splits)
  moreover have "in_step s (thr (leave_chain t c)) = in_step s (thr c)" for s
    using in_step_set [OF assms(3), of s ?x] assms(4) by (auto simp: c' in_body_def split: if_splits)
  moreover have "signals (leave_chain t c) s" if "complete c s" for s
  proof (rule signals_mono [of c])
    show "signals c s" "s < Suc (length (ch_queues c))"
      using assms(1,2) that by (auto simp: counters_def complete_def shape_def)
  qed (use assms(3,4) in \<open>auto simp: leave_chain_def Let_def nth_list_update\<close>)
  ultimately show ?thesis
    using assms(1) by (auto simp: counters_def complete_def leave_chain_def Let_def)
qed

lemma on_queue_outside: "\<not> i < length (ch_queues c) \<Longrightarrow> on_queue i f c = c"
  by (simp add: on_queue_def list_update_beyond)

lemma push_kept [simp]:
  "enable_push (fst (bq_disable q)) = False" "enable_push (fst (bq_delayed_disable q)) = False"
  by (simp_all add: bq_disable_def bq_delayed_disable_def Let_def)

lemma push_kept_ops:
  "pop_finish (pop_enter q) = (q', e, w) \<Longrightarrow> enable_push q' = enable_push q"
  "push_finish b (push_enter q) = (q'', ok, w) \<Longrightarrow> enable_push q'' = enable_push q"
  by (cases "enable_pop q"; cases "\<not> enable_push q \<and> tl (queue q) = []")
    (auto simp: pop_finish_def pop_enter_def pop_close_def push_finish_def push_enter_def Let_def split: if_splits)

lemma counters_fields [simp]:
  "counters (c\<lparr>heap := h\<rparr>) = counters c" "counters (c\<lparr>made := n\<rparr>) = counters c"
  "counters (c\<lparr>ch_cancelled := b\<rparr>) = counters c" "counters (c\<lparr>finals_done := ff\<rparr>) = counters c"
  "counters (c\<lparr>waiters := n\<rparr>) = counters c" "counters (c\<lparr>ch_finalized := b\<rparr>) = counters c"
  "counters (c\<lparr>ch_joining := b\<rparr>) = counters c" "counters (c\<lparr>next_address := n\<rparr>) = counters c"
  "counters (c\<lparr>ch_running := b\<rparr>) = counters c" "counters (c\<lparr>joined := j\<rparr>) = counters c"
  by (simp_all add: counters_def complete_def signals_def)

lemma thread_counters:
  assumes "run_step prog x t c = Some c'" "t < length (thr c)" "counters c" "shape c"
  shows "counters c'"
  using assms(1)
proof (cases rule: run_step_cases)
  case (work l f)
  then show ?thesis using assms(2-4) by (auto intro!: counters_set_pc simp: in_body_def past_chain_def)
next
  case (pop l f i q e w)
  then show ?thesis using assms(2-4)
    by (auto intro!: counters_set_pc counters_on_queue simp: in_body_def past_chain_def push_kept_ops
        dest: queue_ok_pop queue_ok_push)
next
  case (push l f i b q ok w)
  then show ?thesis using assms(2-4)
    by (auto intro!: counters_set_pc counters_on_queue simp: in_body_def past_chain_def push_kept_ops
        dest: queue_ok_pop queue_ok_push)
next
  case (return l)
  then show ?thesis using assms(2-4) by (auto intro!: counters_set_pc simp: in_body_def past_chain_def)
next
  case leave
  then show ?thesis using assms(2-4) by (auto intro!: counters_leave_step)
next
  case out
  let ?i = "if fst (thr c ! t) < length (ch_queues c) then fst (thr c ! t) else length (ch_queues c)"
  have "counters (set_pc t Signal_In (on_queue ?i (\<lambda>q. fst (bq_delayed_disable q)) c))"
    by (rule counters_signal [OF assms(3,4,2), of "fst (thr c ! t)"]) (use out assms(2-4) in \<open>auto simp: prod_eq_iff\<close>)
  then show ?thesis using out on_queue_outside [of "length (ch_queues c)" c] by (auto split: if_splits)
next
  case inp
  let ?i = "if fst (thr c ! t) > 0 then fst (thr c ! t) - 1 else length (ch_queues c)"
  have "counters (set_pc t Leave_Chain (on_queue ?i (\<lambda>q. fst (bq_disable q)) c))"
    by (rule counters_signal [OF assms(3,4,2), of "fst (thr c ! t)"]) (use inp assms(2-4) in \<open>auto simp: prod_eq_iff\<close>)
  then show ?thesis using inp on_queue_outside [of "length (ch_queues c)" c] by (auto split: if_splits)
next
  case chain
  then show ?thesis using assms(2-4) by (auto intro!: counters_leave_chain)
next
  case finals
  then show ?thesis using assms(2-4)
    by (auto intro!: counters_set_pc simp: do_finals_def in_body_def past_chain_def)
qed

lemma pending_tl: "todo_ok c \<Longrightarrow> todo c = p # ps \<Longrightarrow> pending_threads s ps = 0"
  by (cases "(s, ps)" rule: pending_threads.cases) (auto simp: todo_ok_def)

lemma pending_none: "(\<And>s n. Create_Threads s n \<notin> set ps) \<Longrightarrow> pending_threads s ps = 0"
  by (cases "(s, ps)" rule: pending_threads.cases) auto

lemma pending_stop [simp]: "pending_threads s (stop_ops g c) = 0"
  using stop_ops_facts(1) [of "Create_Threads _ _" g c] by (auto intro: pending_none)

lemma counters_todo:
  "counters c \<Longrightarrow> (\<And>s. pending_threads s ps = pending_threads s (todo c)) \<Longrightarrow> counters (c\<lparr>todo := ps\<rparr>)"
  by (simp add: counters_def complete_def signals_def)

lemma counters_frame:
  assumes "counters c" "ch_nthreads c' = ch_nthreads c" "thr c' = thr c" "ch_steps c' = ch_steps c"
    "ch_queues c' = ch_queues c" "short_steps c' = short_steps c"
    "\<And>s. pending_threads s (todo c') = pending_threads s (todo c)"
  shows "counters c'"
  using assms by (simp add: counters_def complete_def signals_def)

lemma counters_on_step:
  assumes "\<And>is. st_haveUD (f is) = st_haveUD is \<and> st_rsa_nthread (f is) = st_rsa_nthread is"
  shows "counters (on_step s f c) = counters c"
  using assms
  by (simp add: counters_def complete_def signals_def on_step_def nth_update_same [of st_haveUD]
      nth_update_same [of st_rsa_nthread])

lemma gone_counts:
  "(\<And>t. t < length ts \<Longrightarrow> snd (ts ! t) = Gone) \<Longrightarrow> alive ts = 0 \<and> in_step s ts = 0 \<and> in_finals ts = 0"
  by (auto simp: counts count_zero past_chain_def in_body_def)

lemma start_step_counters:
  assumes "counters c" "shape c" "todo_ok c" "threads_ok c" "todo c = Start_Step s # ps"
  shows "counters (start_step s u (c\<lparr>todo := ps\<rparr>))"
proof (cases u)
  case None
  then show ?thesis using assms(1,5) by (auto simp: start_step_def intro!: counters_todo)
next
  case (Some v)
  note s = todo_ok_indices [OF assms(3,5)]
  let ?c = "start_step s u (c\<lparr>todo := ps\<rparr>)"
  have none: "in_step s (thr c) = 0"
    unfolding in_step_def count_zero
  proof (intro allI impI notI)
    fix t
    assume t: "t < length (thr c)" "fst (thr c ! t) = s \<and> in_body (snd (thr c ! t))"
    then have "snd (thr c ! t) \<noteq> Gone" by (auto simp: in_body_def)
    then show False using assms(4) s(1) [of s] t by (auto simp: threads_ok_def)
  qed
  have pos: "st_nthread (ch_steps c ! s) > 0" using assms(2) s(1) by (simp add: shape_def)
  have st: "st_rsa_nthread (ch_steps ?c ! j) = (if j = s then st_nthread (ch_steps c ! s) else st_rsa_nthread (ch_steps c ! j))"
    if "j < length (ch_steps c)" for j
    using that s Some by (auto simp: start_step_def Let_def)
  have "st_rsa_nthread (ch_steps ?c ! j) = in_step j (thr ?c) + pending_threads j (todo ?c) \<and> signals ?c j"
    if "complete ?c j" for j
  proof (cases "j = s")
    case True
    then show ?thesis using st [of s] s(1) none pos Some
      by (auto simp: start_step_def Let_def signals_def)
  next
    case False
    then have "complete c j" using that Some s by (auto simp: start_step_def Let_def complete_def split: if_splits)
    then have "signals c j" "j < length (ch_steps c)" "st_rsa_nthread (ch_steps c ! j) = in_step j (thr c)"
      using assms(1,5) by (auto simp: counters_def complete_def)
    then show ?thesis using False st [of j] Some
      by (auto simp: start_step_def Let_def signals_def)
  qed
  then show ?thesis using assms(1) Some by (simp add: counters_def start_step_def Let_def)
qed

lemma create_threads_counters:
  assumes "counters c" "shape c" "todo_ok c" "todo c = Create_Threads s n # ps"
  shows "counters (create_threads l ok s n (c\<lparr>todo := ps\<rparr>))"
proof (cases n)
  case 0
  then show ?thesis using assms(1,4) pending_tl [OF assms(3,4)] by (auto intro!: counters_todo)
next
  case (Suc m)
  show ?thesis
  proof (cases ok)
    case True
    let ?c = "c\<lparr>thr := thr c @ [(s, Body l)], ch_nthreads := Suc (ch_nthreads c), todo := Create_Threads s m # ps\<rparr>"
    have "signals ?c j" if "signals c j" for j
      using that by (auto simp: signals_def nth_append)
    then have "counters ?c"
      using assms(1,4) Suc
      by (auto simp: counters_def complete_def counts past_chain_def in_body_def)
    moreover have "create_threads l ok s n (c\<lparr>todo := ps\<rparr>)
        = on_step s (\<lambda>is. is\<lparr>st_threads := st_threads is @ [length (thr c)]\<rparr>) (?c\<lparr>made := made c + 1\<rparr>)"
      using Suc True by (simp add: on_step_def)
    ultimately show ?thesis by (simp add: counters_on_step)
  next
    case False
    then show ?thesis using Suc assms(1,4)
      by (auto simp: counters_def complete_def signals_def)
  qed
qed

lemma exec_op_counters:
  assumes "counters c" "shape c" "todo_ok c" "threads_ok c" "todo c = p # ps"
  shows "counters (exec_op init u ok p (c\<lparr>todo := ps\<rparr>))"
proof -
  note s = todo_ok_indices [OF assms(3,5)]
  have tl: "counters (c\<lparr>todo := ps\<rparr>)" if "\<And>s n. p \<noteq> Create_Threads s n"
    by (rule counters_todo [OF assms(1)]) (use assms(5) pending_tl [OF assms(3,5)] that in \<open>cases p; auto\<close>)
  show ?thesis
  proof (cases p)
    case (Enable_Queue i)
    then have "\<not> complete c s" for s
      using assms(3,5) by (auto simp: todo_ok_def complete_def)
    then have "\<not> complete (on_queue i f (c\<lparr>todo := ps\<rparr>)) s" for s f
      by (simp add: complete_def)
    then show ?thesis using Enable_Queue assms(1) by (simp add: counters_def)
  next
    case (Start_Step i)
    then show ?thesis using start_step_counters assms by auto
  next
    case (Create_Threads i n)
    then show ?thesis using create_threads_counters [OF assms(1-3), of i n ps "init i" ok] assms(5) by auto
  next
    case All_Started
    then show ?thesis using tl by simp
  next
    case Start_Failed
    then show ?thesis using assms(2,5)
      by (auto simp: chain_stop_def shape_def intro!: counters_frame [OF assms(1)])
  next
    case (Cancel f)
    then have "counters (c\<lparr>todo := []\<rparr>)"
      using assms(1,5) by (intro counters_todo) auto
    then show ?thesis using Cancel tl by (auto split: sum.splits elim!: communicate_heap)
  next
    case Set_Cancelled
    then show ?thesis using tl by (auto simp: join_enter_def)
  qed (use tl assms(2) in \<open>auto simp: counters_on_step intro!: counters_on_queue\<close>)
qed

lemma chain_step_counters:
  assumes "chain_step prog init c c'" "shape c \<and> todo_ok c \<and> threads_ok c \<and> counters c"
  shows "counters c'"
  using assms
proof (induction rule: chain_step.induct)
  case (op c p ps u ok)
  then show ?case using exec_op_counters by blast
next
  case (run c c')
  then have "\<And>t. t < length (thr c) \<Longrightarrow> snd (thr c ! t) = Gone"
    using idle_gone by (auto simp: chain_run_def split: if_splits)
  then have "alive (thr c) = 0" using gone_counts by blast
  with run show ?case
    by (auto simp: chain_run_def counters_def complete_def split: if_splits)
next
  case (stop c gently)
  then show ?case using stop_ops_facts(1) [of "Create_Threads _ _" gently c]
    by (auto simp: chain_stop_def intro!: counters_todo pending_none)
next
  case (delayed_disable c)
  then show ?case by (auto simp: chain_delayed_disable_def intro!: counters_on_queue)
next
  case (wait c)
  then show ?case by (auto simp: join_enter_def)
next
  case (join c)
  show ?case
  proof (cases rule: join_finish_cases [of c])
    case (1 h)
    then show ?thesis using join by simp
  next
    case (2 h)
    with join show ?thesis by (auto simp: counters_def complete_def signals_def)
  qed
next
  case (thread t c x c')
  then show ?case using thread_counters by blast
qed

subsection \<open>The final functions\<close>

definition finals_ok :: "('l, 'e, 'u) chainimpl \<Rightarrow> bool" where
  "finals_ok c \<longleftrightarrow>
     (start_list (todo c) \<longrightarrow> in_finals (thr c) = 0 \<and> finals_done c = [] \<and> ch_nthreads c = made c)
     \<and> (ch_running c \<longrightarrow>
          (if ch_nthreads c > 0 \<or> made c = 0
           then ch_nthreads c \<le> made c \<and> in_finals (thr c) = 0 \<and> finals_done c = [] \<and> \<not> ch_finalized c
           else in_finals (thr c) = 1 \<and> finals_done c = [] \<and> \<not> ch_finalized c
             \<or> in_finals (thr c) = 0 \<and> finals_done c = ch_finals c \<and> ch_finalized c))"

lemma finals_ok_frame:
  assumes "finals_ok c" "start_list (todo c') \<Longrightarrow> start_list (todo c)" "in_finals (thr c') = in_finals (thr c)"
    "finals_done c' = finals_done c" "ch_nthreads c' = ch_nthreads c" "made c' = made c"
    "ch_running c' \<Longrightarrow> ch_running c" "ch_finalized c' = ch_finalized c" "ch_finals c' = ch_finals c"
  shows "finals_ok c'"
  using assms by (auto simp: finals_ok_def)

lemma stop_no_start: "(\<forall>p \<in> set ps. \<not> starting_op p) \<Longrightarrow> \<not> start_list ps"
  by (cases ps) (auto dest: start_list_ops)

lemma stop_ops_no_start [simp]: "\<not> start_list (stop_ops g c)"
  by (auto intro!: stop_no_start dest: stop_ops_facts(1))

lemma running_no_start: "todo_ok c \<Longrightarrow> ch_running c \<Longrightarrow> \<not> start_list (todo c)"
  by (cases "todo c") (auto simp: todo_ok_def dest: start_list_ops)

lemma alive_made: "counters c \<Longrightarrow> t < length (thr c) \<Longrightarrow> \<not> past_chain (snd (thr c ! t)) \<Longrightarrow> ch_nthreads c > 0"
  by (auto simp: counters_def alive_def intro: count_pos)

lemma thread_finals:
  assumes "run_step prog x t c = Some c'" "t < length (thr c)" "finals_ok c" "counters c" "todo_ok c" "threads_ok c"
  shows "finals_ok c'"
proof -
  have same: "in_finals ((thr c)[t := (fst (thr c ! t), p)]) = in_finals (thr c)"
    if "snd (thr c ! t) \<noteq> Do_Finals" "p \<noteq> Do_Finals" for p
    using in_finals_set [OF assms(2), of "(fst (thr c ! t), p)"] that by simp
  have act: "active c" using run_step_not_gone [OF assms(1)] assms(2,6) by (auto simp: threads_ok_def)
  from assms(1) show ?thesis
  proof (cases rule: run_step_cases)
    case leave
    then show ?thesis using same
      by (intro finals_ok_frame [OF assms(3)]) (auto simp: leave_step_def Let_def)
  next
    case chain
    then have run: "ch_running c" using act by (simp add: active_def)
    have pos: "ch_nthreads c > 0" using alive_made [OF assms(4,2)] chain by (simp add: past_chain_def)
    then have "ch_nthreads c \<le> made c \<and> in_finals (thr c) = 0 \<and> finals_done c = [] \<and> \<not> ch_finalized c"
      using assms(3) run by (auto simp: finals_ok_def)
    moreover have "in_finals ((thr c)[t := (fst (thr c ! t), p)]) = in_finals (thr c) + of_bool (p = Do_Finals)" for p
      using in_finals_set [OF assms(2), of "(fst (thr c ! t), p)"] chain by simp
    ultimately show ?thesis using chain run pos
      by (auto simp: finals_ok_def leave_chain_def Let_def)
  next
    case finals
    have fin: "in_finals (thr c) > 0"
      unfolding in_finals_def using assms(2) finals by (auto intro: count_pos)
    then have run: "ch_running c" using act assms(3) by (auto simp: active_def finals_ok_def)
    have "in_finals ((thr c)[t := (fst (thr c ! t), Gone)]) + 1 = in_finals (thr c)"
      using in_finals_set [OF assms(2), of "(fst (thr c ! t), Gone)"] finals by simp
    moreover have "\<not> start_list (todo c)" using run assms(5) by (simp add: running_no_start)
    ultimately show ?thesis using finals fin run assms(3)
      by (auto simp: finals_ok_def do_finals_def split: if_splits)
  qed (use same in \<open>auto intro!: finals_ok_frame [OF assms(3)]\<close>)
qed

lemma exec_op_finals:
  assumes "finals_ok c" "shape c" "todo_ok c" "todo c = p # ps"
  shows "finals_ok (exec_op init u ok p (c\<lparr>todo := ps\<rparr>))"
proof -
  note s = todo_ok_indices [OF assms(3,4)]
  have tl: "finals_ok (c\<lparr>todo := ps\<rparr>)" if "p \<noteq> All_Started" "p \<noteq> Start_Failed"
  proof (rule finals_ok_frame [OF assms(1)])
    assume "start_list (todo (c\<lparr>todo := ps\<rparr>))"
    then show "start_list (todo c)"
      using s(4,5) assms(4) that stop_no_start [of ps] by (cases "starting_op p") auto
  qed auto
  have start: "in_finals (thr c) = 0 \<and> finals_done c = [] \<and> ch_nthreads c = made c \<and> \<not> ch_running c" if "starting_op p"
    using s(4) assms(1,4) that by (auto simp: finals_ok_def)
  show ?thesis
  proof (cases p)
    case (Start_Step i)
    then show ?thesis using start by (auto simp: start_step_def finals_ok_def Let_def split: option.splits)
  next
    case (Create_Threads i n)
    then show ?thesis using start tl
      by (cases n) (auto simp: finals_ok_def in_finals_def)
  next
    case All_Started
    then show ?thesis using start s by (auto simp: finals_ok_def)
  next
    case Start_Failed
    then show ?thesis using start s assms(2) by (auto simp: finals_ok_def chain_stop_def shape_def)
  next
    case (Cancel f)
    then have "finals_ok (c\<lparr>todo := []\<rparr>)" by (intro finals_ok_frame [OF assms(1)]) auto
    then show ?thesis using Cancel tl
      by (auto simp: finals_ok_def split: sum.splits elim!: communicate_heap)
  next
    case Set_Cancelled
    then show ?thesis using tl by (auto simp: join_enter_def finals_ok_def)
  qed (use tl in \<open>auto intro: finals_ok_frame\<close>)
qed

definition chain_inv :: "('l, 'e, 'u) chainimpl \<Rightarrow> bool" where
  "chain_inv c \<longleftrightarrow> shape c \<and> todo_ok c \<and> threads_ok c \<and> counters c \<and> finals_ok c"

lemma chain_step_finals:
  assumes "chain_step prog init c c'" "chain_inv c"
  shows "finals_ok c'"
  using assms
proof (induction rule: chain_step.induct)
  case (op c p ps u ok)
  then show ?case using exec_op_finals by (auto simp: chain_inv_def)
next
  case (run c c')
  then have "\<And>t. t < length (thr c) \<Longrightarrow> snd (thr c ! t) = Gone"
    using idle_gone by (auto simp: chain_inv_def chain_run_def split: if_splits)
  then have "in_finals (thr c) = 0" using gone_counts by blast
  with run show ?case
    by (auto simp: chain_run_def finals_ok_def split: if_splits)
next
  case (stop c gently)
  then have "finals_ok c" by (simp add: chain_inv_def)
  then show ?case by (auto simp: chain_stop_def intro!: finals_ok_frame [of c])
next
  case (delayed_disable c)
  then have "finals_ok c" by (simp add: chain_inv_def)
  then show ?case by (auto simp: chain_delayed_disable_def intro!: finals_ok_frame [of c])
next
  case (wait c)
  then have "finals_ok c" by (simp add: chain_inv_def)
  then show ?case by (auto simp: join_enter_def intro!: finals_ok_frame [of c])
next
  case (join c)
  then show ?case
    by (cases rule: join_finish_cases [of c]) (auto simp: can_join_def finals_ok_def)
next
  case (thread t c x c')
  then show ?case using thread_finals by (auto simp: chain_inv_def)
qed

theorem chain_step_inv: "chain_step prog init c c' \<Longrightarrow> chain_inv c \<Longrightarrow> chain_inv c'"
  using chain_step_shape [of prog init c c'] chain_step_threads [of prog init c c']
    chain_step_counters [of prog init c c'] chain_step_finals [of prog init c c']
  by (auto simp: chain_inv_def)

theorem chain_reach_inv: "chain_reach prog init c0 c \<Longrightarrow> chain_inv c0 \<Longrightarrow> chain_inv c"
  by (induction rule: chain_reach.induct) (auto dest: chain_step_inv)

subsection \<open>A built chain starts in order\<close>

inductive built :: "('l, 'e, 'u) chainimpl \<Rightarrow> bool" where
  built_new: "built chain_new"
| built_producer: "built c \<Longrightarrow> add_producer out ud mk qlen c = Some c' \<Longrightarrow> 0 < qlen \<Longrightarrow> qlen < 2 ^ 32 \<Longrightarrow> built c'"
| built_step: "built c \<Longrightarrow> chain_add_step inp out ud mk qlen c = Some c' \<Longrightarrow> 0 < qlen \<Longrightarrow> qlen < 2 ^ 32 \<Longrightarrow> built c'"
| built_consumer: "built c \<Longrightarrow> add_consumer inp ud mk c = Some c' \<Longrightarrow> built c'"
| built_nthread: "built c \<Longrightarrow> chain_nthread s n c = Some c' \<Longrightarrow> built c'"
| built_cancel: "built c \<Longrightarrow> register_cancel f c = Some c' \<Longrightarrow> built c'"
| built_cleanup: "built c \<Longrightarrow> register_cleanup f c = Some c' \<Longrightarrow> built c'"
| built_final: "built c \<Longrightarrow> built (register_final k c)"

definition queue_caps :: "('l, 'e, 'u) chainimpl \<Rightarrow> nat list" where
  "queue_caps c = map (\<lambda>q. capacity (iq_queue q)) (ch_queues c)"

definition idle :: "('l, 'e, 'u) chainimpl \<Rightarrow> bool" where
  "idle c \<longleftrightarrow> length (ch_steps c) = length (ch_queues c) + (if ch_closed c then 1 else 0)
     \<and> (\<forall>i < length (ch_queues c). queue_ok (iq_queue (ch_queues c ! i)))
     \<and> (\<forall>s < length (ch_steps c). st_nthread (ch_steps c ! s) > 0 \<and> \<not> st_haveUD (ch_steps c ! s))
     \<and> thr c = [] \<and> todo c = [] \<and> \<not> ch_running c \<and> \<not> ch_joining c \<and> ch_nthreads c = 0"

lemma queue_ok_init: "0 < n \<Longrightarrow> queue_ok (bq_init n)"
  by (auto simp: queue_ok_def bq_init_def)

lemma built_idle: "built c \<Longrightarrow> idle c"
proof (induction rule: built.induct)
  case built_new
  then show ?case by (simp add: idle_def chain_new_def)
next
  case (built_producer c out ud mk qlen c')
  then show ?case
    by (auto simp: idle_def add_producer_def internalstep_def internalq_def queue_ok_init split: if_splits)
next
  case (built_step c inp out ud mk qlen c')
  then show ?case
    by (auto simp: idle_def chain_add_step_def internalstep_def internalq_def queue_ok_init nth_append split: if_splits)
next
  case (built_consumer c inp ud mk c')
  then show ?case
    by (auto simp: idle_def add_consumer_def internalstep_def nth_append split: if_splits)
next
  case (built_nthread c s n c')
  then show ?case by (auto simp: idle_def chain_nthread_def nth_list_update split: if_splits)
next
  case (built_cancel c f c')
  then show ?case by (auto simp: idle_def register_cancel_def split: if_splits)
next
  case (built_cleanup c f c')
  then show ?case by (auto simp: idle_def register_cleanup_def split: if_splits)
next
  case (built_final c k)
  then show ?case by (simp add: idle_def register_final_def)
qed

lemma built_inv: "built c \<Longrightarrow> ch_closed c \<Longrightarrow> chain_inv c"
  using built_idle [of c]
  by (auto simp: idle_def chain_inv_def shape_def todo_ok_def threads_ok_def counters_def complete_def finals_ok_def
      active_def counts)

lemma built_reach_inv: "built c0 \<Longrightarrow> ch_closed c0 \<Longrightarrow> chain_reach prog init c0 c \<Longrightarrow> chain_inv c"
  using built_inv chain_reach_inv by blast

subsection \<open>A chain never gets stuck\<close>

definition fully_started :: "('l, 'e, 'u) chainimpl \<Rightarrow> bool" where
  "fully_started c \<longleftrightarrow> (\<forall>s < length (ch_steps c). complete c s)"

lemma stuck_thread:
  assumes "run_step prog 0 t c = None" "todo c = []" "shape c" "t < length (thr c)" "thr c ! t = (s, p)"
  shows "p = Gone \<or> (\<exists>l. p = Body l \<and>
     ((\<exists>f. prog s l = Pop f \<and> (s > 0 \<longrightarrow> enable_pop (iq_queue (ch_queues c ! (s - 1))) \<and> queue (iq_queue (ch_queues c ! (s - 1))) = []))
      \<or> (\<exists>b f. prog s l = Push b f \<and> (s < length (ch_queues c) \<longrightarrow> enable_push (iq_queue (ch_queues c ! s)) \<and>
           length (queue (iq_queue (ch_queues c ! s))) \<ge> capacity (iq_queue (ch_queues c ! s))))))"
proof (cases p)
  case (Body l)
  have "s < Suc (length (ch_queues c))" using assms(3-5) by (auto simp: shape_def)
  then have "s > 0 \<Longrightarrow> s - 1 < length (ch_queues c)" by simp
  then show ?thesis using assms(1,5) Body
    by (auto simp: run_step_def body_next_def Let_def pop_waits_def push_waits_def pop_enter_def push_enter_def
        split: action.splits if_splits prod.splits)
qed (use assms(1,2,5) in \<open>auto simp: run_step_def Let_def\<close>)

lemma not_stuck:
  assumes inv: "chain_inv c" "fully_started c" "todo c = []"
    and stuck: "\<And>t. t < length (thr c) \<Longrightarrow> run_step prog 0 t c = None"
    and typed: "\<And>l f. prog 0 l \<noteq> Pop f" "\<And>l b f. prog (length (ch_queues c)) l \<noteq> Push b f"
    and t: "t < length (thr c)"
  shows "snd (thr c ! t) = Gone"
proof -
  define push where "push s \<longleftrightarrow> (\<exists>t < length (thr c). \<exists>l b f. thr c ! t = (s, Body l) \<and> prog s l = Push b f)" for s
  define pop where "pop s \<longleftrightarrow> (\<exists>t < length (thr c). \<exists>l f. thr c ! t = (s, Body l) \<and> prog s l = Pop f)" for s
  have sh: "shape c" and cn: "counters c" using inv(1) by (auto simp: chain_inv_def)
  have stk: "p = Gone \<or> (\<exists>l. p = Body l \<and>
     ((\<exists>f. prog s l = Pop f \<and> (s > 0 \<longrightarrow> enable_pop (iq_queue (ch_queues c ! (s - 1))) \<and> queue (iq_queue (ch_queues c ! (s - 1))) = []))
      \<or> (\<exists>b f. prog s l = Push b f \<and> (s < length (ch_queues c) \<longrightarrow> enable_push (iq_queue (ch_queues c ! s)) \<and>
           length (queue (iq_queue (ch_queues c ! s))) \<ge> capacity (iq_queue (ch_queues c ! s))))))"
    if "t < length (thr c)" "thr c ! t = (s, p)" for t s p
    using stuck_thread [OF stuck [OF that(1)] inv(3) sh that] .
  have body: "push s \<or> pop s" if pos: "in_step s (thr c) > 0" for s
  proof -
    obtain t where t: "t < length (thr c)" "fst (thr c ! t) = s" "in_body (snd (thr c ! t))"
      using pos count_zero [of "\<lambda>x. fst x = s \<and> in_body (snd x)" "thr c"] unfolding in_step_def by auto
    show ?thesis using stk [OF t(1), of s "snd (thr c ! t)"] t
      by (auto simp: push_def pop_def in_body_def prod_eq_iff)
  qed
  have sig: "in_step s (thr c) > 0 \<or> (s < length (ch_queues c) \<longrightarrow> \<not> enable_push (iq_queue (ch_queues c ! s)))
      \<and> (s > 0 \<longrightarrow> \<not> enable_push (iq_queue (ch_queues c ! (s - 1))))" if "s < Suc (length (ch_queues c))" for s
  proof -
    have "complete c s" using inv(2) that sh by (simp add: fully_started_def shape_def)
    then have "st_rsa_nthread (ch_steps c ! s) = in_step s (thr c)" "signals c s"
      using cn inv(3) by (auto simp: counters_def)
    moreover have "thr c ! t \<noteq> (s, Signal_Out) \<and> thr c ! t \<noteq> (s, Signal_In)" if "t < length (thr c)" for t
      using stk [OF that, of s] by auto
    ultimately show ?thesis unfolding signals_def by (metis gr0I)
  qed
  have up: "push (Suc s)" if p: "push s" and lt: "s < length (ch_queues c)" for s
  proof -
    obtain t l b f where "t < length (thr c)" "thr c ! t = (s, Body l)" "prog s l = Push b f"
      using p by (auto simp: push_def)
    then have q: "enable_push (iq_queue (ch_queues c ! s))"
      "length (queue (iq_queue (ch_queues c ! s))) \<ge> capacity (iq_queue (ch_queues c ! s))"
      using stk lt by fastforce+
    then have ne: "queue (iq_queue (ch_queues c ! s)) \<noteq> []" using sh lt by (auto simp: shape_def queue_ok_def)
    have "in_step (Suc s) (thr c) > 0" using sig [of "Suc s"] q lt by auto
    moreover have "\<not> pop (Suc s)" using stk ne by (fastforce simp: pop_def)
    ultimately show ?thesis using body by blast
  qed
  have down: "pop (s - 1)" if p: "pop s" and lt: "s > 0" "s < Suc (length (ch_queues c))" for s
  proof -
    obtain t l f where "t < length (thr c)" "thr c ! t = (s, Body l)" "prog s l = Pop f"
      using p by (auto simp: pop_def)
    then have q: "enable_pop (iq_queue (ch_queues c ! (s - 1)))" "queue (iq_queue (ch_queues c ! (s - 1))) = []"
      using stk lt(1) by fastforce+
    moreover have s: "s - 1 < length (ch_queues c)" using lt by simp
    ultimately have e: "enable_push (iq_queue (ch_queues c ! (s - 1)))" "capacity (iq_queue (ch_queues c ! (s - 1))) > 0"
      using sh by (auto simp: shape_def queue_ok_def)
    have "in_step (s - 1) (thr c) > 0" using sig [of "s - 1"] e s by auto
    moreover have "\<not> push (s - 1)" using stk q e s by (fastforce simp: push_def)
    ultimately show ?thesis using body by blast
  qed
  have "\<not> push s" if "s \<le> length (ch_queues c)" for s
    using that
  proof (induction rule: inc_induct)
    case base
    then show ?case using typed(2) by (auto simp: push_def)
  next
    case (step n)
    then show ?case using up by auto
  qed
  moreover have "\<not> pop s" if "s < Suc (length (ch_queues c))" for s
    using that
  proof (induction s)
    case 0
    then show ?case using typed(1) by (auto simp: pop_def)
  next
    case (Suc s)
    then show ?case using down [of "Suc s"] by auto
  qed
  moreover have "fst (thr c ! t) < Suc (length (ch_queues c))" using sh t by (auto simp: shape_def)
  ultimately show ?thesis
    using stk [OF t, of "fst (thr c ! t)" "snd (thr c ! t)"] t
    by (fastforce simp: push_def pop_def prod_eq_iff)
qed

end
