(* ===== verification/ChainProps.thy ===== *)
theory ChainProps
  imports ChainRun
begin

text \<open>
  What a processing chain promises, over all the interleavings of \<open>Chain\<close>: it never gets stuck, the final functions
  run once and last, user data outlive the threads that use them, the depth that a step is told is
  that of the queues after it; and a case in which the code falls short, a producer whose threads
  cannot be created. The concrete runs that show these theorems at work come from a producer that pushes a
  few elements and a consumer that pops until there are no more.
\<close>

subsection \<open>Concrete runs\<close>

primrec run_ops :: "(nat \<Rightarrow> 'l) \<Rightarrow> 'u \<Rightarrow> bool list \<Rightarrow> ('l, 'e, 'u) chainimpl \<Rightarrow> ('l, 'e, 'u) chainimpl" where
  "run_ops init u [] c = c"
| "run_ops init u (ok # oks) c = (case todo c of [] \<Rightarrow> c
     | p # ps \<Rightarrow> run_ops init u oks (exec_op init (Some u) ok p (c\<lparr>todo := ps\<rparr>)))"

primrec play :: "(nat \<Rightarrow> 'l \<Rightarrow> ('l, 'e) action) \<Rightarrow> nat list \<Rightarrow> ('l, 'e, 'u) chainimpl \<Rightarrow> ('l, 'e, 'u) chainimpl" where
  "play prog [] c = c"
| "play prog (t # ts) c = (if t < length (thr c)
     then case run_step prog 0 t c of None \<Rightarrow> c | Some c' \<Rightarrow> play prog ts c' else c)"

lemma reach_ops: "chain_reach prog init c0 c \<Longrightarrow> chain_reach prog init c0 (run_ops init u oks c)"
  by (induction oks arbitrary: c) (auto split: list.split intro: chain_reach.more chain_step.op)

lemma reach_play: "chain_reach prog init c0 c \<Longrightarrow> chain_reach prog init c0 (play prog ts c)"
proof (induction ts arbitrary: c)
  case (Cons t ts)
  then show ?case by (auto split: option.split) (meson Cons.IH chain_reach.more chain_step.thread)
qed simp

definition pump :: "nat \<Rightarrow> nat \<Rightarrow> (nat, nat) action" where
  "pump s l = (if s = 0 then if l = 0 then Return else Push l (\<lambda>ok. if ok then l - 1 else 0)
               else if l = 0 then Pop (\<lambda>e. if e = None then 1 else 0) else Return)"

definition two_steps :: "('l, 'e, 'u) chainimpl" where
  "two_steps = register_final 9 (the (add_consumer ''b'' ''C*'' ''C*'' (the (add_producer ''b'' ''P*'' ''P*'' 1 chain_new))))"

definition pump_init :: "nat \<Rightarrow> nat \<Rightarrow> nat" where
  "pump_init n s = (if s = 0 then n else 0)"

definition started :: "(nat \<Rightarrow> 'l) \<Rightarrow> bool list \<Rightarrow> ('l, 'e, nat) chainimpl" where
  "started init oks = run_ops init 5 oks (case chain_run two_steps of Inr c \<Rightarrow> c)"

definition all_ok :: "bool list" where
  "all_ok = [True, True, True, True, True, True, True, True]"

lemmas start_simps = started_def two_steps_def add_producer_def add_consumer_def chain_new_def internalq_def
  register_final_def chain_run_def internalstep_def bq_init_def invalid_size_def start_step_def on_queue_def
  on_step_def bq_enable_def bq_resize_enable_def upt_rec Let_def pump_init_def all_ok_def

lemmas play_simps = run_step_def body_next_def pump_def set_pc_def leave_step_def leave_chain_def do_finals_def
  pop_enter_def pop_waits_def pop_finish_def pop_close_def push_enter_def push_waits_def
  push_finish_def bq_delayed_disable_def bq_disable_def

definition pump_started :: "(nat, nat, nat) chainimpl" where
  "pump_started = started (pump_init 2) all_ok"

lemma two_steps_built: "built (two_steps :: ('l, 'e, 'u) chainimpl)" "ch_closed (two_steps :: ('l, 'e, 'u) chainimpl)"
proof -
  obtain p :: "('l, 'e, 'u) chainimpl" where p: "add_producer ''b'' ''P*'' ''P*'' 1 chain_new = Some p"
    by (simp add: add_producer_def chain_new_def)
  then obtain c where c: "add_consumer ''b'' ''C*'' ''C*'' p = Some c"
    by (auto simp: add_producer_def add_consumer_def chain_new_def internalq_def)
  have "built p" by (rule built_producer [OF built_new p]) simp_all
  then have "built (register_final 9 c)" by (intro built_final built_consumer [OF _ c])
  then show "built (two_steps :: ('l, 'e, 'u) chainimpl)" using p c by (simp add: two_steps_def)
qed (simp add: start_simps)

lemma two_steps_run: "chain_run two_steps = Inr (case chain_run two_steps of Inr c \<Rightarrow> c)"
  by (simp add: start_simps)

lemma started_reach: "chain_reach prog init two_steps (started init oks)"
  unfolding started_def
  by (intro reach_ops chain_reach.more [OF chain_reach.here] chain_step.run [OF _ two_steps_run]) (simp add: start_simps)

subsection \<open>The depth of the queues\<close>

text \<open>
  The depth that a step is told is the number of elements that can be on their way after it: the capacities of its
  output queue and of the queues further on, and one element in the hands of each intermediate step after it.
\<close>

definition depth_ok :: "('l, 'e, 'u) chainimpl \<Rightarrow> bool" where
  "depth_ok c \<longleftrightarrow> length (ch_steps c) = length (ch_queues c) + (if ch_closed c then 1 else 0)
     \<and> (\<forall>i < length (ch_queues c). st_qdepth (ch_steps c ! i)
          = (sum_list (drop i (queue_caps c)) + (length (ch_queues c) - Suc i)) mod 2 ^ 32)"

lemma depth_frame:
  assumes "depth_ok c" "length (ch_steps c') = length (ch_steps c)"
    "\<And>i. st_qdepth (ch_steps c' ! i) = st_qdepth (ch_steps c ! i)"
    "ch_queues c' = ch_queues c" "ch_closed c' = ch_closed c"
  shows "depth_ok c'"
  using assms(1) by (simp add: depth_ok_def queue_caps_def assms(2-5))

lemma depth_step:
  assumes "depth_ok c" "chain_add_step inp out ud mk qlen c = Some c'" "qlen < 2 ^ 32"
  shows "depth_ok c'"
proof -
  have c: "\<not> ch_closed c" and c': "ch_queues c' = ch_queues c @ [internalq out qlen]" "ch_closed c' = ch_closed c"
    "ch_steps c' = map (\<lambda>s. s\<lparr>st_qdepth := u32_add (st_qdepth s) (u32_add qlen 1)\<rparr>) (ch_steps c)
       @ [internalstep ud (length (ch_steps c)) qlen True]"
    using assms(2) by (auto simp: chain_add_step_def split: if_splits)
  have len: "length (ch_steps c) = length (ch_queues c)" using assms(1) c by (simp add: depth_ok_def)
  have caps: "queue_caps c' = queue_caps c @ [qlen]" "length (queue_caps c) = length (ch_queues c)"
    by (simp_all add: queue_caps_def c' internalq_def bq_init_def)
  have "st_qdepth (ch_steps c' ! i)
      = (sum_list (drop i (queue_caps c')) + (length (ch_queues c') - Suc i)) mod 2 ^ 32"
    if i: "i < length (ch_queues c')" for i
  proof (cases "i < length (ch_queues c)")
    case True
    let ?x = "sum_list (drop i (queue_caps c)) + (length (ch_queues c) - Suc i)"
    have "st_qdepth (ch_steps c' ! i) = u32_add (?x mod 2 ^ 32) (u32_add qlen 1)"
      using True assms(1) len by (simp add: depth_ok_def c' nth_append)
    also have "\<dots> = (?x + (qlen + 1)) mod 2 ^ 32"
      unfolding u32_add_def by (rule mod_add_eq)
    also have "?x + (qlen + 1) = sum_list (drop i (queue_caps c')) + (length (ch_queues c') - Suc i)"
      using True by (simp add: caps c')
    finally show ?thesis .
  next
    case False
    then have "i = length (ch_queues c)" using i by (simp add: c')
    then show ?thesis using assms(3) len by (simp add: c' caps nth_append internalstep_def)
  qed
  then show ?thesis using len c c' by (simp add: depth_ok_def)
qed

theorem qdepth_counts_downstream:
  assumes "built c" "i < length (ch_queues c)"
  shows "st_qdepth (ch_steps c ! i)
    = (sum_list (drop i (queue_caps c)) + (length (ch_queues c) - Suc i)) mod 2 ^ 32"
proof -
  have "depth_ok c" using assms(1)
  proof (induction rule: built.induct)
    case built_new
    then show ?case by (simp add: depth_ok_def chain_new_def)
  next
    case (built_producer c out ud mk qlen c')
    then show ?case
      by (auto simp: depth_ok_def add_producer_def internalstep_def internalq_def queue_caps_def bq_init_def
          split: if_splits)
  next
    case (built_step c inp out ud mk qlen c')
    then show ?case using depth_step by blast
  next
    case (built_consumer c inp ud mk c')
    then show ?case
      by (auto simp: depth_ok_def add_consumer_def queue_caps_def nth_append split: if_splits)
  next
    case (built_nthread c s n c')
    then show ?case
      by (auto simp: chain_nthread_def nth_update_same [of st_qdepth] split: if_splits intro: depth_frame [of c])
  next
    case (built_cancel c f c')
    then show ?case by (auto simp: register_cancel_def split: if_splits intro: depth_frame [of c])
  next
    case (built_cleanup c f c')
    then show ?case by (auto simp: register_cleanup_def split: if_splits intro: depth_frame [of c])
  next
    case (built_final c k)
    then show ?case by (auto simp: register_final_def intro: depth_frame [of c])
  qed
  then show ?thesis using assms(2) by (simp add: depth_ok_def)
qed

theorem qdepth_counts_downstream_witness:
  "st_qdepth (ch_steps (two_steps :: (nat, nat, nat) chainimpl) ! 0) = 1"
  using qdepth_counts_downstream [OF two_steps_built(1), of 0]
  by (simp add: start_simps queue_caps_def)

subsection \<open>Shutting down\<close>

text \<open>
  When the last thread of a step has signalled, neither the queue before the step nor the one after it
  takes another element: the end of a step travels both ways along the chain.
\<close>

lemma ended_step_signals:
  assumes "built c0" "ch_closed c0" "chain_reach prog init c0 c" "complete c s" "todo c = []"
    and "\<And>t. t < length (thr c) \<Longrightarrow> fst (thr c ! t) = s \<Longrightarrow> snd (thr c ! t) \<in> {Leave_Chain, Do_Finals, Gone}"
  shows "(s < length (ch_queues c) \<longrightarrow> \<not> enable_push (iq_queue (ch_queues c ! s)))
    \<and> (s > 0 \<longrightarrow> \<not> enable_push (iq_queue (ch_queues c ! (s - 1))))"
proof -
  have "in_step s (thr c) = 0"
    using assms(6) by (fastforce simp: in_step_def count_zero in_body_def)
  moreover have "counters c" using built_reach_inv [OF assms(1-3)] by (simp add: chain_inv_def)
  ultimately have "st_rsa_nthread (ch_steps c ! s) = 0" "signals c s"
    using assms(4,5) by (auto simp: counters_def)
  then show ?thesis using assms(6) unfolding signals_def by fastforce
qed



text \<open>C6: The final functions run once and last. While a chain is running and a thread has not left it yet, none of them has been
  called; when all threads have ended, each has been called once, in the order of registration.
\<close>

theorem chain_finals_once:
  assumes "built c0" "ch_closed c0" "chain_reach prog init c0 c" "ch_running c" "made c > 0"
  shows "((\<exists>t < length (thr c). \<not> past_chain (snd (thr c ! t))) \<longrightarrow> finals_done c = [])
    \<and> ((\<forall>t < length (thr c). snd (thr c ! t) = Gone) \<longrightarrow> finals_done c = ch_finals c)"
proof -
  have inv: "counters c" "finals_ok c" using built_reach_inv [OF assms(1-3)] by (auto simp: chain_inv_def)
  have "finals_done c = []" if "\<exists>t < length (thr c). \<not> past_chain (snd (thr c ! t))"
  proof -
    have "ch_nthreads c > 0" using that alive_made [OF inv(1)] by blast
    then show ?thesis using inv(2) assms(4) by (simp add: finals_ok_def)
  qed
  moreover have "\<forall>t < length (thr c). snd (thr c ! t) = Gone \<Longrightarrow> finals_done c = ch_finals c"
    using gone_counts [of "thr c"] inv assms(4,5) by (auto simp: finals_ok_def counters_def)
  ultimately show ?thesis by blast
qed

text \<open>A producer with nothing to push: it and its consumer end, with the signal of the producer on the way.\<close>

definition pump_ended :: "(nat, nat, nat) chainimpl" where
  "pump_ended = play pump [1, 1, 1, 1, 1, 0, 0, 0, 0, 0, 0, 0] (started (pump_init 0) all_ok)"

theorem chain_finals_once_witness:
  "thr pump_ended = [(1, Gone), (0, Gone)] \<and> finals_done pump_ended = [9]"
proof -
  have s: "thr pump_ended = [(1, Gone), (0, Gone)]" "ch_running pump_ended" "made pump_ended > 0" "ch_finals pump_ended = [9]"
    by (simp_all add: pump_ended_def start_simps play_simps)
  have "chain_reach pump (pump_init 0) two_steps pump_ended"
    unfolding pump_ended_def by (intro reach_play started_reach)
  then show ?thesis using chain_finals_once [OF two_steps_built _ s(2,3)] s
    by (auto simp: less_Suc_eq)
qed

text \<open>C7: As long as a thread has not ended, the pointer to the user data of its step that it was given points to memory that has not
  been freed.
\<close>

theorem chain_userdata_alive:
  assumes "built c0" "ch_closed c0" "chain_reach prog init c0 c"
    and "t < length (thr c)" "snd (thr c ! t) \<noteq> Gone"
  shows "\<exists>a u. sy_userdata (ch_steps c ! fst (thr c ! t)) = Some a \<and> heap c a = Some u"
proof -
  have "threads_ok c" "shape c" using built_reach_inv [OF assms(1-3)] by (simp_all add: chain_inv_def)
  then have "has_userdata c (fst (thr c ! t))" using assms(4,5) unfolding threads_ok_def shape_def by blast
  then show ?thesis by (auto simp: has_userdata_def)
qed

theorem chain_userdata_alive_witness:
  "\<exists>a u. sy_userdata (ch_steps pump_started ! 1) = Some a \<and> heap pump_started a = Some u"
proof -
  have "chain_reach pump (pump_init 2) two_steps pump_started"
    unfolding pump_started_def by (rule started_reach)
  moreover have "0 < length (thr pump_started)" "thr pump_started ! 0 = (1, Body 0)"
    by (simp_all add: pump_started_def start_simps)
  ultimately show ?thesis
    using chain_userdata_alive [OF two_steps_built, of pump "pump_init 2" pump_started 0] by simp
qed

subsection \<open>Where the code falls short\<close>

text \<open>C39: When the thread of a producer cannot be created, \<open>run\<close> does not notice: the loop that creates the
  threads has passed the first step when it ends, which is what is tested. The chain is running, nothing is
  left to do, and if its consumer begins by popping then it can never move, and \<open>wait\<close> never returns.
\<close>

theorem producer_failure_unnoticed:
  assumes "prog 1 (init 1) = Pop f"
  shows "\<exists>c :: ('l, 'e, nat) chainimpl. chain_reach prog init two_steps c \<and> ch_running c \<and> todo c = []
     \<and> thr c = [(1, Body (init 1))] \<and> (\<forall>x. run_step prog x 0 c = None) \<and> ch_joining (join_enter c)
     \<and> \<not> can_join (join_enter c)"
proof (intro exI conjI)
  let ?c = "started init [True, True, True, True, True, False, True]"
  show "chain_reach prog init two_steps ?c" by (rule started_reach)
  show "\<forall>x. run_step prog x 0 ?c = None"
    using assms by (simp add: start_simps run_step_def body_next_def pop_enter_def pop_waits_def)
  show "\<not> can_join (join_enter ?c)" by (simp add: start_simps join_enter_def can_join_def)
qed (simp_all add: start_simps join_enter_def)

theorem producer_failure_unnoticed_witness:
  "\<exists>c :: (nat, nat, nat) chainimpl. chain_reach pump (pump_init 2) two_steps c \<and> ch_running c \<and> todo c = []
     \<and> thr c = [(1, Body 0)] \<and> (\<forall>x. run_step pump x 0 c = None) \<and> ch_joining (join_enter c)
     \<and> \<not> can_join (join_enter c)"
  using producer_failure_unnoticed [of pump "pump_init 2"] by (simp add: pump_def pump_init_def)


lemma run_after_join: "ch_closed c \<Longrightarrow> \<exists>c'. chain_run (join_finish c) = Inr c'"
  by (cases rule: join_finish_cases [of c]) (simp_all add: chain_run_def)


end
