(* ===== verification/Blocks.thy ===== *)
theory Blocks
  imports JPrelude "HOL-Library.Multiset"
begin

text \<open>
  Memory blocks, from \<open>src/src/block.cc\<close> and \<open>src/src/blockpool.cc\<close>: reference counted blocks, the pools they
  are taken from, and the garbage can for pools that are destroyed while blocks of them are in use.
\<close>

subsection \<open>Blocks, pools and the memory\<close>

text \<open>Which counter a block uses: that of all default blocks, one of a pool, or the one allocated with its
  own memory. Memory is a region and an offset in it; \<open>None\<close> is the null pointer.\<close>

datatype counter_ref = Dummy_Count | Pool_Count nat nat | Own_Count nat
datatype region = Pool_Region nat | Own_Region nat

record block =
  iov_base :: "(region \<times> nat) option"
  iov_len :: nat
  myMemory :: bool
  refcountptr :: counter_ref

record pool_type =
  next_alloc :: nat
  use_cnt :: "nat list"
  nblock :: nat
  block_size :: nat

record own_memory =
  om_count :: nat
  om_freed :: bool

record blockpool_type =
  bp_pools :: "nat list"
  curpool :: nat
  blocksize :: nat
  nblock_p_pool :: nat

text \<open>Everything that was ever allocated, the garbage can, the pools deleted, the block pools (\<open>None\<close> when
  destroyed) and all block objects of the program.\<close>

record memory =
  m_pools :: "pool_type list"
  m_own :: "own_memory list"
  m_dummy :: nat
  m_garbagecan :: "nat list"
  m_deleted :: "nat list"
  m_blockpools :: "blockpool_type option list"
  m_live :: "block list"

definition memory_start :: memory where
  "memory_start = \<lparr>m_pools = [], m_own = [], m_dummy = 1, m_garbagecan = [], m_deleted = [], m_blockpools = [], m_live = []\<rparr>"

subsection \<open>Reference counts\<close>

definition update_count :: "(nat \<Rightarrow> nat) \<Rightarrow> counter_ref \<Rightarrow> memory \<Rightarrow> memory" where
  "update_count f c m = (case c of
       Dummy_Count \<Rightarrow> m\<lparr>m_dummy := f (m_dummy m)\<rparr>
     | Pool_Count p i \<Rightarrow>
         m\<lparr>m_pools := (m_pools m)[p := (m_pools m ! p)\<lparr>use_cnt := (use_cnt (m_pools m ! p))[i := f (use_cnt (m_pools m ! p) ! i)]\<rparr>]\<rparr>
     | Own_Count k \<Rightarrow> m\<lparr>m_own := (m_own m)[k := (m_own m ! k)\<lparr>om_count := f (om_count (m_own m ! k))\<rparr>]\<rparr>)"

definition count_of :: "memory \<Rightarrow> counter_ref \<Rightarrow> nat" where
  "count_of m c = (case c of Dummy_Count \<Rightarrow> m_dummy m | Pool_Count p i \<Rightarrow> use_cnt (m_pools m ! p) ! i | Own_Count k \<Rightarrow> om_count (m_own m ! k))"

definition INC :: "counter_ref \<Rightarrow> memory \<Rightarrow> memory" where
  "INC = update_count (\<lambda>n. u32_add n 1)"

definition DEC :: "counter_ref \<Rightarrow> memory \<Rightarrow> memory" where
  "DEC = update_count (\<lambda>n. u32_sub n 1)"

definition free_count :: "counter_ref \<Rightarrow> memory \<Rightarrow> memory" where
  "free_count c m = (case c of Own_Count k \<Rightarrow> m\<lparr>m_own := (m_own m)[k := (m_own m ! k)\<lparr>om_freed := True\<rparr>]\<rparr> | _ \<Rightarrow> m)"

text \<open>The destructor, and the end of the assignment operator: \<open>DEC\<close>, then \<open>free\<close> when the count is 0.\<close>

definition release :: "block \<Rightarrow> memory \<Rightarrow> memory" where
  "release b m0 = (let m = DEC (refcountptr b) m0
     in if myMemory b \<and> count_of m (refcountptr b) = 0 then free_count (refcountptr b) m else m)"

subsection \<open>Blocks\<close>

definition block_empty :: "block \<Rightarrow> bool" where
  "block_empty b \<longleftrightarrow> iov_base b = None \<and> iov_len b = 0"

definition default_block :: block where
  "default_block = \<lparr>iov_base = None, iov_len = 0, myMemory = False, refcountptr = Dummy_Count\<rparr>"

definition add_live :: "block \<Rightarrow> memory \<Rightarrow> memory" where
  "add_live b m = m\<lparr>m_live := m_live m @ [b]\<rparr>"

text \<open>The default constructor does not count, the destructor does: the dummy counter goes astray.\<close>

definition block_default :: "memory \<Rightarrow> memory" where
  "block_default m = add_live default_block m"

definition block_malloc :: "nat \<Rightarrow> memory \<Rightarrow> memory" where
  "block_malloc sz m =
     (let k = length (m_own m)
      in add_live \<lparr>iov_base = Some (Own_Region k, 0), iov_len = sz, myMemory = True, refcountptr = Own_Count k\<rparr>
           (m\<lparr>m_own := m_own m @ [\<lparr>om_count = 1, om_freed = False\<rparr>]\<rparr>))"

definition block_copy :: "nat \<Rightarrow> memory \<Rightarrow> memory" where
  "block_copy i m = (let other = m_live m ! i in add_live other (INC (refcountptr other) m))"

definition block_assign :: "nat \<Rightarrow> nat \<Rightarrow> memory \<Rightarrow> memory" where
  "block_assign i j m =
     (if i = j then m
      else let this = m_live m ! i; other = m_live m ! j; m' = release this (INC (refcountptr other) m)
           in m'\<lparr>m_live := (m_live m')[i := other]\<rparr>)"

text \<open>\<open>offset\<close> and \<open>length\<close> are \<open>unsigned int\<close>, and so is their sum.\<close>

definition block_sub :: "nat \<Rightarrow> nat \<Rightarrow> nat \<Rightarrow> memory \<Rightarrow> memory option" where
  "block_sub i offset len m =
     (let b = m_live m ! i
      in if \<not> u32_add offset len \<le> iov_len b then None
         else Some (add_live \<lparr>iov_base = map_option (\<lambda>(r, off). (r, off + offset)) (iov_base b), iov_len = len,
                              myMemory = myMemory b, refcountptr = refcountptr b\<rparr> (INC (refcountptr b) m)))"

definition block_destroy :: "nat \<Rightarrow> memory \<Rightarrow> memory" where
  "block_destroy i m = (let m' = release (m_live m ! i) m in m'\<lparr>m_live := take i (m_live m') @ drop (Suc i) (m_live m')\<rparr>)"

subsection \<open>Pools\<close>

definition try_delete :: "memory \<Rightarrow> nat \<Rightarrow> bool" where
  "try_delete m p = (sum_list (use_cnt (m_pools m ! p)) mod 2 ^ 32 = 0)"

definition check_garbage :: "memory \<Rightarrow> memory" where
  "check_garbage m =
     m\<lparr>m_garbagecan := filter (\<lambda>p. \<not> try_delete m p) (m_garbagecan m),
       m_deleted := m_deleted m @ filter (try_delete m) (m_garbagecan m)\<rparr>"

definition maybe_add_to_can :: "nat \<Rightarrow> memory \<Rightarrow> memory" where
  "maybe_add_to_can p m0 =
     (let m = check_garbage m0
      in if try_delete m p then m\<lparr>m_deleted := m_deleted m @ [p]\<rparr> else m\<lparr>m_garbagecan := m_garbagecan m @ [p]\<rparr>)"

text \<open>The constructor; \<open>None\<close> when an assertion fails.\<close>

definition pool_new :: "nat \<Rightarrow> nat \<Rightarrow> memory \<Rightarrow> (nat \<times> memory) option" where
  "pool_new bs nb m0 =
     (let m = check_garbage m0
      in if \<not> (nb > 0 \<and> bs > 0) then None
         else if \<not> (nb * bs + 16 \<le> 2 ^ 32 - 1) then None
         else Some (length (m_pools m),
                m\<lparr>m_pools := m_pools m @ [\<lparr>next_alloc = 0, use_cnt = replicate nb 0, nblock = nb, block_size = bs\<rparr>]\<rparr>))"

text \<open>The loop of \<open>get\<close>, for at most as many rounds as there are blocks: the slot set from 0 to 1, and
  the next one to try.\<close>

fun get_loop :: "nat \<Rightarrow> pool_type \<Rightarrow> nat \<Rightarrow> nat option \<times> pool_type" where
  "get_loop 0 pl previous_next = (None, pl)"
| "get_loop (Suc k) pl previous_next =
     (let i = next_alloc pl; nxt = (i + 1) mod nblock pl
      in if use_cnt pl ! i = 0 then (Some i, pl\<lparr>use_cnt := (use_cnt pl)[i := 1], next_alloc := nxt\<rparr>)
         else if nxt = previous_next then (None, pl\<lparr>next_alloc := nxt\<rparr>)
         else get_loop k (pl\<lparr>next_alloc := nxt\<rparr>) previous_next)"

definition pool_get :: "nat \<Rightarrow> memory \<Rightarrow> block \<times> memory" where
  "pool_get p m =
     (let (c, pl) = get_loop (nblock (m_pools m ! p)) (m_pools m ! p) (next_alloc (m_pools m ! p));
          m' = m\<lparr>m_pools := (m_pools m)[p := pl]\<rparr>
      in case c of None \<Rightarrow> (default_block, m')
         | Some i \<Rightarrow> (\<lparr>iov_base = Some (Pool_Region p, i * block_size pl), iov_len = block_size pl, myMemory = False,
                       refcountptr = Pool_Count p i\<rparr>, m'))"

definition blockpool_new :: "nat \<Rightarrow> nat \<Rightarrow> memory \<Rightarrow> memory option" where
  "blockpool_new bs nb m =
     (if \<not> (bs > 0 \<and> nb > 0) then None
      else map_option (\<lambda>(p, m'). m'\<lparr>m_blockpools := m_blockpools m' @
                            [Some \<lparr>bp_pools = [p], curpool = 0, blocksize = bs, nblock_p_pool = nb\<rparr>]\<rparr>)
             (pool_new bs nb m))"

text \<open>The loop over the pools, at most once around.\<close>

fun blockpool_loop :: "nat \<Rightarrow> blockpool_type \<Rightarrow> nat \<Rightarrow> memory \<Rightarrow> block \<times> blockpool_type \<times> memory" where
  "blockpool_loop 0 bp oldcurpool m = (default_block, bp, m)"
| "blockpool_loop (Suc k) bp oldcurpool m =
     (let (rv, m') = pool_get (bp_pools bp ! curpool bp) m; nxt = (curpool bp + 1) mod length (bp_pools bp)
      in if \<not> block_empty rv then (rv, bp, m')
         else if nxt = oldcurpool then (rv, bp\<lparr>curpool := nxt\<rparr>, m')
         else blockpool_loop k (bp\<lparr>curpool := nxt\<rparr>) oldcurpool m')"

definition blockpool_get :: "nat \<Rightarrow> memory \<Rightarrow> memory option" where
  "blockpool_get b m0 =
     (case m_blockpools m0 ! b of None \<Rightarrow> None
      | Some bp0 \<Rightarrow>
          let (rv, bp, m) = blockpool_loop (length (bp_pools bp0)) bp0 (curpool bp0) m0
          in if \<not> block_empty rv then Some (add_live rv (m\<lparr>m_blockpools := (m_blockpools m)[b := Some bp]\<rparr>))
             else map_option (\<lambda>(p, m'). let (rv', m'') = pool_get p m'
                    in add_live rv' (m''\<lparr>m_blockpools := (m_blockpools m'')[b :=
                         Some (bp\<lparr>bp_pools := bp_pools bp @ [p], curpool := length (bp_pools bp)\<rparr>)]\<rparr>))
                  (pool_new (blocksize bp) (nblock_p_pool bp) m))"

definition blockpool_delete :: "nat \<Rightarrow> memory \<Rightarrow> memory option" where
  "blockpool_delete b m =
     (case m_blockpools m ! b of None \<Rightarrow> None
      | Some bp \<Rightarrow> Some ((fold maybe_add_to_can (bp_pools bp) m)\<lparr>m_blockpools := (m_blockpools m)[b := None]\<rparr>))"

subsection \<open>Runs\<close>

datatype mem_op = Op_Blockpool nat nat | Op_Get nat | Op_Delete nat | Op_Default | Op_Malloc nat | Op_Copy nat
  | Op_Assign nat nat | Op_Sub nat nat nat | Op_Destroy nat

definition mem_exec :: "mem_op \<Rightarrow> memory \<Rightarrow> memory option" where
  "mem_exec op m = (case op of
       Op_Blockpool bs nb \<Rightarrow> blockpool_new bs nb m
     | Op_Get b \<Rightarrow> if b < length (m_blockpools m) then blockpool_get b m else None
     | Op_Delete b \<Rightarrow> if b < length (m_blockpools m) then blockpool_delete b m else None
     | Op_Default \<Rightarrow> Some (block_default m)
     | Op_Malloc sz \<Rightarrow> Some (block_malloc sz m)
     | Op_Copy i \<Rightarrow> if i < length (m_live m) then Some (block_copy i m) else None
     | Op_Assign i j \<Rightarrow> if i < length (m_live m) \<and> j < length (m_live m) then Some (block_assign i j m) else None
     | Op_Sub i offset len \<Rightarrow> if i < length (m_live m) then block_sub i offset len m else None
     | Op_Destroy i \<Rightarrow> if i < length (m_live m) then Some (block_destroy i m) else None)"

text \<open>The runs of a program that has fewer than \<open>2 ^ 32 - 1\<close> block objects and whose slices do not ask for more
  than 4 GB.\<close>

definition op_bounded :: "mem_op \<Rightarrow> memory \<Rightarrow> bool" where
  "op_bounded op m \<longleftrightarrow> length (m_live m) < 2 ^ 32 - 1 \<and> (case op of Op_Sub i offset len \<Rightarrow> offset + len < 2 ^ 32 | _ \<Rightarrow> True)"

inductive mem_reachable :: "memory \<Rightarrow> bool" where
  start: "mem_reachable memory_start"
| step: "mem_reachable m \<Longrightarrow> op_bounded op m \<Longrightarrow> mem_exec op m = Some m' \<Longrightarrow> mem_reachable m'"

subsection \<open>The invariant\<close>

text \<open>How many blocks use a counter.\<close>

definition refs :: "memory \<Rightarrow> counter_ref \<Rightarrow> nat" where
  "refs m c = length (filter (\<lambda>b. refcountptr b = c) (m_live m))"

definition counter_valid :: "memory \<Rightarrow> counter_ref \<Rightarrow> bool" where
  "counter_valid m c = (case c of Dummy_Count \<Rightarrow> False
     | Pool_Count p i \<Rightarrow> p < length (m_pools m) \<and> i < nblock (m_pools m ! p)
     | Own_Count k \<Rightarrow> k < length (m_own m))"

text \<open>The block lies in the slot or the memory whose counter it uses.\<close>

definition block_ok :: "memory \<Rightarrow> block \<Rightarrow> bool" where
  "block_ok m b = (case refcountptr b of
       Dummy_Count \<Rightarrow> iov_base b = None \<and> iov_len b = 0 \<and> \<not> myMemory b
     | Pool_Count p i \<Rightarrow> counter_valid m (Pool_Count p i) \<and> \<not> myMemory b
         \<and> (\<exists>off. iov_base b = Some (Pool_Region p, off) \<and> i * block_size (m_pools m ! p) \<le> off
              \<and> off + iov_len b \<le> Suc i * block_size (m_pools m ! p))
     | Own_Count k \<Rightarrow> counter_valid m (Own_Count k) \<and> myMemory b \<and> (\<exists>off. iov_base b = Some (Own_Region k, off)))"

definition pool_ok :: "pool_type \<Rightarrow> bool" where
  "pool_ok pl \<longleftrightarrow> length (use_cnt pl) = nblock pl \<and> next_alloc pl < nblock pl \<and> 0 < block_size pl"

definition pools_of :: "blockpool_type option \<Rightarrow> nat list" where
  "pools_of b = (case b of None \<Rightarrow> [] | Some bp \<Rightarrow> bp_pools bp)"

definition managed :: "memory \<Rightarrow> nat list" where
  "managed m = concat (map pools_of (m_blockpools m))"

definition counts_exact :: "memory \<Rightarrow> bool" where
  "counts_exact m \<longleftrightarrow> (\<forall>c. counter_valid m c \<longrightarrow> count_of m c = refs m c)
     \<and> (\<forall>k < length (m_own m). om_freed (m_own m ! k) \<longleftrightarrow> refs m (Own_Count k) = 0)"

definition pools_ok :: "memory \<Rightarrow> bool" where
  "pools_ok m \<longleftrightarrow> (\<forall>pl \<in> set (m_pools m). pool_ok pl)
     \<and> distinct (m_garbagecan m @ m_deleted m @ managed m)
     \<and> set (m_garbagecan m @ m_deleted m @ managed m) \<subseteq> {..<length (m_pools m)}
     \<and> (\<forall>p \<in> set (m_deleted m). \<forall>i. refs m (Pool_Count p i) = 0)
     \<and> (\<forall>bp. Some bp \<in> set (m_blockpools m) \<longrightarrow> curpool bp < length (bp_pools bp))"

definition mem_inv :: "memory \<Rightarrow> bool" where
  "mem_inv m \<longleftrightarrow> counts_exact m \<and> pools_ok m \<and> (\<forall>b \<in> set (m_live m). block_ok m b)"

subsection \<open>Counting\<close>

text \<open>Changing a counter changes nothing else.\<close>

definition same_shape :: "memory \<Rightarrow> memory \<Rightarrow> bool" where
  "same_shape m m' \<longleftrightarrow> length (m_pools m') = length (m_pools m) \<and> length (m_own m') = length (m_own m)
     \<and> (\<forall>p < length (m_pools m). nblock (m_pools m' ! p) = nblock (m_pools m ! p) \<and> block_size (m_pools m' ! p) = block_size (m_pools m ! p)
          \<and> (pool_ok (m_pools m ! p) \<longrightarrow> pool_ok (m_pools m' ! p)))
     \<and> m_garbagecan m' = m_garbagecan m \<and> m_deleted m' = m_deleted m \<and> m_blockpools m' = m_blockpools m"

lemma nth_list_update': "xs[i := x] ! j = (if i = j \<and> j < length xs then x else xs ! j)"
  by (cases "i = j"; cases "j < length xs") (simp_all add: list_update_beyond)

lemma same_shape_refl [simp]: "same_shape m m"
  by (simp add: same_shape_def)

lemma same_shape_trans: "same_shape m m' \<Longrightarrow> same_shape m' m'' \<Longrightarrow> same_shape m m''"
  by (simp add: same_shape_def)

lemma same_shape_update_count: "same_shape m (update_count f c m)"
  by (cases c) (auto simp: same_shape_def update_count_def nth_list_update' pool_ok_def)

lemma same_shape_free: "same_shape m (free_count c m)"
  by (cases c) (auto simp: same_shape_def free_count_def)

lemma same_shape_live [simp]: "same_shape m (m'\<lparr>m_live := l\<rparr>) = same_shape m m'"
  by (simp add: same_shape_def)

lemma counter_valid_same: "same_shape m m' \<Longrightarrow> counter_valid m' c = counter_valid m c"
  by (cases c) (auto simp: same_shape_def counter_valid_def)

lemma block_ok_same: "same_shape m m' \<Longrightarrow> block_ok m' b = block_ok m b"
  using counter_valid_same [of m m'] by (cases "refcountptr b") (auto simp: block_ok_def same_shape_def counter_valid_def)

lemma count_of_update:
  assumes "counter_valid m c \<or> c = Dummy_Count" "\<forall>pl \<in> set (m_pools m). pool_ok pl"
  shows "count_of (update_count f c m) c' = (if c' = c then f (count_of m c) else count_of m c')"
  using assms by (cases c; cases c') (auto simp: update_count_def count_of_def counter_valid_def nth_list_update pool_ok_def)

lemma live_update [simp]: "m_live (update_count f c m) = m_live m" "m_live (free_count c m) = m_live m"
  by (cases c; simp add: update_count_def free_count_def)+

lemma freed_update [simp]: "om_freed (m_own (update_count f c m) ! k) = om_freed (m_own m ! k)"
  by (cases c) (auto simp: update_count_def nth_list_update')

lemma count_of_free [simp]: "count_of (free_count c m) c' = count_of m c'"
  by (cases c; cases c') (auto simp: free_count_def count_of_def nth_list_update')

lemma freed_free:
  "k < length (m_own m) \<Longrightarrow> om_freed (m_own (free_count c m) ! k) = (c = Own_Count k \<or> om_freed (m_own m ! k))"
  by (cases c) (auto simp: free_count_def nth_list_update')

lemma refs_count: "refs m c = count (mset (map refcountptr (m_live m))) c"
proof -
  have "length (filter (\<lambda>b. refcountptr b = c) bs) = count (mset (map refcountptr bs)) c" for bs :: "block list"
    by (induction bs) auto
  then show ?thesis by (simp add: refs_def)
qed

lemma refs_deleted: "pools_ok m \<Longrightarrow> p \<in> set (m_deleted m) \<Longrightarrow> refs m (Pool_Count p i) = 0"
  by (simp add: pools_ok_def)

lemma pool_count_exact:
  assumes "counts_exact m" "p < length (m_pools m)" "i < nblock (m_pools m ! p)"
  shows "use_cnt (m_pools m ! p) ! i = refs m (Pool_Count p i)"
proof -
  have "counter_valid m (Pool_Count p i)" using assms(2,3) by (simp add: counter_valid_def)
  then have "count_of m (Pool_Count p i) = refs m (Pool_Count p i)" using assms(1) by (simp add: counts_exact_def)
  then show ?thesis by (simp add: count_of_def)
qed

lemma refs_le: "refs m c \<le> length (m_live m)"
  by (simp add: refs_def)

lemma refs_add_live: "refs (add_live b m) c = refs m c + (if refcountptr b = c then 1 else 0)"
  by (simp add: refs_def add_live_def)

lemma block_ok_counter: "block_ok m b \<Longrightarrow> counter_valid m (refcountptr b) \<or> refcountptr b = Dummy_Count"
  by (cases "refcountptr b") (auto simp: block_ok_def)

lemma block_ok_own: "block_ok m b \<Longrightarrow> myMemory b \<longleftrightarrow> (\<exists>k. refcountptr b = Own_Count k)"
  by (cases "refcountptr b") (auto simp: block_ok_def)

subsection \<open>The operations on blocks keep the invariant\<close>

lemma mem_invD:
  assumes "mem_inv m"
  shows "counts_exact m" "pools_ok m" "b \<in> set (m_live m) \<Longrightarrow> block_ok m b" "\<forall>pl \<in> set (m_pools m). pool_ok pl"
  using assms by (auto simp: mem_inv_def pools_ok_def)

text \<open>The pools stay in order when only counters change and no block of a deleted pool appears.\<close>

lemma pools_ok_same:
  assumes "pools_ok m" "same_shape m m'" "\<And>p i. p \<in> set (m_deleted m) \<Longrightarrow> refs m' (Pool_Count p i) = 0"
  shows "pools_ok m'"
proof -
  have s: "m_garbagecan m' = m_garbagecan m" "m_deleted m' = m_deleted m" "m_blockpools m' = m_blockpools m"
    "length (m_pools m') = length (m_pools m)" using assms(2) by (simp_all add: same_shape_def)
  have "pool_ok pl" if pl: "pl \<in> set (m_pools m')" for pl
  proof -
    obtain p where p: "p < length (m_pools m')" "pl = m_pools m' ! p" using pl by (auto simp: in_set_conv_nth)
    then have "pool_ok (m_pools m ! p)" using assms(1) s(4) by (simp add: pools_ok_def)
    then show ?thesis using assms(2) p s(4) by (simp add: same_shape_def)
  qed
  then show ?thesis using assms(1,3) s by (simp add: pools_ok_def managed_def)
qed

lemma pools_ok_cong:
  assumes "pools_ok m" "m_pools m' = m_pools m" "m_garbagecan m' = m_garbagecan m" "m_deleted m' = m_deleted m"
    "m_blockpools m' = m_blockpools m" "\<And>p i. p \<in> set (m_deleted m) \<Longrightarrow> refs m' (Pool_Count p i) = 0"
  shows "pools_ok m'"
  using assms by (simp add: pools_ok_def managed_def)

lemma INC_facts:
  assumes "mem_inv m" "counter_valid m c \<or> c = Dummy_Count" "length (m_live m) < 2 ^ 32 - 1"
  shows "counter_valid m c' \<Longrightarrow> count_of (INC c m) c' = refs m c' + (if c' = c then 1 else 0)"
    "same_shape m (INC c m)" "m_live (INC c m) = m_live m" "om_freed (m_own (INC c m) ! k) = om_freed (m_own m ! k)"
proof -
  show "count_of (INC c m) c' = refs m c' + (if c' = c then 1 else 0)" if "counter_valid m c'"
  proof -
    have e: "count_of m c' = refs m c'" using mem_invD(1) [OF assms(1)] that by (simp add: counts_exact_def)
    have "refs m c' + 1 < 2 ^ 32" using refs_le [of m c'] assms(3) by simp
    then show ?thesis using count_of_update [OF assms(2) mem_invD(4) [OF assms(1)], of "\<lambda>n. u32_add n 1" c'] e
      by (auto simp: INC_def u32_add_exact)
  qed
qed (simp_all add: INC_def same_shape_update_count)

text \<open>A copy, or a slice, of a live block.\<close>

lemma mem_inv_copy:
  assumes inv: "mem_inv m" and b: "block_ok m b" and len: "length (m_live m) < 2 ^ 32 - 1"
    and used: "refs m (refcountptr b) \<noteq> 0"
  shows "mem_inv (add_live b (INC (refcountptr b) m))"
proof -
  let ?c = "refcountptr b" and ?m = "add_live b (INC (refcountptr b) m)"
  note inc = INC_facts [OF inv block_ok_counter [OF b] len]
  have shape: "same_shape m ?m" using inc(2) by (simp add: add_live_def)
  have refs: "refs ?m c = refs m c + (if c = ?c then 1 else 0)" for c
    using inc(3) by (simp add: refs_def add_live_def)
  have count: "count_of ?m c = count_of (INC ?c m) c" for c by (cases c) (simp_all add: count_of_def add_live_def)
  have "counts_exact ?m"
    unfolding counts_exact_def
  proof (intro conjI allI impI)
    fix c assume "counter_valid ?m c"
    then show "count_of ?m c = refs ?m c" using inc(1) counter_valid_same [OF shape] by (simp add: refs count)
  next
    fix k assume k: "k < length (m_own ?m)"
    then have "k < length (m_own m)" using shape by (simp add: same_shape_def)
    then have "om_freed (m_own m ! k) = (refs m (Own_Count k) = 0)" using mem_invD(1) [OF inv] by (simp add: counts_exact_def)
    then show "om_freed (m_own ?m ! k) = (refs ?m (Own_Count k) = 0)"
      using inc(4) [of k] used unfolding refs by (auto simp: add_live_def)
  qed
  moreover have "pools_ok ?m"
  proof (rule pools_ok_same [OF mem_invD(2) [OF inv] shape])
    show "refs ?m (Pool_Count p i) = 0" if "p \<in> set (m_deleted m)" for p i
      using refs_deleted [OF mem_invD(2) [OF inv] that, of i] used unfolding refs by auto
  qed
  moreover have "block_ok ?m x" if "x \<in> set (m_live ?m)" for x
    using that mem_invD(3) [OF inv] b inc(3) block_ok_same [OF shape] by (auto simp: add_live_def)
  ultimately show ?thesis by (simp add: mem_inv_def)
qed

lemma DEC_facts:
  assumes "mem_inv m" "counter_valid m c \<or> c = Dummy_Count" "length (m_live m) < 2 ^ 32" "refs m c \<noteq> 0"
  shows "counter_valid m c' \<Longrightarrow> count_of (DEC c m) c' = refs m c' - (if c' = c then 1 else 0)"
    "same_shape m (DEC c m)" "m_live (DEC c m) = m_live m" "om_freed (m_own (DEC c m) ! k) = om_freed (m_own m ! k)"
proof -
  show "count_of (DEC c m) c' = refs m c' - (if c' = c then 1 else 0)" if "counter_valid m c'"
  proof -
    have e: "count_of m c' = refs m c'" using mem_invD(1) [OF assms(1)] that by (simp add: counts_exact_def)
    have "refs m c' < 2 ^ 32" using refs_le [of m c'] assms(3) by simp
    then show ?thesis using count_of_update [OF assms(2) mem_invD(4) [OF assms(1)], of "\<lambda>n. u32_sub n 1" c'] e assms(4)
      by (auto simp: DEC_def u32_sub_exact)
  qed
qed (simp_all add: DEC_def same_shape_update_count)

text \<open>A block object goes: its memory is freed exactly when it was the last to use it.\<close>

lemma mem_inv_release:
  assumes inv: "mem_inv m" and len: "length (m_live m) < 2 ^ 32" and l: "mset (m_live m) = mset (b # l)"
  shows "mem_inv ((release b m)\<lparr>m_live := l\<rparr>)"
proof -
  let ?c = "refcountptr b" and ?d = "DEC (refcountptr b) m" and ?m = "(release b m)\<lparr>m_live := l\<rparr>"
  have set_l: "set (m_live m) = insert b (set l)" using mset_eq_setD [OF l] by simp
  then have b: "block_ok m b" using mem_invD(3) [OF inv] by blast
  have refs: "refs m c = refs ?m c + (if c = ?c then 1 else 0)" for c
  proof -
    have "mset (map refcountptr (m_live m)) = mset (map refcountptr (b # l))" using l by (metis mset_map)
    then show ?thesis unfolding refs_count by simp
  qed
  have used: "refs m ?c \<noteq> 0" using refs [of ?c] by simp
  note dec = DEC_facts [OF inv block_ok_counter [OF b] len used]
  have rel: "release b m = (if myMemory b \<and> count_of ?d ?c = 0 then free_count ?c ?d else ?d)" by (simp add: release_def Let_def)
  have shape: "same_shape m ?m" using dec(2) same_shape_trans [OF dec(2) same_shape_free] by (simp add: rel)
  have count: "count_of ?m c = count_of ?d c" for c
    using count_of_free [of ?c ?d c] unfolding rel by (cases c) (simp_all add: count_of_def)
  have "counts_exact ?m"
    unfolding counts_exact_def
  proof (intro conjI allI impI)
    fix c assume "counter_valid ?m c"
    then show "count_of ?m c = refs ?m c" using dec(1) [of c] counter_valid_same [OF shape] refs [of c] by (auto simp: count)
  next
    fix k assume "k < length (m_own ?m)"
    then have k: "k < length (m_own m)" using shape by (simp add: same_shape_def)
    then have kd: "k < length (m_own ?d)" using dec(2) by (simp add: same_shape_def)
    have old: "om_freed (m_own m ! k) = (refs m (Own_Count k) = 0)" using mem_invD(1) [OF inv] k by (simp add: counts_exact_def)
    show "om_freed (m_own ?m ! k) = (refs ?m (Own_Count k) = 0)"
    proof (cases "?c = Own_Count k")
      case True
      have "counter_valid m (Own_Count k)" using k by (simp add: counter_valid_def)
      then have "count_of ?d (Own_Count k) = refs ?m (Own_Count k)" using dec(1) refs [of "Own_Count k"] True by simp
      moreover have "myMemory b" using block_ok_own [OF b] True by blast
      moreover have "\<not> om_freed (m_own m ! k)" using old used True by simp
      ultimately show ?thesis using freed_free [OF kd, of ?c] dec(4) [of k] True by (simp add: rel)
    next
      case False
      then show ?thesis using freed_free [OF kd, of ?c] dec(4) [of k] old refs [of "Own_Count k"] by (simp add: rel)
    qed
  qed
  moreover have "pools_ok ?m"
  proof (rule pools_ok_same [OF mem_invD(2) [OF inv] shape])
    show "refs ?m (Pool_Count p i) = 0" if "p \<in> set (m_deleted m)" for p i
      using refs_deleted [OF mem_invD(2) [OF inv] that, of i] refs [of "Pool_Count p i"] by simp
  qed
  moreover have "block_ok ?m x" if "x \<in> set (m_live ?m)" for x
    using that mem_invD(3) [OF inv] set_l block_ok_same [OF shape] by simp
  ultimately show ?thesis by (simp add: mem_inv_def)
qed

lemma mem_inv_destroy:
  assumes "mem_inv m" "i < length (m_live m)" "length (m_live m) < 2 ^ 32"
  shows "mem_inv (block_destroy i m)"
proof -
  have "mset (m_live m) = mset (m_live m ! i # take i (m_live m) @ drop (Suc i) (m_live m))"
    using id_take_nth_drop [OF assms(2)] by (metis mset.simps(2) mset_append union_mset_add_mset_right)
  moreover have "m_live (release b m) = m_live m" for b by (simp add: release_def DEC_def Let_def)
  ultimately show ?thesis using mem_inv_release [OF assms(1,3)] by (simp add: block_destroy_def Let_def)
qed

lemma release_live [simp]: "m_live (release b m) = m_live m"
  by (simp add: release_def DEC_def Let_def)

lemma live_INC [simp]: "m_live (INC c m) = m_live m"
  by (simp add: INC_def)

lemma refs_live: "b \<in> set (m_live m) \<Longrightarrow> refs m (refcountptr b) \<noteq> 0"
  by (auto simp: refs_def filter_empty_conv)

lemma release_add_live: "release b (add_live x m) = add_live x (release b m)"
proof -
  have u: "update_count f c (add_live x m) = add_live x (update_count f c m)" for f c
    by (cases c) (simp_all add: update_count_def add_live_def)
  have c: "count_of (add_live x m) c = count_of m c" for c m by (cases c) (simp_all add: count_of_def add_live_def)
  have f: "free_count c (add_live x m) = add_live x (free_count c m)" for c m by (cases c) (simp_all add: free_count_def add_live_def)
  show ?thesis by (simp add: release_def Let_def DEC_def u c f)
qed

lemma mset_split_nth: "i < length xs \<Longrightarrow> mset xs = mset (xs ! i # take i xs @ drop (Suc i) xs)"
  using id_take_nth_drop [of i xs] by (metis mset.simps(2) mset_append union_mset_add_mset_right)

lemma mem_inv_assign:
  assumes "mem_inv m" "i < length (m_live m)" "j < length (m_live m)" "length (m_live m) < 2 ^ 32 - 1"
  shows "mem_inv (block_assign i j m)"
proof (cases "i = j")
  case True
  then show ?thesis using assms(1) by (simp add: block_assign_def)
next
  case False
  let ?tgt = "m_live m ! i" and ?other = "m_live m ! j"
  have other: "?other \<in> set (m_live m)" using assms(3) by simp
  let ?m1 = "add_live ?other (INC (refcountptr ?other) m)"
  have inv1: "mem_inv ?m1" by (rule mem_inv_copy [OF assms(1) mem_invD(3) [OF assms(1) other] assms(4) refs_live [OF other]])
  have live1: "m_live ?m1 = m_live m @ [?other]" by (simp add: add_live_def)
  have "mset (m_live ?m1) = mset (?tgt # (m_live m)[i := ?other])"
    unfolding live1 using mset_split_nth [OF assms(2)] assms(2) by (simp add: upd_conv_take_nth_drop)
  then have "mem_inv ((release ?tgt ?m1)\<lparr>m_live := (m_live m)[i := ?other]\<rparr>)"
    by (intro mem_inv_release [OF inv1]) (use live1 assms(4) in simp_all)
  moreover have "(release ?tgt ?m1)\<lparr>m_live := (m_live m)[i := ?other]\<rparr>
      = (release ?tgt (INC (refcountptr ?other) m))\<lparr>m_live := (m_live m)[i := ?other]\<rparr>"
    unfolding release_add_live by (simp add: add_live_def)
  ultimately show ?thesis using False by (simp add: block_assign_def Let_def)
qed

lemma mem_inv_block_copy:
  assumes "mem_inv m" "i < length (m_live m)" "length (m_live m) < 2 ^ 32 - 1"
  shows "mem_inv (block_copy i m)"
  unfolding block_copy_def Let_def using assms
  by (intro mem_inv_copy mem_invD(3) refs_live) simp_all

text \<open>A slice lies in the slot of its block.\<close>

lemma mem_inv_sub:
  assumes inv: "mem_inv m" and i: "i < length (m_live m)" and len: "length (m_live m) < 2 ^ 32 - 1"
    and small: "offset + n < 2 ^ 32" and sub: "block_sub i offset n m = Some m'"
  shows "mem_inv m'"
proof -
  let ?b = "m_live m ! i"
  let ?s = "\<lparr>iov_base = map_option (\<lambda>(r, off). (r, off + offset)) (iov_base ?b), iov_len = n, myMemory = myMemory ?b, refcountptr = refcountptr ?b\<rparr>"
  have b: "?b \<in> set (m_live m)" "block_ok m ?b" using i mem_invD(3) [OF inv] by simp_all
  have fits: "offset + n \<le> iov_len ?b" and m': "m' = add_live ?s (INC (refcountptr ?s) m)"
    using sub small by (auto simp: block_sub_def Let_def u32_add_exact split: if_splits)
  have "block_ok m ?s"
    using b(2) fits by (cases "refcountptr ?b") (auto simp: block_ok_def)
  then show ?thesis unfolding m' using refs_live [OF b(1)] by (intro mem_inv_copy inv len) simp_all
qed

lemma mem_inv_default:
  assumes "mem_inv m"
  shows "mem_inv (block_default m)"
proof -
  let ?m = "add_live default_block m"
  have refs: "refs ?m c = refs m c" if "c \<noteq> Dummy_Count" for c using that by (simp add: refs_add_live default_block_def)
  have shape: "same_shape m ?m" by (simp add: add_live_def)
  have count: "count_of ?m c = count_of m c" for c by (cases c) (simp_all add: count_of_def add_live_def)
  have "counts_exact ?m"
    unfolding counts_exact_def
  proof (intro conjI allI impI)
    fix c assume "counter_valid ?m c"
    then have c: "counter_valid m c" using counter_valid_same [OF shape] by simp
    then have "c \<noteq> Dummy_Count" by (auto simp: counter_valid_def)
    then show "count_of ?m c = refs ?m c" using mem_invD(1) [OF assms] c refs unfolding count counts_exact_def by simp
  next
    fix k assume "k < length (m_own ?m)"
    then show "om_freed (m_own ?m ! k) = (refs ?m (Own_Count k) = 0)"
      using mem_invD(1) [OF assms] refs [of "Own_Count k"] by (simp add: counts_exact_def add_live_def)
  qed
  moreover have "pools_ok ?m"
    by (rule pools_ok_same [OF mem_invD(2) [OF assms] shape]) (simp add: refs refs_deleted [OF mem_invD(2) [OF assms]])
  moreover have "block_ok ?m b" if "b \<in> set (m_live ?m)" for b
    using that mem_invD(3) [OF assms] block_ok_same [OF shape] by (auto simp: add_live_def block_ok_def default_block_def)
  ultimately show ?thesis by (simp add: block_default_def mem_inv_def)
qed

lemma mem_inv_malloc:
  assumes "mem_inv m"
  shows "mem_inv (block_malloc sz m)"
proof -
  let ?k = "length (m_own m)"
  let ?b = "\<lparr>iov_base = Some (Own_Region ?k, 0), iov_len = sz, myMemory = True, refcountptr = Own_Count ?k\<rparr>"
  let ?m = "add_live ?b (m\<lparr>m_own := m_own m @ [\<lparr>om_count = 1, om_freed = False\<rparr>]\<rparr>)"
  have none: "refs m (Own_Count ?k) = 0"
  proof (rule ccontr)
    assume "refs m (Own_Count ?k) \<noteq> 0"
    then obtain b where "b \<in> set (m_live m)" "refcountptr b = Own_Count ?k" by (auto simp: refs_def filter_empty_conv)
    then show False using mem_invD(3) [OF assms, of b] by (simp add: block_ok_def counter_valid_def)
  qed
  have refs: "refs ?m c = refs m c + (if c = Own_Count ?k then 1 else 0)" for c
    by (simp add: refs_def add_live_def)
  have valid: "counter_valid ?m c = (counter_valid m c \<or> c = Own_Count ?k)" for c
    by (cases c) (auto simp: counter_valid_def add_live_def)
  have count: "count_of ?m c = (if c = Own_Count ?k then 1 else count_of m c)" if "counter_valid m c \<or> c = Own_Count ?k" for c
    using that by (cases c) (auto simp: count_of_def add_live_def nth_append counter_valid_def)
  have "counts_exact ?m"
    unfolding counts_exact_def
  proof (intro conjI allI impI)
    fix c assume "counter_valid ?m c"
    then have c: "counter_valid m c \<or> c = Own_Count ?k" unfolding valid .
    have "\<not> counter_valid m (Own_Count ?k)" by (simp add: counter_valid_def)
    then show "count_of ?m c = refs ?m c"
      using mem_invD(1) [OF assms] none c unfolding refs count [OF c] counts_exact_def by auto
  next
    fix k assume "k < length (m_own ?m)"
    then show "om_freed (m_own ?m ! k) = (refs ?m (Own_Count k) = 0)"
      using mem_invD(1) [OF assms] unfolding refs by (auto simp: counts_exact_def add_live_def nth_append less_Suc_eq)
  qed
  moreover have "pools_ok ?m"
    by (rule pools_ok_cong [OF mem_invD(2) [OF assms]])
      (use refs_deleted [OF mem_invD(2) [OF assms]] refs in \<open>simp_all add: add_live_def\<close>)
  moreover have "block_ok ?m b" if "b \<in> set (m_live ?m)" for b
  proof -
    have same: "block_ok ?m b" if "block_ok m b" for b
      using that by (cases "refcountptr b") (auto simp: block_ok_def counter_valid_def add_live_def)
    moreover have "block_ok ?m ?b" by (simp add: block_ok_def counter_valid_def add_live_def)
    moreover have "b = ?b \<or> b \<in> set (m_live m)" using that by (auto simp: add_live_def)
    ultimately show ?thesis using mem_invD(3) [OF assms] by blast
  qed
  ultimately show ?thesis by (simp add: block_malloc_def Let_def mem_inv_def)
qed

subsection \<open>Taking a block from a pool\<close>

text \<open>The slots from \<open>i\<close> on, around the pool, that the loop passes over are in use.\<close>

lemma get_loop_facts:
  assumes "pool_ok pl" "get_loop k pl previous_next = (c, pl')"
  shows "nblock pl' = nblock pl \<and> block_size pl' = block_size pl \<and> pool_ok pl'
    \<and> (case c of None \<Rightarrow> use_cnt pl' = use_cnt pl
       | Some i \<Rightarrow> i < nblock pl \<and> use_cnt pl ! i = 0 \<and> use_cnt pl' = (use_cnt pl)[i := 1])"
  using assms
proof (induction k arbitrary: pl)
  case 0
  then show ?case by simp
next
  case (Suc k)
  let ?nxt = "(next_alloc pl + 1) mod nblock pl"
  have nxt: "?nxt < nblock pl" using Suc.prems(1) by (simp add: pool_ok_def)
  show ?case
  proof (cases "use_cnt pl ! next_alloc pl = 0 \<or> ?nxt = previous_next")
    case True
    then show ?thesis using Suc.prems nxt by (auto simp: Let_def pool_ok_def split: if_splits)
  next
    case False
    have "pool_ok (pl\<lparr>next_alloc := ?nxt\<rparr>)" using Suc.prems(1) nxt by (simp add: pool_ok_def)
    from Suc.IH [OF this] show ?thesis using Suc.prems(2) False by (cases c) (simp_all add: Let_def)
  qed
qed

lemma mod_step_away: "e + 1 \<le> n \<Longrightarrow> 0 < e \<Longrightarrow> p < n \<Longrightarrow> (p + e) mod n \<noteq> (p::nat)"
  by (cases "p + e < n") (auto simp: le_mod_geq)

lemma get_loop_complete:
  assumes "pool_ok pl" "get_loop k pl previous_next = (None, pl')" "next_alloc pl = (previous_next + d) mod nblock pl"
    "d + k = nblock pl" "previous_next < nblock pl" "\<And>j. j < d \<Longrightarrow> use_cnt pl ! ((previous_next + j) mod nblock pl) \<noteq> 0" "d < nblock pl"
  shows "\<forall>j < nblock pl. use_cnt pl ! ((previous_next + j) mod nblock pl) \<noteq> 0"
  using assms
proof (induction k arbitrary: pl d)
  case 0
  then show ?case by simp
next
  case (Suc k)
  let ?n = "nblock pl" and ?nxt = "(next_alloc pl + 1) mod nblock pl"
  have used: "use_cnt pl ! next_alloc pl \<noteq> 0" using Suc.prems(2) by (auto simp: Let_def split: if_splits)
  have upto: "use_cnt pl ! ((previous_next + j) mod ?n) \<noteq> 0" if "j < Suc d" for j
    using that Suc.prems(3,6) used by (cases "j = d") simp_all
  have nxt: "?nxt = (previous_next + Suc d) mod ?n" using Suc.prems(3) by (simp add: mod_Suc_eq)
  show ?case
  proof (cases "Suc d = ?n")
    case True
    then show ?thesis using upto by simp
  next
    case False
    then have d: "Suc d < ?n" using Suc.prems(7) by simp
    have "?nxt \<noteq> previous_next"
      unfolding nxt using d Suc.prems(5) by (intro mod_step_away) simp_all
    then have "get_loop k (pl\<lparr>next_alloc := ?nxt\<rparr>) previous_next = (None, pl')" using Suc.prems(2) used by (simp add: Let_def)
    moreover have "pool_ok (pl\<lparr>next_alloc := ?nxt\<rparr>)" using Suc.prems(1) by (simp add: pool_ok_def)
    ultimately show ?thesis using Suc.IH [of "pl\<lparr>next_alloc := ?nxt\<rparr>" "Suc d"] Suc.prems(4,5) nxt upto d by simp
  qed
qed

lemma get_loop_None:
  assumes "pool_ok pl" "get_loop (nblock pl) pl (next_alloc pl) = (None, pl')" "i < nblock pl"
  shows "use_cnt pl ! i \<noteq> 0"
proof -
  let ?n = "nblock pl" and ?p = "next_alloc pl"
  have p: "?p < ?n" using assms(1) by (simp add: pool_ok_def)
  have "\<forall>j < ?n. use_cnt pl ! ((?p + j) mod ?n) \<noteq> 0"
    by (rule get_loop_complete [OF assms(1,2), of 0]) (use p in simp_all)
  moreover have "\<exists>j < ?n. (?p + j) mod ?n = i"
  proof (cases "?p \<le> i")
    case True
    then show ?thesis using assms(3) by (intro exI [of _ "i - ?p"]) simp
  next
    case False
    then show ?thesis using assms(3) p by (intro exI [of _ "?n + i - ?p"]) simp
  qed
  ultimately show ?thesis by auto
qed

lemma mem_inv_same:
  assumes inv: "mem_inv m" and shape: "same_shape m m'" and count: "\<And>c. counter_valid m c \<Longrightarrow> count_of m' c = count_of m c"
    and own: "m_own m' = m_own m" and live: "m_live m' = m_live m"
  shows "mem_inv m'"
proof -
  have refs: "refs m' c = refs m c" for c by (simp add: refs_def live)
  have "counts_exact m'"
    using mem_invD(1) [OF inv] count counter_valid_same [OF shape] own refs by (simp add: counts_exact_def)
  moreover have "pools_ok m'"
    by (rule pools_ok_same [OF mem_invD(2) [OF inv] shape]) (simp add: refs refs_deleted [OF mem_invD(2) [OF inv]])
  ultimately show ?thesis using mem_invD(3) [OF inv] block_ok_same [OF shape] live by (simp add: mem_inv_def)
qed

text \<open>Which parts of the memory taking a block leaves alone.\<close>

definition same_rest :: "memory \<Rightarrow> memory \<Rightarrow> bool" where
  "same_rest m m' \<longleftrightarrow> m_own m' = m_own m \<and> m_live m' = m_live m \<and> same_shape m m'"

lemma same_rest_refl [simp]: "same_rest m m"
  by (simp add: same_rest_def)

lemma same_rest_trans: "same_rest m m' \<Longrightarrow> same_rest m' m'' \<Longrightarrow> same_rest m m''"
  using same_shape_trans by (auto simp: same_rest_def)

lemma pool_get_facts:
  assumes inv: "mem_inv m" and p: "p < length (m_pools m)" "p \<notin> set (m_deleted m)" and get: "pool_get p m = (rv, m')"
  shows "same_rest m m'"
    "block_empty rv \<Longrightarrow> mem_inv m' \<and> (\<forall>c. count_of m' c = count_of m c) \<and> (\<forall>i < nblock (m_pools m ! p). refs m (Pool_Count p i) \<noteq> 0)"
    "\<not> block_empty rv \<Longrightarrow> mem_inv (add_live rv m') \<and> (\<exists>i < nblock (m_pools m ! p). refcountptr rv = Pool_Count p i
       \<and> refs m (Pool_Count p i) = 0 \<and> iov_base rv = Some (Pool_Region p, i * block_size (m_pools m ! p)) \<and> iov_len rv = block_size (m_pools m ! p))"
proof -
  let ?pl = "m_pools m ! p"
  obtain c pl where l: "get_loop (nblock ?pl) ?pl (next_alloc ?pl) = (c, pl)" by fastforce
  have ok: "pool_ok ?pl" using mem_invD(4) [OF inv] p(1) by simp
  note g = get_loop_facts [OF ok l]
  define m1 where "m1 = m\<lparr>m_pools := (m_pools m)[p := pl]\<rparr>"
  have m': "m' = m1" and rv: "rv = (case c of None \<Rightarrow> default_block | Some i \<Rightarrow>
      \<lparr>iov_base = Some (Pool_Region p, i * block_size pl), iov_len = block_size pl, myMemory = False, refcountptr = Pool_Count p i\<rparr>)"
    using get by (cases c; simp add: pool_get_def l m1_def)+
  have shape: "same_shape m m1" using g by (auto simp: same_shape_def m1_def nth_list_update')
  then show "same_rest m m'" by (simp add: same_rest_def m') (simp add: m1_def)
  have exact: "use_cnt ?pl ! i = refs m (Pool_Count p i)" if "i < nblock ?pl" for i
    using mem_invD(1) [OF inv] p(1) that by (rule pool_count_exact)
  show "mem_inv m' \<and> (\<forall>c. count_of m' c = count_of m c) \<and> (\<forall>i < nblock ?pl. refs m (Pool_Count p i) \<noteq> 0)" if "block_empty rv"
  proof -
    have "c = None" using that rv by (cases c) (simp_all add: block_empty_def)
    then have use: "use_cnt pl = use_cnt ?pl" using g by simp
    then have count: "count_of m1 c = count_of m c" for c by (cases c) (auto simp: count_of_def m1_def nth_list_update')
    have "mem_inv m1" by (rule mem_inv_same [OF inv shape count]) (simp_all add: m1_def)
    then show ?thesis using count get_loop_None [OF ok] l \<open>c = None\<close> exact m' by auto
  qed
  show "mem_inv (add_live rv m') \<and> (\<exists>i < nblock ?pl. refcountptr rv = Pool_Count p i \<and> refs m (Pool_Count p i) = 0
      \<and> iov_base rv = Some (Pool_Region p, i * block_size ?pl) \<and> iov_len rv = block_size ?pl)" if ne: "\<not> block_empty rv"
  proof -
    obtain i where c: "c = Some i" using ne rv by (cases c) (simp_all add: block_empty_def default_block_def)
    have i: "i < nblock ?pl" "use_cnt ?pl ! i = 0" "use_cnt pl = (use_cnt ?pl)[i := 1]" "block_size pl = block_size ?pl" using g c by simp_all
    have rv': "rv = \<lparr>iov_base = Some (Pool_Region p, i * block_size ?pl), iov_len = block_size ?pl, myMemory = False, refcountptr = Pool_Count p i\<rparr>"
      using rv c i(4) by simp
    let ?m = "add_live rv m1"
    have len: "i < length (use_cnt ?pl)" using i(1) ok by (simp add: pool_ok_def)
    have refs: "refs ?m c = refs m c + (if c = Pool_Count p i then 1 else 0)" for c
      by (simp add: refs_def add_live_def rv' m1_def)
    have shape': "same_shape m ?m" using shape by (simp add: add_live_def)
    have count: "count_of ?m c = (if c = Pool_Count p i then 1 else count_of m c)" for c
      using i(3) len p(1) by (cases c) (auto simp: count_of_def add_live_def m1_def nth_list_update')
    have zero: "refs m (Pool_Count p i) = 0" using exact [OF i(1)] i(2) by simp
    have "counts_exact ?m"
      unfolding counts_exact_def
    proof (intro conjI allI impI)
      fix c assume "counter_valid ?m c"
      then show "count_of ?m c = refs ?m c"
        using mem_invD(1) [OF inv] zero counter_valid_same [OF shape'] unfolding count refs counts_exact_def by auto
    next
      fix k assume "k < length (m_own ?m)"
      then show "om_freed (m_own ?m ! k) = (refs ?m (Own_Count k) = 0)"
        using mem_invD(1) [OF inv] unfolding refs by (simp add: counts_exact_def add_live_def m1_def)
    qed
    moreover have "pools_ok ?m"
      by (rule pools_ok_same [OF mem_invD(2) [OF inv] shape']) (use p(2) refs_deleted [OF mem_invD(2) [OF inv]] refs in auto)
    moreover have "block_ok ?m b" if "b \<in> set (m_live ?m)" for b
    proof -
      have "block_ok m rv" using i(1) p(1) by (simp add: rv' block_ok_def counter_valid_def)
      moreover have "b = rv \<or> b \<in> set (m_live m)" using that by (auto simp: add_live_def m1_def)
      ultimately show ?thesis using mem_invD(3) [OF inv] block_ok_same [OF shape'] by blast
    qed
    ultimately show ?thesis using i(1) zero by (simp add: mem_inv_def m' rv')
  qed
qed

subsection \<open>Block pools\<close>

definition pool_full :: "memory \<Rightarrow> nat \<Rightarrow> bool" where
  "pool_full m p \<longleftrightarrow> (\<forall>i < nblock (m_pools m ! p). refs m (Pool_Count p i) \<noteq> 0)"

text \<open>A block that nobody uses, of one of the pools.\<close>

definition fresh_block :: "memory \<Rightarrow> nat \<Rightarrow> block \<Rightarrow> bool" where
  "fresh_block m p b \<longleftrightarrow> (\<exists>i < nblock (m_pools m ! p). refcountptr b = Pool_Count p i \<and> refs m (Pool_Count p i) = 0
     \<and> iov_base b = Some (Pool_Region p, i * block_size (m_pools m ! p)) \<and> iov_len b = block_size (m_pools m ! p))"

lemma same_rest_facts:
  assumes "same_rest m m'"
  shows "refs m' c = refs m c" "length (m_pools m') = length (m_pools m)" "m_deleted m' = m_deleted m" "m_live m' = m_live m"
    "m_blockpools m' = m_blockpools m" "p < length (m_pools m) \<Longrightarrow> pool_full m' p = pool_full m p"
    "p < length (m_pools m) \<Longrightarrow> fresh_block m' p b = fresh_block m p b"
  using assms by (auto simp: same_rest_def same_shape_def refs_def pool_full_def fresh_block_def)

lemma blockpool_loop_facts:
  assumes "mem_inv m" "\<And>p. p \<in> set (bp_pools bp) \<Longrightarrow> p < length (m_pools m) \<and> p \<notin> set (m_deleted m)"
    "curpool bp = (old + d) mod length (bp_pools bp)" "old < length (bp_pools bp)" "d + k = length (bp_pools bp)" "0 < k"
    "\<And>j. j < d \<Longrightarrow> pool_full m (bp_pools bp ! ((old + j) mod length (bp_pools bp)))"
    "blockpool_loop k bp old m = (rv, bp', m')"
  shows "same_rest m m' \<and> bp_pools bp' = bp_pools bp \<and> curpool bp' < length (bp_pools bp) \<and> blocksize bp' = blocksize bp
    \<and> nblock_p_pool bp' = nblock_p_pool bp
    \<and> (if block_empty rv then mem_inv m' \<and> (\<forall>j < length (bp_pools bp). pool_full m (bp_pools bp ! ((old + j) mod length (bp_pools bp))))
       else mem_inv (add_live rv m') \<and> (\<exists>p \<in> set (bp_pools bp). fresh_block m p rv))"
  using assms
proof (induction k arbitrary: bp d m)
  case 0
  then show ?case by simp
next
  case (Suc k)
  let ?n = "length (bp_pools bp)" and ?p = "bp_pools bp ! curpool bp" and ?nxt = "(curpool bp + 1) mod length (bp_pools bp)"
  have n: "0 < ?n" using Suc.prems(4) by (cases "bp_pools bp") auto
  then have cur: "curpool bp < ?n" "?nxt < ?n" using Suc.prems(3) by simp_all
  then have p: "?p \<in> set (bp_pools bp)" "?p < length (m_pools m)" "?p \<notin> set (m_deleted m)" using Suc.prems(2) by simp_all
  obtain rv1 m1 where g: "pool_get ?p m = (rv1, m1)" by fastforce
  note get = pool_get_facts [OF Suc.prems(1) p(2,3) g]
  show ?case
  proof (cases "block_empty rv1")
    case False
    then have "rv = rv1" "bp' = bp" "m' = m1" using Suc.prems(8) g by (simp_all add: Let_def)
    moreover have "fresh_block m ?p rv1" using get(3) False by (simp add: fresh_block_def)
    ultimately show ?thesis using get(1,3) False cur p(1) by auto
  next
    case True
    have inv1: "mem_inv m1" and full: "pool_full m ?p" using get(2) True by (auto simp: pool_full_def)
    note rest = same_rest_facts [OF get(1)]
    have upto: "pool_full m (bp_pools bp ! ((old + j) mod ?n))" if "j < Suc d" for j
      using that Suc.prems(3,7) full by (cases "j = d") simp_all
    have nxt: "?nxt = (old + Suc d) mod ?n" using Suc.prems(3) by (simp add: mod_Suc_eq)
    show ?thesis
    proof (cases "Suc d = ?n")
      case True
      then have "?nxt = old" using nxt Suc.prems(4) by simp
      then have "rv = rv1" "bp' = bp\<lparr>curpool := ?nxt\<rparr>" "m' = m1" using Suc.prems(8) g \<open>block_empty rv1\<close> by (simp_all add: Let_def)
      then show ?thesis using get(1) inv1 \<open>block_empty rv1\<close> cur upto True by simp
    next
      case False
      then have d: "Suc d + k = ?n" "0 < k" using Suc.prems(5) by simp_all
      have "?nxt \<noteq> old" unfolding nxt using d Suc.prems(4) by (intro mod_step_away) simp_all
      then have l: "blockpool_loop k (bp\<lparr>curpool := ?nxt\<rparr>) old m1 = (rv, bp', m')"
        using Suc.prems(8) g \<open>block_empty rv1\<close> by (simp add: Let_def)
      have fr: "fresh_block m1 q rv = fresh_block m q rv" "pool_full m1 q = pool_full m q" if "q \<in> set (bp_pools bp)" for q
        using rest(6,7) Suc.prems(2) that by blast+
      have in_pools: "bp_pools bp ! (x mod ?n) \<in> set (bp_pools bp)" for x using n by simp
      define bp1 where "bp1 = bp\<lparr>curpool := ?nxt\<rparr>"
      have bp1: "bp_pools bp1 = bp_pools bp" "curpool bp1 = (old + Suc d) mod ?n" "blocksize bp1 = blocksize bp" "nblock_p_pool bp1 = nblock_p_pool bp"
        using nxt by (simp_all add: bp1_def)
      have "same_rest m1 m' \<and> bp_pools bp' = bp_pools bp1 \<and> curpool bp' < length (bp_pools bp1) \<and> blocksize bp' = blocksize bp1
        \<and> nblock_p_pool bp' = nblock_p_pool bp1
        \<and> (if block_empty rv then mem_inv m' \<and> (\<forall>j < length (bp_pools bp1). pool_full m1 (bp_pools bp1 ! ((old + j) mod length (bp_pools bp1))))
           else mem_inv (add_live rv m') \<and> (\<exists>p \<in> set (bp_pools bp1). fresh_block m1 p rv))"
      proof (rule Suc.IH [OF inv1])
        show "p < length (m_pools m1) \<and> p \<notin> set (m_deleted m1)" if "p \<in> set (bp_pools bp1)" for p
          using Suc.prems(2) [of p] that rest(2,3) bp1(1) by simp
        show "pool_full m1 (bp_pools bp1 ! ((old + j) mod length (bp_pools bp1)))" if "j < Suc d" for j
          unfolding bp1(1) using upto [OF that] fr(2) [OF in_pools [of "old + j"]] by blast
      qed (use bp1 d Suc.prems(4) l in \<open>simp_all add: bp1_def\<close>)
      then have ih: "same_rest m1 m'" "bp_pools bp' = bp_pools bp" "curpool bp' < ?n" "blocksize bp' = blocksize bp"
        "nblock_p_pool bp' = nblock_p_pool bp"
        "if block_empty rv then mem_inv m' \<and> (\<forall>j < ?n. pool_full m1 (bp_pools bp ! ((old + j) mod ?n)))
           else mem_inv (add_live rv m') \<and> (\<exists>p \<in> set (bp_pools bp). fresh_block m1 p rv)" unfolding bp1 by blast+
      have "if block_empty rv then mem_inv m' \<and> (\<forall>j < ?n. pool_full m (bp_pools bp ! ((old + j) mod ?n)))
           else mem_inv (add_live rv m') \<and> (\<exists>p \<in> set (bp_pools bp). fresh_block m p rv)"
        using ih(6) fr(2) [OF in_pools] fr(1) by (cases "block_empty rv") auto
      then show ?thesis using same_rest_trans [OF get(1) ih(1)] ih(2-5) by blast
    qed
  qed
qed

lemma blockpool_loop_start:
  assumes "mem_inv m" "\<And>p. p \<in> set (bp_pools bp) \<Longrightarrow> p < length (m_pools m) \<and> p \<notin> set (m_deleted m)" "curpool bp < length (bp_pools bp)"
    "blockpool_loop (length (bp_pools bp)) bp (curpool bp) m = (rv, bp', m')"
  shows "same_rest m m' \<and> bp_pools bp' = bp_pools bp \<and> curpool bp' < length (bp_pools bp) \<and> blocksize bp' = blocksize bp
    \<and> nblock_p_pool bp' = nblock_p_pool bp
    \<and> (if block_empty rv then mem_inv m' \<and> (\<forall>p \<in> set (bp_pools bp). pool_full m p)
       else mem_inv (add_live rv m') \<and> (\<exists>p \<in> set (bp_pools bp). fresh_block m p rv))"
proof -
  let ?n = "length (bp_pools bp)"
  have facts: "same_rest m m' \<and> bp_pools bp' = bp_pools bp \<and> curpool bp' < ?n \<and> blocksize bp' = blocksize bp
    \<and> nblock_p_pool bp' = nblock_p_pool bp
    \<and> (if block_empty rv then mem_inv m' \<and> (\<forall>j < ?n. pool_full m (bp_pools bp ! ((curpool bp + j) mod ?n)))
       else mem_inv (add_live rv m') \<and> (\<exists>p \<in> set (bp_pools bp). fresh_block m p rv))"
    by (rule blockpool_loop_facts [OF assms(1,2) _ assms(3) _ _ _ assms(4), of 0]) (use assms(3) in auto)
  have "\<exists>j < ?n. p = bp_pools bp ! ((curpool bp + j) mod ?n)" if p: "p \<in> set (bp_pools bp)" for p
  proof -
    obtain i where i: "i < ?n" "p = bp_pools bp ! i" using p by (auto simp: in_set_conv_nth)
    show ?thesis
    proof (cases "curpool bp \<le> i")
      case True
      then show ?thesis using i by (intro exI [of _ "i - curpool bp"]) simp
    next
      case False
      then show ?thesis using i assms(3) by (intro exI [of _ "?n + i - curpool bp"]) simp
    qed
  qed
  then have "\<forall>p \<in> set (bp_pools bp). pool_full m p" if "\<forall>j < ?n. pool_full m (bp_pools bp ! ((curpool bp + j) mod ?n))"
    using that by fastforce
  then show ?thesis using facts by (cases "block_empty rv") (simp_all (no_asm_simp))
qed

lemma mset_managed_update:
  assumes "b < length bps"
  shows "mset (concat (map pools_of (bps[b := x]))) + mset (pools_of (bps ! b)) = mset (concat (map pools_of bps)) + mset (pools_of x)"
proof -
  have "bps[b := x] = take b bps @ x # drop (Suc b) bps" using assms by (rule upd_conv_take_nth_drop)
  moreover have "concat (map pools_of bps) = concat (map pools_of (take b bps @ bps ! b # drop (Suc b) bps))"
    using id_take_nth_drop [OF assms] by simp
  ultimately show ?thesis by simp
qed

text \<open>What is needed to change the block pools.\<close>

lemma mem_inv_blockpools:
  assumes inv: "mem_inv m" and d: "distinct (m_garbagecan m @ m_deleted m @ concat (map pools_of bps))"
    and s: "set (concat (map pools_of bps)) \<subseteq> {..<length (m_pools m)}"
    and c: "\<And>bp. Some bp \<in> set bps \<Longrightarrow> curpool bp < length (bp_pools bp)"
  shows "mem_inv (m\<lparr>m_blockpools := bps\<rparr>)"
proof -
  let ?m = "m\<lparr>m_blockpools := bps\<rparr>"
  have refs: "refs ?m = refs m" by (simp add: fun_eq_iff refs_def)
  have valid: "counter_valid ?m = counter_valid m" by (simp add: fun_eq_iff counter_valid_def split: counter_ref.split)
  have count: "count_of ?m = count_of m" by (simp add: fun_eq_iff count_of_def split: counter_ref.split)
  have ok: "block_ok ?m b = block_ok m b" for b by (cases "refcountptr b") (simp_all add: block_ok_def valid)
  have "counts_exact ?m" using mem_invD(1) [OF inv] by (simp add: counts_exact_def refs valid count)
  moreover have "pools_ok ?m" using mem_invD(2) [OF inv] d s c by (simp add: pools_ok_def managed_def refs)
  ultimately show ?thesis using mem_invD(3) [OF inv] ok by (simp add: mem_inv_def)
qed

lemma sum_hits: "sum_list (map (\<lambda>i. if c = Pool_Count p i then 1 else 0) [0..<n]) \<le> (1::nat)"
proof -
  have "sum_list (map (\<lambda>i. if c = Pool_Count p i then 1 else 0) [0..<n]) = (if \<exists>i < n. c = Pool_Count p i then 1 else 0 :: nat)"
    by (induction n) (auto simp: less_Suc_eq)
  then show ?thesis by simp
qed

lemma sum_pool_refs:
  "sum_list (map (\<lambda>i. length (filter (\<lambda>b. refcountptr b = Pool_Count p i) bs)) [0..<n]) \<le> length bs"
proof (induction bs)
  case (Cons b bs)
  have "sum_list (map (\<lambda>i. if refcountptr b = Pool_Count p i then 1 else 0) [0..<n]) \<le> (1::nat)" by (rule sum_hits)
  moreover have "sum_list (map (\<lambda>i. length (filter (\<lambda>b. refcountptr b = Pool_Count p i) (b # bs))) [0..<n])
      = sum_list (map (\<lambda>i. if refcountptr b = Pool_Count p i then 1 else 0) [0..<n])
        + sum_list (map (\<lambda>i. length (filter (\<lambda>b. refcountptr b = Pool_Count p i) bs)) [0..<n])"
    by (subst sum_list_addf [symmetric], rule arg_cong [where f = sum_list], rule map_cong) auto
  ultimately show ?case using Cons le_trans [OF _ add_mono] by fastforce
qed simp

text \<open>The sum of the counters tells whether a pool is in use.\<close>

lemma try_delete_unused:
  assumes inv: "mem_inv m" and p: "p < length (m_pools m)" and len: "length (m_live m) < 2 ^ 32"
  shows "try_delete m p \<longleftrightarrow> (\<forall>i. refs m (Pool_Count p i) = 0)"
proof -
  let ?pl = "m_pools m ! p"
  have ok: "pool_ok ?pl" using mem_invD(4) [OF inv] p by simp
  have use: "use_cnt ?pl = map (\<lambda>i. refs m (Pool_Count p i)) [0..<nblock ?pl]"
    using ok pool_count_exact [OF mem_invD(1) [OF inv] p] by (intro nth_equalityI) (simp_all add: pool_ok_def)
  have "sum_list (use_cnt ?pl) \<le> length (m_live m)" unfolding use refs_def by (rule sum_pool_refs)
  then have "try_delete m p \<longleftrightarrow> sum_list (use_cnt ?pl) = 0" using len by (simp add: try_delete_def)
  also have "\<dots> \<longleftrightarrow> (\<forall>i < nblock ?pl. refs m (Pool_Count p i) = 0)" unfolding use by (auto simp: sum_list_eq_0_iff)
  also have "\<dots> \<longleftrightarrow> (\<forall>i. refs m (Pool_Count p i) = 0)"
  proof -
    have "refs m (Pool_Count p i) = 0" if "\<not> i < nblock ?pl" for i
    proof (rule ccontr)
      assume "refs m (Pool_Count p i) \<noteq> 0"
      then obtain b where "b \<in> set (m_live m)" "refcountptr b = Pool_Count p i" by (auto simp: refs_def filter_empty_conv)
      then show False using mem_invD(3) [OF inv, of b] that by (simp add: block_ok_def counter_valid_def)
    qed
    then show ?thesis by blast
  qed
  finally show ?thesis .
qed

text \<open>Moving pools between the garbage can and the deleted ones.\<close>

lemma mem_inv_can:
  assumes inv: "mem_inv m" and d: "distinct (can @ del @ managed m)" and s: "set (can @ del) \<subseteq> {..<length (m_pools m)}"
    and u: "\<And>p i. p \<in> set del \<Longrightarrow> refs m (Pool_Count p i) = 0"
  shows "mem_inv (m\<lparr>m_garbagecan := can, m_deleted := del\<rparr>)"
proof -
  let ?m = "m\<lparr>m_garbagecan := can, m_deleted := del\<rparr>"
  have refs: "refs ?m = refs m" by (simp add: fun_eq_iff refs_def)
  have valid: "counter_valid ?m = counter_valid m" by (simp add: fun_eq_iff counter_valid_def split: counter_ref.split)
  have count: "count_of ?m = count_of m" by (simp add: fun_eq_iff count_of_def split: counter_ref.split)
  have ok: "block_ok ?m b = block_ok m b" for b by (cases "refcountptr b") (simp_all add: block_ok_def valid)
  have "counts_exact ?m" using mem_invD(1) [OF inv] by (simp add: counts_exact_def refs valid count)
  moreover have "pools_ok ?m" using mem_invD(2) [OF inv] d s u by (simp add: pools_ok_def managed_def refs)
  ultimately show ?thesis using mem_invD(3) [OF inv] ok by (simp add: mem_inv_def)
qed

lemma mem_inv_check_garbage:
  assumes inv: "mem_inv m" and len: "length (m_live m) < 2 ^ 32"
  shows "mem_inv (check_garbage m)"
proof -
  have ok: "pools_ok m" by (rule mem_invD(2) [OF inv])
  have "mem_inv (m\<lparr>m_garbagecan := filter (\<lambda>p. \<not> try_delete m p) (m_garbagecan m),
      m_deleted := m_deleted m @ filter (try_delete m) (m_garbagecan m)\<rparr>)"
  proof (rule mem_inv_can [OF inv])
    show "refs m (Pool_Count p i) = 0" if "p \<in> set (m_deleted m @ filter (try_delete m) (m_garbagecan m))" for p i
      using that ok try_delete_unused [OF inv _ len, of p] refs_deleted [OF ok, of p i] by (auto simp: pools_ok_def)
  qed (use ok in \<open>auto simp: pools_ok_def\<close>)
  then show ?thesis by (simp add: check_garbage_def)
qed

lemma check_garbage_rest:
  "m_live (check_garbage m) = m_live m" "m_pools (check_garbage m) = m_pools m" "m_blockpools (check_garbage m) = m_blockpools m"
  "refs (check_garbage m) = refs m" "managed (check_garbage m) = managed m"
  "set (m_garbagecan (check_garbage m)) \<union> set (m_deleted (check_garbage m)) = set (m_garbagecan m) \<union> set (m_deleted m)"
  by (auto simp: check_garbage_def refs_def fun_eq_iff managed_def)

lemma mem_inv_maybe_add:
  assumes inv: "mem_inv m" and len: "length (m_live m) < 2 ^ 32" and p: "p < length (m_pools m)"
    and new: "p \<notin> set (m_garbagecan m @ m_deleted m @ managed m)"
  shows "mem_inv (maybe_add_to_can p m)"
proof -
  let ?g = "check_garbage m"
  have g: "mem_inv ?g" by (rule mem_inv_check_garbage [OF inv len])
  note rest = check_garbage_rest [of m]
  have len': "length (m_live ?g) < 2 ^ 32" and p': "p < length (m_pools ?g)" using len p by (simp_all add: rest)
  have new': "p \<notin> set (m_garbagecan ?g @ m_deleted ?g @ managed ?g)"
    using new rest(5,6) by (metis Un_assoc set_append)
  note ok = mem_invD(2) [OF g]
  have "mem_inv (?g\<lparr>m_garbagecan := m_garbagecan ?g, m_deleted := m_deleted ?g @ [p]\<rparr>)" if "try_delete ?g p"
  proof (rule mem_inv_can [OF g])
    show "refs ?g (Pool_Count q i) = 0" if "q \<in> set (m_deleted ?g @ [p])" for q i
      using that refs_deleted [OF ok, of q i] try_delete_unused [OF g p' len'] \<open>try_delete ?g p\<close> by auto
  qed (use ok new' p' in \<open>auto simp: pools_ok_def\<close>)
  moreover have "mem_inv (?g\<lparr>m_garbagecan := m_garbagecan ?g @ [p], m_deleted := m_deleted ?g\<rparr>)"
    by (rule mem_inv_can [OF g]) (use ok new' p' refs_deleted [OF ok] in \<open>auto simp: pools_ok_def\<close>)
  ultimately show ?thesis by (simp add: maybe_add_to_can_def Let_def)
qed

lemma maybe_add_rest:
  "m_live (maybe_add_to_can p m) = m_live m" "m_pools (maybe_add_to_can p m) = m_pools m"
  "m_blockpools (maybe_add_to_can p m) = m_blockpools m" "managed (maybe_add_to_can p m) = managed m"
  "set (m_garbagecan (maybe_add_to_can p m) @ m_deleted (maybe_add_to_can p m)) = insert p (set (m_garbagecan m @ m_deleted m))"
  by (auto simp: maybe_add_to_can_def Let_def check_garbage_def managed_def)

lemma mem_inv_delete_pools:
  assumes "mem_inv m" "length (m_live m) < 2 ^ 32" "distinct ps" "set ps \<subseteq> {..<length (m_pools m)}"
    "set ps \<inter> set (m_garbagecan m @ m_deleted m @ managed m) = {}"
  shows "mem_inv (fold maybe_add_to_can ps m)"
  using assms
proof (induction ps arbitrary: m)
  case (Cons p ps)
  note rest = maybe_add_rest [of p m]
  have "mem_inv (maybe_add_to_can p m)" by (rule mem_inv_maybe_add) (use Cons.prems in auto)
  moreover have "set ps \<inter> set (m_garbagecan (maybe_add_to_can p m) @ m_deleted (maybe_add_to_can p m) @ managed (maybe_add_to_can p m)) = {}"
    using Cons.prems(3,5) rest(4,5) by auto
  ultimately show ?case using Cons.IH [of "maybe_add_to_can p m"] Cons.prems by (simp add: rest(1,2))
qed simp

lemma maybe_add_blockpools: "maybe_add_to_can p (m\<lparr>m_blockpools := bps\<rparr>) = (maybe_add_to_can p m)\<lparr>m_blockpools := bps\<rparr>"
proof -
  have td: "try_delete m = (\<lambda>p. sum_list (use_cnt (m_pools m ! p)) mod 2 ^ 32 = 0)" for m by (intro ext) (simp add: try_delete_def)
  show ?thesis by (cases m) (simp add: maybe_add_to_can_def check_garbage_def Let_def td)
qed

lemma fold_maybe_add_blockpools:
  "fold maybe_add_to_can ps (m\<lparr>m_blockpools := bps\<rparr>) = (fold maybe_add_to_can ps m)\<lparr>m_blockpools := bps\<rparr>"
  by (induction ps arbitrary: m) (simp_all add: maybe_add_blockpools)

lemma mem_inv_blockpool_delete:
  assumes inv: "mem_inv m" and len: "length (m_live m) < 2 ^ 32" and b: "b < length (m_blockpools m)" and del: "blockpool_delete b m = Some m'"
  shows "mem_inv m'"
proof -
  obtain bp where bp: "m_blockpools m ! b = Some bp" and m': "m' = (fold maybe_add_to_can (bp_pools bp) m)\<lparr>m_blockpools := (m_blockpools m)[b := None]\<rparr>"
    using del by (auto simp: blockpool_delete_def split: option.splits)
  let ?bps = "(m_blockpools m)[b := None]"
  let ?m = "m\<lparr>m_blockpools := ?bps\<rparr>"
  note ok = mem_invD(2) [OF inv]
  have parts: "mset (concat (map pools_of ?bps)) + mset (bp_pools bp) = mset (managed m)"
    using mset_managed_update [OF b, of None] bp by (simp add: managed_def pools_of_def)
  then have dist: "distinct (concat (map pools_of ?bps) @ bp_pools bp)"
    using ok mset_eq_imp_distinct_iff [of "concat (map pools_of ?bps) @ bp_pools bp" "managed m"] by (simp add: pools_ok_def)
  have sets: "set (concat (map pools_of ?bps)) \<union> set (bp_pools bp) = set (managed m)"
    using arg_cong [OF parts, of set_mset] by simp
  have inv': "mem_inv ?m"
  proof (rule mem_inv_blockpools [OF inv])
    show "distinct (m_garbagecan m @ m_deleted m @ concat (map pools_of ?bps))" using ok dist sets by (auto simp: pools_ok_def)
    show "set (concat (map pools_of ?bps)) \<subseteq> {..<length (m_pools m)}" using ok sets by (auto simp: pools_ok_def)
    show "curpool bp' < length (bp_pools bp')" if "Some bp' \<in> set ?bps" for bp'
      using that ok set_update_subset_insert [of "m_blockpools m" b None] by (auto simp: pools_ok_def)
  qed
  have "mem_inv (fold maybe_add_to_can (bp_pools bp) ?m)"
  proof (rule mem_inv_delete_pools [OF inv'])
    have "managed ?m = concat (map pools_of ?bps)" by (simp add: managed_def)
    then show "set (bp_pools bp) \<inter> set (m_garbagecan ?m @ m_deleted ?m @ managed ?m) = {}" using ok dist sets by (auto simp: pools_ok_def)
    show "set (bp_pools bp) \<subseteq> {..<length (m_pools ?m)}" using ok sets by (auto simp: pools_ok_def)
  qed (use len dist in auto)
  then show ?thesis unfolding m' fold_maybe_add_blockpools .
qed

text \<open>A new pool.\<close>

lemma pool_new_facts:
  assumes inv: "mem_inv m" and len: "length (m_live m) < 2 ^ 32" and new: "pool_new bs nb m = Some (p, m')"
  shows "mem_inv m'" "p < length (m_pools m')" "p \<notin> set (m_garbagecan m' @ m_deleted m' @ managed m')" "m_live m' = m_live m"
    "m_blockpools m' = m_blockpools m" "nblock (m_pools m' ! p) = nb" "block_size (m_pools m' ! p) = bs" "0 < nb"
    "refs m' (Pool_Count p i) = 0" "p \<notin> set (managed m)"
proof -
  let ?g = "check_garbage m"
  let ?pl = "\<lparr>next_alloc = 0, use_cnt = replicate nb 0, nblock = nb, block_size = bs\<rparr>"
  have g: "mem_inv ?g" by (rule mem_inv_check_garbage [OF inv len])
  have pos: "0 < nb" "0 < bs" and p: "p = length (m_pools ?g)" and m': "m' = ?g\<lparr>m_pools := m_pools ?g @ [?pl]\<rparr>"
    using new by (auto simp: pool_new_def Let_def split: if_splits)
  have refs: "refs m' = refs ?g" by (simp add: fun_eq_iff refs_def m')
  have zero: "refs ?g (Pool_Count p i) = 0" for i
  proof (rule ccontr)
    assume "refs ?g (Pool_Count p i) \<noteq> 0"
    then obtain b where "b \<in> set (m_live ?g)" "refcountptr b = Pool_Count p i" by (auto simp: refs_def filter_empty_conv)
    then show False using mem_invD(3) [OF g, of b] by (simp add: block_ok_def counter_valid_def p)
  qed
  then show "refs m' (Pool_Count p i) = 0" by (simp add: refs)
  note ok = mem_invD(2) [OF g]
  have "counts_exact m'"
    unfolding counts_exact_def
  proof (intro conjI allI impI)
    fix c assume v: "counter_valid m' c"
    show "count_of m' c = refs m' c"
    proof (cases "\<exists>i. c = Pool_Count p i")
      case True
      then show ?thesis using v zero refs by (auto simp: count_of_def counter_valid_def m' p)
    next
      case False
      then have "counter_valid ?g c" "count_of m' c = count_of ?g c"
        using v by (auto simp: counter_valid_def count_of_def m' p nth_append less_Suc_eq split: counter_ref.splits)
      then show ?thesis using mem_invD(1) [OF g] refs by (simp add: counts_exact_def)
    qed
  next
    fix k assume "k < length (m_own m')"
    then show "om_freed (m_own m' ! k) = (refs m' (Own_Count k) = 0)" using mem_invD(1) [OF g] by (simp add: counts_exact_def refs) (simp add: m')
  qed
  moreover have "pools_ok m'"
    using ok pos by (auto simp: pools_ok_def managed_def refs) (auto simp: m' pool_ok_def managed_def)
  moreover have "block_ok m' b" if "b \<in> set (m_live m')" for b
    using that mem_invD(3) [OF g, of b] by (cases "refcountptr b") (auto simp: block_ok_def counter_valid_def m' nth_append)
  ultimately show "mem_inv m'" by (simp add: mem_inv_def)
  show "p \<notin> set (m_garbagecan m' @ m_deleted m' @ managed m')" "p \<notin> set (managed m)"
  proof -
    have r: "q < p" if "q \<in> set (m_garbagecan ?g) \<union> set (m_deleted ?g) \<union> set (managed m)" for q
      using ok that check_garbage_rest(5) [of m] by (auto simp: pools_ok_def p)
    have "managed m' = managed m" by (simp add: m' managed_def check_garbage_def)
    moreover have "m_garbagecan m' = m_garbagecan ?g" "m_deleted m' = m_deleted ?g" by (simp_all add: m')
    ultimately show "p \<notin> set (m_garbagecan m' @ m_deleted m' @ managed m')" "p \<notin> set (managed m)" using r [of p] by auto
  qed
qed (use new in \<open>auto simp: pool_new_def Let_def check_garbage_def split: if_splits\<close>)

text \<open>Getting a block: it was unused, and a pool is added only when all are full.\<close>

lemma mem_inv_add_blockpools:
  assumes "mem_inv (add_live rv m)" "distinct (m_garbagecan m @ m_deleted m @ concat (map pools_of bps))"
    "set (concat (map pools_of bps)) \<subseteq> {..<length (m_pools m)}" "\<And>bp. Some bp \<in> set bps \<Longrightarrow> curpool bp < length (bp_pools bp)"
  shows "mem_inv (add_live rv (m\<lparr>m_blockpools := bps\<rparr>))"
proof -
  have eq: "add_live rv (m\<lparr>m_blockpools := bps\<rparr>) = (add_live rv m)\<lparr>m_blockpools := bps\<rparr>" by (cases m) (simp add: add_live_def)
  show ?thesis unfolding eq using mem_inv_blockpools [OF assms(1), of bps] assms(2-4) by (simp add: add_live_def)
qed

lemma blockpool_get_facts:
  assumes inv: "mem_inv m" and len: "length (m_live m) < 2 ^ 32" and b: "b < length (m_blockpools m)"
    and get: "blockpool_get b m = Some m'"
  shows "mem_inv m' \<and> (\<exists>bp rv p i. m_blockpools m ! b = Some bp \<and> m_live m' = m_live m @ [rv] \<and> refcountptr rv = Pool_Count p i
      \<and> i < nblock (m_pools m' ! p) \<and> refs m (Pool_Count p i) = 0
      \<and> iov_base rv = Some (Pool_Region p, i * block_size (m_pools m' ! p)) \<and> iov_len rv = block_size (m_pools m' ! p)
      \<and> length (m_pools m') = length (m_pools m) + (if \<forall>p \<in> set (bp_pools bp). pool_full m p then 1 else 0))"
proof -
  obtain bp where bp: "m_blockpools m ! b = Some bp" using get by (auto simp: blockpool_get_def split: option.splits)
  obtain rv bp' m1 where l: "blockpool_loop (length (bp_pools bp)) bp (curpool bp) m = (rv, bp', m1)" by (cases "blockpool_loop (length (bp_pools bp)) bp (curpool bp) m")
  note ok = mem_invD(2) [OF inv]
  have bpm: "Some bp \<in> set (m_blockpools m)" using bp b by (metis nth_mem)
  have sub: "set (bp_pools bp) \<subseteq> set (managed m)" using bpm by (force simp: managed_def pools_of_def)
  have pools: "p < length (m_pools m) \<and> p \<notin> set (m_deleted m)" if "p \<in> set (bp_pools bp)" for p
    using that sub ok by (auto simp: pools_ok_def)
  have cur: "curpool bp < length (bp_pools bp)" using ok bpm by (simp add: pools_ok_def)
  note loop = blockpool_loop_start [OF inv pools cur l]
  have rest: "same_rest m m1" and bp': "bp_pools bp' = bp_pools bp" "curpool bp' < length (bp_pools bp)" using loop by simp_all
  note same = same_rest_facts [OF rest]
  have shape: "m_garbagecan m1 = m_garbagecan m" "m_blockpools m1 = m_blockpools m" using rest by (simp_all add: same_rest_def same_shape_def)
  show ?thesis
  proof (cases "block_empty rv")
    case False
    let ?bps = "(m_blockpools m1)[b := Some bp']"
    have m': "m' = add_live rv (m1\<lparr>m_blockpools := ?bps\<rparr>)" using get bp l False by (simp add: blockpool_get_def Let_def)
    obtain p where p: "p \<in> set (bp_pools bp)" "fresh_block m p rv" and inv1: "mem_inv (add_live rv m1)" using loop False by auto
    have part: "mset (concat (map pools_of ?bps)) = mset (managed m)"
      using mset_managed_update [of b "m_blockpools m1" "Some bp'"] b bp bp'(1) by (simp add: shape managed_def pools_of_def)
    have "mem_inv m'"
      unfolding m'
    proof (rule mem_inv_add_blockpools [OF inv1])
      have "mset (m_garbagecan m1 @ m_deleted m1 @ concat (map pools_of ?bps)) = mset (m_garbagecan m @ m_deleted m @ managed m)"
        using part by (simp add: shape same(3))
      then show "distinct (m_garbagecan m1 @ m_deleted m1 @ concat (map pools_of ?bps))"
        using mset_eq_imp_distinct_iff ok unfolding pools_ok_def by blast
      have "set (concat (map pools_of ?bps)) = set (managed m)" using mset_eq_setD [OF part] .
      then show "set (concat (map pools_of ?bps)) \<subseteq> {..<length (m_pools m1)}" using ok same(2) by (simp add: pools_ok_def)
      show "curpool x < length (bp_pools x)" if "Some x \<in> set ?bps" for x
        using that ok bp' set_update_subset_insert [of "m_blockpools m1" b "Some bp'"] by (auto simp: pools_ok_def shape)
    qed
    moreover have "m_live m' = m_live m @ [rv]" "m_pools m' = m_pools m1" by (simp_all add: m' add_live_def same(4))
    moreover have "\<not> (\<forall>p \<in> set (bp_pools bp). pool_full m p)" using p by (auto simp: pool_full_def fresh_block_def)
    moreover have "p < length (m_pools m)" using pools p(1) by blast
    ultimately show ?thesis using p(2) bp rest by (auto simp: fresh_block_def same_rest_def same_shape_def)
  next
    case True
    then have inv1: "mem_inv m1" and full: "\<forall>p \<in> set (bp_pools bp). pool_full m p" using loop by auto
    obtain p m2 where n: "pool_new (blocksize bp') (nblock_p_pool bp') m1 = Some (p, m2)"
      using get bp l True by (auto simp: blockpool_get_def Let_def)
    obtain rv' m3 where g: "pool_get p m2 = (rv', m3)" by fastforce
    have len1: "length (m_live m1) < 2 ^ 32" using len same(4) by simp
    note new = pool_new_facts [OF inv1 len1 n]
    have del: "p \<notin> set (m_deleted m2)" using new(3) by simp
    note pg = pool_get_facts [OF new(1,2) del g]
    note same3 = same_rest_facts [OF pg(1)]
    have ne: "\<not> block_empty rv'" using pg(2) new(6,8) new(9) [of 0] by fastforce
    let ?bps = "(m_blockpools m3)[b := Some (bp'\<lparr>bp_pools := bp_pools bp' @ [p], curpool := length (bp_pools bp')\<rparr>)]"
    have m': "m' = add_live rv' (m3\<lparr>m_blockpools := ?bps\<rparr>)"
      using get bp l True n g by (simp add: blockpool_get_def Let_def)
    obtain i where i: "i < nblock (m_pools m2 ! p)" "refcountptr rv' = Pool_Count p i"
      "iov_base rv' = Some (Pool_Region p, i * block_size (m_pools m2 ! p))" "iov_len rv' = block_size (m_pools m2 ! p)"
      and inv3: "mem_inv (add_live rv' m3)" using pg(3) ne by blast
    have bps3: "m_blockpools m3 = m_blockpools m" using same3(5) new(5) shape(2) by simp
    have man2: "managed m2 = managed m" using new(5) shape(2) by (simp add: managed_def)
    have part: "mset (concat (map pools_of ?bps)) = mset (managed m2 @ [p])"
      using mset_managed_update [of b "m_blockpools m3" "Some (bp'\<lparr>bp_pools := bp_pools bp' @ [p], curpool := length (bp_pools bp')\<rparr>)"]
        b bp bp'(1) man2 by (simp add: bps3 managed_def pools_of_def)
    have can3: "m_garbagecan m3 = m_garbagecan m2" using pg(1) by (simp add: same_rest_def same_shape_def)
    note ok2 = mem_invD(2) [OF new(1)]
    have "mem_inv m'"
      unfolding m'
    proof (rule mem_inv_add_blockpools [OF inv3])
      have "mset (m_garbagecan m3 @ m_deleted m3 @ concat (map pools_of ?bps)) = mset (m_garbagecan m2 @ m_deleted m2 @ managed m2 @ [p])"
        using part by (simp add: can3 same3(3))
      moreover have "distinct (m_garbagecan m2 @ m_deleted m2 @ managed m2 @ [p])" using ok2 new(3) by (auto simp: pools_ok_def)
      ultimately show "distinct (m_garbagecan m3 @ m_deleted m3 @ concat (map pools_of ?bps))" using mset_eq_imp_distinct_iff by blast
      have "set (concat (map pools_of ?bps)) = set (managed m2 @ [p])" using mset_eq_setD [OF part] .
      then show "set (concat (map pools_of ?bps)) \<subseteq> {..<length (m_pools m3)}" using ok2 same3(2) new(2) by (auto simp: pools_ok_def)
      show "curpool x < length (bp_pools x)" if "Some x \<in> set ?bps" for x
        using subsetD [OF set_update_subset_insert that] ok by (auto simp: pools_ok_def bps3)
    qed
    moreover have "m_live m' = m_live m @ [rv']" using same3(4) new(4) same(4) by (simp add: m' add_live_def)
    moreover have "refs m (Pool_Count p i) = 0"
      using new(9) [of i] new(4) same(4) by (simp add: refs_def)
    moreover have "length (m_pools m') = Suc (length (m_pools m))"
      using n same(2) same3(2) by (auto simp: m' add_live_def pool_new_def Let_def check_garbage_def split: if_splits)
    moreover have "nblock (m_pools m' ! p) = nblock (m_pools m2 ! p)" "block_size (m_pools m' ! p) = block_size (m_pools m2 ! p)"
      using pg(1) new(2) by (simp_all add: m' add_live_def same_rest_def same_shape_def)
    ultimately show ?thesis using bp full i by auto
  qed
qed

lemma mem_inv_blockpool_new:
  assumes inv: "mem_inv m" and len: "length (m_live m) < 2 ^ 32" and new: "blockpool_new bs nb m = Some m'"
  shows "mem_inv m'"
proof -
  obtain p m1 where n: "pool_new bs nb m = Some (p, m1)"
    and m': "m' = m1\<lparr>m_blockpools := m_blockpools m1 @ [Some \<lparr>bp_pools = [p], curpool = 0, blocksize = bs, nblock_p_pool = nb\<rparr>]\<rparr>"
    using new by (auto simp: blockpool_new_def split: if_splits)
  note facts = pool_new_facts [OF inv len n]
  note ok = mem_invD(2) [OF facts(1)]
  show ?thesis
    unfolding m'
  proof (rule mem_inv_blockpools [OF facts(1)])
    show "distinct (m_garbagecan m1 @ m_deleted m1 @
        concat (map pools_of (m_blockpools m1 @ [Some \<lparr>bp_pools = [p], curpool = 0, blocksize = bs, nblock_p_pool = nb\<rparr>])))"
      using ok facts(3) by (auto simp: pools_ok_def managed_def pools_of_def)
    show "set (concat (map pools_of (m_blockpools m1 @ [Some \<lparr>bp_pools = [p], curpool = 0, blocksize = bs, nblock_p_pool = nb\<rparr>])))
        \<subseteq> {..<length (m_pools m1)}" using ok facts(2) by (auto simp: pools_ok_def managed_def pools_of_def)
  qed (use ok in \<open>auto simp: pools_ok_def\<close>)
qed

lemma mem_inv_exec:
  assumes "mem_inv m" "op_bounded op m" "mem_exec op m = Some m'"
  shows "mem_inv m'"
proof -
  have len: "length (m_live m) < 2 ^ 32 - 1" "length (m_live m) < 2 ^ 32" using assms(2) by (simp_all add: op_bounded_def)
  show ?thesis
  proof (cases op)
    case (Op_Sub i offset n)
    then show ?thesis using assms mem_inv_sub [OF assms(1) _ len(1)] by (auto simp: mem_exec_def op_bounded_def split: if_splits)
  next
    case (Op_Get b)
    then show ?thesis using assms(3) blockpool_get_facts [OF assms(1) len(2)] by (auto simp: mem_exec_def split: if_splits)
  next
    case (Op_Delete b)
    then show ?thesis using assms(3) mem_inv_blockpool_delete [OF assms(1) len(2)] by (auto simp: mem_exec_def split: if_splits)
  next
    case (Op_Blockpool bs nb)
    then show ?thesis using assms(3) mem_inv_blockpool_new [OF assms(1) len(2)] by (simp add: mem_exec_def)
  next
    case Op_Default
    then show ?thesis using assms(3) mem_inv_default [OF assms(1)] by (simp add: mem_exec_def)
  next
    case (Op_Malloc sz)
    then show ?thesis using assms(3) mem_inv_malloc [OF assms(1), of sz] by (auto simp: mem_exec_def)
  next
    case (Op_Copy i)
    then show ?thesis using assms(3) mem_inv_block_copy [OF assms(1) _ len(1)] by (auto simp: mem_exec_def split: if_splits)
  next
    case (Op_Assign i j)
    then show ?thesis using assms(3) mem_inv_assign [OF assms(1) _ _ len(1)] by (auto simp: mem_exec_def split: if_splits)
  next
    case (Op_Destroy i)
    then show ?thesis using assms(3) mem_inv_destroy [OF assms(1) _ len(2)] by (auto simp: mem_exec_def split: if_splits)
  qed
qed

lemma mem_reachable_inv: "mem_reachable m \<Longrightarrow> mem_inv m"
proof (induction rule: mem_reachable.induct)
  case start
  show ?case by (simp add: mem_inv_def memory_start_def counts_exact_def counter_valid_def pools_ok_def managed_def split: counter_ref.split)
next
  case (step m op m')
  then show ?case using mem_inv_exec by blast
qed

subsection \<open>What the blocks promise\<close>

text \<open>C8: However blocks are got, copied, assigned, sliced and destroyed, and block pools made and destroyed, in
  every state each counter is the number of block objects that use it: a slot of a pool or memory of
  its own counts as free exactly when no block refers to it.\<close>

theorem block_counts_exact:
  assumes "mem_reachable m"
  shows "(\<forall>p < length (m_pools m). \<forall>i < nblock (m_pools m ! p). use_cnt (m_pools m ! p) ! i = refs m (Pool_Count p i))
    \<and> (\<forall>k < length (m_own m). om_count (m_own m ! k) = refs m (Own_Count k) \<and> (om_freed (m_own m ! k) \<longleftrightarrow> refs m (Own_Count k) = 0))"
proof -
  have exact: "counts_exact m" using mem_invD(1) [OF mem_reachable_inv [OF assms]] .
  have "om_count (m_own m ! k) = refs m (Own_Count k)" if "k < length (m_own m)" for k
  proof -
    have "counter_valid m (Own_Count k)" using that by (simp add: counter_valid_def)
    then have "count_of m (Own_Count k) = refs m (Own_Count k)" using exact by (simp add: counts_exact_def)
    then show ?thesis by (simp add: count_of_def)
  qed
  then show ?thesis using exact pool_count_exact [OF exact] by (simp add: counts_exact_def)
qed

text \<open>The bytes a block refers to: its region, and the interval in it.\<close>

definition overlaps :: "block \<Rightarrow> block \<Rightarrow> bool" where
  "overlaps b c \<longleftrightarrow> (case (iov_base b, iov_base c) of
       (Some (r, x), Some (s, y)) \<Rightarrow> r = s \<and> x < y + iov_len c \<and> y < x + iov_len b
     | _ \<Rightarrow> False)"

text \<open>C9: A block got from a block pool is a whole slot of a pool that is not deleted, and no other block in
  the program refers to a byte of it. A pool is added only when every slot of every pool is in use.\<close>

theorem get_gives_unused_memory:
  assumes "mem_reachable m" "op_bounded (Op_Get b) m" "mem_exec (Op_Get b) m = Some m'"
  shows "\<exists>bp rv p. m_blockpools m ! b = Some bp \<and> m_live m' = m_live m @ [rv]
    \<and> iov_len rv = block_size (m_pools m' ! p) \<and> fst (the (iov_base rv)) = Pool_Region p \<and> p \<notin> set (m_deleted m')
    \<and> (\<forall>c \<in> set (m_live m). \<not> overlaps c rv)
    \<and> length (m_pools m') = length (m_pools m) + (if \<forall>p \<in> set (bp_pools bp). pool_full m p then 1 else 0)"
proof -
  have inv: "mem_inv m" by (rule mem_reachable_inv [OF assms(1)])
  have len: "length (m_live m) < 2 ^ 32" and b: "b < length (m_blockpools m)" and get: "blockpool_get b m = Some m'"
    using assms(2,3) by (auto simp: op_bounded_def mem_exec_def split: if_splits)
  from blockpool_get_facts [OF inv len b get] obtain bp rv p i where
    inv': "mem_inv m'" and r: "m_blockpools m ! b = Some bp" "m_live m' = m_live m @ [rv]" "refcountptr rv = Pool_Count p i"
      "i < nblock (m_pools m' ! p)" "refs m (Pool_Count p i) = 0"
      "iov_base rv = Some (Pool_Region p, i * block_size (m_pools m' ! p))" "iov_len rv = block_size (m_pools m' ! p)"
      "length (m_pools m') = length (m_pools m) + (if \<forall>p \<in> set (bp_pools bp). pool_full m p then 1 else 0)" by blast
  have "refs m' (Pool_Count p i) \<noteq> 0" using r(2,3) by (simp add: refs_def)
  then have "p \<notin> set (m_deleted m')" using refs_deleted [OF mem_invD(2) [OF inv']] by metis
  moreover have "\<not> overlaps c rv" if c: "c \<in> set (m_live m)" for c
  proof
    assume "overlaps c rv"
    then obtain x where x: "iov_base c = Some (Pool_Region p, x)" "x < i * block_size (m_pools m' ! p) + block_size (m_pools m' ! p)"
      "i * block_size (m_pools m' ! p) < x + iov_len c" using r(6,7) by (auto simp: overlaps_def split: option.splits)
    have "block_ok m' c" using mem_invD(3) [OF inv', of c] c r(2) by simp
    then obtain j where j: "refcountptr c = Pool_Count p j" "j * block_size (m_pools m' ! p) \<le> x"
      "x + iov_len c \<le> Suc j * block_size (m_pools m' ! p)" using x(1) by (cases "refcountptr c") (auto simp: block_ok_def)
    have "j \<noteq> i" using j(1) refs_live [OF c] r(5) by auto
    then show False using x(2,3) j(2,3) slots_disjoint [of j i "block_size (m_pools m' ! p)" "block_size (m_pools m' ! p)"] by auto
  qed
  ultimately show ?thesis using r by auto
qed


text \<open>The check of \<open>sub\<close> adds in 32 bits: a slice whose offset and length wrap around is granted although
  it lies outside the block.\<close>

theorem sub_accepts_wrapped_slice:
  assumes "i < length (m_live m)" "iov_base (m_live m ! i) = Some (r, off)" "2 ^ 32 \<le> offset + n"
    "offset + n - 2 ^ 32 \<le> iov_len (m_live m ! i)" "iov_len (m_live m ! i) < 2 ^ 32" "offset < 2 ^ 32" "n < 2 ^ 32"
  shows "\<exists>m' s. mem_exec (Op_Sub i offset n) m = Some m' \<and> m_live m' = m_live m @ [s]
    \<and> iov_base s = Some (r, off + offset) \<and> iov_len s = n \<and> off + iov_len (m_live m ! i) < off + offset + n"
proof -
  have "u32_add offset n = offset + n - 2 ^ 32" using assms(3,6,7) by (simp add: u32_add_def le_mod_geq)
  then show ?thesis using assms by (simp add: mem_exec_def block_sub_def Let_def add_live_def)
qed

text \<open>The two halves of \<open>release\<close>, in a schedule of threads each of which destroys one block: the threads that
  have done the first half, and how often the memory was freed.\<close>

fun release_race :: "block \<Rightarrow> nat list \<Rightarrow> nat set \<Rightarrow> memory \<Rightarrow> nat \<Rightarrow> memory \<times> nat" where
  "release_race b [] halfway m frees = (m, frees)"
| "release_race b (t # ts) halfway m frees =
     (if t \<notin> halfway then release_race b ts (insert t halfway) (DEC (refcountptr b) m) frees
      else if myMemory b \<and> count_of m (refcountptr b) = 0
      then release_race b ts halfway (free_count (refcountptr b) m) (frees + 1)
      else release_race b ts halfway m frees)"


text \<open>A run: a block pool of one pool of two slots of eight bytes, a block, a slice of it.\<close>

definition sample_pool :: "nat list \<Rightarrow> nat \<Rightarrow> pool_type" where
  "sample_pool uses next = \<lparr>next_alloc = next, use_cnt = uses, nblock = 2, block_size = 8\<rparr>"

definition sample_block :: "nat \<Rightarrow> nat \<Rightarrow> nat \<Rightarrow> block" where
  "sample_block i off len = \<lparr>iov_base = Some (Pool_Region 0, off), iov_len = len, myMemory = False, refcountptr = Pool_Count 0 i\<rparr>"

definition sample_memory :: "nat list \<Rightarrow> nat \<Rightarrow> block list \<Rightarrow> memory" where
  "sample_memory uses next live = \<lparr>m_pools = [sample_pool uses next], m_own = [], m_dummy = 1, m_garbagecan = [], m_deleted = [],
     m_blockpools = [Some \<lparr>bp_pools = [0], curpool = 0, blocksize = 8, nblock_p_pool = 2\<rparr>], m_live = live\<rparr>"

lemmas sample_defs = mem_exec_def sample_memory_def sample_pool_def sample_block_def memory_start_def add_live_def Let_def

lemma sample_blockpool: "mem_exec (Op_Blockpool 8 2) memory_start = Some (sample_memory [0, 0] 0 [])"
proof -
  have "replicate 2 (0::nat) = [0, 0]" by (simp add: numeral_2_eq_2)
  then show ?thesis by (simp add: sample_defs blockpool_new_def pool_new_def check_garbage_def)
qed

lemma sample_get: "mem_exec (Op_Get 0) (sample_memory [0, 0] 0 []) = Some (sample_memory [1, 0] 1 [sample_block 0 0 8])"
  by (simp add: sample_defs blockpool_get_def pool_get_def block_empty_def numeral_2_eq_2)

lemma sample_sub: "mem_exec (Op_Sub 0 2 4) (sample_memory [1, 0] 1 [sample_block 0 0 8])
    = Some (sample_memory [2, 0] 1 [sample_block 0 0 8, sample_block 0 2 4])"
  by (simp add: sample_defs block_sub_def INC_def update_count_def u32_add_def)

lemma sample_reachable: "mem_reachable (sample_memory [2, 0] 1 [sample_block 0 0 8, sample_block 0 2 4])"
proof -
  have "mem_reachable (sample_memory [0, 0] 0 [])"
    by (rule mem_reachable.step [OF mem_reachable.start _ sample_blockpool]) (simp add: op_bounded_def memory_start_def)
  from mem_reachable.step [OF this _ sample_get] have "mem_reachable (sample_memory [1, 0] 1 [sample_block 0 0 8])"
    by (simp add: op_bounded_def sample_memory_def)
  from mem_reachable.step [OF this _ sample_sub] show ?thesis by (simp add: op_bounded_def sample_memory_def)
qed

theorem block_counts_exact_witness: "refs (sample_memory [2, 0] 1 [sample_block 0 0 8, sample_block 0 2 4]) (Pool_Count 0 0) = 2"
  using conjunct1 [OF block_counts_exact [OF sample_reachable], rule_format, of 0 0] by (simp add: sample_memory_def sample_pool_def)

lemma sample_get_again: "mem_exec (Op_Get 0) (sample_memory [2, 0] 1 [sample_block 0 0 8, sample_block 0 2 4])
    = Some (sample_memory [2, 1] 0 [sample_block 0 0 8, sample_block 0 2 4, sample_block 1 8 8])"
  by (simp add: sample_defs blockpool_get_def pool_get_def block_empty_def numeral_2_eq_2)

theorem get_gives_unused_memory_witness:
  "\<not> overlaps (sample_block 0 2 4) (sample_block 1 8 8)"
proof -
  let ?m = "sample_memory [2, 0] 1 [sample_block 0 0 8, sample_block 0 2 4]"
  have "op_bounded (Op_Get 0) ?m" by (simp add: op_bounded_def sample_memory_def)
  from get_gives_unused_memory [OF sample_reachable this sample_get_again]
  have "\<exists>rv. [sample_block 0 0 8, sample_block 0 2 4, sample_block 1 8 8] = [sample_block 0 0 8, sample_block 0 2 4] @ [rv]
      \<and> (\<forall>c \<in> {sample_block 0 0 8, sample_block 0 2 4}. \<not> overlaps c rv)"
    by (auto simp: sample_memory_def)
  then show ?thesis by auto
qed


theorem sub_accepts_wrapped_slice_witness:
  "\<exists>m' s. mem_exec (Op_Sub 0 (2 ^ 32 - 1) 5) (sample_memory [1, 0] 1 [sample_block 0 0 8]) = Some m'
    \<and> m_live m' = [sample_block 0 0 8, s] \<and> iov_base s = Some (Pool_Region 0, 2 ^ 32 - 1) \<and> iov_len s = 5"
  using sub_accepts_wrapped_slice [of 0 "sample_memory [1, 0] 1 [sample_block 0 0 8]" "Pool_Region 0" 0 "2 ^ 32 - 1" 5]
  by (simp add: sample_memory_def sample_block_def)


end
