(* ===== verification/CircularBuffer.thy ===== *)
theory CircularBuffer
  imports JPrelude
begin

text \<open>
  The templated ring buffer of \<open>src/src/circular_buffer.h\<close>: an array with a read and a
  write index and an element count. Indices are \<open>unsigned int\<close>: they may rest at
  \<open>capacity\<close>, one past the last used slot, which the code treats like slot 0. A push
  that does not fit drops the oldest elements. The abstract view is the list of elements,
  oldest first.
\<close>

record 'a circular_buffer =
  cb_capacity :: nat
  cb_nelements :: nat
  cb_elements :: "'a list"
  cb_read_ptr :: nat
  cb_write_ptr :: nat

datatype cb_error = Not_Enough_Elements

text \<open>The constructors; \<open>d\<close> is the default-constructed element the array is filled with.\<close>

definition cb_default :: "'a circular_buffer" where
  "cb_default = \<lparr>cb_capacity = 0, cb_nelements = 0, cb_elements = [],
     cb_read_ptr = 0, cb_write_ptr = 0\<rparr>"

definition cb_new :: "'a \<Rightarrow> nat \<Rightarrow> 'a circular_buffer" where
  "cb_new d n = \<lparr>cb_capacity = n, cb_nelements = 0, cb_elements = replicate (n + 1) d,
     cb_read_ptr = 0, cb_write_ptr = 0\<rparr>"

definition cb_copy :: "'a \<Rightarrow> 'a circular_buffer \<Rightarrow> 'a circular_buffer" where
  "cb_copy d other = \<lparr>cb_capacity = cb_capacity other, cb_nelements = cb_nelements other,
     cb_elements = blit (replicate (cb_capacity other + 1) d) 0 (cb_elements other) 0
       (cb_capacity other),
     cb_read_ptr = cb_read_ptr other, cb_write_ptr = cb_write_ptr other\<rparr>"

definition cb_size :: "'a circular_buffer \<Rightarrow> nat" where
  "cb_size cb = cb_nelements cb"

definition cb_clear :: "'a circular_buffer \<Rightarrow> 'a circular_buffer" where
  "cb_clear cb = cb\<lparr>cb_read_ptr := 0, cb_write_ptr := 0, cb_nelements := 0\<rparr>"

text \<open>\<open>pop(b, n)\<close>: the \<open>n\<close> elements written to \<open>b\<close>, and the buffer after.\<close>

definition cb_pop :: "'a circular_buffer \<Rightarrow> nat \<Rightarrow> cb_error + 'a list \<times> 'a circular_buffer" where
  "cb_pop cb n =
     (if n > cb_nelements cb then Inl Not_Enough_Elements
      else
        let read_to_end = min (u32_sub (cb_capacity cb) (cb_read_ptr cb)) n;
            read_from_begin = max 0 (u32_sub n read_to_end);
            b = map (\<lambda>i. cb_elements cb ! (cb_read_ptr cb + i)) [0..<read_to_end]
                @ map (\<lambda>i. cb_elements cb ! i) [0..<read_from_begin];
            rp = u32_add (cb_read_ptr cb) n
        in Inr (b, cb\<lparr>cb_read_ptr := (if rp > cb_capacity cb then read_from_begin else rp),
                      cb_nelements := u32_sub (cb_nelements cb) n\<rparr>))"

definition cb_pop1 :: "'a circular_buffer \<Rightarrow> cb_error + 'a \<times> 'a circular_buffer" where
  "cb_pop1 cb = (case cb_pop cb 1 of Inl e \<Rightarrow> Inl e | Inr (b, cb') \<Rightarrow> Inr (b ! 0, cb'))"

text \<open>\<open>push(ptr, n)\<close> with \<open>ptr\<close> the list and \<open>n\<close> its length.\<close>

definition cb_push :: "'a circular_buffer \<Rightarrow> 'a list \<Rightarrow> 'a circular_buffer" where
  "cb_push cb ptr =
     (let n = length ptr;
          skip = (if n < cb_capacity cb then 0 else u32_sub n (cb_capacity cb));
          ncpy = u32_sub n skip;
          cb1 = (if skip \<noteq> 0
                 then cb\<lparr>cb_write_ptr := 0, cb_read_ptr := 0, cb_nelements := 0\<rparr> else cb);
          nelements = u32_add (cb_nelements cb1) ncpy;
          n_to_end = min (u32_sub (cb_capacity cb) (cb_write_ptr cb1)) ncpy;
          n_from_begin = max 0 (u32_sub ncpy n_to_end);
          e1 = blit (cb_elements cb1) (cb_write_ptr cb1) ptr skip n_to_end;
          e2 = blit e1 0 ptr (skip + n_to_end) n_from_begin;
          wp0 = u32_add (cb_write_ptr cb1) ncpy;
          wp = (if wp0 > cb_capacity cb then n_from_begin else wp0);
          rp = (if nelements > cb_capacity cb then wp else cb_read_ptr cb1)
      in cb1\<lparr>cb_elements := e2, cb_write_ptr := wp, cb_read_ptr := rp,
             cb_nelements := min (cb_capacity cb) nelements\<rparr>)"

definition cb_push1 :: "'a circular_buffer \<Rightarrow> 'a \<Rightarrow> 'a circular_buffer" where
  "cb_push1 cb b = cb_push cb [b]"

text \<open>\<open>operator[]\<close>: a negative index counts back from the write index.\<close>

definition cb_index :: "'a circular_buffer \<Rightarrow> int \<Rightarrow> cb_error + 'a" where
  "cb_index cb idx =
     (let absidx = nat \<bar>idx\<bar>
      in if (idx \<ge> 0 \<and> absidx \<ge> cb_nelements cb) \<or> (idx < 0 \<and> absidx > cb_nelements cb)
         then Inl Not_Enough_Elements
         else
           let lidx = (if idx \<ge> 0
                       then let a = u32_add absidx (cb_read_ptr cb)
                            in if a \<ge> cb_capacity cb then u32_sub a (cb_capacity cb) else a
                       else if absidx > cb_write_ptr cb
                       then u32_add (u32_sub (cb_capacity cb) absidx) (cb_write_ptr cb)
                       else u32_sub (cb_write_ptr cb) absidx)
           in Inr (cb_elements cb ! lidx))"

subsection \<open>Abstraction and invariant\<close>

definition cb_contents :: "'a circular_buffer \<Rightarrow> 'a list" where
  "cb_contents cb = map (\<lambda>i. cb_elements cb ! ((cb_read_ptr cb + i) mod cb_capacity cb))
     [0..<cb_nelements cb]"

definition cb_inv :: "'a circular_buffer \<Rightarrow> bool" where
  "cb_inv cb \<longleftrightarrow> cb_capacity cb \<le> length (cb_elements cb)
     \<and> cb_capacity cb < 2 ^ 31
     \<and> cb_nelements cb \<le> cb_capacity cb
     \<and> cb_read_ptr cb \<le> cb_capacity cb
     \<and> cb_write_ptr cb \<le> cb_capacity cb
     \<and> cb_write_ptr cb mod cb_capacity cb
         = (cb_read_ptr cb + cb_nelements cb) mod cb_capacity cb"

lemma length_cb_contents [simp]: "length (cb_contents cb) = cb_nelements cb"
  by (simp add: cb_contents_def)

lemma nth_cb_contents:
  "i < cb_nelements cb \<Longrightarrow>
   cb_contents cb ! i = cb_elements cb ! ((cb_read_ptr cb + i) mod cb_capacity cb)"
  by (simp add: cb_contents_def)

text \<open>An index at most one lap ahead reduces by one conditional subtraction.\<close>

lemma ring_mod: "a < 2 * c \<Longrightarrow> (a::nat) mod c = (if a < c then a else a - c)"
  by (auto simp: mod_if)

lemma ring_slot:
  assumes "r \<le> c" "i < (c::nat)"
  shows "(r + i) mod c = (if r + i < c then r + i else r + i - c)"
  using assms by (intro ring_mod) simp

text \<open>Reading \<open>n\<close> elements in two runs, up to the end of the array and from its start.\<close>

lemma ring_read:
  assumes "r \<le> c" "n \<le> c"
  shows "map (\<lambda>i. e ! (r + i)) [0..<min (c - r) n] @ map (\<lambda>i. e ! i) [0..<n - min (c - r) n]
    = map (\<lambda>i. e ! ((r + i) mod c)) [0..<n]"
proof (rule nth_equalityI)
  show "length (map (\<lambda>i. e ! (r + i)) [0..<min (c - r) n] @
      map (\<lambda>i. e ! i) [0..<n - min (c - r) n]) = length (map (\<lambda>i. e ! ((r + i) mod c)) [0..<n])"
    by simp
next
  fix i assume "i < length (map (\<lambda>i. e ! (r + i)) [0..<min (c - r) n] @
      map (\<lambda>i. e ! i) [0..<n - min (c - r) n])"
  then have i: "i < n" by simp
  have slot: "(r + i) mod c = (if r + i < c then r + i else r + i - c)"
    by (rule ring_slot) (use assms i in simp_all)
  show "(map (\<lambda>i. e ! (r + i)) [0..<min (c - r) n] @
      map (\<lambda>i. e ! i) [0..<n - min (c - r) n]) ! i = map (\<lambda>i. e ! ((r + i) mod c)) [0..<n] ! i"
  proof (cases "r + i < c")
    case True
    then have "i < c - r" by simp
    with i slot True show ?thesis by (simp add: nth_append)
  next
    case False
    then have "min (c - r) n = c - r" and "\<not> i < c - r" and "i - (c - r) = r + i - c"
      using i assms by auto
    with i slot False show ?thesis by (simp add: nth_append)
  qed
qed

lemma map_shift_drop: "n \<le> m \<Longrightarrow> map (\<lambda>i. f (n + i)) [0..<m - n] = drop n (map f [0..<m])"
  by (rule nth_equalityI) auto

lemma cb_pop_lemma:
  assumes inv: "cb_inv cb" and n: "n \<le> cb_nelements cb"
  obtains cb' where "cb_pop cb n = Inr (take n (cb_contents cb), cb')" "cb_inv cb'"
    "cb_contents cb' = drop n (cb_contents cb)" "cb_capacity cb' = cb_capacity cb"
proof -
  let ?c = "cb_capacity cb" and ?r = "cb_read_ptr cb" and ?e = "cb_elements cb"
  let ?ne = "cb_nelements cb"
  note b = inv [unfolded cb_inv_def]
  have nc: "n \<le> ?c" "?r \<le> ?c" "?c < 2 ^ 31" "n < 2 ^ 32" "?r + n < 2 ^ 32" "?ne \<le> ?c"
    using b n by simp_all
  let ?m = "min (?c - ?r) n"
  let ?r' = "if ?r + n > ?c then n - ?m else ?r + n"
  let ?cb = "cb\<lparr>cb_read_ptr := ?r', cb_nelements := ?ne - n\<rparr>"
  have pop: "cb_pop cb n = Inr (take n (cb_contents cb), ?cb)"
    using nc n ring_read [of ?r ?c n ?e]
    by (simp add: cb_pop_def u32_simps Let_def cb_contents_def take_map)
  have r': "?r' = (if ?r + n \<le> ?c then ?r + n else ?r + n - ?c)"
    using nc by auto
  have r'mod: "(?r' + i) mod ?c = (?r + (n + i)) mod ?c" for i
  proof (cases "?r + n \<le> ?c")
    case True
    with r' show ?thesis by (simp add: add.assoc)
  next
    case False
    then have "?r + (n + i) = (?r' + i) + ?c" using r' by simp
    then show ?thesis by (metis mod_add_self2)
  qed
  have wp: "cb_write_ptr cb mod ?c = (?r' + (?ne - n)) mod ?c"
    using b n r'mod [of "?ne - n"] by simp
  have inv': "cb_inv ?cb"
    using b nc n wp r' by (auto simp: cb_inv_def)
  have cont: "cb_contents ?cb = drop n (cb_contents cb)"
    using n map_shift_drop [of n ?ne "\<lambda>i. ?e ! ((?r + i) mod ?c)"]
    by (simp add: cb_contents_def r'mod [simplified])
  show thesis by (rule that [OF pop inv' cont]) simp
qed

lemma cb_pop_error: "n > cb_nelements cb \<Longrightarrow> cb_pop cb n = Inl Not_Enough_Elements"
  by (simp add: cb_pop_def)

subsection \<open>Pushing\<close>

text \<open>The second half of \<open>push\<close>: storing \<open>k\<close> elements from offset \<open>skip\<close> of the source.\<close>

definition cb_store :: "'a circular_buffer \<Rightarrow> 'a list \<Rightarrow> nat \<Rightarrow> nat \<Rightarrow> 'a circular_buffer" where
  "cb_store cb ptr skip k =
     (let c = cb_capacity cb; w = cb_write_ptr cb; m = min (c - w) k;
          e2 = blit (blit (cb_elements cb) w ptr skip m) 0 ptr (skip + m) (k - m);
          wp = (if w + k > c then k - m else w + k);
          total = cb_nelements cb + k
      in cb\<lparr>cb_elements := e2, cb_write_ptr := wp,
            cb_read_ptr := (if total > c then wp else cb_read_ptr cb),
            cb_nelements := min c total\<rparr>)"

lemma ring_write:
  assumes "w \<le> c" "k \<le> c" "c \<le> length e" "i < c"
  defines "m \<equiv> min (c - w) k"
  shows "blit (blit e w ptr s m) 0 ptr (s + m) (k - m) ! ((w + i) mod c)
    = (if i < k then ptr ! (s + i) else e ! ((w + i) mod c))"
proof -
  let ?j = "(w + i) mod c"
  have c0: "0 < c" using assms(4) by simp
  then have j: "?j < length e" using assms(3) mod_less_divisor [OF c0, of "w + i"] by linarith
  have m: "m \<le> k" "w + m \<le> c" "k - m \<le> w" unfolding m_def using assms(1,2) by auto
  have inner: "blit e w ptr s m ! ?j = (if w \<le> ?j \<and> ?j < w + m then ptr ! (s + (?j - w)) else e ! ?j)"
    by (rule nth_blit) (use m assms(3) j in simp_all)
  have outer: "blit (blit e w ptr s m) 0 ptr (s + m) (k - m) ! ?j
      = (if ?j < k - m then ptr ! (s + m + ?j) else blit e w ptr s m ! ?j)"
    by (subst nth_blit) (use m assms(2,3) j in simp_all)
  show ?thesis
  proof (cases "w + i < c")
    case True
    then have "?j = w + i" by simp
    moreover have "i < m \<longleftrightarrow> i < k" using True unfolding m_def by auto
    ultimately show ?thesis using outer inner m by auto
  next
    case False
    then have ji: "?j = w + i - c" using ring_slot [of w c i] assms by simp
    have "m = c - w \<or> m = k" and "i < m \<Longrightarrow> False" using False unfolding m_def by auto
    moreover have "?j < k - m \<longleftrightarrow> i < k"
      using ji False assms(1,2,4) unfolding m_def by auto
    moreover have "?j < w" using ji assms(4) False by simp
    moreover have "i < k \<Longrightarrow> m + ?j = i" using ji False assms(1,2) unfolding m_def by auto
    ultimately show ?thesis using outer inner by (auto simp: add.assoc)
  qed
qed

lemma cb_store_inv:
  assumes "cb_inv cb" "k \<le> cb_capacity cb"
  shows "cb_inv (cb_store cb ptr s k)"
proof -
  let ?c = "cb_capacity cb" and ?w = "cb_write_ptr cb"
  note b = assms(1) [unfolded cb_inv_def]
  let ?wp = "if ?w + k > ?c then k - min (?c - ?w) k else ?w + k"
  have wp: "?wp = (if ?w + k \<le> ?c then ?w + k else ?w + k - ?c)" "?wp \<le> ?c"
    using b assms(2) by auto
  then have "?wp mod ?c = (?w + k) mod ?c"
    by (auto simp: le_mod_geq)
  also have "\<dots> = (?w mod ?c + k) mod ?c" by (simp add: mod_add_left_eq)
  also have "\<dots> = (cb_read_ptr cb + (cb_nelements cb + k)) mod ?c"
    using b by (simp add: mod_add_left_eq add.assoc)
  finally have "?wp mod ?c = (cb_read_ptr cb + (cb_nelements cb + k)) mod ?c" .
  with b wp(2) show ?thesis
    by (auto simp: cb_inv_def cb_store_def Let_def)
qed

lemma cb_store_contents:
  assumes inv: "cb_inv cb" and k: "k \<le> cb_capacity cb" and len: "s + k = length ptr"
  shows "cb_contents (cb_store cb ptr s k)
    = takelast (cb_capacity cb) (cb_contents cb @ drop s ptr)"
proof (rule nth_equalityI)
  let ?c = "cb_capacity cb" and ?w = "cb_write_ptr cb" and ?r = "cb_read_ptr cb"
  let ?ne = "cb_nelements cb" and ?e = "cb_elements cb"
  note b = inv [unfolded cb_inv_def]
  define total where "total = ?ne + k"
  have ne': "cb_nelements (cb_store cb ptr s k) = min ?c total"
    by (simp add: cb_store_def Let_def total_def)
  show "length (cb_contents (cb_store cb ptr s k))
      = length (takelast ?c (cb_contents cb @ drop s ptr))"
    using ne' len by (simp add: total_def)
  fix i assume "i < length (cb_contents (cb_store cb ptr s k))"
  then have i: "i < min ?c total" using ne' by simp
  then have c0: "0 < ?c" by simp
  let ?st = "cb_store cb ptr s k"
  have cap: "cb_capacity ?st = ?c" by (simp add: cb_store_def Let_def)
  have wcong: "(?w + y) mod ?c = (?r + ?ne + y) mod ?c" for y
    using b by (metis mod_add_left_eq)
  have wr: "cb_elements ?st ! ((?w + y) mod ?c)
      = (if y < k then ptr ! (s + y) else ?e ! ((?w + y) mod ?c))" if "y < ?c" for y
    using ring_write [of ?w ?c k ?e y ptr s] b k that by (simp add: cb_store_def Let_def)
  have st: "cb_contents ?st ! i = cb_elements ?st ! ((cb_read_ptr ?st + i) mod ?c)"
    using nth_cb_contents [of i ?st] i ne' cap by simp
  define q where "q = total - ?c"
  have rhs: "takelast ?c (cb_contents cb @ drop s ptr) ! i
      = (if q + i < ?ne then ?e ! ((?r + (q + i)) mod ?c) else ptr ! (s + (q + i - ?ne)))"
  proof -
    have lens: "length (cb_contents cb @ drop s ptr) = total" using len by (simp add: total_def)
    then have "q + i < total" using i by (auto simp: q_def)
    have "takelast ?c (cb_contents cb @ drop s ptr) ! i = (cb_contents cb @ drop s ptr) ! (q + i)"
      unfolding takelast_def lens q_def [symmetric] using lens \<open>q + i < total\<close>
      by (simp del: length_append drop_append)
    also have "\<dots> = (if q + i < ?ne then ?e ! ((?r + (q + i)) mod ?c) else ptr ! (s + (q + i - ?ne)))"
      using \<open>q + i < total\<close> len by (simp add: nth_append nth_cb_contents total_def)
    finally show ?thesis .
  qed
  \<comment> \<open>the slot of element \<open>i\<close> of the result, seen from the old write index\<close>
  define y where "y = (if q + i < ?ne then ?c + (q + i) - ?ne else q + i - ?ne)"
  have y: "y < ?c" "y < k \<longleftrightarrow> \<not> q + i < ?ne"
    using i b k unfolding y_def q_def total_def by auto
  have lap: "(?r + ?ne + y) mod ?c = (?r + (q + i)) mod ?c"
  proof (cases "q + i < ?ne")
    case True
    then have "?r + ?ne + y = ?r + (q + i) + ?c" using b unfolding y_def by simp
    then show ?thesis by (metis mod_add_self2)
  next
    case False
    then have "?ne + y = q + i" unfolding y_def by simp
    then show ?thesis by (simp add: add.assoc)
  qed
  have slot: "(cb_read_ptr ?st + i) mod ?c = (?r + (q + i)) mod ?c"
  proof (cases "total > ?c")
    case False
    then show ?thesis by (simp add: cb_store_def Let_def total_def q_def)
  next
    case True
    have "cb_read_ptr ?st mod ?c = (?w + k) mod ?c"
      using True b k by (auto simp: cb_store_def Let_def total_def min_def le_mod_geq add.commute)
    then have "(cb_read_ptr ?st + i) mod ?c = (?w + (k + i)) mod ?c"
      by (metis mod_add_left_eq add.assoc)
    also have "\<dots> = (?r + (q + i) + ?c) mod ?c"
    proof -
      have "?r + ?ne + (k + i) = ?r + (q + i) + ?c" using True by (simp add: q_def total_def)
      with wcong [of "k + i"] show ?thesis by (simp only:)
    qed
    finally show ?thesis by (simp only: mod_add_self2)
  qed
  show "cb_contents ?st ! i = takelast ?c (cb_contents cb @ drop s ptr) ! i"
    using st slot lap wcong [of y] wr [OF y(1)] y rhs by (auto simp: y_def split: if_splits)
qed

lemma cb_push_store:
  assumes inv: "cb_inv cb" and n: "length ptr < 2 ^ 32"
  shows "cb_push cb ptr =
    (let skip = length ptr - cb_capacity cb
     in cb_store (if skip \<noteq> 0 then cb_clear cb else cb) ptr skip (length ptr - skip))"
proof -
  note b = inv [unfolded cb_inv_def]
  have skip: "(if length ptr < cb_capacity cb then 0 else u32_sub (length ptr) (cb_capacity cb))
      = length ptr - cb_capacity cb"
    using n by (simp add: u32_simps)
  have ncpy: "u32_sub (length ptr) (length ptr - cb_capacity cb)
      = length ptr - (length ptr - cb_capacity cb)"
    using n by (simp add: u32_simps)
  have small: "length ptr - (length ptr - cb_capacity cb) \<le> cb_capacity cb" by simp
  show ?thesis
    unfolding cb_push_def skip Let_def ncpy
    using b small by (simp add: cb_store_def cb_clear_def Let_def u32_simps)
qed

lemma cb_clear_inv [simp]: "cb_inv cb \<Longrightarrow> cb_inv (cb_clear cb)"
  by (simp add: cb_inv_def cb_clear_def)

lemma cb_clear_contents [simp]: "cb_contents (cb_clear cb) = []"
  by (simp add: cb_contents_def cb_clear_def)

lemma cb_clear_capacity [simp]: "cb_capacity (cb_clear cb) = cb_capacity cb"
  by (simp add: cb_clear_def)

lemma cb_push_capacity [simp]: "cb_capacity (cb_push cb ptr) = cb_capacity cb"
  by (simp add: cb_push_def Let_def)

lemma cb_push_inv: "cb_inv cb \<Longrightarrow> length ptr < 2 ^ 32 \<Longrightarrow> cb_inv (cb_push cb ptr)"
  by (auto simp: cb_push_store Let_def intro!: cb_store_inv)

lemma cb_push_lemma:
  assumes inv: "cb_inv cb" and n: "length ptr < 2 ^ 32"
  shows "cb_contents (cb_push cb ptr) = takelast (cb_capacity cb) (cb_contents cb @ ptr)"
proof (cases "length ptr \<le> cb_capacity cb")
  case True
  then show ?thesis
    using cb_store_contents [OF inv, of "length ptr" 0 ptr]
    by (simp add: cb_push_store [OF inv n])
next
  case False
  let ?skip = "length ptr - cb_capacity cb"
  have "cb_contents (cb_push cb ptr) = takelast (cb_capacity cb) (drop ?skip ptr)"
    using False cb_store_contents [OF cb_clear_inv [OF inv], of "length ptr - ?skip" ?skip ptr]
    by (simp add: cb_push_store [OF inv n])
  then show ?thesis using False by (simp add: takelast_def)
qed

lemma cb_index_lemma:
  assumes inv: "cb_inv cb" and small: "\<bar>idx\<bar> < 2 ^ 31"
  shows "cb_index cb idx =
    (if 0 \<le> idx \<and> nat idx < cb_size cb then Inr (cb_contents cb ! nat idx)
     else if idx < 0 \<and> nat (- idx) \<le> cb_size cb
     then Inr (cb_contents cb ! (cb_size cb - nat (- idx)))
     else Inl Not_Enough_Elements)"
proof -
  let ?c = "cb_capacity cb" and ?w = "cb_write_ptr cb" and ?r = "cb_read_ptr cb"
  let ?ne = "cb_nelements cb" and ?a = "nat \<bar>idx\<bar>"
  note b = inv [unfolded cb_inv_def]
  have pos: "cb_index cb idx = Inr (cb_contents cb ! nat idx)" if "0 \<le> idx" "nat idx < ?ne"
  proof -
    have "(?r + nat idx) mod ?c = (if ?r + nat idx < ?c then ?r + nat idx else ?r + nat idx - ?c)"
      by (rule ring_slot) (use b that in simp_all)
    then show ?thesis
      using that b by (simp add: cb_index_def Let_def u32_simps nth_cb_contents add.commute)
  qed
  have neg: "cb_index cb idx = Inr (cb_contents cb ! (?ne - ?a))" if "idx < 0" "?a \<le> ?ne"
  proof -
    have a: "0 < ?a" "?a \<le> ?c" using that b by simp_all
    have slot: "(?r + (?ne - ?a)) mod ?c = (if ?a > ?w then ?c - ?a + ?w else ?w - ?a)"
    proof -
      have "(?r + (?ne - ?a)) mod ?c = (?r + (?ne - ?a) + ?c) mod ?c" by simp
      also have "?r + (?ne - ?a) + ?c = ?r + ?ne + (?c - ?a)" using that a by simp
      also have "(?r + ?ne + (?c - ?a)) mod ?c = (?w + (?c - ?a)) mod ?c"
        using b by (metis mod_add_left_eq)
      also have "\<dots> = (if ?w + (?c - ?a) < ?c then ?w + (?c - ?a) else ?w + (?c - ?a) - ?c)"
        by (rule ring_slot) (use b a in simp_all)
      finally show ?thesis using a by (auto simp: add.commute)
    qed
    have bb: "?c < 2147483648" "?w \<le> ?c" using b by simp_all
    have "?c - ?a + ?w \<le> ?c + ?w" by (rule add_le_mono1) simp
    with bb have "?c - ?a + ?w < 4294967296" by linarith
    then have "?c - ?a + ?w < 2 ^ 32" by (simp del: diff_diff_eq)
    then have "u32_add (?c - ?a) ?w = ?c - ?a + ?w" by (rule u32_add_exact)
    moreover have "u32_sub ?c ?a = ?c - ?a"
      by (rule u32_sub_exact) (use a b in simp_all)
    moreover have "?w \<ge> ?a \<Longrightarrow> u32_sub ?w ?a = ?w - ?a"
      by (rule u32_sub_exact) (use b in simp_all)
    ultimately have "cb_index cb idx = Inr (cb_elements cb ! (if ?a > ?w then ?c - ?a + ?w else ?w - ?a))"
      using that by (simp add: cb_index_def Let_def)
    moreover have "cb_contents cb ! (?ne - ?a) = cb_elements cb ! ((?r + (?ne - ?a)) mod ?c)"
      by (rule nth_cb_contents) (use a that in simp)
    ultimately show ?thesis by (simp only: slot)
  qed
  have out: "cb_index cb idx = Inl Not_Enough_Elements"
    if "(0 \<le> idx \<and> nat idx \<ge> ?ne) \<or> (idx < 0 \<and> ?a > ?ne)"
    using that by (auto simp: cb_index_def Let_def)
  show ?thesis
    using pos neg out by (auto simp: cb_size_def not_less not_le)
qed

lemma cb_push_size: "cb_inv cb \<Longrightarrow> length ptr < 2 ^ 32 \<Longrightarrow>
  cb_size (cb_push cb ptr) = min (cb_capacity cb) (cb_size cb + length ptr)"
  using arg_cong [OF cb_push_lemma, of cb ptr length] by (simp add: cb_size_def)

subsection \<open>The interface its clients use\<close>

text \<open>
  A bounded history: what the clients of the ring buffer rely on. They push one element at
  a time, ask for the size and read element \<open>j\<close> counted from the oldest.
\<close>

locale bounded_history =
  fixes record1 :: "'h \<Rightarrow> 'a \<Rightarrow> 'h"
    and wipe :: "'h \<Rightarrow> 'h"
    and amount :: "'h \<Rightarrow> nat"
    and peek :: "'h \<Rightarrow> int \<Rightarrow> 'e + 'a"
    and view :: "'h \<Rightarrow> 'a list"
    and room :: "'h \<Rightarrow> nat"
    and good :: "'h \<Rightarrow> bool"
  assumes good_record1: "good h \<Longrightarrow> good (record1 h x)"
    and good_wipe: "good h \<Longrightarrow> good (wipe h)"
    and view_record1: "good h \<Longrightarrow> view (record1 h x) = takelast (room h) (view h @ [x])"
    and view_wipe: "good h \<Longrightarrow> view (wipe h) = []"
    and room_record1: "good h \<Longrightarrow> room (record1 h x) = room h"
    and room_wipe: "good h \<Longrightarrow> room (wipe h) = room h"
    and amount_view: "good h \<Longrightarrow> amount h = length (view h)"
    and room_small: "good h \<Longrightarrow> length (view h) < 2 ^ 31"
    and peek_view: "good h \<Longrightarrow> j < length (view h) \<Longrightarrow> peek h (int j) = Inr (view h ! j)"
begin

lemma good_records: "good h \<Longrightarrow> good (foldl record1 h xs)"
  by (induction xs arbitrary: h) (auto intro: good_record1)

lemma room_records: "good h \<Longrightarrow> room (foldl record1 h xs) = room h"
  by (induction xs arbitrary: h) (auto simp: room_record1 good_record1)

lemma view_records: "good h \<Longrightarrow> view h = takelast (room h) (view h) \<Longrightarrow>
  view (foldl record1 h xs) = takelast (room h) (view h @ xs)"
proof (induction xs arbitrary: h)
  case Nil
  then show ?case by simp
next
  case (Cons x xs)
  have g: "good (record1 h x)" by (rule good_record1) (rule Cons.prems)
  have v: "view (record1 h x) = takelast (room h) (view h @ [x])"
    and r: "room (record1 h x) = room h"
    using Cons.prems by (simp_all add: view_record1 room_record1)
  have "view (record1 h x) = takelast (room (record1 h x)) (view (record1 h x))"
    by (simp add: v r)
  then have "view (foldl record1 (record1 h x) xs) =
      takelast (room h) (takelast (room h) (view h @ [x]) @ xs)"
    using Cons.IH [OF g] v r by simp
  then show ?case by (simp add: takelast_takelast_append)
qed

lemma view_records_wiped: "good h \<Longrightarrow> view (foldl record1 (wipe h) xs) = takelast (room h) xs"
  using view_records [of "wipe h" xs] by (simp add: good_wipe view_wipe room_wipe)

end

interpretation ring: bounded_history cb_push1 cb_clear cb_size cb_index cb_contents cb_capacity cb_inv
proof unfold_locales
  fix h :: "'a circular_buffer" and j
  assume "cb_inv h" "j < length (cb_contents h)"
  then have "\<bar>int j\<bar> < 2 ^ 31" "j < cb_nelements h" by (auto simp: cb_inv_def)
  with \<open>cb_inv h\<close> show "cb_index h (int j) = Inr (cb_contents h ! j)"
    by (simp add: cb_index_lemma cb_size_def)
next
  fix h :: "'a circular_buffer"
  assume "cb_inv h"
  then show "length (cb_contents h) < 2 ^ 31" by (simp add: cb_inv_def)
qed (auto simp: cb_push1_def cb_size_def intro: cb_push_inv cb_push_lemma)

lemma cb_new_inv [simp]: "n < 2 ^ 31 \<Longrightarrow> cb_inv (cb_new d n)"
  by (simp add: cb_inv_def cb_new_def)

lemma cb_new_contents [simp]: "cb_contents (cb_new d n) = []"
  by (simp add: cb_contents_def cb_new_def)

lemma cb_new_capacity [simp]: "cb_capacity (cb_new d n) = n"
  by (simp add: cb_new_def)

lemma cb_default_inv [simp]: "cb_inv cb_default"
  by (simp add: cb_inv_def cb_default_def)

subsection \<open>Properties\<close>

text \<open>C21: Pushing any block of elements onto a ring buffer keeps its invariant and leaves exactly
  the last \<open>capacity\<close> elements of the old contents followed by the block.\<close>
theorem cb_push_keeps_last:
  assumes "cb_inv cb" "length ptr < 2 ^ 32"
  shows "cb_inv (cb_push cb ptr) \<and> cb_capacity (cb_push cb ptr) = cb_capacity cb
    \<and> cb_contents (cb_push cb ptr) = takelast (cb_capacity cb) (cb_contents cb @ ptr)"
  using assms by (simp add: cb_push_inv cb_push_lemma)

lemma cb_push_keeps_last_witness:
  "cb_contents (cb_push (cb_push (cb_new (0::int) 3) [1, 2]) [3, 4]) = [2, 3, 4]"
proof -
  have i: "cb_inv (cb_push (cb_new (0::int) 3) [1, 2])" by (rule cb_push_inv) simp_all
  have "cb_contents (cb_push (cb_new (0::int) 3) [1, 2]) = [1, 2]"
    by (subst cb_push_lemma) (simp_all add: takelast_def)
  with cb_push_keeps_last [OF i, of "[3, 4]"] show ?thesis by (simp add: takelast_def)
qed

text \<open>C22: Popping \<open>n\<close> elements returns the oldest \<open>n\<close> in arrival order and leaves the others;
  popping more than the buffer holds raises the error and nothing else does.\<close>
theorem cb_pop_fifo:
  assumes "cb_inv cb"
  shows "case cb_pop cb n of
      Inl e \<Rightarrow> n > cb_size cb \<and> e = Not_Enough_Elements
    | Inr (b, cb') \<Rightarrow> cb_inv cb' \<and> length b = n \<and> b @ cb_contents cb' = cb_contents cb
        \<and> cb_capacity cb' = cb_capacity cb"
proof (cases "n \<le> cb_nelements cb")
  case True
  then obtain cb' where "cb_pop cb n = Inr (take n (cb_contents cb), cb')" "cb_inv cb'"
    "cb_contents cb' = drop n (cb_contents cb)" "cb_capacity cb' = cb_capacity cb"
    using assms by (blast elim: cb_pop_lemma)
  with True show ?thesis by simp
next
  case False
  then show ?thesis by (simp add: cb_pop_error cb_size_def)
qed

lemma cb_pop_fifo_witness:
  "(case cb_pop (cb_push (cb_new (0::int) 3) [1, 2, 3, 4]) 2 of
      Inl e \<Rightarrow> False | Inr (b, cb') \<Rightarrow> b @ cb_contents cb' = [2, 3, 4] \<and> length b = 2)
   \<and> cb_pop (cb_push (cb_new (0::int) 3) [1, 2, 3, 4]) 4 = Inl Not_Enough_Elements"
proof -
  let ?cb = "cb_push (cb_new (0::int) 3) [1, 2, 3, 4]"
  have i: "cb_inv ?cb" by (rule cb_push_inv) simp_all
  have c: "cb_contents ?cb = [2, 3, 4]"
    by (subst cb_push_lemma) (simp_all add: takelast_def)
  have s: "cb_size ?cb = 3" using arg_cong [OF c, of length] by (simp add: cb_size_def)
  from cb_pop_fifo [OF i, of 2] cb_pop_fifo [OF i, of 4] c s show ?thesis
    by (auto split: sum.splits simp: cb_pop_error cb_size_def)
qed

text \<open>Indexing: a non-negative index counts from the oldest element, a negative one from the
  newest (\<open>-1\<close> is the last pushed), and an index outside the contents is an error.\<close>
theorem cb_index_both_ends:
  assumes "cb_inv cb" "\<bar>idx\<bar> < 2 ^ 31"
  shows "cb_index cb idx =
    (if 0 \<le> idx \<and> nat idx < cb_size cb then Inr (cb_contents cb ! nat idx)
     else if idx < 0 \<and> nat (- idx) \<le> cb_size cb then Inr (rev (cb_contents cb) ! nat (- idx - 1))
     else Inl Not_Enough_Elements)"
proof -
  have "rev (cb_contents cb) ! nat (- idx - 1) = cb_contents cb ! (cb_size cb - nat (- idx))"
    if "idx < 0" "nat (- idx) \<le> cb_size cb"
  proof -
    have "nat (- idx - 1) < cb_nelements cb" "Suc (nat (- idx - 1)) = nat (- idx)"
      using that by (simp_all add: cb_size_def)
    then show ?thesis by (simp add: rev_nth cb_size_def)
  qed
  then show ?thesis unfolding cb_index_lemma [OF assms] by presburger
qed

lemma cb_index_both_ends_witness:
  "cb_index (cb_push (cb_new (0::int) 3) [1, 2, 3, 4]) (-1) = Inr 4
   \<and> cb_index (cb_push (cb_new (0::int) 3) [1, 2, 3, 4]) 0 = Inr 2
   \<and> cb_index (cb_push (cb_new (0::int) 3) [1, 2, 3, 4]) 3 = Inl Not_Enough_Elements"
proof -
  let ?cb = "cb_push (cb_new (0::int) 3) [1, 2, 3, 4]"
  have i: "cb_inv ?cb" by (rule cb_push_inv) simp_all
  have c: "cb_contents ?cb = [2, 3, 4]"
    by (subst cb_push_lemma) (simp_all add: takelast_def)
  have s: "cb_size ?cb = 3" using arg_cong [OF c, of length] by (simp add: cb_size_def)
  show ?thesis
    using cb_index_both_ends [OF i, of "-1"] cb_index_both_ends [OF i, of 0]
      cb_index_both_ends [OF i, of 3] by (simp add: c s)
qed

end
