(* ===== verification/UdpsReader.thy ===== *)
theory UdpsReader
  imports CircularBuffer
begin

text \<open>
  The UDPs receiver of \<open>src/src/threadfns/udpsreader.cc\<close>. The bottom half
  (\<open>udpsreader_bh\<close>) puts numbered datagrams in order in a window of \<open>readahead\<close> blocks,
  counts losses and reordering, and releases blocks from the front of the window; the top
  halves write fill pattern and zeroes where nothing was received. A block is its data
  bytes followed by one flag per datagram. Blocks come from a pool with arbitrary old
  contents, and the queue behind may refuse a block: both are fields of the configuration.
\<close>

record udps_cfg =
  uc_rd_size :: nat
  uc_wr_size :: nat
  uc_blocksize :: nat
  uc_readahead :: nat
  uc_allow_var :: bool
  uc_pool :: "nat \<Rightarrow> byte list"
  uc_push :: "nat \<Rightarrow> bool"

definition sensible_blocksize :: nat where
  "sensible_blocksize = 32 * 1024 * 1024"

definition udps_config :: "nat \<Rightarrow> nat \<Rightarrow> nat \<Rightarrow> nat \<Rightarrow> bool \<Rightarrow> (nat \<Rightarrow> byte list) \<Rightarrow> (nat \<Rightarrow> bool)
    \<Rightarrow> udps_cfg" where
  "udps_config write_size read_size blocksize nblock allow pool push =
     \<lparr>uc_rd_size = write_size, uc_wr_size = read_size, uc_blocksize = blocksize,
      uc_readahead = (if blocksize \<ge> sensible_blocksize then 2 else nblock),
      uc_allow_var = allow, uc_pool = pool, uc_push = push\<rparr>"

definition n_dg_p_block :: "udps_cfg \<Rightarrow> nat" where
  "n_dg_p_block c = uc_blocksize c div uc_wr_size c"

record ublock =
  ub_data :: "byte list"
  ub_flags :: "nat list"

record udps =
  us_first :: nat
  us_expect :: nat
  us_max :: nat
  us_min :: nat
  us_psn :: "nat circular_buffer"
  us_pktcnt :: nat
  us_ooocnt :: nat
  us_ooosum :: nat
  us_disccnt :: nat
  us_loscnt :: nat
  us_counter :: nat
  us_workbuf :: "ublock option list"
  us_ngot :: nat
  us_outq :: "(ublock \<times> nat) list"
  us_ack :: nat
  us_lastack :: int
  us_oldack :: int
  us_sent :: "nat list"

text \<open>How an iteration ends; \<open>errno\<close> is that of the failing \<open>recvmsg\<close>.\<close>

datatype udps_error = Psn_Error cb_error | Block_Error | Syscall_Error nat | Undefined

datatype udps_status = Running | Stopped | Thrown udps_error

text \<open>
  What the socket gives: a datagram (number, payload, and the acknowledgement period set at
  that moment), a number whose payload could not be read (some bytes may have been stored),
  or nothing.
\<close>

datatype net_event =
    Datagram nat "byte list" int
  | Truncated nat "byte list" nat
  | Silent nat

definition udps_init :: "udps_cfg \<Rightarrow> nat \<Rightarrow> udps" where
  "udps_init c seqnr =
     \<lparr>us_first = seqnr, us_expect = seqnr, us_max = seqnr, us_min = seqnr,
      us_psn = cb_new 0 32, us_pktcnt = 0, us_ooocnt = 0, us_ooosum = 0, us_disccnt = 0,
      us_loscnt = 0, us_counter = 0, us_workbuf = replicate (uc_readahead c) None, us_ngot = 0,
      us_outq = [], us_ack = 0, us_lastack = 0, us_oldack = 10, us_sent = []\<rparr>"

subsection \<open>Statistics\<close>

definition udps_ohnoes :: "udps \<Rightarrow> nat \<Rightarrow> bool" where
  "udps_ohnoes st seqnr \<longleftrightarrow> seqnr < us_first st"

definition udps_discard :: "udps_cfg \<Rightarrow> udps \<Rightarrow> nat \<Rightarrow> bool" where
  "udps_discard c st seqnr \<longleftrightarrow>
     udps_ohnoes st seqnr \<and> us_first st - seqnr \<le> n_dg_p_block c"

definition udps_resync :: "udps_cfg \<Rightarrow> udps \<Rightarrow> nat \<Rightarrow> bool" where
  "udps_resync c st seqnr \<longleftrightarrow> udps_ohnoes st seqnr \<and> \<not> udps_discard c st seqnr"

text \<open>\<open>while( j<npsn && psn[j]<seqnr ) j++\<close>\<close>

function udps_scan :: "nat circular_buffer \<Rightarrow> nat \<Rightarrow> nat \<Rightarrow> cb_error + nat" where
  "udps_scan psn seqnr j =
     (if j < cb_size psn
      then (case cb_index psn (int j) of
              Inl e \<Rightarrow> Inl e
            | Inr x \<Rightarrow> if x < seqnr then udps_scan psn seqnr (j + 1) else Inr j)
      else Inr j)"
  by pat_completeness auto
termination by (relation "measure (\<lambda>(psn, _, j). cb_size psn - j)") auto

declare udps_scan.simps [simp del]

definition udps_reorder :: "udps \<Rightarrow> nat \<Rightarrow> cb_error + udps" where
  "udps_reorder st0 seqnr =
     (let st = st0\<lparr>us_pktcnt := u64_add (us_pktcnt st0) 1,
                   us_psn := cb_push1 (us_psn st0) seqnr\<rparr>
      in if seqnr \<ge> us_expect st
         then Inr (st\<lparr>us_expect := u64_add seqnr 1\<rparr>)
         else (case udps_scan (us_psn st) seqnr 0 of
                 Inl e \<Rightarrow> Inl e
               | Inr j \<Rightarrow> Inr (st\<lparr>us_ooocnt := u64_add (us_ooocnt st) 1,
                                us_ooosum := u64_add (us_ooosum st)
                                  (u64_sub (cb_size (us_psn st)) j)\<rparr>)))"

definition udps_wipe_flags :: "ublock option \<Rightarrow> ublock option" where
  "udps_wipe_flags ob = map_option (\<lambda>b. b\<lparr>ub_flags := map (\<lambda>_. 0) (ub_flags b)\<rparr>) ob"

definition udps_count_flags :: "ublock option list \<Rightarrow> nat" where
  "udps_count_flags wb =
     sum_list (map (\<lambda>ob. case ob of None \<Rightarrow> 0
                          | Some b \<Rightarrow> length (filter (\<lambda>f. f \<noteq> 0) (ub_flags b))) wb)"

definition udps_do_resync :: "udps \<Rightarrow> nat \<Rightarrow> udps" where
  "udps_do_resync st seqnr =
     st\<lparr>us_max := seqnr, us_min := seqnr, us_expect := seqnr, us_first := seqnr,
        us_pktcnt := 1, us_psn := cb_clear (us_psn st),
        us_disccnt := u64_add (us_disccnt st) (udps_count_flags (us_workbuf st)),
        us_workbuf := map udps_wipe_flags (us_workbuf st)\<rparr>"

definition udps_loss :: "udps \<Rightarrow> nat \<Rightarrow> bool \<Rightarrow> udps" where
  "udps_loss st seqnr discard =
     (let st1 = (if discard then st\<lparr>us_disccnt := u64_add (us_disccnt st) 1\<rparr> else st);
          st2 = (if seqnr > us_max st1 then st1\<lparr>us_max := seqnr\<rparr>
                 else if seqnr < us_min st1 then st1\<lparr>us_min := seqnr\<rparr> else st1)
      in st2\<lparr>us_loscnt := u64_sub (u64_add (u64_sub (us_max st2) (us_min st2)) 1)
                                   (us_pktcnt st2)\<rparr>)"

definition udps_stats :: "udps_cfg \<Rightarrow> udps \<Rightarrow> nat \<Rightarrow> cb_error + udps" where
  "udps_stats c st seqnr =
     (case udps_reorder st seqnr of
        Inl e \<Rightarrow> Inl e
      | Inr st1 \<Rightarrow>
          let st2 = (if udps_resync c st seqnr then udps_do_resync st1 seqnr else st1)
          in Inr (udps_loss st2 seqnr (udps_discard c st seqnr)))"

subsection \<open>The window of blocks\<close>

definition udps_push :: "udps_cfg \<Rightarrow> udps \<Rightarrow> ublock \<Rightarrow> nat \<Rightarrow> bool \<times> udps" where
  "udps_push c st b len =
     (if uc_push c (length (us_outq st)) then (True, st\<lparr>us_outq := us_outq st @ [(b, len)]\<rparr>)
      else (False, st))"

definition udps_block_len :: "udps_cfg \<Rightarrow> nat" where
  "udps_block_len c = uc_blocksize c + n_dg_p_block c"

text \<open>Releasing the first block of the window and shifting the others down.\<close>

definition udps_shift :: "udps_cfg \<Rightarrow> udps \<Rightarrow> nat \<Rightarrow> nat \<Rightarrow> bool \<times> udps" where
  "udps_shift c st seqnr shiftcount =
     (let (ok, st1) = (case us_workbuf st ! 0 of
                         None \<Rightarrow> (True, st)
                       | Some b \<Rightarrow> udps_push c st b (udps_block_len c))
      in if \<not> ok then (False, st1)
         else (True, st1\<lparr>us_workbuf := tl (us_workbuf st) @ [None],
                         us_first := (if shiftcount + 1 = uc_readahead c then seqnr
                                      else us_first st + n_dg_p_block c)\<rparr>))"

definition udps_new_block :: "udps_cfg \<Rightarrow> nat \<Rightarrow> ublock" where
  "udps_new_block c k = \<lparr>ub_data = uc_pool c k, ub_flags = replicate (n_dg_p_block c) 0\<rparr>"

definition udps_get_block :: "udps_cfg \<Rightarrow> udps \<Rightarrow> nat \<Rightarrow> udps" where
  "udps_get_block c st i =
     (case us_workbuf st ! i of
        None \<Rightarrow> st\<lparr>us_workbuf := (us_workbuf st)[i := Some (udps_new_block c (us_ngot st))],
                   us_ngot := us_ngot st + 1\<rparr>
      | Some _ \<Rightarrow> st)"

text \<open>
  The loop \<open>while( location==0 )\<close>: the block and slot for the datagram, \<open>Refused\<close> when the
  queue behind is disabled. With no datagrams per block or no blocks the code divides by
  zero or reads outside the window: \<open>Nowhere\<close>.
\<close>

datatype udps_place = At nat nat | Refused | Nowhere

lemma udps_shift_first: "udps_shift c st seqnr k = (ok, st1) \<Longrightarrow> ok \<Longrightarrow>
  us_first st1 = (if k + 1 = uc_readahead c then seqnr else us_first st + n_dg_p_block c)"
  by (auto simp: udps_shift_def udps_push_def Let_def split: option.splits if_splits prod.splits)

function udps_locate :: "udps_cfg \<Rightarrow> nat \<Rightarrow> nat \<Rightarrow> udps \<Rightarrow> udps_place \<times> udps" where
  "udps_locate c seqnr shiftcount st =
     (if n_dg_p_block c = 0 \<or> uc_readahead c = 0 \<or> seqnr < us_first st then (Nowhere, st)
      else
        let seqoff = seqnr - us_first st;
            blockidx = seqoff div n_dg_p_block c
        in if blockidx < uc_readahead c
           then (At blockidx (seqoff mod n_dg_p_block c), udps_get_block c st blockidx)
           else (case udps_shift c st seqnr shiftcount of
                   (False, st1) \<Rightarrow> (Refused, st1)
                 | (True, st1) \<Rightarrow> udps_locate c seqnr (shiftcount + 1) st1))"
  by pat_completeness auto
termination
proof (relation "measure (\<lambda>(c, seqnr, _, st). seqnr - us_first st)")
  fix c :: udps_cfg and seqnr k seqoff blockidx :: nat and st st1 :: udps and ok
  assume a: "\<not> (n_dg_p_block c = 0 \<or> uc_readahead c = 0 \<or> seqnr < us_first st)"
    "seqoff = seqnr - us_first st" "blockidx = seqoff div n_dg_p_block c"
    "\<not> blockidx < uc_readahead c" "(ok, st1) = udps_shift c st seqnr k" "ok = True"
  have "n_dg_p_block c \<le> seqnr - us_first st"
  proof (rule ccontr)
    assume "\<not> n_dg_p_block c \<le> seqnr - us_first st"
    with a show False by simp
  qed
  with a udps_shift_first [of c st seqnr k ok st1]
  show "((c, seqnr, k + 1, st1), c, seqnr, k, st)
      \<in> measure (\<lambda>(c, seqnr, _, st). seqnr - us_first st)" by auto
qed auto

declare udps_locate.simps [simp del]

text \<open>Storing the payload in its slot and raising the flag.\<close>

definition udps_write :: "udps_cfg \<Rightarrow> udps \<Rightarrow> nat \<Rightarrow> nat \<Rightarrow> byte list \<Rightarrow> bool \<Rightarrow> udps" where
  "udps_write c st i j payload flag =
     st\<lparr>us_workbuf := (us_workbuf st)[i := map_option
          (\<lambda>b. b\<lparr>ub_data := blit (ub_data b) (j * uc_wr_size c) payload 0 (length payload),
                 ub_flags := (if flag then (ub_flags b)[j := 1] else ub_flags b)\<rparr>)
          (us_workbuf st ! i)]\<rparr>"

text \<open>Passing on the blocks of the window when receiving ends.\<close>

function udps_flush :: "udps_cfg \<Rightarrow> nat \<Rightarrow> nat \<Rightarrow> udps \<Rightarrow> udps_error option \<times> udps" where
  "udps_flush c i start st =
     (if i < uc_readahead c \<and> start \<le> us_max st
      then
        let sz = u32_mul (uc_wr_size c) (min (us_max st + 1 - start) (n_dg_p_block c) mod 2 ^ 32)
        in if sz = uc_blocksize c \<or> uc_allow_var c
           then (case us_workbuf st ! i of
                   None \<Rightarrow> (Some Block_Error, st)
                 | Some b \<Rightarrow>
                     if sz \<le> udps_block_len c
                     then (case udps_push c st b sz of
                             (True, st1) \<Rightarrow> udps_flush c (i + 1) (start + n_dg_p_block c) st1
                           | (False, st1) \<Rightarrow> (None, st1))
                     else (Some Block_Error, st))
           else udps_flush c (i + 1) (start + n_dg_p_block c) st
      else (None, st))"
  by pat_completeness auto
termination by (relation "measure (\<lambda>(c, i, _). uc_readahead c - i)") auto

declare udps_flush.simps [simp del]

subsection \<open>Acknowledgements\<close>

definition udps_acks :: "string list" where
  "udps_acks = [''xhg'', ''xybbgmnx'', ''xyreryvwre'', ''tbqireqbzzr'', ''obxxryhy'',
     ''rvxryovwgre'', ''qebrsgbrgre'', []]"

definition udps_do_ack :: "udps \<Rightarrow> int \<Rightarrow> udps" where
  "udps_do_ack st0 ackPeriod =
     (let st = (if ackPeriod \<noteq> us_oldack st0 then st0\<lparr>us_lastack := 0, us_oldack := ackPeriod\<rparr>
                else st0)
      in if us_lastack st \<le> 0
         then (let a = (if udps_acks ! us_ack st = [] then 0 else us_ack st)
               in st\<lparr>us_sent := us_sent st @ [a], us_lastack := us_oldack st, us_ack := a + 1\<rparr>)
         else st\<lparr>us_lastack := us_lastack st - 1\<rparr>)"

subsection \<open>The main loop\<close>

definition EINTR :: nat where "EINTR = 4"
definition EBADF :: nat where "EBADF = 9"

definition udps_end :: "udps_cfg \<Rightarrow> udps \<Rightarrow> nat \<Rightarrow> udps_status \<times> udps" where
  "udps_end c st errno =
     (case udps_flush c 0 (us_first st) st of
        (Some e, st1) \<Rightarrow> (Thrown e, st1)
      | (None, st1) \<Rightarrow> (if errno = EINTR \<or> errno = EBADF then (Stopped, st1)
                       else (Thrown (Syscall_Error errno), st1)))"

text \<open>The part of an iteration that ends with the data being read.\<close>

definition udps_receive :: "udps_cfg \<Rightarrow> udps \<Rightarrow> nat \<Rightarrow> byte list \<Rightarrow> bool \<Rightarrow> udps_status \<times> udps" where
  "udps_receive c st seqnr payload complete =
     (case udps_stats c st seqnr of
        Inl e \<Rightarrow> (Thrown (Psn_Error e), st)
      | Inr st1 \<Rightarrow>
          if udps_discard c st seqnr then (Running, st1)
          else (case udps_locate c seqnr 0 st1 of
                  (Refused, st2) \<Rightarrow> (Stopped, st2)
                | (Nowhere, st2) \<Rightarrow> (Thrown Undefined, st2)
                | (At i j, st2) \<Rightarrow> (Running, udps_write c st2 i j payload complete)))"

definition udps_iter :: "udps_cfg \<Rightarrow> udps \<Rightarrow> net_event \<Rightarrow> udps_status \<times> udps" where
  "udps_iter c st ev =
     (case ev of
        Silent errno \<Rightarrow> udps_end c st errno
      | Truncated seqnr part errno \<Rightarrow>
          (case udps_receive c st seqnr part False of
             (Running, st1) \<Rightarrow> udps_end c st1 errno
           | r \<Rightarrow> r)
      | Datagram seqnr payload ackPeriod \<Rightarrow>
          (case udps_receive c st seqnr payload True of
             (Running, st1) \<Rightarrow>
               (Running, udps_do_ack (st1\<lparr>us_counter := us_counter st1 + (8 + uc_rd_size c)\<rparr>)
                           ackPeriod)
           | r \<Rightarrow> r))"

fun udps_run :: "udps_cfg \<Rightarrow> udps \<Rightarrow> net_event list \<Rightarrow> udps_status \<times> udps" where
  "udps_run c st [] = (Running, st)"
| "udps_run c st (ev # evs) =
     (case udps_iter c st ev of
        (Running, st1) \<Rightarrow> udps_run c st1 evs
      | r \<Rightarrow> r)"

text \<open>
  \<open>udpsreader_bh\<close>: the first peek fixes the first sequence number; if it fails the thread
  ends without having done anything.
\<close>

definition event_seqnr :: "net_event \<Rightarrow> nat option" where
  "event_seqnr ev = (case ev of Datagram s _ _ \<Rightarrow> Some s | Truncated s _ _ \<Rightarrow> Some s
     | Silent _ \<Rightarrow> None)"

definition udpsreader_bh :: "udps_cfg \<Rightarrow> net_event list \<Rightarrow> (udps_status \<times> udps) option" where
  "udpsreader_bh c evs =
     (case evs of [] \<Rightarrow> None
      | ev # _ \<Rightarrow> map_option (\<lambda>s. udps_run c (udps_init c s) evs) (event_seqnr ev))"

subsection \<open>The top halves\<close>

text \<open>
  The fill pattern of one datagram: whole 64-bit words of the pattern (stored low byte
  first), any bytes after the last whole word as the allocator left them, and for VDIF a
  16-byte header with only the invalid bit and the frame length set.
\<close>

definition fill_word :: "byte list" where
  "fill_word = [0x44, 0x33, 0x22, 0x11, 0x44, 0x33, 0x22, 0x11]"

fun fill_words :: "byte list \<Rightarrow> nat \<Rightarrow> nat \<Rightarrow> byte list" where
  "fill_words b j i =
     (if i \<ge> 8 then fill_words (blit b (8 * j) fill_word 0 8) (j + 1) (i - 8) else b)"

declare fill_words.simps [simp del]

definition invalid_vdif_header :: "nat \<Rightarrow> byte list" where
  "invalid_vdif_header wr_size =
     (let len8 = wr_size div 8
      in [0, 0, 0, 0x80, 0, 0, 0, 0,
          word_of_nat len8, word_of_nat (len8 div 2 ^ 8), word_of_nat (len8 div 2 ^ 16), 0,
          0, 0, 0, 0])"

definition udps_fpblock :: "bool \<Rightarrow> nat \<Rightarrow> nat \<Rightarrow> byte list \<Rightarrow> byte list" where
  "udps_fpblock vdif wr_size sz junk =
     (let b = fill_words junk 0 sz
      in if vdif then blit b 0 (invalid_vdif_header wr_size) 0 16 else b)"

text \<open>
  The loop over the datagrams of a block; with \<open>rd = wr\<close> there are no zeroes to append.
  The result is the data part, cut to the smaller of \<open>blocksize\<close> and the block's length.
\<close>

fun udps_fill :: "nat \<Rightarrow> nat \<Rightarrow> byte list \<Rightarrow> nat list \<Rightarrow> nat \<Rightarrow> nat \<Rightarrow> byte list \<Rightarrow> byte list" where
  "udps_fill wr rd fp flags i 0 dat = dat"
| "udps_fill wr rd fp flags i (Suc k) dat =
     (let d1 = (if flags ! i = 0 then blit dat (i * wr) fp 0 rd else dat);
          d2 = blit d1 (i * wr + rd) (replicate (wr - rd) 0) 0 (wr - rd)
      in udps_fill wr rd fp flags (i + 1) k d2)"

definition th_nonzeroeing :: "udps_cfg \<Rightarrow> bool \<Rightarrow> byte list \<Rightarrow> ublock \<times> nat \<Rightarrow> byte list" where
  "th_nonzeroeing c vdif junk bl =
     (let fp = udps_fpblock vdif (uc_wr_size c) (uc_wr_size c) junk;
          dat = udps_fill (uc_wr_size c) (uc_wr_size c) fp (ub_flags (fst bl)) 0 (n_dg_p_block c)
                  (ub_data (fst bl))
      in take (min (uc_blocksize c) (snd bl)) dat)"

definition th_zeroeing :: "udps_cfg \<Rightarrow> bool \<Rightarrow> byte list \<Rightarrow> ublock \<times> nat \<Rightarrow> byte list" where
  "th_zeroeing c vdif junk bl =
     (let fp = udps_fpblock vdif (uc_wr_size c) (uc_rd_size c) junk;
          dat = udps_fill (uc_wr_size c) (uc_rd_size c) fp (ub_flags (fst bl)) 0 (n_dg_p_block c)
                  (ub_data (fst bl))
      in take (min (uc_blocksize c) (snd bl)) dat)"

subsection \<open>Specification: a sliding window of numbered datagrams\<close>

record window =
  w_first :: nat
  w_map :: "nat \<Rightarrow> byte list option"
  w_out :: "byte list option list list"

definition w_block :: "nat \<Rightarrow> (nat \<Rightarrow> byte list option) \<Rightarrow> nat \<Rightarrow> byte list option list" where
  "w_block n m base = map (\<lambda>j. m (base + j)) [0..<n]"

definition some_data :: "byte list option list \<Rightarrow> bool" where
  "some_data v \<longleftrightarrow> (\<exists>x\<in>set v. x \<noteq> None)"

text \<open>
  Making room for \<open>s\<close> when \<open>r\<close> blocks of \<open>n\<close> may be ahead: as many whole blocks as needed
  leave in order; if \<open>left\<close> or more would have to go the window restarts at \<open>s\<close>.
\<close>

definition w_slide :: "nat \<Rightarrow> nat \<Rightarrow> nat \<Rightarrow> nat \<Rightarrow> window \<Rightarrow> window" where
  "w_slide n r left s w =
     (let need = (s - w_first w) div n + 1 - r; k = min need left
      in if need = 0 then w
         else w\<lparr>w_first := (if need \<ge> left then s else w_first w + need * n),
                w_map := (if need \<ge> left then \<lambda>_. None
                          else (\<lambda>x. if x < w_first w + need * n then None else w_map w x)),
                w_out := w_out w @ filter some_data
                  (map (\<lambda>i. w_block n (w_map w) (w_first w + i * n)) [0..<k])\<rparr>)"

definition w_receive :: "nat \<Rightarrow> nat \<Rightarrow> window \<Rightarrow> nat \<times> byte list \<Rightarrow> window" where
  "w_receive n r w sp =
     (let s = fst sp; p = snd sp
      in if s < w_first w
         then (if w_first w - s \<le> n then w
               else w\<lparr>w_first := s, w_map := [s \<mapsto> p]\<rparr>)
         else (let w' = w_slide n r r s w in w'\<lparr>w_map := (w_map w')(s \<mapsto> p)\<rparr>))"

definition w_init :: "nat \<Rightarrow> window" where
  "w_init s = \<lparr>w_first = s, w_map = (\<lambda>_. None), w_out = []\<rparr>"

end
