(* ===== verification/UdpsWindow.thy ===== *)
theory UdpsWindow
  imports UdpsReader
begin

text \<open>
  The UDPs bottom half refines the sliding window: the abstraction of a receiver state, the
  receiver's invariant, and the refinement of one datagram and of a whole stream.
\<close>

subsection \<open>Abstraction and invariant\<close>

definition ub_slot :: "udps_cfg \<Rightarrow> ublock \<Rightarrow> nat \<Rightarrow> byte list option" where
  "ub_slot c b j =
     (if ub_flags b ! j \<noteq> 0 then Some (chunk (j * uc_wr_size c) (uc_rd_size c) (ub_data b))
      else None)"

definition wb_slot :: "udps_cfg \<Rightarrow> ublock option list \<Rightarrow> nat \<Rightarrow> byte list option" where
  "wb_slot c wb off =
     (let n = n_dg_p_block c
      in if off div n < length wb
         then (case wb ! (off div n) of None \<Rightarrow> None | Some b \<Rightarrow> ub_slot c b (off mod n))
         else None)"

definition wb_map :: "udps_cfg \<Rightarrow> nat \<Rightarrow> ublock option list \<Rightarrow> nat \<Rightarrow> byte list option" where
  "wb_map c first wb s = (if s < first then None else wb_slot c wb (s - first))"

definition ub_view :: "udps_cfg \<Rightarrow> ublock \<Rightarrow> byte list option list" where
  "ub_view c b = map (ub_slot c b) [0..<n_dg_p_block c]"

definition udps_abs :: "udps_cfg \<Rightarrow> udps \<Rightarrow> window" where
  "udps_abs c st =
     \<lparr>w_first = us_first st, w_map = wb_map c (us_first st) (us_workbuf st),
      w_out = filter some_data (map (ub_view c \<circ> fst) (us_outq st))\<rparr>"

definition udps_ok :: "udps_cfg \<Rightarrow> bool" where
  "udps_ok c \<longleftrightarrow> 0 < uc_wr_size c \<and> uc_rd_size c \<le> uc_wr_size c \<and> uc_wr_size c \<le> uc_blocksize c
     \<and> uc_blocksize c < 2 ^ 32 \<and> 0 < uc_readahead c
     \<and> (\<forall>k. length (uc_pool c k) = uc_blocksize c) \<and> (\<forall>k. uc_push c k)"

definition ub_ok :: "udps_cfg \<Rightarrow> ublock \<Rightarrow> bool" where
  "ub_ok c b \<longleftrightarrow> length (ub_data b) = uc_blocksize c \<and> length (ub_flags b) = n_dg_p_block c"

definition udps_inv :: "udps_cfg \<Rightarrow> udps \<Rightarrow> bool" where
  "udps_inv c st \<longleftrightarrow> cb_inv (us_psn st) \<and> cb_capacity (us_psn st) = 32
     \<and> length (us_workbuf st) = uc_readahead c
     \<and> (\<forall>b. Some b \<in> set (us_workbuf st) \<longrightarrow> ub_ok c b)"

lemma n_dg_pos: "udps_ok c \<Longrightarrow> 0 < n_dg_p_block c"
  by (simp add: udps_ok_def n_dg_p_block_def div_greater_zero_iff)

lemma n_dg_fits: "n_dg_p_block c * uc_wr_size c \<le> uc_blocksize c"
  by (simp add: n_dg_p_block_def div_times_less_eq_dividend)

lemma slot_fits: "udps_ok c \<Longrightarrow> j < n_dg_p_block c \<Longrightarrow>
  j * uc_wr_size c + uc_wr_size c \<le> uc_blocksize c"
proof -
  assume "j < n_dg_p_block c"
  then have "Suc j * uc_wr_size c \<le> n_dg_p_block c * uc_wr_size c" by (intro mult_le_mono1) simp
  then show ?thesis using n_dg_fits [of c] by simp
qed

lemma udps_init_inv [simp]: "udps_ok c \<Longrightarrow> udps_inv c (udps_init c s)"
  by (auto simp: udps_inv_def udps_init_def)

lemma udps_init_abs [simp]: "udps_abs c (udps_init c s) = w_init s"
  by (auto simp: udps_abs_def udps_init_def w_init_def wb_map_def wb_slot_def Let_def
      split: option.splits)

subsection \<open>Statistics leave the window alone\<close>

lemma udps_scan_found:
  assumes "cb_inv psn"
  shows "\<exists>k. udps_scan psn s j = Inr k"
  using assms
proof (induction psn s j rule: udps_scan.induct)
  case (1 psn s j)
  have "cb_index psn (int j) = Inr (cb_contents psn ! j)" if "j < cb_size psn"
    using ring.peek_view [OF 1(2)] that by (simp add: cb_size_def)
  with 1 show ?case by (subst udps_scan.simps) (auto simp del: of_nat_Suc)
qed

lemma udps_reorder_frame:
  assumes "cb_inv (us_psn st)"
  obtains st1 where "udps_reorder st s = Inr st1" "us_first st1 = us_first st"
    "us_workbuf st1 = us_workbuf st" "us_outq st1 = us_outq st"
    "us_psn st1 = cb_push1 (us_psn st) s"
proof -
  have "cb_inv (cb_push1 (us_psn st) s)" using assms by (rule ring.good_record1)
  then obtain k where "udps_scan (cb_push1 (us_psn st) s) s 0 = Inr k"
    using udps_scan_found by blast
  then show thesis
    by (cases "us_expect st \<le> s") (auto simp: udps_reorder_def Let_def intro: that)
qed

lemma udps_loss_frame [simp]:
  "us_first (udps_loss st s d) = us_first st" "us_workbuf (udps_loss st s d) = us_workbuf st"
  "us_outq (udps_loss st s d) = us_outq st" "us_psn (udps_loss st s d) = us_psn st"
  by (simp_all add: udps_loss_def Let_def)

lemma udps_stats_frame:
  assumes "cb_inv (us_psn st)" "cb_capacity (us_psn st) = 32"
  obtains st1 where "udps_stats c st s = Inr st1" "us_outq st1 = us_outq st"
    "us_first st1 = (if udps_resync c st s then s else us_first st)"
    "us_workbuf st1 = (if udps_resync c st s then map udps_wipe_flags (us_workbuf st)
                       else us_workbuf st)"
    "cb_inv (us_psn st1)" "cb_capacity (us_psn st1) = 32"
proof -
  obtain st1 where st1: "udps_reorder st s = Inr st1" "us_first st1 = us_first st"
    "us_workbuf st1 = us_workbuf st" "us_outq st1 = us_outq st"
    "us_psn st1 = cb_push1 (us_psn st) s"
    by (rule udps_reorder_frame [OF assms(1)])
  have psn: "cb_inv (us_psn st1)" "cb_capacity (us_psn st1) = 32"
    using assms st1 by (simp_all add: ring.good_record1 ring.room_record1)
  show thesis
    by (cases "udps_resync c st s")
      (use st1 psn in \<open>auto simp: udps_stats_def Let_def udps_do_resync_def intro!: that\<close>)
qed

subsection \<open>Window operations\<close>

lemma wipe_slot: "ub_ok c b \<Longrightarrow> j < n_dg_p_block c \<Longrightarrow>
  ub_slot c (b\<lparr>ub_flags := map (\<lambda>_. 0) (ub_flags b)\<rparr>) j = None"
  by (simp add: ub_slot_def ub_ok_def)

lemma wb_slot_wiped:
  assumes "udps_ok c" "\<And>b. Some b \<in> set wb \<Longrightarrow> ub_ok c b"
  shows "wb_slot c (map udps_wipe_flags wb) off = None"
proof (cases "off div n_dg_p_block c < length wb")
  case True
  show ?thesis
  proof (cases "wb ! (off div n_dg_p_block c)")
    case (Some b)
    with True have "Some b \<in> set wb" by (metis nth_mem)
    then have "ub_ok c b" by (rule assms(2))
    with True Some n_dg_pos [OF assms(1)] show ?thesis
      by (simp add: wb_slot_def udps_wipe_flags_def wipe_slot)
  qed (use True in \<open>simp add: wb_slot_def udps_wipe_flags_def\<close>)
qed (simp add: wb_slot_def)

lemma wb_slot_shift:
  assumes "udps_ok c" "wb \<noteq> []"
  shows "wb_slot c (tl wb @ [None]) off =
    (if off div n_dg_p_block c < length wb then wb_slot c wb (off + n_dg_p_block c) else None)"
proof -
  have "(off + n_dg_p_block c) div n_dg_p_block c = Suc (off div n_dg_p_block c)"
    "(off + n_dg_p_block c) mod n_dg_p_block c = off mod n_dg_p_block c"
    using n_dg_pos [OF assms(1)] by (simp_all add: div_add_self2)
  then show ?thesis
    using assms(2) by (cases wb)
      (auto simp: wb_slot_def Let_def nth_append less_Suc_eq nth_tl split: option.splits)
qed

lemma wb_slot_none: "(\<And>i. i < length wb \<Longrightarrow> wb ! i = None) \<Longrightarrow> wb_slot c wb off = None"
  by (simp add: wb_slot_def Let_def)

lemma wb_slot_new:
  assumes "udps_ok c" "i < length wb" "wb ! i = None"
  shows "wb_slot c (wb[i := Some (udps_new_block c k)]) off = wb_slot c wb off"
  using assms n_dg_pos [OF assms(1)]
  by (auto simp: wb_slot_def Let_def nth_list_update ub_slot_def udps_new_block_def)

lemma ub_slot_write:
  assumes "udps_ok c" "ub_ok c b" "j < n_dg_p_block c" "j' < n_dg_p_block c"
    "length p = uc_rd_size c"
  shows "ub_slot c (b\<lparr>ub_data := blit (ub_data b) (j * uc_wr_size c) p 0 (length p),
      ub_flags := (ub_flags b)[j := 1]\<rparr>) j' = (if j' = j then Some p else ub_slot c b j')"
proof -
  have room: "j * uc_wr_size c + length p \<le> length (ub_data b)"
    using assms slot_fits [OF assms(1,3)] by (simp add: ub_ok_def udps_ok_def)
  show ?thesis
  proof (cases "j' = j")
    case True
    with room assms chunk_blit_same [OF room] show ?thesis by (simp add: ub_slot_def ub_ok_def)
  next
    case False
    have rd: "uc_rd_size c \<le> uc_wr_size c" using assms(1) by (simp add: udps_ok_def)
    then have "j' * uc_wr_size c + uc_rd_size c \<le> j * uc_wr_size c
        \<or> j * uc_wr_size c + length p \<le> j' * uc_wr_size c"
      using slots_disjoint [OF False rd] assms(5) by linarith
    with False room assms chunk_blit_other [OF room, of "j' * uc_wr_size c" "uc_rd_size c" p 0]
    show ?thesis by (simp add: ub_slot_def ub_ok_def)
  qed
qed

lemma wb_map_next:
  assumes "udps_ok c" "wb \<noteq> []"
  shows "wb_map c (f + n_dg_p_block c) (tl wb @ [None]) =
    (\<lambda>x. if x < f + n_dg_p_block c then None else wb_map c f wb x)"
proof
  fix x
  show "wb_map c (f + n_dg_p_block c) (tl wb @ [None]) x =
    (if x < f + n_dg_p_block c then None else wb_map c f wb x)"
  proof (cases "x < f + n_dg_p_block c")
    case False
    then have x: "x - (f + n_dg_p_block c) + n_dg_p_block c = x - f" "\<not> x < f" by simp_all
    have off: "(x - f) div n_dg_p_block c = Suc ((x - (f + n_dg_p_block c)) div n_dg_p_block c)"
      using n_dg_pos [OF assms(1)] by (simp add: x(1) [symmetric] div_add_self2)
    show ?thesis
    proof (cases "(x - (f + n_dg_p_block c)) div n_dg_p_block c < length wb")
      case True
      with False x wb_slot_shift [OF assms, of "x - (f + n_dg_p_block c)"] show ?thesis
        by (simp add: wb_map_def)
    next
      case out: False
      with off have "wb_slot c wb (x - f) = None" by (simp add: wb_slot_def Let_def)
      with False x out wb_slot_shift [OF assms, of "x - (f + n_dg_p_block c)"] show ?thesis
        by (simp add: wb_map_def)
    qed
  qed (simp add: wb_map_def)
qed

lemma wb_map_first_block:
  assumes "udps_ok c" "wb \<noteq> []"
  shows "w_block (n_dg_p_block c) (wb_map c f wb) f =
    (case wb ! 0 of None \<Rightarrow> replicate (n_dg_p_block c) None | Some b \<Rightarrow> ub_view c b)"
  by (rule nth_equalityI)
    (use assms n_dg_pos [OF assms(1)] in
      \<open>auto simp: w_block_def wb_map_def wb_slot_def ub_view_def split: option.splits\<close>)

lemma some_data_replicate [simp]: "\<not> some_data (replicate n None)"
  by (auto simp: some_data_def)

text \<open>One shift: the first block leaves when it holds data.\<close>

lemma udps_shift_lemma:
  assumes "udps_ok c" "udps_inv c st"
  obtains st1 where "udps_shift c st s k = (True, st1)" "udps_inv c st1"
    "us_workbuf st1 = tl (us_workbuf st) @ [None]"
    "us_first st1 = (if k + 1 = uc_readahead c then s else us_first st + n_dg_p_block c)"
    "filter some_data (map (ub_view c \<circ> fst) (us_outq st1)) =
       filter some_data (map (ub_view c \<circ> fst) (us_outq st))
       @ filter some_data [w_block (n_dg_p_block c) (wb_map c (us_first st) (us_workbuf st)) (us_first st)]"
proof -
  let ?wb = "us_workbuf st"
  have ne: "?wb \<noteq> []" using assms by (auto simp: udps_inv_def udps_ok_def)
  have sub: "set (tl ?wb @ [None]) \<subseteq> insert None (set ?wb)" using ne by (auto dest: list.set_sel(2))
  have len: "length (tl ?wb @ [None]) = length ?wb" using ne by simp
  let ?first = "if k + 1 = uc_readahead c then s else us_first st + n_dg_p_block c"
  obtain st0 where st0: "(case ?wb ! 0 of None \<Rightarrow> (True, st)
        | Some b \<Rightarrow> udps_push c st b (udps_block_len c)) = (True, st0)"
    "us_psn st0 = us_psn st"
    "us_outq st0 = us_outq st @ (case ?wb ! 0 of None \<Rightarrow> [] | Some b \<Rightarrow> [(b, udps_block_len c)])"
    using assms(1) by (cases "?wb ! 0") (auto simp: udps_push_def udps_ok_def)
  show thesis
  proof (rule that)
    show "udps_shift c st s k = (True, st0\<lparr>us_workbuf := tl ?wb @ [None], us_first := ?first\<rparr>)"
      using st0(1) by (simp add: udps_shift_def)
    show "udps_inv c (st0\<lparr>us_workbuf := tl ?wb @ [None], us_first := ?first\<rparr>)"
      using assms(2) sub len st0(2) by (auto simp: udps_inv_def)
    show "filter some_data (map (ub_view c \<circ> fst)
        (us_outq (st0\<lparr>us_workbuf := tl ?wb @ [None], us_first := ?first\<rparr>))) =
       filter some_data (map (ub_view c \<circ> fst) (us_outq st))
       @ filter some_data [w_block (n_dg_p_block c) (wb_map c (us_first st) ?wb) (us_first st)]"
      using wb_map_first_block [OF assms(1) ne, of "us_first st"] st0(3)
      by (cases "?wb ! 0") auto
  qed simp_all
qed

text \<open>One step of sliding, on the specification.\<close>

lemma w_slide_zero: "(s - w_first w) div n + 1 - r = 0 \<Longrightarrow> w_slide n r left s w = w"
  by (simp add: w_slide_def)

lemma w_slide_step:
  assumes n: "0 < n" and need: "(s - w_first w) div n + 1 - r = Suc m" and le: "w_first w \<le> s"
    and r: "0 < r"
    and w1: "w1 = w\<lparr>w_first := w_first w + n,
      w_map := (\<lambda>x. if x < w_first w + n then None else w_map w x),
      w_out := w_out w @ filter some_data [w_block n (w_map w) (w_first w)]\<rparr>"
  shows "w_slide n r (Suc (Suc l)) s w = w_slide n r (Suc l) s w1"
proof -
  let ?f = "w_first w"
  have "n \<le> s - ?f"
  proof (rule ccontr)
    assume "\<not> n \<le> s - ?f"
    then have "(s - ?f) div n = 0" by simp
    with need r show False by simp
  qed
  then have "s - ?f = s - (?f + n) + n" using le by simp
  then have "(s - ?f) div n = Suc ((s - (?f + n)) div n)"
    using n by (metis Suc_eq_plus1 div_add_self2 neq0_conv)
  with need have m: "(s - (?f + n)) div n + 1 - r = m" by simp
  have shifted: "w_block n (\<lambda>x. if x < ?f + n then None else w_map w x) (?f + n + i * n)
      = w_block n (w_map w) (?f + Suc i * n)" for i
    by (simp add: w_block_def add.assoc)
  define slid where "slid k jump w = w\<lparr>w_first := (if jump then s else w_first w + k * n),
    w_map := (if jump then \<lambda>_. None else (\<lambda>x. if x < w_first w + k * n then None else w_map w x)),
    w_out := w_out w @ filter some_data
      (map (\<lambda>i. w_block n (w_map w) (w_first w + i * n)) [0..<k])\<rparr>" for k jump and w :: window
  have slide: "w_slide n r left s w = (if need = 0 then w
      else if left \<le> need then slid left True w else slid need False w)"
    if "need = (s - w_first w) div n + 1 - r" for left need w
    unfolding w_slide_def Let_def that [symmetric] slid_def
    by (cases "left \<le> need") simp_all
  have blocks: "map (\<lambda>i. w_block n (w_map w) (?f + i * n)) [0..<Suc q] =
      w_block n (w_map w) ?f # map (\<lambda>i. w_block n (w_map w1) (?f + n + i * n)) [0..<q]" for q
    by (rule nth_equalityI) (simp_all add: nth_Cons w1 shifted split: nat.split del: upt_Suc)
  have "slid (Suc q) jump w = slid q jump w1" if "jump \<or> 0 < q" for q jump
    unfolding slid_def blocks using that by (auto simp: w1 fun_eq_iff add.assoc)
  moreover have "slid (Suc 0) False w = w1"
    unfolding slid_def blocks by (simp add: w1)
  moreover have "w_first w1 = ?f + n" by (simp add: w1)
  ultimately show ?thesis
    using slide [OF need [symmetric]] slide [of m w1] m by (cases m) simp_all
qed

subsection \<open>Finding the place of a datagram\<close>

lemma udps_get_block_lemma:
  assumes "udps_ok c" "udps_inv c st" "i < uc_readahead c"
  shows "udps_inv c (udps_get_block c st i)" "us_first (udps_get_block c st i) = us_first st"
    "udps_abs c (udps_get_block c st i) = udps_abs c st"
    "\<exists>b. us_workbuf (udps_get_block c st i) ! i = Some b"
proof -
  have i: "i < length (us_workbuf st)" using assms(2,3) by (simp add: udps_inv_def)
  have new: "ub_ok c (udps_new_block c k)" for k
    using assms(1) by (simp add: ub_ok_def udps_new_block_def udps_ok_def)
  have set: "set ((us_workbuf st)[i := Some (udps_new_block c k)])
      \<subseteq> insert (Some (udps_new_block c k)) (set (us_workbuf st))" for k
    by (rule set_update_subset_insert)
  show "udps_inv c (udps_get_block c st i)"
    using assms(2) new set by (cases "us_workbuf st ! i")
      (auto simp: udps_get_block_def udps_inv_def)
  show "us_first (udps_get_block c st i) = us_first st"
    by (cases "us_workbuf st ! i") (simp_all add: udps_get_block_def)
  show "udps_abs c (udps_get_block c st i) = udps_abs c st"
    using i assms(1) by (cases "us_workbuf st ! i")
      (auto simp: udps_get_block_def udps_abs_def wb_map_def wb_slot_new fun_eq_iff)
  show "\<exists>b. us_workbuf (udps_get_block c st i) ! i = Some b"
    using i by (cases "us_workbuf st ! i") (simp_all add: udps_get_block_def)
qed

text \<open>What finding a place must achieve; \<open>w\<close> is the window wanted.\<close>

definition udps_placed :: "udps_cfg \<Rightarrow> nat \<Rightarrow> window \<Rightarrow> udps_place \<times> udps \<Rightarrow> bool" where
  "udps_placed c s w r \<longleftrightarrow> (\<exists>i j st'. r = (At i j, st') \<and> udps_inv c st' \<and> i < uc_readahead c
     \<and> j < n_dg_p_block c \<and> (\<exists>b. us_workbuf st' ! i = Some b)
     \<and> us_first st' + i * n_dg_p_block c + j = s \<and> udps_abs c st' = w)"

lemma udps_locate_here:
  assumes "udps_ok c" "udps_inv c st" "us_first st \<le> s"
    "(s - us_first st) div n_dg_p_block c < uc_readahead c"
  shows "udps_placed c s (udps_abs c st) (udps_locate c s k st)"
proof -
  let ?i = "(s - us_first st) div n_dg_p_block c" and ?j = "(s - us_first st) mod n_dg_p_block c"
  have "udps_locate c s k st = (At ?i ?j, udps_get_block c st ?i)"
    using assms n_dg_pos [OF assms(1)] by (subst udps_locate.simps) (auto simp: Let_def)
  moreover have "us_first st + ?i * n_dg_p_block c + ?j = s"
    using assms(3) by (simp add: add.assoc)
  moreover have "?j < n_dg_p_block c" using n_dg_pos [OF assms(1)] by simp
  ultimately show ?thesis
    using udps_get_block_lemma [OF assms(1,2,4)] assms(4) unfolding udps_placed_def by metis
qed

lemma udps_locate_lemma:
  assumes "udps_ok c" "udps_inv c st" "us_first st \<le> s" "k < uc_readahead c"
    "\<forall>i<uc_readahead c. uc_readahead c - k \<le> i \<longrightarrow> us_workbuf st ! i = None"
  shows "udps_placed c s
    (w_slide (n_dg_p_block c) (uc_readahead c) (uc_readahead c - k) s (udps_abs c st))
    (udps_locate c s k st)"
  using assms
proof (induction c s k st rule: udps_locate.induct)
  case (1 c s k st)
  let ?n = "n_dg_p_block c" and ?r = "uc_readahead c"
  let ?need = "(s - us_first st) div ?n + 1 - ?r"
  have n: "0 < ?n" by (rule n_dg_pos [OF 1(2)])
  show ?case
  proof (cases "(s - us_first st) div ?n < ?r")
    case True
    then have "w_slide ?n ?r (?r - k) s (udps_abs c st) = udps_abs c st"
      by (intro w_slide_zero) (simp add: udps_abs_def)
    with udps_locate_here [OF 1(2,3,4) True] show ?thesis by simp
  next
    case False
    obtain st1 where st1: "udps_shift c st s k = (True, st1)" "udps_inv c st1"
      "us_workbuf st1 = tl (us_workbuf st) @ [None]"
      "us_first st1 = (if k + 1 = ?r then s else us_first st + ?n)"
      "filter some_data (map (ub_view c \<circ> fst) (us_outq st1)) =
         filter some_data (map (ub_view c \<circ> fst) (us_outq st))
         @ filter some_data [w_block ?n (wb_map c (us_first st) (us_workbuf st)) (us_first st)]"
      by (rule udps_shift_lemma [OF 1(2,3)])
    have loc: "udps_locate c s k st = udps_locate c s (k + 1) st1"
      using False n 1(4,5) st1(1) by (subst udps_locate.simps) (simp add: Let_def)
    have len: "length (us_workbuf st) = ?r" using 1(3) by (simp add: udps_inv_def)
    then have ne: "us_workbuf st \<noteq> []" using 1(5) by auto
    have none: "us_workbuf st1 ! i = None" if "i < ?r" "?r - (k + 1) \<le> i" for i
    proof (cases "i = ?r - 1")
      case True
      with len 1(5) show ?thesis by (simp add: st1(3) nth_append)
    next
      case False
      with that have "Suc i < ?r" "?r - k \<le> Suc i" "i < ?r - 1" by simp_all
      with 1(6) len show ?thesis by (simp add: st1(3) nth_append nth_tl)
    qed
    obtain m where m: "?need = Suc m" using False by (cases ?need) auto
    show ?thesis
    proof (cases "k + 1 = ?r")
      case True
      have all: "\<And>i. i < length (us_workbuf st1) \<Longrightarrow> us_workbuf st1 ! i = None"
        using none True st1(2) by (simp add: udps_inv_def)
      have "udps_placed c s (udps_abs c st1) (udps_locate c s (k + 1) st1)"
        by (rule udps_locate_here) (use 1 st1 True in simp_all)
      moreover have "udps_abs c st1 = w_slide ?n ?r (?r - k) s (udps_abs c st)"
      proof -
        have "?r - k = 1" using True by simp
        then show ?thesis
          using m st1(4,5) True wb_slot_none [OF all]
          by (simp add: w_slide_def udps_abs_def wb_map_def fun_eq_iff)
      qed
      ultimately show ?thesis using loc by simp
    next
      case False': False
      have le: "us_first st1 \<le> s"
      proof -
        have "?n \<le> s - us_first st"
        proof (rule ccontr)
          assume "\<not> ?n \<le> s - us_first st"
          with False 1(5) show False by simp
        qed
        with False' st1(4) 1(4) show ?thesis by simp
      qed
      have abs1: "udps_abs c st1 = (udps_abs c st)\<lparr>w_first := w_first (udps_abs c st) + ?n,
          w_map := (\<lambda>x. if x < w_first (udps_abs c st) + ?n then None
                        else w_map (udps_abs c st) x),
          w_out := w_out (udps_abs c st) @ filter some_data
            [w_block ?n (w_map (udps_abs c st)) (w_first (udps_abs c st))]\<rparr>"
        using False' st1(3,4,5) wb_map_next [OF 1(2) ne] by (simp add: udps_abs_def fun_eq_iff)
      obtain l where l: "?r - k = Suc (Suc l)" "?r - (k + 1) = Suc l"
        using False' 1(5) by (metis Suc_diff_Suc Suc_eq_plus1 Suc_lessI diff_Suc_Suc)
      have "udps_placed c s (w_slide ?n ?r (?r - (k + 1)) s (udps_abs c st1))
          (udps_locate c s (k + 1) st1)"
        by (rule "1.IH" [OF _ refl refl _ st1(1) [symmetric] refl])
          (use 1 False False' n st1 le none in simp_all)
      moreover have "w_slide ?n ?r (Suc (Suc l)) s (udps_abs c st)
          = w_slide ?n ?r (Suc l) s (udps_abs c st1)"
      proof (rule w_slide_step [OF n _ _ _ abs1])
        show "(s - w_first (udps_abs c st)) div ?n + 1 - ?r = Suc m"
          using m by (simp add: udps_abs_def)
        show "w_first (udps_abs c st) \<le> s" using 1(4) by (simp add: udps_abs_def)
        show "0 < ?r" using 1(5) by simp
      qed
      ultimately show ?thesis using loc l by simp
    qed
  qed
qed

subsection \<open>Refinement\<close>

lemma wb_slot_write:
  assumes "udps_ok c" "length wb = uc_readahead c" "i < uc_readahead c" "j < n_dg_p_block c"
    "wb ! i = Some b" "ub_ok c b" "length p = uc_rd_size c"
  shows "wb_slot c (wb[i := Some (b\<lparr>ub_data := blit (ub_data b) (j * uc_wr_size c) p 0 (length p),
      ub_flags := (ub_flags b)[j := 1]\<rparr>)]) off
    = (if off = i * n_dg_p_block c + j then Some p else wb_slot c wb off)"
proof -
  let ?n = "n_dg_p_block c"
  have n: "0 < ?n" by (rule n_dg_pos [OF assms(1)])
  have pos: "off = i * ?n + j \<longleftrightarrow> off div ?n = i \<and> off mod ?n = j"
    using assms(4) by (metis div_mult_mod_eq div_mult_self3 add.commute add_0 div_less mod_less
        mod_mult_self3 n neq0_conv)
  have "off mod ?n < ?n" using n by simp
  note w = ub_slot_write [OF assms(1,6,4) this assms(7)]
  show ?thesis
  proof (cases "off div ?n = i")
    case True
    with w pos assms show ?thesis by (simp add: wb_slot_def Let_def)
  next
    case False
    with pos show ?thesis by (simp add: wb_slot_def Let_def)
  qed
qed

lemma udps_write_lemma:
  assumes "udps_ok c" "udps_inv c st" "i < uc_readahead c" "j < n_dg_p_block c"
    "us_workbuf st ! i = Some b" "length p = uc_rd_size c"
    "us_first st + i * n_dg_p_block c + j = s"
  shows "udps_inv c (udps_write c st i j p True)"
    "udps_abs c (udps_write c st i j p True) =
      (udps_abs c st)\<lparr>w_map := (w_map (udps_abs c st))(s \<mapsto> p)\<rparr>"
proof -
  let ?b = "b\<lparr>ub_data := blit (ub_data b) (j * uc_wr_size c) p 0 (length p),
      ub_flags := (ub_flags b)[j := 1]\<rparr>"
  let ?wb = "us_workbuf st"
  have wr: "udps_write c st i j p True = st\<lparr>us_workbuf := ?wb[i := Some ?b]\<rparr>"
    using assms(5) by (simp add: udps_write_def)
  have len: "length ?wb = uc_readahead c" using assms(2) by (simp add: udps_inv_def)
  then have "Some b \<in> set ?wb" using assms(3,5) by (metis nth_mem)
  then have b: "ub_ok c b" using assms(2) by (simp add: udps_inv_def)
  then have "ub_ok c ?b" by (simp add: ub_ok_def)
  moreover have "set (?wb[i := Some ?b]) \<subseteq> insert (Some ?b) (set ?wb)"
    by (rule set_update_subset_insert)
  ultimately show "udps_inv c (udps_write c st i j p True)"
    using assms(2) by (auto simp: wr udps_inv_def)
  have "wb_map c (us_first st) (?wb[i := Some ?b]) = (wb_map c (us_first st) ?wb)(s \<mapsto> p)"
    using wb_slot_write [OF assms(1) len assms(3,4,5) b assms(6)] assms(7)
    by (auto simp: wb_map_def fun_eq_iff)
  then show "udps_abs c (udps_write c st i j p True) =
      (udps_abs c st)\<lparr>w_map := (w_map (udps_abs c st))(s \<mapsto> p)\<rparr>"
    by (simp add: udps_abs_def wr)
qed

lemma wiped_ok:
  "(\<And>b. Some b \<in> set wb \<Longrightarrow> ub_ok c b) \<Longrightarrow> Some b \<in> set (map udps_wipe_flags wb) \<Longrightarrow> ub_ok c b"
proof -
  assume ok: "\<And>b. Some b \<in> set wb \<Longrightarrow> ub_ok c b"
  assume "Some b \<in> set (map udps_wipe_flags wb)"
  then obtain x where "x \<in> set wb" "Some b = udps_wipe_flags x" by auto
  with ok show "ub_ok c b" by (cases x) (auto simp: udps_wipe_flags_def ub_ok_def)
qed

lemma udps_receive_lemma:
  assumes "udps_ok c" "udps_inv c st" "length p = uc_rd_size c"
  obtains st' where "udps_receive c st s p True = (Running, st')" "udps_inv c st'"
    "udps_abs c st' = w_receive (n_dg_p_block c) (uc_readahead c) (udps_abs c st) (s, p)"
proof -
  let ?n = "n_dg_p_block c" and ?r = "uc_readahead c"
  have psn: "cb_inv (us_psn st)" "cb_capacity (us_psn st) = 32"
    and ub: "\<And>b. Some b \<in> set (us_workbuf st) \<Longrightarrow> ub_ok c b"
    using assms(2) by (auto simp: udps_inv_def)
  obtain st1 where st1: "udps_stats c st s = Inr st1" "us_outq st1 = us_outq st"
    "us_first st1 = (if udps_resync c st s then s else us_first st)"
    "us_workbuf st1 = (if udps_resync c st s then map udps_wipe_flags (us_workbuf st)
                       else us_workbuf st)"
    "cb_inv (us_psn st1)" "cb_capacity (us_psn st1) = 32"
    by (rule udps_stats_frame [OF psn])
  have inv1: "udps_inv c st1"
    using assms(2) st1 wiped_ok [OF ub] by (simp add: udps_inv_def)
  show thesis
  proof (cases "udps_discard c st s")
    case True
    then have "udps_abs c st1 = w_receive ?n ?r (udps_abs c st) (s, p)"
      using st1 by (simp add: udps_abs_def w_receive_def udps_discard_def udps_ohnoes_def
          udps_resync_def)
    with True st1 inv1 show thesis by (intro that) (simp_all add: udps_receive_def)
  next
    case False
    have le: "us_first st1 \<le> s"
      using False st1(3) by (auto simp: udps_resync_def udps_ohnoes_def)
    have "0 < ?r" using assms(1) by (simp add: udps_ok_def)
    then have "udps_placed c s (w_slide ?n ?r ?r s (udps_abs c st1)) (udps_locate c s 0 st1)"
      using udps_locate_lemma [OF assms(1) inv1 le, of 0] by simp
    then obtain i j st2 b where st2: "udps_locate c s 0 st1 = (At i j, st2)" "udps_inv c st2"
      "i < ?r" "j < ?n" "us_workbuf st2 ! i = Some b" "us_first st2 + i * ?n + j = s"
      "udps_abs c st2 = w_slide ?n ?r ?r s (udps_abs c st1)"
      by (auto simp: udps_placed_def)
    note wr = udps_write_lemma [OF assms(1) st2(2-5) assms(3) st2(6)]
    have "udps_abs c (udps_write c st2 i j p True) = w_receive ?n ?r (udps_abs c st) (s, p)"
    proof (cases "udps_resync c st s")
      case True
      then have old: "s < us_first st" "\<not> us_first st - s \<le> ?n"
        using False by (simp_all add: udps_resync_def udps_ohnoes_def udps_discard_def)
      have abs1: "udps_abs c st1 = (udps_abs c st)\<lparr>w_first := s, w_map := \<lambda>_. None\<rparr>"
        using True st1 wb_slot_wiped [OF assms(1) ub]
        by (simp add: udps_abs_def wb_map_def fun_eq_iff)
      have slide: "w_slide ?n ?r ?r s (udps_abs c st1) = udps_abs c st1"
        by (rule w_slide_zero) (use abs1 \<open>0 < ?r\<close> in simp)
      have "w_first (udps_abs c st) = us_first st" by (simp add: udps_abs_def)
      with old show ?thesis by (simp add: wr(2) st2(7) w_receive_def slide) (simp add: abs1)
    next
      case no: False
      then have "us_first st \<le> s" using False by (auto simp: udps_resync_def udps_ohnoes_def)
      moreover have abs1: "udps_abs c st1 = udps_abs c st" using no st1 by (simp add: udps_abs_def)
      moreover have "w_first (udps_abs c st) = us_first st" by (simp add: udps_abs_def)
      ultimately show ?thesis by (simp add: wr(2) st2(7) w_receive_def Let_def)
    qed
    with False st1 st2 wr(1) show thesis by (intro that) (simp_all add: udps_receive_def)
  qed
qed

lemma udps_do_ack_frame [simp]:
  "udps_abs c (udps_do_ack st a) = udps_abs c st"
  "udps_inv c (udps_do_ack st a) = udps_inv c st"
  by (simp_all add: udps_do_ack_def Let_def udps_abs_def udps_inv_def)

definition dgram :: "int \<Rightarrow> nat \<times> byte list \<Rightarrow> net_event" where
  "dgram a sp = Datagram (fst sp) (snd sp) a"

lemma udps_iter_lemma:
  assumes "udps_ok c" "udps_inv c st" "length (snd sp) = uc_rd_size c"
  obtains st' where "udps_iter c st (dgram a sp) = (Running, st')" "udps_inv c st'"
    "udps_abs c st' = w_receive (n_dg_p_block c) (uc_readahead c) (udps_abs c st) sp"
proof -
  obtain st1 where st1: "udps_receive c st (fst sp) (snd sp) True = (Running, st1)"
    "udps_inv c st1"
    "udps_abs c st1 = w_receive (n_dg_p_block c) (uc_readahead c) (udps_abs c st)
       (fst sp, snd sp)"
    by (rule udps_receive_lemma [OF assms])
  let ?st = "st1\<lparr>us_counter := us_counter st1 + (8 + uc_rd_size c)\<rparr>"
  have "udps_abs c ?st = udps_abs c st1" "udps_inv c ?st = udps_inv c st1"
    by (simp_all add: udps_abs_def udps_inv_def)
  with st1 show thesis
    by (intro that [of "udps_do_ack ?st a"]) (simp_all add: udps_iter_def dgram_def)
qed

lemma udps_run_lemma:
  assumes "udps_ok c" "udps_inv c st" "\<forall>sp\<in>set sps. length (snd sp) = uc_rd_size c"
  shows "\<exists>st'. udps_run c st (map (dgram a) sps) = (Running, st') \<and> udps_inv c st'
    \<and> udps_abs c st' = foldl (w_receive (n_dg_p_block c) (uc_readahead c)) (udps_abs c st) sps"
  using assms(2,3)
proof (induction sps arbitrary: st)
  case Nil
  then show ?case by simp
next
  case (Cons sp sps)
  then have len: "length (snd sp) = uc_rd_size c" by simp
  obtain st1 where st1: "udps_iter c st (dgram a sp) = (Running, st1)" "udps_inv c st1"
    "udps_abs c st1 = w_receive (n_dg_p_block c) (uc_readahead c) (udps_abs c st) sp"
    by (rule udps_iter_lemma [OF assms(1) Cons.prems(1) len])
  show ?case using Cons.IH [OF st1(2)] Cons.prems(2) st1 by simp
qed

subsection \<open>Properties\<close>

text \<open>C10: The UDPs receiver refines the sliding window. Fed any sequence of complete datagrams, from
  any state of the invariant, it keeps running and keeps its invariant, and the datagrams it
  holds and the non-empty blocks it has passed on, slot by slot, are those of the
  specification: late datagrams within one block are dropped, older ones restart the window,
  newer ones make whole blocks leave in order.\<close>
theorem udps_refines_window:
  assumes "udps_ok c" "udps_inv c st" "\<forall>sp\<in>set sps. length (snd sp) = uc_rd_size c"
  shows "\<exists>st'. udps_run c st (map (dgram a) sps) = (Running, st') \<and> udps_inv c st'
    \<and> udps_abs c st' = foldl (w_receive (n_dg_p_block c) (uc_readahead c)) (udps_abs c st) sps"
  using udps_run_lemma [OF assms] .

lemma udps_refines_window_witness:
  "let c = udps_config 1 2 4 2 False (\<lambda>_. [9, 9, 9, 9]) (\<lambda>_. True);
       sps = [(7, [1]), (8, [2]), (10, [3]), (12, [4])]
   in \<exists>st. udps_run c (udps_init c 7) (map (dgram 10) sps) = (Running, st)
     \<and> w_first (udps_abs c st) = 9 \<and> w_out (udps_abs c st) = [[Some [1], Some [2]]]"
proof -
  let ?c = "udps_config 1 2 4 2 False (\<lambda>_. [9, 9, 9, 9]) (\<lambda>_. True)"
  let ?sps = "[(7, [1]), (8, [2]), (10, [3]), (12, [4])] :: (nat \<times> byte list) list"
  have ok: "udps_ok ?c" by (simp add: udps_ok_def udps_config_def sensible_blocksize_def)
  have n: "n_dg_p_block ?c = 2" "uc_readahead ?c = 2" "uc_rd_size ?c = 1"
    by (simp_all add: n_dg_p_block_def udps_config_def sensible_blocksize_def)
  have "foldl (w_receive 2 2) (w_init 7) ?sps = \<lparr>w_first = 9, w_map = [10 \<mapsto> [3], 12 \<mapsto> [4]],
      w_out = [[Some [1], Some [2]]]\<rparr>"
    by (simp add: w_init_def w_receive_def w_slide_def w_block_def some_data_def Let_def
        upt_rec fun_eq_iff)
  with udps_refines_window [OF ok udps_init_inv [OF ok], of ?sps 7 10] show ?thesis
    unfolding Let_def n udps_init_abs by force
qed

end
