(* ===== verification/UdpsStats.thy ===== *)
theory UdpsStats
  imports UdpsWindow
begin

text \<open>
  What the UDPs receiver counts (losses and reordering), when it acknowledges, what it passes
  on when receiving ends, and what the top halves make of a block.
\<close>

subsection \<open>Reordering as counted over the whole history\<close>

definition late_at :: "nat list \<Rightarrow> nat \<Rightarrow> bool" where
  "late_at xs i \<longleftrightarrow> (\<exists>y\<in>set (take i xs). xs ! i \<le> y)"

text \<open>The reordering extent seen in the last \<open>k\<close> numbers, the newest one included.\<close>

definition extent_at :: "nat \<Rightarrow> nat list \<Rightarrow> nat \<Rightarrow> nat" where
  "extent_at k xs i = length (dropWhile (\<lambda>x. x < xs ! i) (takelast k (take (Suc i) xs)))"

definition reordered :: "nat list \<Rightarrow> nat" where
  "reordered xs = length (filter (late_at xs) [0..<length xs])"

definition extent_sum :: "nat \<Rightarrow> nat list \<Rightarrow> nat" where
  "extent_sum k xs = sum_list (map (extent_at k xs) (filter (late_at xs) [0..<length xs]))"

lemma late_at_snoc: "i < length xs \<Longrightarrow> late_at (xs @ [x]) i = late_at xs i"
  by (simp add: late_at_def nth_append)

lemma extent_at_snoc: "i < length xs \<Longrightarrow> extent_at k (xs @ [x]) i = extent_at k xs i"
  by (simp add: extent_at_def nth_append)

lemma filter_late_snoc:
  "filter (late_at (xs @ [x])) [0..<length xs] = filter (late_at xs) [0..<length xs]"
  by (rule filter_cong) (simp_all add: late_at_snoc)

lemma late_at_last: "late_at (xs @ [x]) (length xs) \<longleftrightarrow> (\<exists>y\<in>set xs. x \<le> y)"
  by (simp add: late_at_def)

lemma reordered_snoc:
  "reordered (xs @ [x]) = reordered xs + (if \<exists>y\<in>set xs. x \<le> y then 1 else 0)"
  by (simp add: reordered_def filter_late_snoc late_at_last)

lemma extent_sum_snoc:
  "extent_sum k (xs @ [x]) = extent_sum k xs +
    (if \<exists>y\<in>set xs. x \<le> y then length (dropWhile (\<lambda>y. y < x) (takelast k (xs @ [x]))) else 0)"
proof -
  have "map (extent_at k (xs @ [x])) (filter (late_at xs) [0..<length xs]) =
      map (extent_at k xs) (filter (late_at xs) [0..<length xs])"
    by (rule map_cong) (simp_all add: extent_at_snoc)
  moreover have "extent_at k (xs @ [x]) (length xs) =
      length (dropWhile (\<lambda>y. y < x) (takelast k (xs @ [x])))"
    by (simp add: extent_at_def)
  ultimately show ?thesis
    by (simp add: extent_sum_def filter_late_snoc late_at_last del: map_eq_conv)
qed

lemma reordered_bound: "reordered xs \<le> length xs"
  unfolding reordered_def by (metis length_filter_le length_upt diff_zero)

lemma extent_sum_bound: "extent_sum k xs \<le> k * length xs"
proof (induction xs rule: rev_induct)
  case (snoc x xs)
  have "length (dropWhile (\<lambda>y. y < x) (takelast k (xs @ [x]))) \<le> length (takelast k (xs @ [x]))"
    by (rule length_dropWhile_le)
  also have "\<dots> \<le> k" by simp
  finally show ?case using snoc by (simp add: extent_sum_snoc)
qed (simp add: extent_sum_def)

lemma udps_scan_lemma:
  assumes "cb_inv psn"
  shows "udps_scan psn s j = Inr (j + length (takeWhile (\<lambda>x. x < s) (drop j (cb_contents psn))))"
  using assms
proof (induction psn s j rule: udps_scan.induct)
  case (1 psn s j)
  show ?case
  proof (cases "j < cb_size psn")
    case True
    then have j: "j < length (cb_contents psn)" by (simp add: cb_size_def)
    have "cb_index psn (int j) = Inr (cb_contents psn ! j)"
      by (rule ring.peek_view [OF 1(2) j])
    with True 1 Cons_nth_drop_Suc [OF j, symmetric] show ?thesis
      by (subst udps_scan.simps) (simp del: of_nat_Suc)
  next
    case False
    then show ?thesis by (subst udps_scan.simps) (simp add: cb_size_def)
  qed
qed

subsection \<open>The counters after a history\<close>

definition udps_counted :: "udps \<Rightarrow> nat list \<Rightarrow> bool" where
  "udps_counted st xs \<longleftrightarrow> us_pktcnt st = length xs \<and> us_max st = Max (set xs)
     \<and> us_min st = Min (set xs) \<and> us_expect st = Suc (Max (set xs))
     \<and> cb_contents (us_psn st) = takelast 32 xs
     \<and> us_ooocnt st = reordered xs \<and> us_ooosum st = extent_sum 32 xs
     \<and> us_loscnt st = u64_sub (Max (set xs) - Min (set xs) + 1) (length xs)"

text \<open>The counters, as one value: finding a place and storing leave them alone.\<close>

definition us_counters where
  "us_counters st = (us_pktcnt st, us_max st, us_min st, us_expect st, us_psn st, us_ooocnt st,
     us_ooosum st, us_loscnt st)"

lemma udps_counted_frame: "us_counters st' = us_counters st \<Longrightarrow>
  udps_counted st' xs = udps_counted st xs"
  by (simp add: udps_counted_def us_counters_def)

lemma udps_shift_counters: "udps_shift c st s k = (ok, st') \<Longrightarrow> us_counters st' = us_counters st"
  by (auto simp: udps_shift_def udps_push_def us_counters_def Let_def
      split: option.splits if_splits prod.splits)

lemma udps_get_block_counters: "us_counters (udps_get_block c st i) = us_counters st"
  by (simp add: udps_get_block_def us_counters_def split: option.split)

lemma udps_locate_counters:
  "us_counters (snd (udps_locate c s k st)) = us_counters st"
proof (induction c s k st rule: udps_locate.induct)
  case (1 c s k st)
  show ?case
    by (subst udps_locate.simps)
      (use 1 in \<open>auto simp: Let_def udps_get_block_counters dest: udps_shift_counters
         split: prod.split bool.split\<close>)
qed

lemma udps_receive_counters:
  assumes "udps_stats c st s = Inr st1" "udps_receive c st s p f = (Running, st')"
  shows "us_counters st' = us_counters st1"
  using assms udps_locate_counters [of c s 0 st1]
  by (auto simp: udps_receive_def udps_write_def us_counters_def
      split: if_splits prod.splits udps_place.splits)

lemma udps_first_datagram:
  "udps_stats c (udps_init c s) s = Inr st1 \<Longrightarrow> s + 1 < 2 ^ 64 \<Longrightarrow> udps_counted st1 [s]"
proof -
  assume st1: "udps_stats c (udps_init c s) s = Inr st1" and s: "s + 1 < 2 ^ 64"
  have "cb_contents (cb_push1 (cb_new 0 32) s) = [s]"
    by (subst ring.view_record1) simp_all
  moreover have "u64_add 0 1 = 1" "u64_add s 1 = s + 1" "u64_sub s s = 0"
    using s by (simp_all add: u32_simps)
  ultimately show ?thesis using st1
    by (auto simp: udps_stats_def udps_reorder_def udps_init_def Let_def udps_resync_def
        udps_ohnoes_def udps_discard_def udps_loss_def udps_counted_def reordered_def
        extent_sum_def late_at_def)
qed

text \<open>One more datagram that does not restart the window.\<close>

lemma udps_next_datagram:
  assumes inv: "cb_inv (us_psn st)" "cb_capacity (us_psn st) = 32"
    and cnt: "udps_counted st xs" and ne: "xs \<noteq> []"
    and small: "s + 1 < 2 ^ 64" "\<forall>x\<in>set xs. x + 1 < 2 ^ 64" "length xs < 2 ^ 58"
    and no: "\<not> udps_resync c st s"
    and st1: "udps_stats c st s = Inr st1"
  shows "udps_counted st1 (xs @ [s])"
proof -
  let ?M = "Max (set xs)" and ?m = "Min (set xs)"
  have M: "?M + 1 < 2 ^ 64" "?m \<le> ?M" using small(2) ne by simp_all
  have c: "us_pktcnt st = length xs" "us_max st = ?M" "us_min st = ?m" "us_expect st = Suc ?M"
    "cb_contents (us_psn st) = takelast 32 xs" "us_ooocnt st = reordered xs"
    "us_ooosum st = extent_sum 32 xs"
    using cnt by (simp_all add: udps_counted_def)
  have psn: "cb_inv (cb_push1 (us_psn st) s)"
    "cb_contents (cb_push1 (us_psn st) s) = takelast 32 (xs @ [s])"
    using inv c(5) by (simp_all add: ring.good_record1 ring.view_record1 takelast_takelast_append)
  have size: "cb_size (cb_push1 (us_psn st) s) = min 32 (Suc (length xs))"
    using arg_cong [OF psn(2), of length] by (simp add: cb_size_def)
  have late: "(\<exists>y\<in>set xs. s \<le> y) \<longleftrightarrow> s < Suc ?M"
    using ne by (auto simp: less_Suc_eq_le intro: order_trans [OF _ Max_ge] intro!: bexI [of _ ?M])
  let ?tw = "takeWhile (\<lambda>x. x < s) (takelast 32 (xs @ [s]))"
  let ?dw = "dropWhile (\<lambda>x. x < s) (takelast 32 (xs @ [s]))"
  have tw: "length ?tw + length ?dw = min 32 (Suc (length xs))"
    by (metis length_append length_append_singleton length_takelast takeWhile_dropWhile_id)
  have scan: "udps_scan (cb_push1 (us_psn st) s) s 0 = Inr (length ?tw)"
    using udps_scan_lemma [OF psn(1), of s 0] by (simp add: psn(2))
  have "u64_sub (min 32 (Suc (length xs))) (length ?tw) = length ?dw"
    by (subst u64_sub_exact) (use tw in simp_all)
  note ext = this
  have sums: "extent_sum 32 xs + length ?dw < 2 ^ 64" "reordered xs + 1 < 2 ^ 64"
    "length xs + 1 < 2 ^ 64"
    using extent_sum_bound [of 32 xs] reordered_bound [of xs] small(3) tw by simp_all
  have add: "u64_add (length xs) 1 = length xs + 1" "u64_add (reordered xs) 1 = reordered xs + 1"
    "u64_add (extent_sum 32 xs) (length ?dw) = extent_sum 32 xs + length ?dw"
    "u64_add s 1 = s + 1"
    using sums small(1) by (simp_all add: u64_add_exact)
  obtain st0 where st0: "udps_reorder st s = Inr st0" "us_pktcnt st0 = length xs + 1"
    "us_max st0 = ?M" "us_min st0 = ?m" "us_expect st0 = Suc (max s ?M)"
    "us_psn st0 = cb_push1 (us_psn st) s" "us_ooocnt st0 = reordered (xs @ [s])"
    "us_ooosum st0 = extent_sum 32 (xs @ [s])"
  proof (cases "s < Suc ?M")
    case True
    then show ?thesis
      by (intro that, simp add: udps_reorder_def Let_def c scan size ext)
        (simp_all add: c add add [simplified] ext [simplified] reordered_snoc extent_sum_snoc
          late max_def)
  next
    case False
    then show ?thesis
      by (intro that, simp add: udps_reorder_def Let_def c)
        (simp_all add: c add add [simplified] ext [simplified] reordered_snoc extent_sum_snoc
          late max_def)
  qed
  have mx: "max s ?M = Max (set (xs @ [s]))" and mn: "min s ?m = Min (set (xs @ [s]))"
    using ne by simp_all
  have "u64_sub (max s ?M) (min s ?m) = max s ?M - min s ?m"
    by (rule u64_sub_exact) (use M small(1) in auto)
  moreover have "u64_add (max s ?M - min s ?m) 1 = max s ?M - min s ?m + 1"
    by (rule u64_add_exact) (use M small(1) in auto)
  moreover have "st1 = udps_loss st0 s (udps_discard c st s)"
    using st1 st0(1) no by (simp add: udps_stats_def)
  ultimately show ?thesis
    using st0 M(2) psn(2) unfolding udps_counted_def mx [symmetric] mn [symmetric]
    by (auto simp: udps_loss_def Let_def max_def min_def)
qed

subsection \<open>Streams that do not restart\<close>

text \<open>No datagram trails an earlier one by more than \<open>n\<close>.\<close>

definition near_ordered :: "nat \<Rightarrow> nat list \<Rightarrow> bool" where
  "near_ordered n xs \<longleftrightarrow> (\<forall>i<length xs. \<forall>y\<in>set (take i xs). y \<le> xs ! i + n)"

lemma near_ordered_snoc:
  "near_ordered n (xs @ s # ys) \<Longrightarrow> \<forall>y\<in>set xs. y \<le> s + n"
  unfolding near_ordered_def by (drule spec [of _ "length xs"]) simp

lemma w_receive_first:
  assumes "0 < r" shows "w_first (w_receive n r w (s, p)) \<le> max (w_first w) s"
proof -
  let ?q = "(s - w_first w) div n"
  have "(?q + 1 - r) * n \<le> ?q * n" using assms by (intro mult_le_mono1) simp
  also have "\<dots> \<le> s - w_first w" by simp
  finally show ?thesis
    by (auto simp: w_receive_def w_slide_def Let_def)
qed

lemma udps_not_resync:
  assumes "us_first st \<le> Max (set xs)" "xs \<noteq> []" "\<forall>y\<in>set xs. y \<le> s + n_dg_p_block c"
  shows "\<not> udps_resync c st s"
proof -
  have "Max (set xs) \<le> s + n_dg_p_block c" using assms(2,3) by simp
  with assms(1) show ?thesis by (auto simp: udps_resync_def udps_discard_def)
qed

lemma udps_iter_counted:
  assumes ok: "udps_ok c" "udps_inv c st" and len: "length (snd sp) = uc_rd_size c"
    and cnt: "\<And>st1. udps_stats c st (fst sp) = Inr st1 \<Longrightarrow> udps_counted st1 zs"
    and first: "max (us_first st) (fst sp) \<le> Max (set zs)"
  obtains st' where "udps_iter c st (dgram a sp) = (Running, st')" "udps_inv c st'"
    "udps_counted st' zs" "us_first st' \<le> Max (set zs)"
proof -
  obtain s p where sp: "sp = (s, p)" by (cases sp)
  obtain st' where it: "udps_iter c st (dgram a sp) = (Running, st')" "udps_inv c st'"
    "udps_abs c st' = w_receive (n_dg_p_block c) (uc_readahead c) (udps_abs c st) sp"
    by (rule udps_iter_lemma [OF ok len])
  obtain st1 where st1: "udps_stats c st s = Inr st1"
    using ok(2) by (auto simp: udps_inv_def elim: udps_stats_frame)
  obtain st2 where st2: "udps_receive c st s p True = (Running, st2)"
    by (rule udps_receive_lemma [OF ok, of p s]) (use len sp in auto)
  have "us_counters st' = us_counters st2"
    using it(1) st2 sp by (auto simp: udps_iter_def dgram_def udps_do_ack_def Let_def
        us_counters_def)
  then have "us_counters st' = us_counters st1"
    using udps_receive_counters [OF st1 st2] by simp
  then have "udps_counted st' zs"
    using udps_counted_frame [of st' st1 zs] cnt st1 sp by simp
  moreover have "us_first st' \<le> Max (set zs)"
  proof -
    have "0 < uc_readahead c" using ok(1) by (simp add: udps_ok_def)
    then have "w_first (udps_abs c st') \<le> max (w_first (udps_abs c st)) s"
      unfolding it(3) sp by (rule w_receive_first)
    then have "us_first st' \<le> max (us_first st) s" by (simp add: udps_abs_def)
    with first sp show ?thesis by (simp del: max.bounded_iff)
  qed
  ultimately show thesis by (rule that [OF it(1,2)])
qed

lemma udps_run_counted:
  assumes ok: "udps_ok c"
  shows "udps_inv c st \<Longrightarrow> udps_counted st xs \<Longrightarrow> us_first st \<le> Max (set xs) \<Longrightarrow> xs \<noteq> [] \<Longrightarrow>
    \<forall>sp\<in>set sps. length (snd sp) = uc_rd_size c \<Longrightarrow>
    near_ordered (n_dg_p_block c) (xs @ map fst sps) \<Longrightarrow>
    \<forall>x\<in>set (xs @ map fst sps). x + 1 < 2 ^ 64 \<Longrightarrow> length (xs @ map fst sps) < 2 ^ 58 \<Longrightarrow>
    \<exists>st'. udps_run c st (map (dgram a) sps) = (Running, st') \<and> udps_counted st' (xs @ map fst sps)"
proof (induction sps arbitrary: st xs)
  case Nil
  then show ?case by simp
next
  case (Cons sp sps)
  let ?zs = "xs @ [fst sp]"
  have near: "\<forall>y\<in>set xs. y \<le> fst sp + n_dg_p_block c"
    using near_ordered_snoc Cons.prems(6) by fastforce
  have no: "\<not> udps_resync c st (fst sp)"
    by (rule udps_not_resync [OF Cons.prems(3,4) near])
  have inv: "cb_inv (us_psn st)" "cb_capacity (us_psn st) = 32"
    using Cons.prems(1) by (simp_all add: udps_inv_def)
  have cnt: "udps_counted st1 ?zs" if "udps_stats c st (fst sp) = Inr st1" for st1
    by (rule udps_next_datagram [OF inv Cons.prems(2,4) _ _ _ no that])
      (use Cons.prems(7,8) in auto)
  have first: "max (us_first st) (fst sp) \<le> Max (set ?zs)"
    using Cons.prems(3,4) by (auto simp: max_def)
  have len: "length (snd sp) = uc_rd_size c" using Cons.prems(5) by simp
  obtain st' where st': "udps_iter c st (dgram a sp) = (Running, st')" "udps_inv c st'"
    "udps_counted st' ?zs" "us_first st' \<le> Max (set ?zs)"
    by (rule udps_iter_counted [OF ok Cons.prems(1) len cnt first])
  have "\<exists>st''. udps_run c st' (map (dgram a) sps) = (Running, st'')
      \<and> udps_counted st'' (?zs @ map fst sps)"
    by (rule Cons.IH) (use st' Cons.prems in simp_all)
  with st'(1) show ?case by simp
qed

lemma udpsreader_counts:
  assumes "udps_ok c" "\<forall>sp\<in>set sps. length (snd sp) = uc_rd_size c" "sps \<noteq> []"
    "near_ordered (n_dg_p_block c) (map fst sps)"
    "\<forall>x\<in>set (map fst sps). x + 1 < 2 ^ 64" "length sps < 2 ^ 58"
  shows "\<exists>st'. udpsreader_bh c (map (dgram a) sps) = Some (Running, st')
    \<and> udps_counted st' (map fst sps)"
proof -
  obtain s p rest where sps: "sps = (s, p) # rest" using assms(3) by (cases sps) auto
  let ?st = "udps_init c s"
  have cnt: "udps_counted st1 [s]" if "udps_stats c ?st (fst (s, p)) = Inr st1" for st1
    by (rule udps_first_datagram) (use that assms(5) sps in auto)
  obtain st' where st': "udps_iter c ?st (dgram a (s, p)) = (Running, st')" "udps_inv c st'"
    "udps_counted st' [s]" "us_first st' \<le> Max (set [s])"
    by (rule udps_iter_counted [OF assms(1) udps_init_inv [OF assms(1)], where sp = "(s, p)"])
      (use cnt assms(2) sps in \<open>auto simp: udps_init_def\<close>)
  have "\<exists>st''. udps_run c st' (map (dgram a) rest) = (Running, st'')
      \<and> udps_counted st'' ([s] @ map fst rest)"
    by (rule udps_run_counted [OF assms(1) st'(2-4)]) (use assms sps in simp_all)
  moreover have "event_seqnr (dgram a (s, p)) = Some s" by (simp add: event_seqnr_def dgram_def)
  ultimately show ?thesis using st'(1) by (simp add: udpsreader_bh_def sps)
qed

lemma missing_count:
  assumes "distinct xs" "xs \<noteq> []"
  shows "card ({Min (set xs)..Max (set xs)} - set xs) + length xs = Max (set xs) - Min (set xs) + 1"
proof -
  have sub: "set xs \<subseteq> {Min (set xs)..Max (set xs)}" by auto
  have "Min (set xs) \<le> Max (set xs)" using assms(2) by simp
  then have "card {Min (set xs)..Max (set xs)} = Max (set xs) - Min (set xs) + 1" by simp
  moreover have "card (set xs) \<le> card {Min (set xs)..Max (set xs)}"
    by (rule card_mono [OF _ sub]) simp
  ultimately show ?thesis
    using card_Diff_subset [OF _ sub] distinct_card [OF assms(1)] by simp
qed

text \<open>C23: On a stream in which no datagram trails an earlier one by more than a block, the
  receiver counts every datagram, counts as reordered exactly those with a number not above an
  earlier one, sums their reordering extents within the last 32 numbers, and, when no number
  comes twice, reports as lost exactly the numbers between the smallest and the largest that
  never arrived.\<close>
theorem udps_statistics:
  assumes "udps_ok c" "\<forall>sp\<in>set sps. length (snd sp) = uc_rd_size c" "sps \<noteq> []"
    "near_ordered (n_dg_p_block c) (map fst sps)"
    "\<forall>x\<in>set (map fst sps). x + 1 < 2 ^ 64" "length sps < 2 ^ 58" "distinct (map fst sps)"
  shows "\<exists>st'. udpsreader_bh c (map (dgram a) sps) = Some (Running, st')
    \<and> us_pktcnt st' = length sps \<and> us_ooocnt st' = reordered (map fst sps)
    \<and> us_ooosum st' = extent_sum 32 (map fst sps)
    \<and> us_loscnt st' = card ({us_min st'..us_max st'} - set (map fst sps))
    \<and> us_max st' = Max (set (map fst sps)) \<and> us_min st' = Min (set (map fst sps))"
proof -
  let ?xs = "map fst sps"
  obtain st' where st': "udpsreader_bh c (map (dgram a) sps) = Some (Running, st')"
    "udps_counted st' ?xs" using udpsreader_counts [OF assms(1-6)] by blast
  have ne: "?xs \<noteq> []" using assms(3) by simp
  note miss = missing_count [OF assms(7) ne]
  have "Max (set ?xs) + 1 < 2 ^ 64" using assms(3,5) by simp
  then have "u64_sub (Max (set ?xs) - Min (set ?xs) + 1) (length ?xs)
      = card ({Min (set ?xs)..Max (set ?xs)} - set ?xs)"
    by (subst u64_sub_exact) (use miss in \<open>simp_all del: set_map\<close>)
  with st' show ?thesis by (auto simp: udps_counted_def)
qed

lemma udps_statistics_witness:
  "let c = udps_config 1 2 4 2 False (\<lambda>_. [9, 9, 9, 9]) (\<lambda>_. True);
       sps = [(7, [1]), (10, [2]), (8, [3])]
   in \<exists>st. udpsreader_bh c (map (dgram 10) sps) = Some (Running, st)
     \<and> us_ooocnt st = 1 \<and> us_ooosum st = 2 \<and> us_loscnt st = 1"
proof -
  let ?c = "udps_config 1 2 4 2 False (\<lambda>_. [9, 9, 9, 9]) (\<lambda>_. True)"
  let ?sps = "[(7, [1]), (10, [2]), (8, [3])] :: (nat \<times> byte list) list"
  have ok: "udps_ok ?c" by (simp add: udps_ok_def udps_config_def sensible_blocksize_def)
  have n: "n_dg_p_block ?c = 2" "uc_rd_size ?c = 1"
    by (simp_all add: n_dg_p_block_def udps_config_def)
  have near: "near_ordered (n_dg_p_block ?c) (map fst ?sps)"
    unfolding n by (simp add: near_ordered_def less_Suc_eq)
  have counts: "reordered (map fst ?sps) = 1" "extent_sum 32 (map fst ?sps) = 2"
    by (simp_all add: reordered_def extent_sum_def late_at_def extent_at_def takelast_def upt_rec)
  have "{7..10} - set (map fst ?sps) = {9::nat}" by auto
  then have gap: "card ({7..10} - set (map fst ?sps)) = 1" by simp
  have mm: "Max (set (map fst ?sps)) = 10" "Min (set (map fst ?sps)) = 7" by simp_all
  obtain st where st: "udpsreader_bh ?c (map (dgram 10) ?sps) = Some (Running, st)"
    "us_ooocnt st = reordered (map fst ?sps)" "us_ooosum st = extent_sum 32 (map fst ?sps)"
    "us_loscnt st = card ({us_min st..us_max st} - set (map fst ?sps))"
    "us_max st = Max (set (map fst ?sps))" "us_min st = Min (set (map fst ?sps))"
    using udps_statistics [OF ok _ _ near, of 10] n(2) by auto
  then have "us_ooocnt st = 1 \<and> us_ooosum st = 2 \<and> us_loscnt st = 1"
    unfolding counts mm using gap by simp
  with st(1) show ?thesis unfolding Let_def by blast
qed

subsection \<open>The end of receiving\<close>

text \<open>The blocks to pass on: those that start at or below the largest number seen.\<close>

definition held_blocks :: "udps_cfg \<Rightarrow> udps \<Rightarrow> nat \<Rightarrow> bool" where
  "held_blocks c st i \<longleftrightarrow> i < uc_readahead c \<and> us_first st + i * n_dg_p_block c \<le> us_max st"

definition held_size :: "udps_cfg \<Rightarrow> udps \<Rightarrow> nat \<Rightarrow> nat" where
  "held_size c st i =
     uc_wr_size c * min (us_max st + 1 - (us_first st + i * n_dg_p_block c)) (n_dg_p_block c)"

lemma held_size_u32:
  assumes "udps_ok c"
  shows "u32_mul (uc_wr_size c) (min q (n_dg_p_block c) mod 2 ^ 32) = uc_wr_size c * min q (n_dg_p_block c)"
    "uc_wr_size c * min q (n_dg_p_block c) \<le> udps_block_len c"
proof -
  have le: "uc_wr_size c * min q (n_dg_p_block c) \<le> uc_blocksize c"
    using n_dg_fits [of c] mult_le_mono2 [OF min.cobounded2 [of q "n_dg_p_block c"], of "uc_wr_size c"]
    by (metis mult.commute order_trans)
  moreover have "n_dg_p_block c < 2 ^ 32"
    unfolding n_dg_p_block_def
    by (rule le_less_trans [OF div_le_dividend]) (use assms in \<open>simp add: udps_ok_def\<close>)
  ultimately show "u32_mul (uc_wr_size c) (min q (n_dg_p_block c) mod 2 ^ 32)
      = uc_wr_size c * min q (n_dg_p_block c)"
    using assms by (simp add: u32_mul_def udps_ok_def)
  show "uc_wr_size c * min q (n_dg_p_block c) \<le> udps_block_len c"
    using le by (simp add: udps_block_len_def)
qed

lemma udps_flush_lemma:
  assumes ok: "udps_ok c" "uc_allow_var c"
  shows "(\<And>j. i \<le> j \<Longrightarrow> j < k \<Longrightarrow> held_blocks c st j \<and> us_workbuf st ! j \<noteq> None) \<Longrightarrow> i \<le> k \<Longrightarrow>
    udps_flush c i (us_first st + i * n_dg_p_block c) st =
    udps_flush c k (us_first st + k * n_dg_p_block c) (st\<lparr>us_outq := us_outq st @
      map (\<lambda>j. (the (us_workbuf st ! j), held_size c st j)) [i..<k]\<rparr>)"
proof (induction "k - i" arbitrary: i st)
  case 0
  then show ?case by simp
next
  case (Suc d)
  then have i: "i < k" by simp
  with Suc.prems(1) [of i] obtain b where b: "us_workbuf st ! i = Some b" and h: "held_blocks c st i"
    by auto
  let ?st = "st\<lparr>us_outq := us_outq st @ [(b, held_size c st i)]\<rparr>"
  have hs: "held_size c ?st j = held_size c st j" "held_blocks c ?st j = held_blocks c st j" for j
    by (simp_all add: held_size_def held_blocks_def)
  have "udps_flush c i (us_first st + i * n_dg_p_block c) st =
      udps_flush c (Suc i) (us_first ?st + Suc i * n_dg_p_block c) ?st"
    using h b ok held_size_u32 [OF ok(1)]
    by (subst udps_flush.simps)
      (simp add: held_blocks_def held_size_def udps_push_def udps_ok_def Let_def algebra_simps)
  also have "\<dots> = udps_flush c k (us_first ?st + k * n_dg_p_block c) (?st\<lparr>us_outq := us_outq ?st @
      map (\<lambda>j. (the (us_workbuf ?st ! j), held_size c ?st j)) [Suc i..<k]\<rparr>)"
    by (rule Suc.hyps(1)) (use Suc.hyps(2) Suc.prems i hs in auto)
  finally show ?case using i b by (simp add: hs upt_conv_Cons)
qed

lemma udps_flush_stop:
  "\<not> held_blocks c st k \<Longrightarrow> udps_flush c k (us_first st + k * n_dg_p_block c) st = (None, st)"
  by (subst udps_flush.simps) (auto simp: held_blocks_def)

lemma udps_flush_hole:
  "held_blocks c st k \<Longrightarrow> us_workbuf st ! k = None \<Longrightarrow> uc_allow_var c \<Longrightarrow>
   udps_flush c k (us_first st + k * n_dg_p_block c) st = (Some Block_Error, st)"
  by (subst udps_flush.simps) (auto simp: held_blocks_def Let_def)

text \<open>C24: When receiving is interrupted with variable block sizes allowed, the first \<open>k\<close> blocks of the
  window are passed on in order, each cut to the datagrams up to the largest number seen.
  If the window holds nothing further the thread stops normally; if the next block that should
  follow is one in which nothing arrived, the thread dies of a block error instead.\<close>
theorem udps_interrupted:
  assumes "udps_ok c" "uc_allow_var c"
    and "\<forall>j<k. held_blocks c st j \<and> us_workbuf st ! j \<noteq> None"
    and "\<not> held_blocks c st k \<or> us_workbuf st ! k = None"
  shows "udps_end c st EINTR =
    (if held_blocks c st k then Thrown Block_Error else Stopped,
     st\<lparr>us_outq := us_outq st @ map (\<lambda>j. (the (us_workbuf st ! j), held_size c st j)) [0..<k]\<rparr>)"
proof -
  let ?st = "st\<lparr>us_outq := us_outq st @
    map (\<lambda>j. (the (us_workbuf st ! j), held_size c st j)) [0..<k]\<rparr>"
  have "udps_flush c 0 (us_first st) st = udps_flush c k (us_first ?st + k * n_dg_p_block c) ?st"
    using udps_flush_lemma [OF assms(1,2), of 0 k st] assms(3) by simp
  moreover have "held_blocks c ?st k = held_blocks c st k" by (simp add: held_blocks_def)
  ultimately show ?thesis
    using assms(2,4) udps_flush_stop [of c ?st k] udps_flush_hole [of c ?st k]
    by (auto simp: udps_end_def)
qed

lemma udps_interrupted_witness:
  "let c = udps_config 1 2 4 4 True (\<lambda>_. [9, 9, 9, 9]) (\<lambda>_. True);
       b = \<lparr>ub_data = [1, 0, 2, 0], ub_flags = [1, 1]\<rparr>;
       st = (udps_init c 7)\<lparr>us_workbuf := [Some b, None, Some b, None], us_max := 11\<rparr>
   in fst (udps_end c st EINTR) = Thrown Block_Error \<and> us_outq (snd (udps_end c st EINTR)) = [(b, 4)]"
proof -
  let ?c = "udps_config 1 2 4 4 True (\<lambda>_. [9, 9, 9, 9]) (\<lambda>_. True)"
  let ?b = "\<lparr>ub_data = [1, 0, 2, 0], ub_flags = [1, 1]\<rparr> :: ublock"
  let ?st = "(udps_init ?c 7)\<lparr>us_workbuf := [Some ?b, None, Some ?b, None], us_max := 11\<rparr>"
  have ok: "udps_ok ?c" "uc_allow_var ?c"
    by (simp_all add: udps_ok_def udps_config_def sensible_blocksize_def)
  have n: "n_dg_p_block ?c = 2" "uc_readahead ?c = 4" "uc_wr_size ?c = 2"
    by (simp_all add: n_dg_p_block_def udps_config_def sensible_blocksize_def)
  have h: "held_blocks ?c ?st 0" "held_blocks ?c ?st 1" "held_size ?c ?st 0 = 4"
    unfolding held_blocks_def held_size_def n by (simp_all add: udps_init_def)
  have "udps_end ?c ?st EINTR = (if held_blocks ?c ?st 1 then Thrown Block_Error else Stopped,
     ?st\<lparr>us_outq := us_outq ?st @ map (\<lambda>j. (the (us_workbuf ?st ! j), held_size ?c ?st j)) [0..<1]\<rparr>)"
    by (rule udps_interrupted [OF ok]) (use h in simp_all)
  with h show ?thesis unfolding Let_def by (simp add: udps_init_def)
qed

subsection \<open>Acknowledgement rhythm\<close>

lemma udps_acks_wrap: "k < 7 \<Longrightarrow> udps_acks ! Suc k = [] \<longleftrightarrow> k = 6"
  by (auto simp: udps_acks_def less_Suc_eq numeral_eq_Suc)

definition acked_state :: "nat \<Rightarrow> nat \<Rightarrow> udps \<Rightarrow> bool" where
  "acked_state a n st \<longleftrightarrow> us_oldack st = int a
     \<and> us_sent st = map (\<lambda>k. k mod 7) [0..<n div (a + 1) + 1]
     \<and> us_ack st = (n div (a + 1)) mod 7 + 1
     \<and> us_lastack st = int a - int (n mod (a + 1))"

lemma udps_ack_first:
  "us_lastack st = 0 \<Longrightarrow> us_ack st = 0 \<Longrightarrow> us_sent st = [] \<Longrightarrow>
   acked_state a 0 (udps_do_ack st (int a))"
  by (auto simp: acked_state_def udps_do_ack_def Let_def udps_acks_def)

lemma udps_ack_step:
  assumes "acked_state a n st" shows "acked_state a (n + 1) (udps_do_ack st (int a))"
proof -
  let ?m = "n mod (a + 1)" and ?d = "n div (a + 1)"
  note s = assms [unfolded acked_state_def]
  have "?m < a + 1" by simp
  then consider "?m < a" | "?m = a" by linarith
  then show ?thesis
  proof cases
    case 1
    then have "(n + 1) mod (a + 1) = ?m + 1" "(n + 1) div (a + 1) = ?d"
      by (simp_all add: mod_Suc div_Suc)
    with 1 s show ?thesis by (simp add: acked_state_def udps_do_ack_def)
  next
    case 2
    then have step: "(n + 1) mod (a + 1) = 0" "(n + 1) div (a + 1) = ?d + 1"
      by (simp_all add: mod_Suc div_Suc)
    have wrap: "(if udps_acks ! (?d mod 7 + 1) = [] then 0 else ?d mod 7 + 1) = (?d + 1) mod 7"
      using udps_acks_wrap [of "?d mod 7"] by (simp add: mod_Suc)
    have lst: "us_lastack st = 0" using s 2 by simp
    have "udps_do_ack st (int a) = st\<lparr>us_sent := us_sent st @ [(?d + 1) mod 7],
        us_lastack := int a, us_ack := (?d + 1) mod 7 + 1\<rparr>"
    proof -
      have ack: "us_oldack st = int a" "us_ack st = ?d mod 7 + 1" using s by simp_all
      show ?thesis unfolding udps_do_ack_def Let_def ack if_False lst not_True_eq_False
          if_True wrap simp_thms by simp
    qed
    then show ?thesis unfolding acked_state_def step using s by simp
  qed
qed

lemma udps_ack_fold:
  assumes "us_lastack st = 0" "us_ack st = 0" "us_sent st = []"
  shows "acked_state a n (((\<lambda>st. udps_do_ack st (int a)) ^^ Suc n) st)"
proof (induction n)
  case 0
  then show ?case using udps_ack_first [OF assms] by simp
next
  case (Suc n)
  from udps_ack_step [OF this] show ?case by simp
qed

text \<open>With an acknowledgement period of \<open>a\<close>, after \<open>n + 1\<close> datagrams the receiver has sent an
  acknowledgement at the first datagram and then at every \<open>(a + 1)\<close>-th, cycling through the
  seven messages.\<close>
theorem udps_ack_rhythm:
  "us_sent (((\<lambda>st. udps_do_ack st (int a)) ^^ Suc n) (udps_init c s))
    = map (\<lambda>k. k mod 7) [0..<n div (a + 1) + 1]"
proof -
  have "acked_state a n (((\<lambda>st. udps_do_ack st (int a)) ^^ Suc n) (udps_init c s))"
    by (rule udps_ack_fold) (simp_all add: udps_init_def)
  then show ?thesis by (simp only: acked_state_def)
qed

subsection \<open>The top halves\<close>

lemma length_fill_words [simp]: "length (fill_words b j i) = length b"
  by (induction b j i rule: fill_words.induct) (subst fill_words.simps, simp)

lemma fill_words_nth:
  "8 * j + i \<le> length b \<Longrightarrow> x < length b \<Longrightarrow>
   fill_words b j i ! x = (if 8 * j \<le> x \<and> x < 8 * (j + i div 8) then fill_word ! (x mod 8) else b ! x)"
proof (induction b j i rule: fill_words.induct)
  case (1 b j i)
  show ?case
  proof (cases "8 \<le> i")
    case True
    then have d: "i div 8 = Suc ((i - 8) div 8)" by (simp add: le_div_geq)
    have "fill_words b j i ! x = fill_words (blit b (8 * j) fill_word 0 8) (j + 1) (i - 8) ! x"
      using True by (subst fill_words.simps) simp
    also have "\<dots> = (if 8 * (j + 1) \<le> x \<and> x < 8 * (j + 1 + (i - 8) div 8) then fill_word ! (x mod 8)
        else blit b (8 * j) fill_word 0 8 ! x)"
      by (rule "1.IH" [OF True]) (use True 1 in simp_all)
    also have "blit b (8 * j) fill_word 0 8 ! x =
        (if 8 * j \<le> x \<and> x < 8 * j + 8 then fill_word ! (x - 8 * j) else b ! x)"
      by (subst nth_blit) (use True 1 in simp_all)
    finally have eq: "fill_words b j i ! x =
        (if 8 * (j + 1) \<le> x \<and> x < 8 * (j + 1 + (i - 8) div 8) then fill_word ! (x mod 8)
         else if 8 * j \<le> x \<and> x < 8 * j + 8 then fill_word ! (x - 8 * j) else b ! x)" .
    have "x mod 8 = x - 8 * j" if "8 * j \<le> x" "x < 8 * j + 8"
    proof -
      have "x mod 8 = (x - 8 * j) mod 8" using that(1) by (metis le_add_diff_inverse mod_mult_self2 mult.commute add.commute)
      with that show ?thesis by simp
    qed
    with eq d show ?thesis by auto
  next
    case False
    then show ?thesis by (subst fill_words.simps) auto
  qed
qed

lemma length_udps_fill [simp]: "length (udps_fill wr rd fp flags i k dat) = length dat"
  by (induction k arbitrary: i dat) (simp_all add: Let_def)

text \<open>What the loop leaves in the bytes of slot \<open>j\<close>.\<close>

definition filled_slot :: "nat \<Rightarrow> nat \<Rightarrow> byte list \<Rightarrow> nat list \<Rightarrow> byte list \<Rightarrow> nat \<Rightarrow> byte list" where
  "filled_slot wr rd fp flags dat j =
     (if flags ! j = 0 then take rd fp else chunk (j * wr) rd dat) @ replicate (wr - rd) 0"

definition fill_one :: "nat \<Rightarrow> nat \<Rightarrow> byte list \<Rightarrow> nat list \<Rightarrow> nat \<Rightarrow> byte list \<Rightarrow> byte list" where
  "fill_one wr rd fp flags i dat =
     blit (if flags ! i = 0 then blit dat (i * wr) fp 0 rd else dat) (i * wr + rd)
       (replicate (wr - rd) 0) 0 (wr - rd)"

lemma fill_one_same:
  assumes "rd \<le> wr" "i * wr + wr \<le> length dat" "rd \<le> length fp"
  shows "chunk (i * wr) wr (fill_one wr rd fp flags i dat) = filled_slot wr rd fp flags dat i"
  by (rule nth_equalityI)
    (use assms in \<open>auto simp: fill_one_def filled_slot_def nth_chunk nth_blit nth_append\<close>)

lemma fill_one_other:
  assumes "rd \<le> wr" "i * wr + wr \<le> length dat" "j \<noteq> i"
  shows "chunk (j * wr) wr (fill_one wr rd fp flags i dat) = chunk (j * wr) wr dat"
proof -
  have dis: "j * wr + wr \<le> i * wr \<or> i * wr + wr \<le> j * wr"
    using slots_disjoint [OF assms(3), of wr wr] by simp
  have "chunk (j * wr) wr (blit dat (i * wr) fp 0 rd) = chunk (j * wr) wr dat"
    by (rule chunk_blit_other) (use dis assms in auto)
  moreover have "chunk (j * wr) wr (blit d (i * wr + rd) z 0 (wr - rd)) = chunk (j * wr) wr d"
    if "length d = length dat" for d z :: "byte list"
    by (rule chunk_blit_other) (use dis assms that in auto)
  ultimately show ?thesis by (simp add: fill_one_def)
qed

lemma udps_fill_lemma:
  assumes "rd \<le> wr" "(i + k) * wr \<le> length dat" "rd \<le> length fp"
  shows "chunk (j * wr) wr (udps_fill wr rd fp flags i k dat) =
    (if i \<le> j \<and> j < i + k then filled_slot wr rd fp flags dat j else chunk (j * wr) wr dat)"
  using assms(2)
proof (induction k arbitrary: i dat)
  case 0
  then show ?case by auto
next
  case (Suc k)
  let ?d = "fill_one wr rd fp flags i dat"
  have len: "length ?d = length dat" by (simp add: fill_one_def)
  have fits: "i * wr + wr \<le> length dat" using Suc.prems by (simp add: add_mult_distrib)
  have "chunk (j * wr) wr (udps_fill wr rd fp flags i (Suc k) dat) =
      (if i + 1 \<le> j \<and> j < i + 1 + k then filled_slot wr rd fp flags ?d j else chunk (j * wr) wr ?d)"
    using Suc.IH [of "i + 1" ?d] Suc.prems len by (simp add: fill_one_def Let_def)
  moreover have "filled_slot wr rd fp flags ?d j = filled_slot wr rd fp flags dat j" if "j \<noteq> i"
  proof -
    have "take rd (chunk (j * wr) wr ?d) = take rd (chunk (j * wr) wr dat)"
      by (simp only: fill_one_other [OF assms(1) fits that])
    then show ?thesis using assms(1) by (simp add: filled_slot_def chunk_def min_def split: if_splits)
  qed
  ultimately show ?case
    using fill_one_same [OF assms(1) fits assms(3)] fill_one_other [OF assms(1) fits]
    by (cases "j = i") auto
qed

text \<open>For a full block the top half keeps every received datagram, puts the fill pattern (for VDIF
  preceded by the invalid-frame header) where none was received, and follows both with zeroes
  up to the size of a slot; the words of the fill pattern are \<open>0x11223344\<close>.\<close>
theorem udps_top_half:
  assumes "udps_ok c" "ub_ok c b" "length junk = uc_rd_size c" "j < n_dg_p_block c"
  shows "chunk (j * uc_wr_size c) (uc_wr_size c) (th_zeroeing c vdif junk (b, udps_block_len c)) =
      (case ub_slot c b j of
         None \<Rightarrow> udps_fpblock vdif (uc_wr_size c) (uc_rd_size c) junk
       | Some p \<Rightarrow> p) @ replicate (uc_wr_size c - uc_rd_size c) 0
    \<and> (\<forall>x. x < 8 * (uc_rd_size c div 8) \<longrightarrow>
         udps_fpblock False (uc_wr_size c) (uc_rd_size c) junk ! x = fill_word ! (x mod 8))"
proof
  let ?fp = "udps_fpblock vdif (uc_wr_size c) (uc_rd_size c) junk"
  let ?wr = "uc_wr_size c" and ?rd = "uc_rd_size c"
  have c: "?rd \<le> ?wr" "length (ub_data b) = uc_blocksize c"
    using assms(1,2) by (simp_all add: udps_ok_def ub_ok_def)
  have fp: "length ?fp = ?rd" using assms(3) by (simp add: udps_fpblock_def Let_def)
  have all: "th_zeroeing c vdif junk (b, udps_block_len c) =
      udps_fill ?wr ?rd ?fp (ub_flags b) 0 (n_dg_p_block c) (ub_data b)"
    using c by (simp add: th_zeroeing_def udps_block_len_def Let_def)
  have "chunk (j * ?wr) ?wr (th_zeroeing c vdif junk (b, udps_block_len c)) =
      filled_slot ?wr ?rd ?fp (ub_flags b) (ub_data b) j"
    unfolding all using udps_fill_lemma [OF c(1), of 0 "n_dg_p_block c" "ub_data b" ?fp j "ub_flags b"]
      n_dg_fits [of c] c assms(4) fp by simp
  then show "chunk (j * ?wr) ?wr (th_zeroeing c vdif junk (b, udps_block_len c)) =
      (case ub_slot c b j of None \<Rightarrow> ?fp | Some p \<Rightarrow> p) @ replicate (?wr - ?rd) 0"
    using fp by (simp add: filled_slot_def ub_slot_def)
  show "\<forall>x. x < 8 * (?rd div 8) \<longrightarrow> udps_fpblock False ?wr ?rd junk ! x = fill_word ! (x mod 8)"
  proof (intro allI impI)
    fix x assume x: "x < 8 * (?rd div 8)"
    have "8 * (?rd div 8) \<le> ?rd" by simp
    with x assms(3) have "x < length junk" by linarith
    with x assms(3) show "udps_fpblock False ?wr ?rd junk ! x = fill_word ! (x mod 8)"
      by (simp add: udps_fpblock_def fill_words_nth)
  qed
qed

lemma udps_top_half_witness:
  "let c = udps_config 8 10 20 2 False (\<lambda>_. replicate 20 9) (\<lambda>_. True);
       b = \<lparr>ub_data = replicate 20 7, ub_flags = [1, 0]\<rparr>
   in chunk 10 10 (th_zeroeing c False (replicate 8 5) (b, udps_block_len c))
        = [0x44, 0x33, 0x22, 0x11, 0x44, 0x33, 0x22, 0x11, 0, 0]
    \<and> chunk 0 10 (th_zeroeing c False (replicate 8 5) (b, udps_block_len c))
        = [7, 7, 7, 7, 7, 7, 7, 7, 0, 0]"
proof -
  let ?c = "udps_config 8 10 20 2 False (\<lambda>_. replicate 20 9) (\<lambda>_. True)"
  let ?b = "\<lparr>ub_data = replicate 20 7, ub_flags = [1, 0]\<rparr> :: ublock"
  have n: "n_dg_p_block ?c = 2" "uc_wr_size ?c = 10" "uc_rd_size ?c = 8"
    by (simp_all add: n_dg_p_block_def udps_config_def)
  have ok: "udps_ok ?c" "ub_ok ?c ?b"
    unfolding ub_ok_def n by (simp_all add: udps_ok_def udps_config_def sensible_blocksize_def)
  have fp: "udps_fpblock False 10 8 (replicate 8 5) = fill_word"
    by (simp add: udps_fpblock_def fill_words.simps fill_word_def numeral_eq_Suc)
  have slots: "ub_slot ?c ?b 0 = Some (replicate 8 7)" "ub_slot ?c ?b 1 = None"
    unfolding ub_slot_def n by (simp_all add: chunk_def min_def)
  show ?thesis
    using conjunct1 [OF udps_top_half [OF ok, of "replicate 8 5" 0 False]]
      conjunct1 [OF udps_top_half [OF ok, of "replicate 8 5" 1 False]]
    unfolding Let_def n slots fp option.case by (simp add: fill_word_def numeral_eq_Suc)
qed

end
