(* ===== verification/Transfermode.thy ===== *)
theory Transfermode
  imports JPrelude
begin

unbundle bit_operations_syntax

text \<open>
  Transfer modes and their submode flags, from \<open>src/src/transfermode.h\<close> and
  \<open>src/src/transfermode.cc\<close>: the classification of a transfer by its source and its
  destination, the conversion from and to text, and the flag word.
\<close>

datatype (plugins only: code) transfer_type =
    no_transfer | disk2net | disk2out | disk2file | disk2etransfer | in2net | in2disk |
    in2fork | in2file | net2out | net2disk | net2fork | net2file | net2check | net2sfxc |
    net2sfxcfork | fill2net | fill2file | fill2out | fill2vbs | fill2disk | spill2net |
    spid2net | spin2net | spin2file | splet2net | splet2file | spill2file | spid2file |
    spif2file | spif2net | spbs2net | spbs2file | file2check | file2mem | file2disk |
    file2net | in2mem | in2memfork | mem2net | mem2file | mem2sfxc | mem2time | net2mem |
    vbs2net | net2vbs | vbsrecord | mem2vbs | tvr | compute_trackmask | condition |
    bankswitch | mounting | stream2sfxc

subsection \<open>Source and destination\<close>

definition fromfile :: "transfer_type \<Rightarrow> bool" where
  "fromfile tt \<longleftrightarrow> tt \<in> set [
     file2check, file2mem, spif2file, spif2net, file2disk, file2net, vbs2net]"

definition tofile :: "transfer_type \<Rightarrow> bool" where
  "tofile tt \<longleftrightarrow> tt \<in> set [
     disk2file, in2file, net2file, fill2file, spill2file, spif2file, spbs2file, splet2file,
     spin2file, spid2file, mem2file, net2vbs, fill2vbs, vbsrecord, mem2vbs]"

definition fromnet :: "transfer_type \<Rightarrow> bool" where
  "fromnet tt \<longleftrightarrow> tt \<in> set [
     net2out, net2disk, net2fork, net2file, net2check, net2sfxc, net2sfxcfork, splet2net,
     splet2file, net2mem, net2vbs, vbsrecord]"

definition tonet :: "transfer_type \<Rightarrow> bool" where
  "tonet tt \<longleftrightarrow> tt \<in> set [
     disk2net, in2net, fill2net, spill2net, spid2net, spin2net, splet2net, spif2net,
     spbs2net, mem2net, file2net, vbs2net, stream2sfxc]"

definition fromio :: "transfer_type \<Rightarrow> bool" where
  "fromio tt \<longleftrightarrow> tt \<in> set [
     in2net, in2disk, in2fork, in2file, spin2net, spin2file, in2mem, in2memfork, tvr]"

definition toio :: "transfer_type \<Rightarrow> bool" where
  "toio tt \<longleftrightarrow> tt \<in> set [
     disk2out, net2out, net2fork, fill2out]"

definition fromdisk :: "transfer_type \<Rightarrow> bool" where
  "fromdisk tt \<longleftrightarrow> tt \<in> set [
     disk2net, disk2out, disk2file, spid2net, spid2file, condition, bankswitch,
     stream2sfxc, mounting, disk2etransfer]"

definition todisk :: "transfer_type \<Rightarrow> bool" where
  "todisk tt \<longleftrightarrow> tt \<in> set [
     in2disk, net2disk, net2fork, in2memfork, file2disk, condition, bankswitch, mounting,
     fill2disk]"

definition fromfill :: "transfer_type \<Rightarrow> bool" where
  "fromfill tt \<longleftrightarrow> tt \<in> set [
     fill2net, fill2file, spill2net, spill2file, fill2out, fill2vbs, fill2disk]"

definition toqueue :: "transfer_type \<Rightarrow> bool" where
  "toqueue tt \<longleftrightarrow> tt \<in> set [
     file2mem, in2mem, in2memfork, net2mem]"

definition isfork :: "transfer_type \<Rightarrow> bool" where
  "isfork tt \<longleftrightarrow> tt \<in> set [
     net2fork, net2sfxcfork, in2memfork, in2fork]"

definition fromvbs :: "transfer_type \<Rightarrow> bool" where
  "fromvbs tt \<longleftrightarrow> tt \<in> set [
     spbs2file, spbs2net, vbs2net]"

definition tovbs :: "transfer_type \<Rightarrow> bool" where
  "tovbs tt \<longleftrightarrow> tt \<in> set [
     fill2vbs, vbsrecord, net2vbs, mem2vbs]"

definition diskunavail :: "transfer_type \<Rightarrow> bool" where
  "diskunavail tt \<longleftrightarrow> tt = condition \<or> tt = bankswitch \<or> tt = mounting"

definition streamstorbusy :: "transfer_type \<Rightarrow> bool" where
  "streamstorbusy tt \<longleftrightarrow> diskunavail tt \<or> toio tt \<or> fromio tt \<or> todisk tt \<or> fromdisk tt"

subsection \<open>Text\<close>

definition s2tt :: "(string \<times> transfer_type) list" where
  "s2tt = [
     (''disk2net'', disk2net), (''disk2out'', disk2out), (''disk2file'', disk2file),
     (''disk2etransfer'', disk2etransfer), (''in2net'', in2net), (''in2disk'', in2disk),
     (''in2fork'', in2fork), (''in2file'', in2file), (''net2out'', net2out),
     (''net2disk'', net2disk), (''net2fork'', net2fork), (''net2file'', net2file),
     (''net2check'', net2check), (''net2sfxc'', net2sfxc),
     (''net2sfxcfork'', net2sfxcfork), (''fill2net'', fill2net),
     (''fill2file'', fill2file), (''fill2out'', fill2out), (''fill2vbs'', fill2vbs),
     (''fill2disk'', fill2disk), (''spill2net'', spill2net), (''spid2net'', spid2net),
     (''spin2net'', spin2net), (''spin2file'', spin2file), (''splet2net'', splet2net),
     (''splet2file'', splet2file), (''spill2file'', spill2file),
     (''spid2file'', spid2file), (''spif2file'', spif2file), (''spif2net'', spif2net),
     (''spbs2net'', spbs2net), (''spbs2file'', spbs2file), (''file2check'', file2check),
     (''file2mem'', file2mem), (''file2disk'', file2disk), (''in2mem'', in2mem),
     (''in2memfork'', in2memfork), (''mem2net'', mem2net), (''mem2file'', mem2file),
     (''mem2sfxc'', mem2sfxc), (''file2net'', file2net), (''net2mem'', net2mem),
     (''mem2time'', mem2time), (''vbs2net'', vbs2net), (''net2vbs'', net2vbs),
     (''vbsrecord'', vbsrecord), (''mem2vbs'', mem2vbs), (''tvr'', tvr),
     (''compute_trackmask'', compute_trackmask), (''condition'', condition),
     (''bankswitch'', bankswitch), (''mounting'', mounting), (''stream2sfxc'', stream2sfxc)]"

definition string2transfermode :: "string \<Rightarrow> transfer_type" where
  "string2transfermode s =
     (case find (\<lambda>p. fst p = s) s2tt of Some p \<Rightarrow> snd p | None \<Rightarrow> no_transfer)"

fun transfer_name :: "transfer_type \<Rightarrow> string" where
  "transfer_name no_transfer = ''no_transfer''"
| "transfer_name disk2net = ''disk2net''"
| "transfer_name disk2etransfer = ''disk2etransfer''"
| "transfer_name fill2net = ''fill2net''"
| "transfer_name fill2file = ''fill2file''"
| "transfer_name fill2out = ''fill2out''"
| "transfer_name fill2vbs = ''fill2vbs''"
| "transfer_name fill2disk = ''fill2disk''"
| "transfer_name spill2net = ''spill2net''"
| "transfer_name splet2net = ''splet2net''"
| "transfer_name splet2file = ''splet2file''"
| "transfer_name spid2net = ''spid2net''"
| "transfer_name spin2net = ''spin2net''"
| "transfer_name spin2file = ''spin2file''"
| "transfer_name spill2file = ''spill2file''"
| "transfer_name spif2file = ''spif2file''"
| "transfer_name spif2net = ''spif2net''"
| "transfer_name spid2file = ''spid2file''"
| "transfer_name spbs2net = ''spbs2net''"
| "transfer_name spbs2file = ''spbs2file''"
| "transfer_name disk2out = ''disk2out''"
| "transfer_name disk2file = ''disk2file''"
| "transfer_name net2out = ''net2out''"
| "transfer_name net2disk = ''net2disk''"
| "transfer_name net2fork = ''net2fork''"
| "transfer_name net2file = ''net2file''"
| "transfer_name net2check = ''net2check''"
| "transfer_name net2sfxc = ''net2sfxc''"
| "transfer_name net2sfxcfork = ''net2sfxcfork''"
| "transfer_name in2net = ''in2net''"
| "transfer_name in2disk = ''in2disk''"
| "transfer_name in2fork = ''in2fork''"
| "transfer_name in2file = ''in2file''"
| "transfer_name file2check = ''file2check''"
| "transfer_name file2mem = ''file2mem''"
| "transfer_name file2net = ''file2net''"
| "transfer_name file2disk = ''file2disk''"
| "transfer_name in2mem = ''in2mem''"
| "transfer_name in2memfork = ''in2memfork''"
| "transfer_name mem2net = ''mem2net''"
| "transfer_name mem2file = ''mem2file''"
| "transfer_name mem2sfxc = ''mem2sfxc''"
| "transfer_name net2mem = ''net2mem''"
| "transfer_name mem2time = ''mem2time''"
| "transfer_name vbs2net = ''vbs2net''"
| "transfer_name net2vbs = ''net2vbs''"
| "transfer_name vbsrecord = ''vbsrecord''"
| "transfer_name mem2vbs = ''mem2vbs''"
| "transfer_name tvr = ''tvr''"
| "transfer_name compute_trackmask = ''compute_trackmask''"
| "transfer_name condition = ''condition''"
| "transfer_name bankswitch = ''bankswitch''"
| "transfer_name mounting = ''mounting''"
| "transfer_name stream2sfxc = ''stream2sfxc''"

subsection \<open>Submode flags\<close>

text \<open>The enumerators carry explicit values, by which the flag map is keyed and ordered.\<close>

datatype submode_flag = pause_flag | run_flag | wait_flag | connected_flag | broken_flag

fun submode_value :: "submode_flag \<Rightarrow> nat" where
  "submode_value pause_flag = 56"
| "submode_value run_flag = 109"
| "submode_value wait_flag = 42"
| "submode_value connected_flag = 271"
| "submode_value broken_flag = 666"

datatype tm_error = Tm_Exception string

type_synonym flagmap = "(nat \<times> 32 word \<times> string) list"

text \<open>\<open>std::map::insert\<close>: keys ascend; an existing key makes the insertion fail.\<close>

fun flag_insert :: "nat \<times> 32 word \<times> string \<Rightarrow> flagmap \<Rightarrow> flagmap option" where
  "flag_insert e [] = Some [e]"
| "flag_insert e (f # fs) =
     (if fst e < fst f then Some (e # f # fs)
      else if fst e = fst f then None
      else map_option ((#) f) (flag_insert e fs))"

definition flag_insert_or :: "string \<Rightarrow> submode_flag \<Rightarrow> 32 word \<Rightarrow> string \<Rightarrow> tm_error + flagmap
    \<Rightarrow> tm_error + flagmap" where
  "flag_insert_or msg f w nm r =
     (case r of Inl e \<Rightarrow> Inl e
      | Inr m \<Rightarrow> (case flag_insert (submode_value f, w, nm) m of
                   None \<Rightarrow> Inl (Tm_Exception msg) | Some m' \<Rightarrow> Inr m'))"

definition init_flagmap :: "tm_error + flagmap" where
  "init_flagmap =
     flag_insert_or ''Failed to insert broken_flag'' broken_flag 0x10 ''BROKEN''
     (flag_insert_or ''Failed to insert connected_flag'' connected_flag 0x8 ''CONNECTED''
     (flag_insert_or ''Failed to insert wait_flag'' wait_flag 0x4 ''WAIT''
     (flag_insert_or ''Failed to insert run_flag'' run_flag 0x2 ''RUN''
     (flag_insert_or ''Failed to insert pause_flag'' pause_flag 0x1 ''PAUSE'' (Inr [])))))"

definition get_flagmap :: flagmap where
  "get_flagmap = (case init_flagmap of Inr m \<Rightarrow> m | Inl _ \<Rightarrow> [])"

record transfer_submode = flgs :: "32 word"

definition submode_empty :: transfer_submode where
  "submode_empty = \<lparr>flgs = 0\<rparr>"

definition find_flag :: "submode_flag \<Rightarrow> (32 word \<times> string) option" where
  "find_flag f = map_of get_flagmap (submode_value f)"

definition submode_set :: "transfer_submode \<Rightarrow> submode_flag \<Rightarrow> tm_error + transfer_submode" where
  "submode_set t f =
     (case find_flag f of None \<Rightarrow> Inl (Tm_Exception ''Unknown submode flag'')
      | Some (w, _) \<Rightarrow> Inr (t\<lparr>flgs := flgs t OR w\<rparr>))"

definition submode_clr :: "transfer_submode \<Rightarrow> submode_flag \<Rightarrow> tm_error + transfer_submode" where
  "submode_clr t f =
     (case find_flag f of None \<Rightarrow> Inl (Tm_Exception ''Unknown submode flag'')
      | Some (w, _) \<Rightarrow> Inr (t\<lparr>flgs := flgs t AND NOT w\<rparr>))"

definition submode_clr_all :: "transfer_submode \<Rightarrow> transfer_submode" where
  "submode_clr_all t = t\<lparr>flgs := 0\<rparr>"

definition submode_test :: "transfer_submode \<Rightarrow> submode_flag \<Rightarrow> tm_error + bool" where
  "submode_test t f =
     (case find_flag f of None \<Rightarrow> Inl (Tm_Exception ''Unknown submode flag'')
      | Some (w, _) \<Rightarrow> Inr (flgs t AND w = w))"

definition submode_or :: "transfer_submode \<Rightarrow> submode_flag \<Rightarrow> tm_error + transfer_submode" where
  "submode_or t f = submode_set t f"

definition submode_print :: "transfer_submode \<Rightarrow> string" where
  "submode_print t = ''<'' @ concat (map (\<lambda>(k, w, nm). if flgs t AND w = w then nm @ '','' else [])
     get_flagmap) @ ''>''"

subsection \<open>Laws of the flags\<close>

lemma get_flagmap_value:
  "get_flagmap = [(42, 0x4, ''WAIT''), (56, 0x1, ''PAUSE''), (109, 0x2, ''RUN''),
     (271, 0x8, ''CONNECTED''), (666, 0x10, ''BROKEN'')]"
  by (simp add: get_flagmap_def init_flagmap_def flag_insert_or_def)

fun flag_bit :: "submode_flag \<Rightarrow> nat" where
  "flag_bit pause_flag = 0"
| "flag_bit run_flag = 1"
| "flag_bit wait_flag = 2"
| "flag_bit connected_flag = 3"
| "flag_bit broken_flag = 4"

lemma flag_bit_inj: "flag_bit f = flag_bit g \<longleftrightarrow> f = g"
  by (cases f; cases g) simp_all

lemma find_flag_bit: "\<exists>nm. find_flag f = Some (2 ^ flag_bit f, nm)"
  by (cases f) (simp_all add: find_flag_def get_flagmap_value)

lemma and_exp_bit: "(w AND 2 ^ n = 2 ^ n) \<longleftrightarrow> bit w n"
  if "n < LENGTH('a)" for w :: "'a::len word"
proof
  assume "w AND 2 ^ n = 2 ^ n"
  then have "bit (w AND 2 ^ n) n = bit ((2 :: 'a word) ^ n) n" by simp
  with that show "bit w n" by (simp add: bit_simps)
next
  assume "bit w n"
  then show "w AND 2 ^ n = 2 ^ n"
    by (intro bit_word_eqI) (auto simp: bit_simps)
qed

lemma flag_bit_small: "flag_bit f < 32"
  by (cases f) simp_all

lemma submode_test_lemma: "submode_test t f = Inr (bit (flgs t) (flag_bit f))"
proof -
  obtain nm where "find_flag f = Some (2 ^ flag_bit f, nm)" using find_flag_bit by blast
  then show ?thesis using flag_bit_small [of f] by (simp add: submode_test_def and_exp_bit)
qed

lemma submode_set_lemma:
  "\<exists>t'. submode_set t f = Inr t' \<and> (\<forall>g. bit (flgs t') (flag_bit g) \<longleftrightarrow> g = f \<or> bit (flgs t) (flag_bit g))"
proof -
  obtain nm where "find_flag f = Some (2 ^ flag_bit f, nm)" using find_flag_bit by blast
  then show ?thesis using flag_bit_small
    by (auto simp: submode_set_def bit_simps flag_bit_inj)
qed

lemma submode_clr_lemma:
  "\<exists>t'. submode_clr t f = Inr t' \<and> (\<forall>g. bit (flgs t') (flag_bit g) \<longleftrightarrow> g \<noteq> f \<and> bit (flgs t) (flag_bit g))"
proof -
  obtain nm where "find_flag f = Some (2 ^ flag_bit f, nm)" using find_flag_bit by blast
  then show ?thesis using flag_bit_small
    by (auto simp: submode_clr_def bit_simps flag_bit_inj)
qed

subsection \<open>A history of flag operations\<close>

datatype submode_op = Set_Flag submode_flag | Clr_Flag submode_flag | Clr_All

fun submode_apply :: "transfer_submode \<Rightarrow> submode_op list \<Rightarrow> tm_error + transfer_submode" where
  "submode_apply t [] = Inr t"
| "submode_apply t (Set_Flag f # ops) =
     (case submode_set t f of Inl e \<Rightarrow> Inl e | Inr t' \<Rightarrow> submode_apply t' ops)"
| "submode_apply t (Clr_Flag f # ops) =
     (case submode_clr t f of Inl e \<Rightarrow> Inl e | Inr t' \<Rightarrow> submode_apply t' ops)"
| "submode_apply t (Clr_All # ops) = submode_apply (submode_clr_all t) ops"

text \<open>The last operation that concerns a flag decides.\<close>

definition touches :: "submode_flag \<Rightarrow> submode_op \<Rightarrow> bool" where
  "touches f op \<longleftrightarrow> op = Set_Flag f \<or> op = Clr_Flag f \<or> op = Clr_All"

definition last_says :: "submode_flag \<Rightarrow> submode_op list \<Rightarrow> bool \<Rightarrow> bool" where
  "last_says f ops before =
     (case filter (touches f) ops of [] \<Rightarrow> before | os \<Rightarrow> last os = Set_Flag f)"

lemma last_says_Cons: "last_says f (op # ops) b =
    last_says f ops (if touches f op then op = Set_Flag f else b)"
  by (auto simp: last_says_def split: list.splits)

text \<open>Any sequence of setting and clearing submode flags succeeds, and afterwards a flag tests as
  set exactly when the last operation that touched it was setting it (or it was set before and
  nothing touched it): the flags do not interfere with each other.\<close>
theorem submode_flags_independent:
  "\<exists>t'. submode_apply t ops = Inr t' \<and> (\<forall>f. \<exists>b. submode_test t f = Inr b
     \<and> submode_test t' f = Inr (last_says f ops b))"
proof -
  have "\<exists>t'. submode_apply t ops = Inr t' \<and>
      (\<forall>f. bit (flgs t') (flag_bit f) \<longleftrightarrow> last_says f ops (bit (flgs t) (flag_bit f)))"
  proof (induction ops arbitrary: t)
    case Nil
    then show ?case by (simp add: last_says_def)
  next
    case (Cons op ops)
    show ?case
    proof (cases op)
      case (Set_Flag f)
      obtain t1 where t1: "submode_set t f = Inr t1"
        "\<And>g. bit (flgs t1) (flag_bit g) \<longleftrightarrow> g = f \<or> bit (flgs t) (flag_bit g)"
        using submode_set_lemma [of t f] by auto
      with Cons.IH [of t1] Set_Flag show ?thesis
        by (auto simp: last_says_Cons touches_def)
    next
      case (Clr_Flag f)
      obtain t1 where t1: "submode_clr t f = Inr t1"
        "\<And>g. bit (flgs t1) (flag_bit g) \<longleftrightarrow> g \<noteq> f \<and> bit (flgs t) (flag_bit g)"
        using submode_clr_lemma [of t f] by auto
      with Cons.IH [of t1] Clr_Flag show ?thesis
        by (auto simp: last_says_Cons touches_def)
    next
      case Clr_All
      with Cons.IH [of "submode_clr_all t"] show ?thesis
        by (simp add: last_says_Cons touches_def submode_clr_all_def)
    qed
  qed
  then show ?thesis by (auto simp: submode_test_lemma)
qed

subsection \<open>Text and classification\<close>

lemma string2transfermode_name: "string2transfermode (transfer_name tt) = tt"
  by (cases tt) (simp_all add: string2transfermode_def s2tt_def)


lemma s2tt_names: "list_all (\<lambda>p. transfer_name (snd p) = fst p \<and> snd p \<noteq> no_transfer) s2tt"
  unfolding s2tt_def by (simp only: list.pred_inject transfer_name.simps fst_conv snd_conv
      transfer_type.distinct simp_thms)

text \<open>The name printed for a transfer mode is read back as that mode, and any text that is read as
  a mode other than \<open>no_transfer\<close> is that mode's name: text and modes correspond one to one.\<close>
theorem transfer_name_roundtrip:
  "string2transfermode (transfer_name tt) = tt
   \<and> (string2transfermode s \<noteq> no_transfer \<longrightarrow> transfer_name (string2transfermode s) = s)"
proof -
  have "transfer_name (snd p) = fst p" if "find (\<lambda>p. fst p = s) s2tt = Some p" for p
  proof -
    from that have "p \<in> set s2tt" by (auto simp: find_Some_iff)
    with s2tt_names show ?thesis by (auto simp: list_all_iff)
  qed
  moreover have "fst p = s" if "find (\<lambda>p. fst p = s) s2tt = Some p" for p
    using that by (auto simp: find_Some_iff)
  ultimately show ?thesis
    using string2transfermode_name by (auto simp: string2transfermode_def split: option.splits)
qed

lemma transfer_name_roundtrip_witness:
  "string2transfermode ''net2vbs'' = net2vbs \<and> transfer_name (string2transfermode ''in2fork'') = ''in2fork''"
proof -
  have v: "string2transfermode ''in2fork'' = in2fork"
    using string2transfermode_name [of in2fork] by simp
  show ?thesis
    using transfer_name_roundtrip [of net2vbs "''in2fork''"] v by simp
qed

text \<open>
  The part of a name before and after the digit 2, for the names of that form.
\<close>

definition name_from :: "transfer_type \<Rightarrow> string" where
  "name_from tt = takeWhile (\<lambda>c. c \<noteq> CHR ''2'') (transfer_name tt)"

definition name_to :: "transfer_type \<Rightarrow> string" where
  "name_to tt = tl (dropWhile (\<lambda>c. c \<noteq> CHR ''2'') (transfer_name tt))"

definition class_agrees :: "transfer_type \<Rightarrow> bool" where
  "class_agrees tt \<longleftrightarrow>
     (name_from tt = ''disk'' \<longrightarrow> fromdisk tt) \<and> (name_from tt = ''file'' \<longrightarrow> fromfile tt)
   \<and> (name_from tt = ''net'' \<longrightarrow> fromnet tt) \<and> (name_from tt = ''in'' \<longrightarrow> fromio tt)
   \<and> (name_from tt = ''fill'' \<longrightarrow> fromfill tt) \<and> (name_from tt = ''vbs'' \<longrightarrow> fromvbs tt)
   \<and> (name_to tt = ''net'' \<longrightarrow> tonet tt) \<and> (name_to tt = ''file'' \<longrightarrow> tofile tt)
   \<and> (name_to tt = ''disk'' \<longrightarrow> todisk tt) \<and> (name_to tt = ''out'' \<longrightarrow> toio tt)
   \<and> (name_to tt = ''mem'' \<longrightarrow> toqueue tt) \<and> (name_to tt = ''vbs'' \<longrightarrow> tovbs tt)"

lemmas transfer_classes = fromfile_def tofile_def fromnet_def tonet_def fromio_def toio_def
  fromdisk_def todisk_def fromfill_def toqueue_def isfork_def fromvbs_def tovbs_def
  diskunavail_def streamstorbusy_def

text \<open>Every transfer whose name says it reads from disk, file, net, input, fill or VBS, or writes to
  net, file, disk, output, memory or VBS, is classified so by the predicates; and the only mode
  that records to the StreamStor disks without being a disk destination is \<open>in2fork\<close>, unlike the
  two other modes that fork to disk.\<close>
theorem transfer_classes_agree:
  "class_agrees tt \<and> \<not> todisk in2fork \<and> todisk net2fork \<and> todisk in2memfork
   \<and> (isfork tt \<longrightarrow> streamstorbusy tt \<or> tt = net2sfxcfork)"
  by (cases tt) (simp_all add: class_agrees_def name_from_def name_to_def transfer_classes)

lemma transfer_classes_agree_witness: "streamstorbusy in2fork \<or> in2fork = net2sfxcfork"
  using transfer_classes_agree [of in2fork] by (simp add: isfork_def)

end
