(* ===== verification/NetParms.thy ===== *)
theory NetParms
  imports JPrelude "HOL-Library.Sublist"
begin

text \<open>
  Network parameters, from \<open>src/src/netparms.h\<close> and \<open>src/src/netparms.cc\<close>: protocol, MTU,
  block size, the acknowledgement period, inter-packet delays and the list of host, port and
  suffix entries with the stream-to-suffix map derived from it.
\<close>

subsection \<open>Strings\<close>

text \<open>\<open>s.find(p) != npos\<close>\<close>

fun str_contains :: "string \<Rightarrow> string \<Rightarrow> bool" where
  "str_contains p [] = (p = [])"
| "str_contains p (c # cs) = (prefix p (c # cs) \<or> str_contains p cs)"

lemma str_contains_sublist: "str_contains p s \<longleftrightarrow> sublist p s"
  by (induction s) (auto simp: sublist_Cons_right)

subsection \<open>State\<close>

record hps_type =
  hps_host :: string
  hps_port :: nat
  hps_suffix :: string

type_synonym suffixmap = "nat \<rightharpoonup> string"

record netparms =
  np_rcvbufsize :: int
  np_sndbufsize :: int
  np_interpacketdelay_ns :: int
  np_theoretical_ipd_ns :: int
  np_ackPeriod :: int
  np_nblock :: nat
  np_protocol :: string
  np_mtu :: nat
  np_blocksize :: nat
  np_hps :: "hps_type list"
  np_n_non_empty_suffixes :: nat
  np_suffixmap :: suffixmap

definition defProtocol :: string where "defProtocol = ''tcp''"
definition defIPD :: int where "defIPD = 0"
definition defACK :: int where "defACK = 10"
definition defPort :: nat where "defPort = 2630"
definition defMTU :: nat where "defMTU = 1500"
definition defNBlock :: nat where "defNBlock = 8"
definition defBlockSize :: nat where "defBlockSize = 128 * 1024"
definition defSockbuf :: int where "defSockbuf = 4 * 1024 * 1024"

definition hps_default :: hps_type where
  "hps_default = \<lparr>hps_host = [], hps_port = defPort, hps_suffix = []\<rparr>"

definition defHPS :: "hps_type list" where "defHPS = [hps_default]"

datatype np_error = Out_Of_Range | Runtime_Error

subsection \<open>Operations\<close>

text \<open>\<open>analyzeSuffixes\<close>: the stream numbers count up, so no insertion can collide.\<close>

fun analyze_loop :: "hps_type list \<Rightarrow> nat \<Rightarrow> suffixmap \<Rightarrow> string set \<Rightarrow>
    np_error + suffixmap \<times> string set" where
  "analyze_loop [] sid m ne = Inr (m, ne)"
| "analyze_loop (p # ps) sid m ne =
     (if m sid \<noteq> None then Inl Runtime_Error
      else analyze_loop ps (sid + 1) (m(sid \<mapsto> hps_suffix p))
             (if hps_suffix p \<noteq> [] then insert (hps_suffix p) ne else ne))"

definition analyzeSuffixes :: "netparms \<Rightarrow> np_error + netparms" where
  "analyzeSuffixes np =
     (case analyze_loop (np_hps np) 0 (\<lambda>_. None) {} of
        Inl e \<Rightarrow> Inl e
      | Inr (m, ne) \<Rightarrow> Inr (np\<lparr>np_suffixmap := m, np_n_non_empty_suffixes := card ne\<rparr>))"

definition netparms_new :: "np_error + netparms" where
  "netparms_new = analyzeSuffixes
     \<lparr>np_rcvbufsize = defSockbuf, np_sndbufsize = defSockbuf, np_interpacketdelay_ns = defIPD,
      np_theoretical_ipd_ns = defIPD, np_ackPeriod = defACK, np_nblock = defNBlock,
      np_protocol = defProtocol, np_mtu = defMTU, np_blocksize = defBlockSize,
      np_hps = defHPS, np_n_non_empty_suffixes = 0, np_suffixmap = (\<lambda>_. None)\<rparr>"

definition set_protocol :: "netparms \<Rightarrow> string \<Rightarrow> netparms" where
  "set_protocol np p =
     (let p1 = (if p = ''udp'' then ''udps'' else p);
          p2 = (if p1 = ''pudp'' then ''udp'' else p1);
          p3 = (if p2 = [] then defProtocol else p2)
      in np\<lparr>np_protocol := p3\<rparr>)"

definition set_mtu :: "netparms \<Rightarrow> nat \<Rightarrow> netparms" where
  "set_mtu np m = np\<lparr>np_mtu := (if m = 0 then defMTU else m)\<rparr>"

definition set_blocksize :: "netparms \<Rightarrow> nat \<Rightarrow> netparms" where
  "set_blocksize np bs = np\<lparr>np_blocksize := (if bs = 0 then defBlockSize else bs)\<rparr>"

definition set_ack :: "netparms \<Rightarrow> int \<Rightarrow> netparms" where
  "set_ack np ack = np\<lparr>np_ackPeriod := (if ack = 0 then defACK else ack)\<rparr>"

definition set_host :: "netparms \<Rightarrow> string \<Rightarrow> netparms" where
  "set_host np h = np\<lparr>np_hps := (np_hps np)[0 := (np_hps np ! 0)\<lparr>hps_host := h\<rparr>]\<rparr>"

definition set_hps :: "netparms \<Rightarrow> hps_type list \<Rightarrow> np_error + netparms" where
  "set_hps np hps = analyzeSuffixes (np\<lparr>np_hps := (if hps = [] then defHPS else hps)\<rparr>)"

definition np_rotate :: "netparms \<Rightarrow> netparms" where
  "np_rotate np = np\<lparr>np_hps := tl (np_hps np) @ [hd (np_hps np)]\<rparr>"

definition get_port :: "netparms \<Rightarrow> nat \<Rightarrow> np_error + nat" where
  "get_port np n = (if n < length (np_hps np) then Inr (hps_port (np_hps np ! n)) else Inl Out_Of_Range)"

definition get_host :: "netparms \<Rightarrow> nat \<Rightarrow> np_error + string" where
  "get_host np n = (if n < length (np_hps np) then Inr (hps_host (np_hps np ! n)) else Inl Out_Of_Range)"

definition n_port :: "netparms \<Rightarrow> nat" where
  "n_port np = length (np_hps np)"

definition stream2suffix :: "netparms \<Rightarrow> nat \<Rightarrow> np_error + string" where
  "stream2suffix np sid = (case np_suffixmap np sid of None \<Rightarrow> Inl Runtime_Error | Some s \<Rightarrow> Inr s)"

text \<open>The payload that fits in one datagram: an IP header, then TCP, UDP or UDPs headers.\<close>

definition header_size :: "string \<Rightarrow> nat" where
  "header_size protocol =
     20 + (if str_contains ''tcp'' protocol then 6 * 4
           else if str_contains ''udp'' protocol
           then 4 * 2 + (if str_contains ''udps'' protocol then 8 else 0)
           else 0)"

definition get_max_payload :: "netparms \<Rightarrow> nat" where
  "get_max_payload np = u32_sub (np_mtu np) (header_size (np_protocol np))"

text \<open>Division of \<open>int\<close> in C++ truncates towards zero.\<close>

definition c_div :: "int \<Rightarrow> int \<Rightarrow> int" where
  "c_div a b = sgn a * sgn b * (\<bar>a\<bar> div \<bar>b\<bar>)"

definition ipd_ns :: "netparms \<Rightarrow> int" where
  "ipd_ns np = (if np_interpacketdelay_ns np < 0 then np_theoretical_ipd_ns np
                else np_interpacketdelay_ns np)"

definition ipd_us :: "netparms \<Rightarrow> int" where
  "ipd_us np = c_div (ipd_ns np) 1000"

definition ipd_set_us :: "netparms \<Rightarrow> int" where
  "ipd_set_us np = c_div (np_interpacketdelay_ns np) 1000"

definition ipd_set_ns :: "netparms \<Rightarrow> int" where
  "ipd_set_ns np = np_interpacketdelay_ns np"

definition theoretical_ipd_us :: "netparms \<Rightarrow> int" where
  "theoretical_ipd_us np = c_div (np_theoretical_ipd_ns np) 1000"

definition theoretical_ipd_ns :: "netparms \<Rightarrow> int" where
  "theoretical_ipd_ns np = np_theoretical_ipd_ns np"

subsection \<open>The derived suffix map\<close>

definition suffixes_ok :: "netparms \<Rightarrow> hps_type list \<Rightarrow> bool" where
  "suffixes_ok np hps \<longleftrightarrow>
     np_suffixmap np = (\<lambda>i. if i < length hps then Some (hps_suffix (hps ! i)) else None)
     \<and> np_n_non_empty_suffixes np = card (hps_suffix ` set hps - {[]})"

lemma analyze_loop_lemma:
  "(\<And>i. sid \<le> i \<Longrightarrow> m i = None) \<Longrightarrow>
   analyze_loop ps sid m ne = Inr
     (\<lambda>i. if sid \<le> i \<and> i < sid + length ps then Some (hps_suffix (ps ! (i - sid))) else m i,
      ne \<union> (hps_suffix ` set ps - {[]}))"
proof (induction ps arbitrary: sid m ne)
  case Nil
  then show ?case by auto
next
  case (Cons p ps)
  let ?m = "m(sid \<mapsto> hps_suffix p)"
  have "analyze_loop ps (sid + 1) ?m ne' = Inr
      (\<lambda>i. if sid + 1 \<le> i \<and> i < sid + 1 + length ps then Some (hps_suffix (ps ! (i - (sid + 1))))
        else ?m i, ne' \<union> (hps_suffix ` set ps - {[]}))" for ne'
    by (rule Cons.IH) (use Cons.prems in auto)
  moreover have "(\<lambda>i. if sid + 1 \<le> i \<and> i < sid + 1 + length ps
      then Some (hps_suffix (ps ! (i - (sid + 1)))) else ?m i)
    = (\<lambda>i. if sid \<le> i \<and> i < sid + length (p # ps) then Some (hps_suffix ((p # ps) ! (i - sid))) else m i)"
  proof (rule ext, goal_cases)
    case (1 i)
    show ?case
    proof (cases "sid < i")
      case True
      then obtain k where "i = Suc (sid + k)" by (rule less_natE)
      then show ?thesis by simp
    next
      case False
      then show ?thesis by auto
    qed
  qed
  ultimately show ?case using Cons.prems [of sid] by auto
qed

lemma analyzeSuffixes_lemma:
  "\<exists>np'. analyzeSuffixes np = Inr np' \<and> suffixes_ok np' (np_hps np) \<and> np_hps np' = np_hps np"
  using analyze_loop_lemma [of 0 "\<lambda>_. None" "np_hps np" "{}"]
  by (simp add: analyzeSuffixes_def suffixes_ok_def fun_eq_iff)

lemma netparms_new_ok: "\<exists>np. netparms_new = Inr np"
  unfolding netparms_new_def using analyzeSuffixes_lemma by blast

subsection \<open>Properties\<close>

text \<open>Setting the list of host, port and suffix entries never fails; an empty list selects the
  default entry, so there is always at least one; and afterwards the suffix of every stream is
  that of its entry, the suffix of any other stream is an error, and the number of non-empty
  suffixes counts the different ones.\<close>
theorem set_hps_suffixes:
  "\<exists>np'. set_hps np hps = Inr np' \<and> np_hps np' = (if hps = [] then defHPS else hps)
    \<and> 0 < n_port np'
    \<and> np_n_non_empty_suffixes np' = card {s. s \<noteq> [] \<and> (\<exists>e\<in>set (np_hps np'). hps_suffix e = s)}
    \<and> (\<forall>i. stream2suffix np' i =
          (if i < n_port np' then Inr (hps_suffix (np_hps np' ! i)) else Inl Runtime_Error))"
proof -
  let ?hps = "if hps = [] then defHPS else hps"
  obtain np' where np': "set_hps np hps = Inr np'" "suffixes_ok np' ?hps" "np_hps np' = ?hps"
    using analyzeSuffixes_lemma [of "np\<lparr>np_hps := ?hps\<rparr>"] by (auto simp: set_hps_def)
  have "hps_suffix ` set ?hps - {[]} = {s. s \<noteq> [] \<and> (\<exists>e\<in>set ?hps. hps_suffix e = s)}" by auto
  moreover have "0 < length ?hps" by (simp add: defHPS_def)
  ultimately show ?thesis using np' by (auto simp: suffixes_ok_def stream2suffix_def n_port_def)
qed

lemma set_hps_suffixes_witness:
  "\<exists>np np'. netparms_new = Inr np
    \<and> set_hps np [\<lparr>hps_host = ''a'', hps_port = 1, hps_suffix = ''x''\<rparr>] = Inr np'
    \<and> stream2suffix np' 0 = Inr ''x'' \<and> stream2suffix np' 1 = Inl Runtime_Error"
proof -
  obtain np where "netparms_new = Inr np" using netparms_new_ok by blast
  moreover obtain np' where
    "set_hps np [\<lparr>hps_host = ''a'', hps_port = 1, hps_suffix = ''x''\<rparr>] = Inr np'"
    "np_hps np' = [\<lparr>hps_host = ''a'', hps_port = 1, hps_suffix = ''x''\<rparr>]"
    "\<forall>i. stream2suffix np' i =
          (if i < n_port np' then Inr (hps_suffix (np_hps np' ! i)) else Inl Runtime_Error)"
    using set_hps_suffixes [of np "[\<lparr>hps_host = ''a'', hps_port = 1, hps_suffix = ''x''\<rparr>]"] by auto
  ultimately show ?thesis by (intro exI [of _ np] exI [of _ np']) (simp add: n_port_def)
qed

text \<open>Rotation walks cyclically through the entries.\<close>

lemma np_rotate_rotate1: "np_hps np \<noteq> [] \<Longrightarrow> np_hps (np_rotate np) = rotate1 (np_hps np)"
  by (cases "np_hps np") (simp_all add: np_rotate_def)

lemma np_rotate_pow: "np_hps np \<noteq> [] \<Longrightarrow> np_hps ((np_rotate ^^ k) np) = rotate k (np_hps np)"
  by (induction k) (simp_all add: np_rotate_rotate1)

text \<open>Rotating the host list \<open>k\<close> times makes entry \<open>i\<close> the old entry \<open>(i + k) mod n\<close>; after as many
  rotations as there are entries the list is back, and in between every entry has been first
  once.\<close>
theorem rotate_cycles:
  assumes "np_hps np \<noteq> []" "i < n_port np"
  shows "get_host ((np_rotate ^^ k) np) i = get_host np ((k + i) mod n_port np)
    \<and> np_hps ((np_rotate ^^ n_port np) np) = np_hps np"
  using assms by (auto simp: get_host_def n_port_def np_rotate_pow nth_rotate)

lemma rotate_cycles_witness:
  "\<exists>np. netparms_new = Inr np \<and> get_host (np_rotate (np\<lparr>np_hps :=
     [hps_default\<lparr>hps_host := ''a''\<rparr>, hps_default\<lparr>hps_host := ''b''\<rparr>]\<rparr>)) 1 = Inr ''a''"
proof -
  obtain np where "netparms_new = Inr np" using netparms_new_ok by blast
  with rotate_cycles [of "np\<lparr>np_hps := [hps_default\<lparr>hps_host := ''a''\<rparr>,
      hps_default\<lparr>hps_host := ''b''\<rparr>]\<rparr>" 1 1]
  show ?thesis by (intro exI [of _ np]) (simp add: n_port_def get_host_def)
qed

lemma set_protocol_header:
  "header_size (np_protocol (set_protocol np p)) =
    (if p = ''udp'' then 36 else if p = ''pudp'' then 28 else if p = [] then 44 else header_size p)"
  by (simp add: set_protocol_def header_size_def defProtocol_def)

text \<open>The datagram payload: whatever protocol and MTU are set, an IP header and the protocol's own
  are subtracted (the name \<open>udp\<close> means UDP with sequence numbers, \<open>pudp\<close> plain UDP, no name TCP),
  and payload plus headers fill the MTU exactly when the MTU holds the headers.\<close>
theorem max_payload_fills_mtu:
  assumes "header_size (np_protocol (set_protocol np p)) \<le> m" "m < 2 ^ 32"
  shows "get_max_payload (set_mtu (set_protocol np p) m)
      + (if p = ''udp'' then 36 else if p = ''pudp'' then 28 else if p = [] then 44 else header_size p) = m"
proof -
  have "0 < header_size (np_protocol (set_protocol np p))" by (simp add: header_size_def)
  then have "np_mtu (set_mtu (set_protocol np p) m) = m"
    using assms(1) by (simp add: set_mtu_def)
  moreover have "np_protocol (set_mtu (set_protocol np p) m) = np_protocol (set_protocol np p)"
    by (simp add: set_mtu_def)
  ultimately show ?thesis
    using assms unfolding set_protocol_header [of np p, symmetric]
    by (simp add: get_max_payload_def u64_sub_exact u32_sub_exact)
qed

lemma max_payload_fills_mtu_witness:
  "\<exists>np. netparms_new = Inr np \<and> get_max_payload (set_mtu (set_protocol np ''udp'') 9000) = 8964"
proof -
  obtain np where "netparms_new = Inr np" using netparms_new_ok by blast
  moreover have "header_size (np_protocol (set_protocol np ''udp'')) = 36"
    by (simp add: set_protocol_header)
  ultimately show ?thesis
    using max_payload_fills_mtu [of np "''udp''" 9000] by (intro exI [of _ np]) simp
qed

end
