(* ===== verification/Formats.thy ===== *)
theory Formats
  imports JPrelude Complex_Main "HOL-Library.Monad_Syntax"
begin

unbundle bit_operations_syntax

text \<open>
  Data formats and the frame layout derived from them, from \<open>src/src/headersearch.h\<close> and
  \<open>src/src/headersearch.cc\<close>: predicates and sizes per format, the header search object with
  its checks, splitting and multiplying headers, and reading a format description. Sizes are
  \<open>unsigned int\<close>; the track bit rate is a rational number. Of the function pointers of the
  object only the choice is modelled.
\<close>

datatype format_type =
    fmt_unknown | fmt_mark4 | fmt_vlba | fmt_mark5b | fmt_mark4_st | fmt_vlba_st
  | fmt_vdif | fmt_vdif_legacy | fmt_vdif_complex | fmt_vdif_legacy_complex | fmt_tvg
  | fmt_mark5b_tvg | fmt_mark5a_tvg | fmt_ss_test_pattern

abbreviation fmt_none :: format_type where "fmt_none \<equiv> fmt_unknown"

definition is_vdif :: "format_type \<Rightarrow> bool" where
  "is_vdif f \<longleftrightarrow> f = fmt_vdif \<or> f = fmt_vdif_legacy \<or> f = fmt_vdif_complex
     \<or> f = fmt_vdif_legacy_complex"

definition is_legacy :: "format_type \<Rightarrow> bool" where
  "is_legacy f \<longleftrightarrow> is_vdif f \<and> (f = fmt_vdif_legacy \<or> f = fmt_vdif_legacy_complex)"

definition is_complex :: "format_type \<Rightarrow> bool" where
  "is_complex f \<longleftrightarrow> is_vdif f \<and> (f = fmt_vdif_complex \<or> f = fmt_vdif_legacy_complex)"

definition is_test_pattern :: "format_type \<Rightarrow> bool" where
  "is_test_pattern f \<longleftrightarrow> f = fmt_mark5a_tvg \<or> f = fmt_ss_test_pattern"

definition is_mark5b :: "format_type \<Rightarrow> bool" where
  "is_mark5b f \<longleftrightarrow> f = fmt_mark5b \<or> f = fmt_mark5b_tvg"

datatype hs_error =
    Invalid_Format_String | Bad_Ntrack | Bad_Ntrack_St | Bad_Vdif_Size | Rate_Overflow
  | Rate_Not_Integer | Zero_Factor | Cannot_Refactor | Vdif_Unsupported | Fan_In | Bad_Rational

subsection \<open>Characters\<close>

definition to_lower :: "char \<Rightarrow> char" where
  "to_lower c = (let n = of_char c :: nat
     in if 65 \<le> n \<and> n \<le> 90 then char_of (n + 32) else c)"

definition str_tolower :: "string \<Rightarrow> string" where
  "str_tolower s = map to_lower s"

definition text2format :: "string \<Rightarrow> hs_error + format_type" where
  "text2format s =
     (let lowercase = str_tolower s
      in if lowercase = ''mark4'' then Inr fmt_mark4
         else if lowercase = ''vlba'' then Inr fmt_vlba
         else if lowercase = ''mark5b'' then Inr fmt_mark5b
         else if lowercase = ''mark4 st'' then Inr fmt_mark4_st
         else if lowercase = ''vlba st'' then Inr fmt_vlba_st
         else if lowercase = ''vdif'' then Inr fmt_vdif
         else if lowercase = ''vdif legacy'' then Inr fmt_vdif_legacy
         else if lowercase = ''vdif complex'' then Inr fmt_vdif_complex
         else if lowercase = ''vdif legacy complex'' then Inr fmt_vdif_legacy_complex
         else Inl Invalid_Format_String)"

fun format_name :: "format_type \<Rightarrow> string" where
  "format_name fmt_mark4 = ''mark4''"
| "format_name fmt_vlba = ''vlba''"
| "format_name fmt_mark4_st = ''st : mark4''"
| "format_name fmt_vlba_st = ''st : vlba''"
| "format_name fmt_mark5b = ''Mark5B''"
| "format_name fmt_vdif = ''VDIF''"
| "format_name fmt_vdif_legacy = ''VDIF (legacy)''"
| "format_name fmt_vdif_complex = ''VDIF (complex)''"
| "format_name fmt_vdif_legacy_complex = ''VDIF (legacy, complex)''"
| "format_name fmt_tvg = ''tvg''"
| "format_name fmt_mark5a_tvg = ''tvg : mark5a''"
| "format_name fmt_mark5b_tvg = ''tvg : mark5b''"
| "format_name fmt_ss_test_pattern = ''SS''"
| "format_name fmt_unknown = ''<unknown>''"

subsection \<open>Sizes\<close>

text \<open>Both switch statements; formats without a case have size 0.\<close>

definition headersize :: "format_type \<Rightarrow> nat \<Rightarrow> nat" where
  "headersize fmt ntrack0 =
     (let (ntrack, trackheadersize) =
        (if fmt = fmt_vdif_legacy \<or> fmt = fmt_vdif_legacy_complex then (1, 16)
         else if fmt = fmt_vdif \<or> fmt = fmt_vdif_complex then (1, 32)
         else if fmt = fmt_mark5b then (1, 16)
         else if fmt = fmt_vlba \<or> fmt = fmt_vlba_st then (ntrack0, 12)
         else if fmt = fmt_mark4 \<or> fmt = fmt_mark4_st then (ntrack0, 20)
         else (ntrack0, 0))
      in if fmt = fmt_mark4_st \<or> fmt = fmt_vlba_st
         then u32_mul (u32_mul ntrack trackheadersize) 9 div 8
         else u32_mul ntrack trackheadersize)"

definition framesize :: "format_type \<Rightarrow> nat \<Rightarrow> nat \<Rightarrow> nat" where
  "framesize fmt ntrack vdifpayloadsize =
     (let hsize = headersize fmt ntrack
      in if fmt = fmt_mark5b then u32_add hsize 10000
         else if fmt = fmt_mark4 then u32_add hsize (u32_mul ntrack 2480)
         else if fmt = fmt_vlba then u32_add hsize (u32_mul ntrack 2508)
         else if fmt = fmt_mark4_st then u32_add hsize (u32_mul (u32_mul ntrack 2480) 9 div 8)
         else if fmt = fmt_vlba_st then u32_add hsize (u32_mul (u32_mul ntrack 2508) 9 div 8)
         else if is_vdif fmt then u32_add hsize vdifpayloadsize
         else 0)"

subsection \<open>The macros of the constructor\<close>

definition st_tracks :: nat where "st_tracks = 32"

definition MK4VLBA :: "format_type \<Rightarrow> bool" where
  "MK4VLBA fmt \<longleftrightarrow> fmt = fmt_mark4 \<or> fmt = fmt_vlba"

definition IS_ST :: "format_type \<Rightarrow> bool" where
  "IS_ST fmt \<longleftrightarrow> fmt = fmt_mark4_st \<or> fmt = fmt_vlba_st"

definition STRIP_ST :: "format_type \<Rightarrow> format_type" where
  "STRIP_ST fmt = (if fmt = fmt_mark4_st then fmt_mark4
     else if fmt = fmt_vlba_st then fmt_vlba else fmt_unknown)"

definition SYNCWORDSIZE :: "format_type \<Rightarrow> nat \<Rightarrow> nat" where
  "SYNCWORDSIZE fmt n = (if fmt = fmt_mark5b then 4 else if MK4VLBA fmt then u32_mul n 4 else 0)"

definition SYNCWORDSIZE_ST :: "format_type \<Rightarrow> nat \<Rightarrow> nat" where
  "SYNCWORDSIZE_ST fmt n =
     (if IS_ST fmt then SYNCWORDSIZE (STRIP_ST fmt) st_tracks * 9 div 8 else SYNCWORDSIZE fmt n)"

definition SYNCWORDOFFSET :: "format_type \<Rightarrow> nat \<Rightarrow> nat" where
  "SYNCWORDOFFSET fmt n = (if fmt = fmt_mark4 then u32_mul 8 n else 0)"

definition SYNCWORDOFFSET_ST :: "format_type \<Rightarrow> nat \<Rightarrow> nat" where
  "SYNCWORDOFFSET_ST fmt n =
     (if IS_ST fmt then SYNCWORDOFFSET (STRIP_ST fmt) st_tracks * 9 div 8
      else SYNCWORDOFFSET fmt n)"

definition PAYLOADSIZE :: "format_type \<Rightarrow> nat \<Rightarrow> nat" where
  "PAYLOADSIZE fmt ntrk =
     (if MK4VLBA fmt then u32_mul 2500 ntrk else if fmt = fmt_mark5b then 10000 else 0)"

definition PAYLOADSIZE_ST :: "format_type \<Rightarrow> nat \<Rightarrow> nat" where
  "PAYLOADSIZE_ST fmt ntrk =
     (if IS_ST fmt then PAYLOADSIZE (STRIP_ST fmt) st_tracks else PAYLOADSIZE fmt ntrk)"

definition PAYLOADSIZE_VDIF :: "format_type \<Rightarrow> nat \<Rightarrow> nat \<Rightarrow> nat" where
  "PAYLOADSIZE_VDIF fmt ntrk frsz = (if is_vdif fmt then frsz else PAYLOADSIZE_ST fmt ntrk)"

definition PAYLOADOFFSET_FOR_VDIF :: "format_type \<Rightarrow> nat" where
  "PAYLOADOFFSET_FOR_VDIF fmt =
     (if fmt = fmt_vdif_legacy \<or> fmt = fmt_vdif_legacy_complex then 16 else 32)"

definition PAYLOADOFFSET :: "format_type \<Rightarrow> nat \<Rightarrow> nat" where
  "PAYLOADOFFSET fmt ntrk =
     (if fmt = fmt_mark4 then 0 else if fmt = fmt_mark5b then 16
      else if fmt = fmt_vlba then u32_mul 12 ntrk else 0)"

definition PAYLOADOFFSET_ST :: "format_type \<Rightarrow> nat \<Rightarrow> nat" where
  "PAYLOADOFFSET_ST fmt ntrk =
     (if IS_ST fmt then PAYLOADOFFSET fmt st_tracks * 9 div 8 else PAYLOADOFFSET fmt ntrk)"

definition PAYLOADOFFSET_VDIF :: "format_type \<Rightarrow> nat \<Rightarrow> nat" where
  "PAYLOADOFFSET_VDIF fmt ntrk =
     (if is_vdif fmt then PAYLOADOFFSET_FOR_VDIF fmt else PAYLOADOFFSET_ST fmt ntrk)"

text \<open>Which function a header decodes, encodes and checks with.\<close>

datatype codec = No_Codec | Mk5b | Vlba | Mk4 | Vlba_St | Mk4_St | Vdif | Vdif2

definition DECODERFN :: "format_type \<Rightarrow> codec" where
  "DECODERFN fmt =
     (if fmt = fmt_mark5b then Mk5b else if fmt = fmt_vlba then Vlba
      else if fmt = fmt_mark4 then Mk4 else if fmt = fmt_vlba_st then Vlba_St
      else if fmt = fmt_mark4_st then Mk4_St else if is_vdif fmt then Vdif else No_Codec)"

definition ENCODERFN :: "format_type \<Rightarrow> int \<Rightarrow> codec" where
  "ENCODERFN fmt period =
     (if fmt = fmt_mark5b then Mk5b else if fmt = fmt_vlba then Vlba
      else if fmt = fmt_mark4 then Mk4 else if fmt = fmt_mark4_st then Mk4_St
      else if is_vdif fmt then (if period = 1 then Vdif else Vdif2) else No_Codec)"

definition CHECKFN :: "format_type \<Rightarrow> codec" where
  "CHECKFN fmt =
     (if fmt = fmt_mark5b then Mk5b else if fmt = fmt_vlba then Vlba
      else if fmt = fmt_mark4 then Mk4 else if fmt = fmt_vlba_st then Vlba_St
      else if fmt = fmt_mark4_st then Mk4_St else if is_vdif fmt then Vdif else No_Codec)"

subsection \<open>The header search object\<close>

record headersearch =
  hs_frameformat :: format_type
  hs_ntrack :: nat
  hs_trackbitrate :: rat
  hs_syncwordsize :: nat
  hs_syncwordoffset :: nat
  hs_headersize :: nat
  hs_framesize :: nat
  hs_payloadsize :: nat
  hs_payloadoffset :: nat
  hs_framerate :: rat
  hs_frametime :: rat
  hs_decoder :: codec
  hs_encoder :: codec
  hs_checker :: codec

definition UNKNOWN_TRACKBITRATE :: rat where
  "UNKNOWN_TRACKBITRATE = 2 ^ 64 - 1"

definition valid_samplerate :: "rat \<Rightarrow> bool" where
  "valid_samplerate x \<longleftrightarrow> \<not> (x = UNKNOWN_TRACKBITRATE \<or> x = 0)"

text \<open>The rate and duration of frames of the decoder state.\<close>

definition state_framerate :: "nat \<Rightarrow> rat \<Rightarrow> nat \<Rightarrow> rat" where
  "state_framerate ntrack trackbitrate payloadsz =
     (if payloadsz \<noteq> 0 \<and> valid_samplerate trackbitrate
      then of_nat ntrack * trackbitrate / of_nat (u32_mul payloadsz 8) else 0)"

definition state_frametime :: "nat \<Rightarrow> rat \<Rightarrow> nat \<Rightarrow> rat" where
  "state_frametime ntrack trackbitrate payloadsz =
     (if ntrack \<noteq> 0 \<and> valid_samplerate trackbitrate
      then of_nat (u32_mul payloadsz 8) / (of_nat ntrack * trackbitrate) else 0)"

definition headersearch_empty :: headersearch where
  "headersearch_empty =
     \<lparr>hs_frameformat = fmt_unknown, hs_ntrack = 0, hs_trackbitrate = 0, hs_syncwordsize = 0,
      hs_syncwordoffset = 0, hs_headersize = 0, hs_framesize = 0, hs_payloadsize = 0,
      hs_payloadoffset = 0, hs_framerate = 0, hs_frametime = 0, hs_decoder = No_Codec,
      hs_encoder = No_Codec, hs_checker = No_Codec\<rparr>"

definition numerator :: "rat \<Rightarrow> int" where "numerator r = fst (quotient_of r)"
definition denominator :: "rat \<Rightarrow> int" where "denominator r = snd (quotient_of r)"

text \<open>\<open>(ntrack & (ntrack-1))==0\<close>\<close>

definition power_of_two :: "nat \<Rightarrow> bool" where
  "power_of_two n \<longleftrightarrow> (word_of_nat n :: 32 word) AND (word_of_nat n - 1) = 0"

definition headersearch_new :: "format_type \<Rightarrow> nat \<Rightarrow> rat \<Rightarrow> nat \<Rightarrow> hs_error + headersearch" where
  "headersearch_new fmt tracks trkbitrate vdifpayloadsize =
     (let payload = PAYLOADSIZE_VDIF fmt tracks vdifpayloadsize;
          framerate = state_framerate tracks trkbitrate payload;
          h = \<lparr>hs_frameformat = fmt, hs_ntrack = tracks, hs_trackbitrate = trkbitrate,
               hs_syncwordsize = SYNCWORDSIZE_ST fmt tracks,
               hs_syncwordoffset = SYNCWORDOFFSET_ST fmt tracks,
               hs_headersize = headersize fmt tracks,
               hs_framesize = framesize fmt tracks vdifpayloadsize,
               hs_payloadsize = payload, hs_payloadoffset = PAYLOADOFFSET_VDIF fmt tracks,
               hs_framerate = framerate,
               hs_frametime = state_frametime tracks trkbitrate payload,
               hs_decoder = DECODERFN fmt, hs_encoder = ENCODERFN fmt (denominator framerate),
               hs_checker = CHECKFN fmt\<rparr>;
          mintrack = (if fmt = fmt_mark5b then 1 else 8);
          ntrack_by_bitrate = (int tracks * numerator trkbitrate) mod 2 ^ 64
      in if (MK4VLBA fmt \<or> fmt = fmt_mark5b)
            \<and> \<not> (tracks \<ge> mintrack \<and> tracks \<le> 64 \<and> power_of_two tracks) then Inl Bad_Ntrack
         else if IS_ST fmt \<and> tracks \<noteq> 32 then Inl Bad_Ntrack_St
         else if is_vdif fmt \<and> payload mod 8 \<noteq> 0 then Inl Bad_Vdif_Size
         else if trkbitrate \<noteq> UNKNOWN_TRACKBITRATE \<and> \<not> ntrack_by_bitrate \<ge> numerator trkbitrate
         then Inl Rate_Overflow
         else if denominator trkbitrate \<noteq> 1 \<and> \<not> is_vdif fmt then Inl Rate_Not_Integer
         else Inr h)"

definition hs_valid :: "headersearch \<Rightarrow> bool" where
  "hs_valid h \<longleftrightarrow> \<not> (hs_frameformat h = fmt_none \<or> hs_framesize h = 0)"

subsection \<open>Splitting and multiplying headers\<close>

text \<open>\<open>(int)factor\<close> of an unsigned factor, and \<open>-1*(int)factor\<close>.\<close>

definition s32 :: "nat \<Rightarrow> int" where
  "s32 n = (if n < 2 ^ 31 then int n else int n - 2 ^ 32)"

definition hs_pieces :: "headersearch \<Rightarrow> nat \<Rightarrow> nat \<Rightarrow> headersearch" where
  "hs_pieces other ntrack payloadsz = headersearch_empty
     \<lparr>hs_frameformat := hs_frameformat other, hs_ntrack := ntrack,
      hs_trackbitrate := hs_trackbitrate other, hs_payloadsize := payloadsz,
      hs_framerate := state_framerate ntrack (hs_trackbitrate other) payloadsz,
      hs_frametime := state_frametime ntrack (hs_trackbitrate other) payloadsz\<rparr>"

definition REFACTOR_ALWAYS :: "nat \<Rightarrow> int \<Rightarrow> nat" where
  "REFACTOR_ALWAYS v factor =
     (if factor < 0 then v div nat \<bar>factor\<bar> else u32_mul v (nat \<bar>factor\<bar>))"

definition REFACTOR_DIVIDE :: "nat \<Rightarrow> int \<Rightarrow> nat" where
  "REFACTOR_DIVIDE v factor = (if factor < 0 then v div nat \<bar>factor\<bar> else v)"

definition hs_refactor :: "headersearch \<Rightarrow> int \<Rightarrow> hs_error + headersearch" where
  "hs_refactor other factor =
     (let h = hs_pieces other (REFACTOR_DIVIDE (hs_ntrack other) factor)
                (REFACTOR_ALWAYS (hs_payloadsize other) factor)
      in if factor \<noteq> 0 \<and> hs_ntrack h > 0 \<and> hs_trackbitrate h > 0 \<and> hs_payloadsize h > 0
         then Inr h else Inl Cannot_Refactor)"

definition hs_divide :: "headersearch \<Rightarrow> nat \<Rightarrow> hs_error + headersearch" where
  "hs_divide h factor = (if factor > 0 then hs_refactor h (- s32 factor) else Inl Zero_Factor)"

definition hs_multiply :: "headersearch \<Rightarrow> nat \<Rightarrow> hs_error + headersearch" where
  "hs_multiply h factor = (if factor > 0 then hs_refactor h (s32 factor) else Inl Zero_Factor)"

text \<open>Division by \<open>complex\<close>: the imaginary part, if any, is the number of tracks per piece.\<close>

definition hs_refactor_complex :: "headersearch \<Rightarrow> nat \<times> nat \<Rightarrow> hs_error + headersearch" where
  "hs_refactor_complex other factor =
     (let ntrack = (if snd factor = 0 then hs_ntrack other div fst factor else snd factor);
          payload = (if hs_ntrack other = 0 then 2 ^ 32 - 1
                     else u32_mul (hs_payloadsize other) ntrack div hs_ntrack other);
          h = hs_pieces other ntrack payload
      in if ntrack > 0 \<and> hs_trackbitrate h > 0 \<and> payload > 0 \<and> snd factor \<le> hs_ntrack other
         then Inr h else Inl Cannot_Refactor)"

definition hs_divide_complex :: "headersearch \<Rightarrow> nat \<times> nat \<Rightarrow> hs_error + headersearch" where
  "hs_divide_complex h factor =
     (if fst factor > 0 then hs_refactor_complex h factor else Inl Zero_Factor)"

subsection \<open>Regular expressions of the format descriptions\<close>

definition is_digit :: "char \<Rightarrow> bool" where
  "is_digit c \<longleftrightarrow> (let n = of_char c :: nat in 48 \<le> n \<and> n \<le> 57)"

definition digits_value :: "string \<Rightarrow> nat" where
  "digits_value = foldl (\<lambda>v c. 10 * v + (of_char c - 48)) 0"

text \<open>\<open>sscanf("%u")\<close> on digits saturates in 64 bits before it is stored in 32.\<close>

definition scan_u32 :: "string \<Rightarrow> nat" where
  "scan_u32 ds = (let v = digits_value ds in if v < 2 ^ 64 then v mod 2 ^ 32 else 2 ^ 32 - 1)"

text \<open>A literal without regard to case, one digit, \<open>[0-9]+\<close>, \<open>[0-9]+(/[0-9]+)?\<close>,
  \<open>[LC]{0,2}\<close> and the optional decimation at the end.\<close>

definition rx_icase :: "string \<Rightarrow> string \<Rightarrow> (string \<times> string) option" where
  "rx_icase p s = (if str_tolower (take (length p) s) = str_tolower p
     then Some (take (length p) s, drop (length p) s) else None)"

definition rx_digits :: "string \<Rightarrow> (string \<times> string) option" where
  "rx_digits s = (let ds = takeWhile is_digit s
     in if ds = [] then None else Some (ds, dropWhile is_digit s))"

fun rx_digit :: "string \<Rightarrow> (string \<times> string) option" where
  "rx_digit [] = None"
| "rx_digit (c # s) = (if is_digit c then Some ([c], s) else None)"

fun rx_char :: "char \<Rightarrow> string \<Rightarrow> string option" where
  "rx_char c [] = None"
| "rx_char c (d # s) = (if c = d then Some s else None)"

definition rx_opt_fraction :: "string \<Rightarrow> (string option \<times> string)" where
  "rx_opt_fraction s =
     (case Option.bind (rx_char (CHR ''/'') s) rx_digits of
        None \<Rightarrow> (None, s) | Some (ds, r) \<Rightarrow> (Some ds, r))"

definition rx_flags :: "string \<Rightarrow> (string \<times> string) option" where
  "rx_flags s = (let fl = takeWhile (\<lambda>c. to_lower c = CHR ''l'' \<or> to_lower c = CHR ''c'') s
     in if length fl \<le> 2 then Some (fl, drop (length fl) s) else None)"

definition rx_end :: "string \<Rightarrow> bool" where
  "rx_end s \<longleftrightarrow> snd (rx_opt_fraction s) = []"

text \<open>\<open>rational<uint64_t>\<close>: reading \<open>n/d\<close>, and multiplication and division by an integer, which
  cancel common factors first and then wrap.\<close>

definition read_rate :: "string \<Rightarrow> string option \<Rightarrow> rat option" where
  "read_rate n d =
     (let nv = digits_value n; dv = (case d of None \<Rightarrow> 1 | Some ds \<Rightarrow> digits_value ds)
      in if nv < 2 ^ 64 \<and> dv < 2 ^ 64 \<and> dv \<noteq> 0 then Some (Fract (int nv) (int dv)) else None)"

definition r64_mul :: "rat \<Rightarrow> nat \<Rightarrow> rat" where
  "r64_mul r i = (let g = gcd (int i) (denominator r)
     in Fract ((numerator r * (int i div g)) mod 2 ^ 64) (denominator r div g))"

definition r64_div :: "rat \<Rightarrow> nat \<Rightarrow> rat" where
  "r64_div r i = (if numerator r = 0 then r
     else (let g = gcd (numerator r) (int i)
           in Fract (numerator r div g) ((denominator r * (int i div g)) mod 2 ^ 64)))"

subsection \<open>Reading a format description\<close>

text \<open>Each parser returns \<open>Inr None\<close> where the code returns 0: no match.\<close>

type_synonym parsefn = "string \<Rightarrow> hs_error + headersearch option"

definition parsed :: "hs_error + headersearch \<Rightarrow> hs_error + headersearch option" where
  "parsed r = (case r of Inl e \<Rightarrow> Inl e | Inr h \<Rightarrow> Inr (Some h))"

definition pNone :: parsefn where
  "pNone s = (if str_tolower s = ''none'' then Inr (Some headersearch_empty) else Inr None)"

definition rxMark5B :: "string \<Rightarrow> ((string \<times> string option) \<times> string \<times> string) option" where
  "rxMark5B s = do {
     (_, s) \<leftarrow> rx_icase ''Mark5B-'' s;
     (rate, s) \<leftarrow> rx_digits s;
     let (den, s) = rx_opt_fraction s;
     s \<leftarrow> rx_char (CHR ''-'') s;
     (chan, s) \<leftarrow> rx_digits s;
     s \<leftarrow> rx_char (CHR ''-'') s;
     (bps, s) \<leftarrow> rx_digits s;
     if rx_end s then Some ((rate, den), chan, bps) else None }"

definition pMark5B :: parsefn where
  "pMark5B s = (case rxMark5B s of None \<Rightarrow> Inr None
     | Some ((rate, den), chan, bps) \<Rightarrow>
       (case read_rate rate den of None \<Rightarrow> Inl Bad_Rational
        | Some rateMbps \<Rightarrow>
          (let nTrk = u32_mul (scan_u32 chan) (scan_u32 bps)
           in if nTrk = 0 then Inr None
              else parsed (headersearch_new fmt_mark5b nTrk
                             (r64_div (r64_mul rateMbps 1000000) nTrk) 0))))"

definition rxVDIFu :: "string \<Rightarrow> unit option" where
  "rxVDIFu s = do {
     (_, s) \<leftarrow> rx_icase ''VDIF'' s;
     (_, s) \<leftarrow> rx_flags s;
     s \<leftarrow> rx_char (CHR ''-'') s;
     (_, s) \<leftarrow> rx_digits s;
     s \<leftarrow> rx_char (CHR ''-'') s;
     (_, s) \<leftarrow> rx_digits s;
     s \<leftarrow> rx_char (CHR ''-'') s;
     (_, s) \<leftarrow> rx_digits s;
     if rx_end s then Some () else None }"

definition pVDIF_unsupported :: parsefn where
  "pVDIF_unsupported s = (case rxVDIFu s of None \<Rightarrow> Inr None | Some _ \<Rightarrow> Inl Vdif_Unsupported)"

definition vdif_fmt_map :: "bool \<times> bool \<Rightarrow> format_type option" where
  "vdif_fmt_map = [(False, False) \<mapsto> fmt_vdif, (True, False) \<mapsto> fmt_vdif_legacy,
                   (False, True) \<mapsto> fmt_vdif_complex, (True, True) \<mapsto> fmt_vdif_legacy_complex]"

definition rxVDIF ::
  "string \<Rightarrow> (string \<times> string \<times> (string \<times> string option) \<times> string \<times> string) option" where
  "rxVDIF s = do {
     (vdif, s) \<leftarrow> rx_icase ''VDIF'' s;
     (flags, s) \<leftarrow> rx_flags s;
     s \<leftarrow> rx_char (CHR ''_'') s;
     (payload, s) \<leftarrow> rx_digits s;
     s \<leftarrow> rx_char (CHR ''-'') s;
     (rate, s) \<leftarrow> rx_digits s;
     let (den, s) = rx_opt_fraction s;
     s \<leftarrow> rx_char (CHR ''-'') s;
     (chan, s) \<leftarrow> rx_digits s;
     s \<leftarrow> rx_char (CHR ''-'') s;
     (bps, s) \<leftarrow> rx_digits s;
     if rx_end s then Some (vdif @ flags, payload, (rate, den), chan, bps) else None }"

definition pVDIF :: parsefn where
  "pVDIF s = (case rxVDIF s of None \<Rightarrow> Inr None
     | Some (name, payload, (rate, den), chan, bps) \<Rightarrow>
       (case read_rate rate den of None \<Rightarrow> Inl Bad_Rational
        | Some rateMbps \<Rightarrow>
          (let vdifName = str_tolower name;
               vdifLegacy = CHR ''l'' \<in> set vdifName;
               vdifComplex = CHR ''c'' \<in> set vdifName;
               nTrk = u32_mul (u32_mul (scan_u32 chan) (scan_u32 bps)) (if vdifComplex then 2 else 1)
           in if nTrk = 0 then Inr None
              else parsed (headersearch_new (the (vdif_fmt_map (vdifLegacy, vdifComplex))) nTrk
                             (r64_div (r64_mul rateMbps 1000000) nTrk) (scan_u32 payload)))))"

text \<open>\<open>VLBAx_y-\<dots>\<close> and \<open>MKIVx_y-\<dots>\<close> share their expression but for the name.\<close>

definition rxFanout ::
  "string \<Rightarrow> string \<Rightarrow> (string \<times> string \<times> string \<times> string \<times> string) option" where
  "rxFanout name s = do {
     (_, s) \<leftarrow> rx_icase name s;
     (trkIn, s) \<leftarrow> rx_digit s;
     s \<leftarrow> rx_char (CHR ''_'') s;
     (trkOut, s) \<leftarrow> rx_digit s;
     s \<leftarrow> rx_char (CHR ''-'') s;
     (rate, s) \<leftarrow> rx_digits s;
     s \<leftarrow> rx_char (CHR ''-'') s;
     (chan, s) \<leftarrow> rx_digits s;
     s \<leftarrow> rx_char (CHR ''-'') s;
     (bps, s) \<leftarrow> rx_digits s;
     if rx_end s then Some (trkIn, trkOut, rate, chan, bps) else None }"

definition p_fanout :: "string \<Rightarrow> format_type \<Rightarrow> parsefn" where
  "p_fanout name fmt s = (case rxFanout name s of None \<Rightarrow> Inr None
     | Some (trkIn', trkOut', rate, chan, bps) \<Rightarrow>
       (let trkIn = scan_u32 trkIn'; trkOut = scan_u32 trkOut'; rateMbps = scan_u32 rate
        in if \<not> trkIn \<le> trkOut then Inl Fan_In
           else if trkIn = 0 then Inr None
           else (let trkOut = u32_mul (u32_mul (scan_u32 chan) (scan_u32 bps)) trkOut div trkIn
                 in if trkOut = 0 then Inr None
                    else parsed (headersearch_new fmt trkOut
                                   (of_nat (u32_mul rateMbps 1000000 div trkOut)) 0))))"

definition pVLBA :: parsefn where "pVLBA s = p_fanout ''VLBA'' fmt_vlba s"
definition pMKIV :: parsefn where "pMKIV s = p_fanout ''MKIV'' fmt_mark4 s"

text \<open>The first parser that returns an object, in this order; an exception ends the search.\<close>

fun first_match :: "parsefn list \<Rightarrow> string \<Rightarrow> hs_error + headersearch option" where
  "first_match [] s = Inr None"
| "first_match (p # ps) s =
     (case p s of Inl e \<Rightarrow> Inl e | Inr (Some h) \<Rightarrow> Inr (Some h) | Inr None \<Rightarrow> first_match ps s)"

definition text2headersearch :: parsefn where
  "text2headersearch s = first_match [pNone, pVDIF_unsupported, pMark5B, pVDIF, pVLBA, pMKIV] s"

subsection \<open>Layout of the frames\<close>

lemma u32_mul_tracks [u32_simps]:
  assumes "n \<le> 64" "k < 2 ^ 26" shows "u32_mul n k = n * k" "u32_mul k n = k * n"
proof -
  have "n * k \<le> 64 * k" using assms(1) by (rule mult_le_mono1)
  moreover have "64 * k < 2 ^ 32" using assms(2) by simp
  ultimately have "n * k < 2 ^ 32" by (rule le_less_trans)
  then show "u32_mul n k = n * k" "u32_mul k n = k * n" by (simp_all add: u32_mul_def mult.commute)
qed

lemmas layout_defs = SYNCWORDSIZE_ST_def SYNCWORDSIZE_def SYNCWORDOFFSET_ST_def SYNCWORDOFFSET_def
  PAYLOADSIZE_VDIF_def PAYLOADSIZE_ST_def PAYLOADSIZE_def PAYLOADOFFSET_VDIF_def
  PAYLOADOFFSET_FOR_VDIF_def PAYLOADOFFSET_ST_def PAYLOADOFFSET_def IS_ST_def STRIP_ST_def
  MK4VLBA_def st_tracks_def headersize_def framesize_def is_vdif_def

definition has_frames :: "format_type \<Rightarrow> bool" where
  "has_frames fmt \<longleftrightarrow> MK4VLBA fmt \<or> IS_ST fmt \<or> fmt = fmt_mark5b \<or> is_vdif fmt"

lemma headersearch_newD:
  assumes "headersearch_new fmt tracks rate pl = Inr h"
  shows "MK4VLBA fmt \<or> fmt = fmt_mark5b \<Longrightarrow> tracks \<le> 64 \<and> 1 \<le> tracks" "IS_ST fmt \<Longrightarrow> tracks = 32"
    "hs_frameformat h = fmt" "hs_ntrack h = tracks" "hs_trackbitrate h = rate"
    "hs_syncwordsize h = SYNCWORDSIZE_ST fmt tracks"
    "hs_syncwordoffset h = SYNCWORDOFFSET_ST fmt tracks"
    "hs_headersize h = headersize fmt tracks" "hs_framesize h = framesize fmt tracks pl"
    "hs_payloadsize h = PAYLOADSIZE_VDIF fmt tracks pl"
    "hs_payloadoffset h = PAYLOADOFFSET_VDIF fmt tracks"
    "hs_framerate h = state_framerate tracks rate (hs_payloadsize h)"
    "hs_frametime h = state_frametime tracks rate (hs_payloadsize h)"
  using assms by (auto simp: headersearch_new_def Let_def split: if_splits)

lemma layout_cases:
  assumes "has_frames fmt" "MK4VLBA fmt \<or> fmt = fmt_mark5b \<Longrightarrow> n \<le> 64 \<and> 1 \<le> n"
    "IS_ST fmt \<Longrightarrow> n = 32" "pl + 32 < 2 ^ 32"
  shows "SYNCWORDOFFSET_ST fmt n + SYNCWORDSIZE_ST fmt n \<le> headersize fmt n"
    "PAYLOADOFFSET_VDIF fmt n + PAYLOADSIZE_VDIF fmt n pl \<le> framesize fmt n pl"
    "headersize fmt n \<le> framesize fmt n pl" "0 < headersize fmt n"
    "PAYLOADSIZE_VDIF fmt n pl \<le> framesize fmt n pl"
  using assms unfolding has_frames_def
  by (cases fmt; simp add: layout_defs u32_simps mult.commute [of _ n])+

text \<open>The header layout the constructor computes is consistent for every format with frames: the
  sync word lies inside the header, header and payload inside the frame, and with a known rate the
  frame time is the inverse of the frame rate.
\<close>

theorem header_layout:
  assumes "headersearch_new fmt tracks rate pl = Inr h" "has_frames fmt" "pl + 32 < 2 ^ 32"
  shows "hs_syncwordoffset h + hs_syncwordsize h \<le> hs_headersize h
    \<and> hs_headersize h \<le> hs_framesize h
    \<and> hs_payloadoffset h + hs_payloadsize h \<le> hs_framesize h \<and> hs_valid h
    \<and> (0 < tracks \<and> valid_samplerate rate \<and> 0 < hs_payloadsize h \<and> 8 * hs_payloadsize h < 2 ^ 32
       \<longrightarrow> hs_framerate h * hs_frametime h = 1)"
proof -
  note h = headersearch_newD [OF assms(1)]
  note l = layout_cases [OF assms(2) h(1) h(2) assms(3)]
  have "0 < tracks \<and> valid_samplerate rate \<and> 0 < hs_payloadsize h \<and> 8 * hs_payloadsize h < 2 ^ 32
      \<longrightarrow> hs_framerate h * hs_frametime h = 1"
    unfolding h(12,13) state_framerate_def state_frametime_def valid_samplerate_def
    by (auto simp: u32_mul_exact)
  moreover have "fmt \<noteq> fmt_unknown"
    using assms(2) by (auto simp: has_frames_def layout_defs)
  ultimately show ?thesis
    using l unfolding hs_valid_def h(3,6-11) by auto
qed

theorem header_layout_witness:
  "\<exists>h. headersearch_new fmt_mark4 32 8000000 0 = Inr h
     \<and> hs_payloadoffset h + hs_payloadsize h \<le> hs_framesize h"
proof -
  have q: "quotient_of (8000000 :: rat) = (8000000, 1)" by (simp add: quotient_of_number)
  have "power_of_two 32" by (simp add: power_of_two_def)
  then obtain h where h: "headersearch_new fmt_mark4 32 8000000 0 = Inr h"
    by (simp add: headersearch_new_def Let_def MK4VLBA_def IS_ST_def is_vdif_def numerator_def
        denominator_def q UNKNOWN_TRACKBITRATE_def)
  moreover have "has_frames fmt_mark4" by (simp add: has_frames_def MK4VLBA_def)
  ultimately show ?thesis using header_layout [OF h] by auto
qed

subsection \<open>Splitting keeps the frame rate\<close>

lemma hs_divideD:
  assumes "hs_divide h k = Inr p" "k < 2 ^ 31"
  shows "0 < k" "hs_ntrack p = hs_ntrack h div k" "hs_payloadsize p = hs_payloadsize h div k"
    "hs_trackbitrate p = hs_trackbitrate h" "0 < hs_ntrack p" "0 < hs_payloadsize p"
    "hs_framerate p = state_framerate (hs_ntrack p) (hs_trackbitrate h) (hs_payloadsize p)"
    "hs_frametime p = state_frametime (hs_ntrack p) (hs_trackbitrate h) (hs_payloadsize p)"
    "hs_frameformat p = hs_frameformat h"
  using assms
  by (auto simp: hs_divide_def hs_refactor_def hs_pieces_def headersearch_empty_def s32_def
      REFACTOR_DIVIDE_def REFACTOR_ALWAYS_def Let_def split: if_splits)

lemma hs_multiplyD:
  assumes "hs_multiply h k = Inr p" "k < 2 ^ 31"
  shows "0 < k" "hs_ntrack p = hs_ntrack h" "hs_payloadsize p = u32_mul (hs_payloadsize h) k"
    "hs_trackbitrate p = hs_trackbitrate h"  "0 < hs_payloadsize p"
    "hs_framerate p = state_framerate (hs_ntrack p) (hs_trackbitrate h) (hs_payloadsize p)"
    "hs_frametime p = state_frametime (hs_ntrack p) (hs_trackbitrate h) (hs_payloadsize p)"
  using assms
  by (auto simp: hs_multiply_def hs_refactor_def hs_pieces_def headersearch_empty_def s32_def
      REFACTOR_DIVIDE_def REFACTOR_ALWAYS_def Let_def split: if_splits)

lemma state_rate_scaled:
  assumes "0 < k" "8 * (k * pl) < 2 ^ 32"
  shows "state_framerate (k * n) r (k * pl) = state_framerate n r pl"
    "state_frametime (k * n) r (k * pl) = state_frametime n r pl"
    "state_framerate n r pl = of_nat k * state_framerate n r (k * pl)"
proof -
  have "1 * pl \<le> k * pl" using assms(1) by (intro mult_le_mono1) simp
  then have "8 * pl < 2 ^ 32" using assms(2) by linarith
  then have e: "u32_mul pl 8 = 8 * pl" "u32_mul (k * pl) 8 = 8 * (k * pl)"
    using assms(2) by (auto simp: u32_mul_def mult.commute)
  show "state_framerate (k * n) r (k * pl) = state_framerate n r pl"
    "state_frametime (k * n) r (k * pl) = state_frametime n r pl"
    "state_framerate n r pl = of_nat k * state_framerate n r (k * pl)"
    using assms(1) by (auto simp: state_framerate_def state_frametime_def e field_simps)
qed

text \<open>Splitting a header in \<open>k\<close> pieces, where \<open>k\<close> divides the tracks and the payload, keeps the
  frame rate and the frame time; multiplying a piece by \<open>k\<close> restores the payload over the fewer
  tracks, at a \<open>k\<close> times lower rate.
\<close>

theorem split_keeps_frame_rate:
  assumes "headersearch_new fmt tracks rate pl = Inr h" "hs_divide h k = Inr p" "k < 2 ^ 31"
    "k dvd tracks" "k dvd hs_payloadsize h" "8 * hs_payloadsize h < 2 ^ 32"
  shows "k * hs_ntrack p = tracks \<and> k * hs_payloadsize p = hs_payloadsize h
    \<and> hs_framerate p = hs_framerate h \<and> hs_frametime p = hs_frametime h
    \<and> (\<exists>j. hs_multiply p k = Inr j \<and> hs_ntrack j = hs_ntrack p
         \<and> hs_payloadsize j = hs_payloadsize h \<and> of_nat k * hs_framerate j = hs_framerate p)"
proof -
  note h = headersearch_newD [OF assms(1)]
  note p = hs_divideD [OF assms(2,3)]
  have n: "k * hs_ntrack p = tracks" and s: "k * hs_payloadsize p = hs_payloadsize h"
    using assms(4,5) p(2,3) h(4) by auto
  have b: "8 * (k * hs_payloadsize p) < 2 ^ 32" using assms(6) s by simp
  note sc = state_rate_scaled [OF p(1) b, of "hs_ntrack p" rate, unfolded n s]
  have m: "u32_mul (hs_payloadsize p) k = hs_payloadsize h"
    using b s by (simp add: u32_mul_def mult.commute)
  have r: "0 < rate"
    using assms(2) h(5) by (auto simp: hs_divide_def hs_refactor_def hs_pieces_def Let_def
        headersearch_empty_def split: if_splits)
  have "0 < hs_payloadsize h" using s p(1,6) by (metis nat_0_less_mult_iff)
  then obtain j where j: "hs_multiply p k = Inr j"
    using p(1,5) assms(3) r by (simp add: hs_multiply_def hs_refactor_def hs_pieces_def Let_def s32_def
        headersearch_empty_def REFACTOR_ALWAYS_def REFACTOR_DIVIDE_def m p(4) h(5))
  note q = hs_multiplyD [OF j assms(3)]
  have "of_nat k * hs_framerate j = hs_framerate p"
    unfolding q(2,3,6) p(4,7) m h(5) using sc(3) by simp
  moreover have "hs_framerate p = hs_framerate h" "hs_frametime p = hs_frametime h"
    unfolding p(7,8) h(5,12,13) using sc(1,2) by simp_all
  ultimately show ?thesis using n s j q(2,3) m by auto
qed

theorem split_keeps_frame_rate_witness:
  "\<exists>h p. headersearch_new fmt_vdif 8 2000000 8000 = Inr h \<and> hs_divide h 4 = Inr p
     \<and> hs_framerate p = hs_framerate h"
proof -
  have q: "quotient_of (2000000 :: rat) = (2000000, 1)" by (simp add: quotient_of_number)
  have pl: "PAYLOADSIZE_VDIF fmt_vdif 8 8000 = 8000"
    by (simp add: PAYLOADSIZE_VDIF_def is_vdif_def)
  obtain h where h: "headersearch_new fmt_vdif 8 2000000 8000 = Inr h"
    by (simp add: headersearch_new_def Let_def MK4VLBA_def IS_ST_def is_vdif_def numerator_def
        denominator_def q UNKNOWN_TRACKBITRATE_def pl)
  note d = headersearch_newD [OF h]
  obtain p where p: "hs_divide h 4 = Inr p"
    using d(4,5,10) by (simp add: hs_divide_def hs_refactor_def hs_pieces_def Let_def s32_def pl
        headersearch_empty_def REFACTOR_ALWAYS_def REFACTOR_DIVIDE_def)
  from split_keeps_frame_rate [OF h p] d(10) pl have "hs_framerate p = hs_framerate h" by simp
  with h p show ?thesis by blast
qed

subsection \<open>Descriptions are read back\<close>

text \<open>Decimal representation of a number.\<close>

fun show_nat :: "nat \<Rightarrow> string" where
  "show_nat n = (if n < 10 then [char_of (48 + n)] else show_nat (n div 10) @ [char_of (48 + n mod 10)])"

declare show_nat.simps [simp del]

lemma is_digit_char_of [simp]: "n < 10 \<Longrightarrow> is_digit (char_of (48 + n))" for n :: nat
  by (simp add: is_digit_def Let_def)

lemma show_nat_digits: "\<forall>c\<in>set (show_nat n). is_digit c"
  by (induction n rule: show_nat.induct) (subst show_nat.simps, auto)

lemma show_nat_nonempty [simp]: "show_nat n \<noteq> []"
  by (subst show_nat.simps) simp

lemma digits_value_show [simp]: "digits_value (show_nat n) = n"
proof (induction n rule: show_nat.induct)
  case (1 n)
  then show ?case
    by (subst show_nat.simps) (auto simp: digits_value_def)
qed

lemma rx_digits_show [simp]:
  assumes "s = [] \<or> \<not> is_digit (hd s)" shows "rx_digits (show_nat n @ s) = Some (show_nat n, s)"
proof -
  have "takeWhile is_digit (show_nat n @ s) = show_nat n"
    using show_nat_digits [of n] assms by (cases s) (auto simp: takeWhile_append)
  moreover have "dropWhile is_digit (show_nat n @ s) = s"
    using show_nat_digits [of n] assms by (cases s) (auto simp: dropWhile_append)
  ultimately show ?thesis by (simp add: rx_digits_def)
qed

lemma rx_digits_show_end [simp]: "rx_digits (show_nat n) = Some (show_nat n, [])"
  using rx_digits_show [of "[]" n] by simp

lemma scan_u32_show: "n < 2 ^ 32 \<Longrightarrow> scan_u32 (show_nat n) = n"
  by (simp add: scan_u32_def)

definition flag_text :: "bool \<Rightarrow> bool \<Rightarrow> string" where
  "flag_text legacy cplx = (if legacy then ''L'' else []) @ (if cplx then ''C'' else [])"

definition vdif_text :: "bool \<Rightarrow> bool \<Rightarrow> nat \<Rightarrow> nat \<Rightarrow> nat \<Rightarrow> nat \<Rightarrow> string" where
  "vdif_text legacy cplx payload rate chan bps = ''VDIF'' @ flag_text legacy cplx @ ''_'' @
     show_nat payload @ ''-'' @ show_nat rate @ ''-'' @ show_nat chan @ ''-'' @ show_nat bps"

lemma rx_opt_fraction_none [simp]: "rx_opt_fraction (CHR ''-'' # s) = (None, CHR ''-'' # s)"
  "rx_opt_fraction [] = (None, [])"
  by (simp_all add: rx_opt_fraction_def)

lemma to_lower_simps [simp]: "to_lower CHR ''V'' = CHR ''v''" "to_lower CHR ''D'' = CHR ''d''"
  "to_lower CHR ''I'' = CHR ''i''" "to_lower CHR ''F'' = CHR ''f''" "to_lower CHR ''L'' = CHR ''l''"
  "to_lower CHR ''C'' = CHR ''c''"  "to_lower CHR ''_'' = CHR ''_''" "to_lower CHR ''-'' = CHR ''-''"
  "to_lower CHR ''M'' = CHR ''m''" "to_lower CHR ''a'' = CHR ''a''" "to_lower CHR ''r'' = CHR ''r''"
  "to_lower CHR ''k'' = CHR ''k''" "to_lower CHR ''5'' = CHR ''5''" "to_lower CHR ''B'' = CHR ''b''"
  by code_simp+

lemma not_digit [simp]: "\<not> is_digit CHR ''-''" "\<not> is_digit CHR ''/''" "\<not> is_digit CHR ''_''"
  by (simp_all add: is_digit_def)

lemma rx_flags_text [simp]:
  "rx_flags (flag_text l c @ CHR ''_'' # s) = Some (flag_text l c, CHR ''_'' # s)"
  by (cases l; cases c; simp add: flag_text_def rx_flags_def Let_def)

lemma rxVDIF_text:
  "rxVDIF (vdif_text l c pl r ch b) =
     Some (''VDIF'' @ flag_text l c, show_nat pl, (show_nat r, None), show_nat ch, show_nat b)"
  by (simp add: rxVDIF_def vdif_text_def rx_icase_def str_tolower_def rx_end_def)


lemma numerator_Fract: "numerator (Fract (int n) 1) = int n" "denominator (Fract (int n) 1) = 1"
  by (simp_all add: numerator_def denominator_def quotient_of_Fract)

lemma numerator_Fract_nat:
  "0 < k \<Longrightarrow> numerator (Fract (int x) (int k)) = int (x div gcd x k)"
  by (simp add: numerator_def quotient_of_Fract Rat.normalize_def Let_def zdiv_int)

lemma numerator_Fract_le: "0 < k \<Longrightarrow> numerator (Fract (int x) (int k)) \<le> int x"
  unfolding numerator_Fract_nat by simp

lemma numerator_nonneg: "0 < k \<Longrightarrow> 0 \<le> numerator (Fract (int x) (int k))"
  unfolding numerator_Fract_nat by simp

lemma r64_mul_whole: "r * m < 2 ^ 64 \<Longrightarrow> r64_mul (Fract (int r) 1) m = Fract (int (r * m)) 1"
proof -
  assume "r * m < 2 ^ 64"
  then have "int (r * m) < 2 ^ 64" by (metis of_nat_less_numeral_power_cancel_iff)
  then show ?thesis by (simp add: r64_mul_def Let_def numerator_Fract)
qed

lemma r64_div_whole:
  assumes "0 < k" "k < 2 ^ 64"
  shows "r64_div (Fract (int x) 1) k = Fract (int x) (int k)"
proof (cases "x = 0")
  case True
  have "numerator (Fract 0 1) = 0" using numerator_Fract(1) [of 0] by simp
  with True show ?thesis using assms by (simp add: r64_div_def eq_rat)
next
  case False
  define g where "g = gcd x k"
  have g: "0 < g" "int g * (int k div int g) = int k" "int g * (int x div int g) = int x"
    using assms(1) by (simp_all add: g_def flip: zdiv_int of_nat_mult)
  have "k div g \<le> k" by simp
  with assms(2) have "k div g < 2 ^ 64" by linarith
  then have "int (k div g) < 2 ^ 64" by (metis of_nat_less_numeral_power_cancel_iff)
  then have "int (k div g) mod 2 ^ 64 = int k div int g"
    by (simp only: zdiv_int mod_pos_pos_trivial of_nat_0_le_iff flip: zdiv_int)
  then have "r64_div (Fract (int x) 1) k = Fract (int x div int g) (int k div int g)"
    using False by (simp add: r64_div_def numerator_Fract Let_def g_def flip: zdiv_int)
  also have "\<dots> = Fract (int g * (int x div int g)) (int g * (int k div int g))"
    by (rule mult_rat_cancel [symmetric]) (use g(1) in simp)
  finally show ?thesis by (simp only: g(2,3))
qed

lemma of_nat_mult_Fract: "0 < k \<Longrightarrow> of_nat k * Fract (int x) (int k) = (of_nat x :: rat)"
  by (simp add: Fract_of_int_quotient)

lemma rate_accepted:
  assumes "0 < k" "k * x < 2 ^ 64"
  shows "numerator (Fract (int x) (int k)) \<le> (int k * numerator (Fract (int x) (int k))) mod 2 ^ 64"
proof -
  let ?n = "numerator (Fract (int x) (int k))"
  have n: "0 \<le> ?n" "?n \<le> int x" using assms(1) by (simp_all add: numerator_Fract_le numerator_nonneg)
  have "int k * ?n \<le> int k * int x" using n(2) by (rule mult_left_mono) simp
  also have "\<dots> < 2 ^ 64" using assms(2) by (metis of_nat_less_numeral_power_cancel_iff of_nat_mult)
  finally have l: "int k * ?n < 2 ^ 64" .
  have "1 * ?n \<le> int k * ?n" using assms(1) n(1) by (intro mult_right_mono) auto
  with l n(1) show ?thesis by simp
qed

definition vdif_of_flags :: "bool \<Rightarrow> bool \<Rightarrow> format_type" where
  "vdif_of_flags legacy cplx = (if legacy then if cplx then fmt_vdif_legacy_complex else fmt_vdif_legacy
     else if cplx then fmt_vdif_complex else fmt_vdif)"

lemma vdif_fmt_map_flags: "the (vdif_fmt_map (l, c)) = vdif_of_flags l c"
  by (cases l; cases c; simp add: vdif_fmt_map_def vdif_of_flags_def)

lemma flags_found:
  "CHR ''l'' \<in> set (str_tolower (''VDIF'' @ flag_text l c)) \<longleftrightarrow> l"
  "CHR ''c'' \<in> set (str_tolower (''VDIF'' @ flag_text l c)) \<longleftrightarrow> c"
  by (cases l; cases c; simp add: flag_text_def str_tolower_def)+

lemma vdif_text_first:
  "text2headersearch (vdif_text l c pl r ch b) =
     (case pVDIF (vdif_text l c pl r ch b) of Inl e \<Rightarrow> Inl e | Inr (Some h) \<Rightarrow> Inr (Some h)
      | Inr None \<Rightarrow> first_match [pVLBA, pMKIV] (vdif_text l c pl r ch b))"
proof -
  have u: "pVDIF_unsupported (vdif_text l c pl r ch b) = Inr None"
    by (simp add: pVDIF_unsupported_def rxVDIFu_def vdif_text_def rx_icase_def str_tolower_def)
  have "pNone (vdif_text l c pl r ch b) = Inr None"
    by (simp add: pNone_def vdif_text_def str_tolower_def)
  moreover have "pMark5B (vdif_text l c pl r ch b) = Inr None"
    by (simp add: pMark5B_def rxMark5B_def vdif_text_def rx_icase_def str_tolower_def)
  ultimately show ?thesis by (simp add: text2headersearch_def u)
qed

lemma headersearch_new_vdif:
  assumes "is_vdif fmt" "8 dvd pl"
    "numerator rate \<le> (int n * numerator rate) mod 2 ^ 64"
  shows "\<exists>h. headersearch_new fmt n rate pl = Inr h"
proof -
  have "\<not> MK4VLBA fmt" "fmt \<noteq> fmt_mark5b" "\<not> IS_ST fmt"
    using assms(1) by (auto simp: is_vdif_def MK4VLBA_def IS_ST_def)
  moreover have "PAYLOADSIZE_VDIF fmt n pl = pl" using assms(1) by (simp add: PAYLOADSIZE_VDIF_def)
  ultimately show ?thesis using assms by (simp add: headersearch_new_def Let_def)
qed

text \<open>C25: A VDIF description names its header: for all flags, payload sizes, rates, channel counts and
  bits per sample that fit, reading the text gives the format of the flags, the number of bit
  streams, the payload size, and a rate per stream which adds up to the total rate.
\<close>

theorem vdif_text_roundtrip:
  fixes legacy cplx :: bool and payload rate chan bps :: nat
  defines "n \<equiv> chan * bps * (if cplx then 2 else 1)"
  assumes "8 dvd payload" "payload < 2 ^ 32" "0 < n" "n < 2 ^ 32" "n * (rate * 1000000) < 2 ^ 64"
  shows "\<exists>h. text2headersearch (vdif_text legacy cplx payload rate chan bps) = Inr (Some h)
     \<and> hs_frameformat h = vdif_of_flags legacy cplx \<and> hs_ntrack h = n \<and> hs_payloadsize h = payload
     \<and> of_nat (hs_ntrack h) * hs_trackbitrate h = of_nat (rate * 1000000)"
proof -
  let ?m = "if cplx then 2 else (1 :: nat)"
  have m: "chan * bps * 1 \<le> n" unfolding n_def by (intro mult_le_mono2) simp
  have "chan * 1 \<le> chan * bps" "1 * bps \<le> chan * bps"
    using assms(4) by (intro mult_le_mono mult_le_mono2; simp add: n_def)+
  with m assms(5) have b: "chan < 2 ^ 32" "bps < 2 ^ 32" "chan * bps < 2 ^ 32" by linarith+
  have nt: "u32_mul (u32_mul (scan_u32 (show_nat chan)) (scan_u32 (show_nat bps))) ?m = n"
    using b assms(5) by (simp add: scan_u32_show u32_mul_exact n_def split del: if_split)
  have "1 * (rate * 1000000) \<le> n * (rate * 1000000)" using assms(4) by (intro mult_le_mono1) simp
  with assms(6) have r: "rate * 1000000 < 2 ^ 64" by linarith
  let ?rate = "r64_div (r64_mul (Fract (int rate) 1) 1000000) n"
  have q: "?rate = Fract (int (rate * 1000000)) (int n)"
    unfolding r64_mul_whole [OF r] by (rule r64_div_whole) (use assms(4,5) in simp_all)
  let ?f = "vdif_of_flags legacy cplx"
  have f: "is_vdif ?f" by (simp add: vdif_of_flags_def is_vdif_def)
  from headersearch_new_vdif [OF f assms(2), of ?rate n] rate_accepted [OF assms(4,6)] q
  obtain h where h: "headersearch_new ?f n ?rate payload = Inr h" by auto
  have rr: "read_rate (show_nat rate) None = Some (Fract (int rate) 1)"
    using r by (simp add: read_rate_def)
  have "pVDIF (vdif_text legacy cplx payload rate chan bps) = Inr (Some h)"
    unfolding pVDIF_def rxVDIF_text option.case prod.case rr Let_def flags_found nt
    using assms(4) h by (simp add: vdif_fmt_map_flags parsed_def scan_u32_show [OF assms(3)])
  then have "text2headersearch (vdif_text legacy cplx payload rate chan bps) = Inr (Some h)"
    by (simp add: vdif_text_first)
  moreover have "PAYLOADSIZE_VDIF ?f n payload = payload" using f by (simp add: PAYLOADSIZE_VDIF_def)
  ultimately show ?thesis
    using headersearch_newD(3-5,10) [OF h] of_nat_mult_Fract [OF assms(4), of "rate * 1000000"] q
    by simp
qed

theorem vdif_text_roundtrip_witness:
  "\<exists>h. text2headersearch (vdif_text True False 8000 512 16 2) = Inr (Some h) \<and> hs_ntrack h = 32"
  using vdif_text_roundtrip [where legacy = True and cplx = False and payload = 8000 and rate = 512
      and chan = 16 and bps = 2] by auto

text \<open>The overflow check of the constructor, \<open>ntrack * rate >= rate\<close>, accepts a rate whose product
  with the number of tracks does not fit 64 bits.
\<close>

theorem rate_check_misses_overflow:
  "\<exists>h. headersearch_new fmt_mark4 64 (of_nat (2 ^ 58 + 2 ^ 57)) 0 = Inr h
     \<and> of_nat (hs_ntrack h) * hs_trackbitrate h \<ge> 2 ^ 64"
proof -
  have q: "quotient_of (432345564227567616 :: rat) = (432345564227567616, 1)"
    by (simp add: quotient_of_number)
  have "power_of_two 64" by (simp add: power_of_two_def)
  then obtain h where h: "headersearch_new fmt_mark4 64 432345564227567616 0 = Inr h"
    by (simp add: headersearch_new_def Let_def MK4VLBA_def IS_ST_def is_vdif_def numerator_def
        denominator_def q UNKNOWN_TRACKBITRATE_def)
  then show ?thesis using headersearch_newD(4,5) [OF h] by simp
qed

text \<open>The payload offset of straight-through VLBA is computed from the unstripped format.\<close>

lemma st_payload_offset:
  "PAYLOADOFFSET_ST fmt_vlba_st 32 = 0" "PAYLOADOFFSET (STRIP_ST fmt_vlba_st) 32 * 9 div 8 = 432"
  by (simp_all add: PAYLOADOFFSET_ST_def PAYLOADOFFSET_def STRIP_ST_def IS_ST_def u32_mul_def)

end
