(* ===== verification/BitCount.thy ===== *)
theory BitCount
  imports JPrelude
begin

unbundle bit_operations_syntax

text \<open>
  The parallel bit count for 64-bit words of \<open>src/src/bittwiddlinghacks.h\<close>, and its
  equivalence with the number of bits set. The proof works on natural numbers, digit by digit:
  \<open>digit_sum b k x\<close> adds the \<open>k\<close> lowest base-\<open>2 ^ b\<close> digits of \<open>x\<close>.
\<close>

definition count_bits :: "64 word \<Rightarrow> nat" where
  "count_bits v0 =
     (let m1 = 0x5555555555555555; m2 = 0x3333333333333333; m4 = 0x0f0f0f0f0f0f0f0f;
          v1 = v0 - (drop_bit 1 v0 AND m1);
          v2 = (v1 AND m2) + (drop_bit 2 v1 AND m2);
          v3 = (v2 + drop_bit 4 v2) AND m4;
          v4 = v3 + drop_bit 8 v3;
          v5 = v4 + drop_bit 16 v4;
          v6 = v5 + drop_bit 32 v5
      in unat (v6 AND 0x7f))"

definition pop :: "64 word \<Rightarrow> nat" where
  "pop w = card {n. bit w n}"

subsection \<open>Digits\<close>

primrec digit_sum :: "nat \<Rightarrow> nat \<Rightarrow> nat \<Rightarrow> nat" where
  "digit_sum b 0 x = 0"
| "digit_sum b (Suc k) x = x mod 2 ^ b + digit_sum b k (x div 2 ^ b)"

primrec digits_le :: "nat \<Rightarrow> nat \<Rightarrow> nat \<Rightarrow> nat \<Rightarrow> bool" where
  "digits_le b 0 c x \<longleftrightarrow> True"
| "digits_le b (Suc k) c x \<longleftrightarrow> x mod 2 ^ b \<le> c \<and> digits_le b k c (x div 2 ^ b)"

lemma digit_sum_numeral: "digit_sum b (numeral k) x =
    x mod 2 ^ b + digit_sum b (pred_numeral k) (x div 2 ^ b)"
  by (simp add: numeral_eq_Suc)

lemma digits_le_numeral: "digits_le b (numeral k) c x \<longleftrightarrow>
    x mod 2 ^ b \<le> c \<and> digits_le b (pred_numeral k) c (x div 2 ^ b)"
  by (simp add: numeral_eq_Suc)

text \<open>The mask with every other group of \<open>b\<close> bits set.\<close>

primrec group_mask :: "nat \<Rightarrow> nat \<Rightarrow> nat" where
  "group_mask b 0 = 0"
| "group_mask b (Suc k) = (2 ^ b - 1) + 2 ^ (2 * b) * group_mask b k"

definition pair_sum :: "nat \<Rightarrow> nat \<Rightarrow> nat \<Rightarrow> nat" where
  "pair_sum b k x = (x AND group_mask b k) + ((x div 2 ^ b) AND group_mask b k)"

lemma group_mask_numeral: "group_mask b (numeral k) =
    (2 ^ b - 1) + 2 ^ (2 * b) * group_mask b (pred_numeral k)"
  by (simp add: numeral_eq_Suc)

lemma and_split: "(x::nat) AND y = (x mod 2 ^ n AND y mod 2 ^ n) + 2 ^ n * ((x div 2 ^ n) AND (y div 2 ^ n))"
proof -
  have "x AND y = push_bit n (drop_bit n (x AND y)) + take_bit n (x AND y)"
    by (rule bits_ident [symmetric])
  also have "\<dots> = 2 ^ n * (drop_bit n x AND drop_bit n y) + (take_bit n x AND take_bit n y)"
    by (simp only: take_bit_and drop_bit_and push_bit_eq_mult mult.commute)
  finally show ?thesis by (simp only: take_bit_eq_mod drop_bit_eq_div add.commute)
qed

lemma and_low_mask: "(x::nat) AND (2 ^ b - 1) = x mod 2 ^ b"
  by (metis mask_eq_exp_minus_1 take_bit_eq_mask take_bit_eq_mod)

lemma low_group: "(2::nat) ^ b - 1 < 2 ^ (2 * b)"
proof -
  have "(2::nat) ^ b \<le> 2 ^ (2 * b)" by (rule power_increasing) simp_all
  moreover have "(0::nat) < 2 ^ b" by simp
  ultimately show ?thesis by linarith
qed

lemma low_plus: "m < (B::nat) \<Longrightarrow> (m + B * q) mod B = m \<and> (m + B * q) div B = q"
  by simp

lemma and_group_mask:
  "x AND group_mask b (Suc k) = x mod 2 ^ b + 2 ^ (2 * b) * ((x div 2 ^ (2 * b)) AND group_mask b k)"
proof -
  have "x mod 2 ^ (2 * b) AND (2 ^ b - 1) = x mod 2 ^ b"
    by (simp only: and_low_mask) (simp add: mod_mod_cancel le_imp_power_dvd)
  moreover have "group_mask b (Suc k) mod 2 ^ (2 * b) = 2 ^ b - 1"
    "group_mask b (Suc k) div 2 ^ (2 * b) = group_mask b k"
    unfolding group_mask.simps using low_plus [OF low_group [of b]] by blast+
  ultimately show ?thesis
    by (subst and_split [of _ _ "2 * b"]) (simp only:)
qed

lemma pair_sum_Suc:
  "pair_sum b (Suc k) x =
     (x mod 2 ^ b + (x div 2 ^ b) mod 2 ^ b) + 2 ^ (2 * b) * pair_sum b k (x div 2 ^ (2 * b))"
proof -
  have "x div 2 ^ b div 2 ^ (2 * b) = x div 2 ^ (2 * b) div 2 ^ b"
    by (simp only: div_mult2_eq [symmetric] mult.commute)
  then show ?thesis
    unfolding pair_sum_def and_group_mask by (simp add: algebra_simps)
qed

lemma two_digits: "0 < b \<Longrightarrow> (x::nat) mod 2 ^ b + y mod 2 ^ b < 2 ^ (2 * b)"
proof -
  assume "0 < b"
  have "x mod 2 ^ b < 2 ^ b" "y mod 2 ^ b < 2 ^ b" by simp_all
  then have "x mod 2 ^ b + y mod 2 ^ b < 2 * 2 ^ b" by linarith
  also have "\<dots> = 2 ^ Suc b" by simp
  also have "(2::nat) ^ Suc b \<le> 2 ^ (2 * b)" using \<open>0 < b\<close> by (intro power_increasing) simp_all
  finally show ?thesis .
qed

lemma pair_sum_low:
  assumes "0 < b"
  shows "pair_sum b (Suc k) x mod 2 ^ (2 * b) = x mod 2 ^ b + (x div 2 ^ b) mod 2 ^ b"
    "pair_sum b (Suc k) x div 2 ^ (2 * b) = pair_sum b k (x div 2 ^ (2 * b))"
  using two_digits [OF assms, of x "x div 2 ^ b"] by (simp_all add: pair_sum_Suc)

lemma div_twice: "(x::nat) div 2 ^ b div 2 ^ b = x div 2 ^ (2 * b)"
  by (simp add: div_mult2_eq [symmetric] power_add [symmetric] mult_2)

lemma digit_sum_pair:
  assumes "0 < b"
  shows "digit_sum (2 * b) k (pair_sum b k x) = digit_sum b (2 * k) x"
proof (induction k arbitrary: x)
  case 0
  then show ?case by simp
next
  case (Suc k)
  have "2 * Suc k = Suc (Suc (2 * k))" by simp
  then show ?case
    unfolding digit_sum.simps pair_sum_low [OF assms] Suc by (simp add: div_twice)
qed

lemma digits_le_pair:
  assumes "0 < b"
  shows "digits_le b (2 * k) c x \<Longrightarrow> digits_le (2 * b) k (2 * c) (pair_sum b k x)"
proof (induction k arbitrary: x)
  case 0
  then show ?case by simp
next
  case (Suc k)
  have "2 * Suc k = Suc (Suc (2 * k))" by simp
  with Suc.prems have "x mod 2 ^ b \<le> c" "x div 2 ^ b mod 2 ^ b \<le> c"
    "digits_le b (2 * k) c (x div 2 ^ (2 * b))"
    by (simp_all add: div_twice)
  then show ?case
    unfolding digits_le.simps pair_sum_low [OF assms] using Suc.IH by simp
qed

lemma pair_sum_bound:
  assumes "0 < b" shows "pair_sum b k x < 2 ^ (2 * b * k)"
proof (induction k arbitrary: x)
  case 0
  then show ?case by (simp add: pair_sum_def)
next
  case (Suc k)
  let ?B = "(2::nat) ^ (2 * b)"
  have "pair_sum b (Suc k) x < ?B + ?B * pair_sum b k (x div ?B)"
    using two_digits [OF assms, of x "x div 2 ^ b"] by (simp add: pair_sum_Suc)
  also have "\<dots> = ?B * Suc (pair_sum b k (x div ?B))" by simp
  also have "\<dots> \<le> ?B * 2 ^ (2 * b * k)"
    using Suc [of "x div ?B"] by (intro mult_le_mono2) simp
  finally show ?case by (simp add: power_add)
qed

text \<open>The two shortcuts of the code: a subtraction for \<open>b = 1\<close>, one mask for \<open>b = 4\<close>.\<close>

lemma sub_shape:
  "q = a + 2 * b \<Longrightarrow> x = r + 2 * s + 4 * q \<Longrightarrow> xa = r + 4 * a \<Longrightarrow> ya = s + 4 * b \<Longrightarrow>
   x = xa + 2 * (ya::nat)"
  by simp

lemma sub_is_pair:
  "x < 2 ^ (2 * k) \<Longrightarrow> x = (x AND group_mask 1 k) + 2 * ((x div 2) AND group_mask 1 k)"
proof (induction k arbitrary: x)
  case 0
  then show ?case by simp
next
  case (Suc k)
  have d: "x div 2 div 4 = x div 4 div 2" by (simp add: div_mult2_eq [symmetric])
  have "x div 4 < 2 ^ (2 * k)" using Suc.prems by (simp add: less_mult_imp_div_less)
  from Suc.IH [OF this] have
    "x div 4 = (x div 4 AND group_mask 1 k) + 2 * ((x div 4 div 2) AND group_mask 1 k)" .
  moreover have "x = x mod 2 + 2 * (x div 2 mod 2) + 4 * (x div 4)" by presburger
  moreover have "x AND group_mask 1 (Suc k) = x mod 2 + 4 * ((x div 4) AND group_mask 1 k)"
    using and_group_mask [of x 1 k] by (simp del: group_mask.simps)
  moreover have "(x div 2) AND group_mask 1 (Suc k) = x div 2 mod 2 + 4 * ((x div 4 div 2) AND group_mask 1 k)"
    using and_group_mask [of "x div 2" 1 k] unfolding d [symmetric] by (simp del: group_mask.simps)
  ultimately show ?case by (rule sub_shape)
qed

lemma sum_shape:
  "x = e0 + 16 * y \<Longrightarrow> y = e1 + 16 * z \<Longrightarrow> z = e2 + 16 * w \<Longrightarrow>
   x + y = (e0 + e1) + 16 * (e1 + e2) + 256 * (z + (w::nat))"
  by simp

lemma one_mask_is_pair:
  "digits_le 4 (2 * k) 7 x \<Longrightarrow> (x + x div 16) AND group_mask 4 k = pair_sum 4 k x"
proof (induction k arbitrary: x)
  case 0
  then show ?case by (simp add: pair_sum_def)
next
  case (Suc k)
  have "2 * Suc k = Suc (Suc (2 * k))" by simp
  with Suc.prems have le: "x mod 16 \<le> 7" "x div 16 mod 16 \<le> 7"
    "digits_le 4 (2 * k) 7 (x div 256)"
    using div_twice [of x 4] by simp_all
  have third: "x div 256 mod 16 \<le> 7 \<or> k = 0"
    using le(3) by (cases k) simp_all
  show ?case
  proof (cases "k = 0")
    case True
    have "(x + x div 16) mod 16 = x mod 16 + (x div 16) mod 16"
      using le(1,2) by (subst mod_add_eq [symmetric]) simp
    then show ?thesis
      using True and_group_mask [of "x + x div 16" 4 0] and_group_mask [of x 4 0]
        and_group_mask [of "x div 16" 4 0]
      by (simp add: pair_sum_def)
  next
    case False
    have low: "(a + 16 * b + 256 * c) mod 16 = a" "(a + 16 * b + 256 * c) div 256 = c"
      if "a < 16" "b < 16" for a b c :: nat
    proof -
      have eq: "a + 16 * b + 256 * c = a + (b + 16 * c) * 16" by simp
      show "(a + 16 * b + 256 * c) mod 16 = a" unfolding eq mod_mult_self1 using that by simp
      have "a + 16 * b < 256" using that by simp
      then show "(a + 16 * b + 256 * c) div 256 = c" by simp
    qed
    have "x div 16 div 16 = x div 256" by (simp add: div_mult2_eq [symmetric])
    then have "x = x mod 16 + 16 * (x div 16)" "x div 16 = x div 16 mod 16 + 16 * (x div 256)"
      "x div 256 = x div 256 mod 16 + 16 * (x div 256 div 16)"
      using mod_mult_div_eq [of x 16] mod_mult_div_eq [of "x div 16" 16]
        mod_mult_div_eq [of "x div 256" 16] by simp_all
    then have shape: "x + x div 16 = (x mod 16 + x div 16 mod 16)
        + 16 * (x div 16 mod 16 + x div 256 mod 16) + 256 * (x div 256 + x div 256 div 16)"
      by (rule sum_shape)
    have small: "x mod 16 + x div 16 mod 16 < 16" "x div 16 mod 16 + x div 256 mod 16 < 16"
      using le(1,2) third False by linarith+
    have d: "(x + x div 16) mod 16 = x mod 16 + (x div 16) mod 16"
      "(x + x div 16) div 256 = x div 256 + x div 256 div 16"
      by (subst shape, rule low [OF small])+
    have "(x + x div 16) AND group_mask 4 (Suc k)
        = (x mod 16 + (x div 16) mod 16) + 256 * ((x div 256 + x div 256 div 16) AND group_mask 4 k)"
      using and_group_mask [of "x + x div 16" 4 k] d by simp
    also have "\<dots> = pair_sum 4 (Suc k) x"
      using Suc.IH [OF le(3)] pair_sum_Suc [of 4 k x] by simp
    finally show ?thesis .
  qed
qed

subsection \<open>The word computation\<close>

lemma group_masks:
  "group_mask 1 32 = 0x5555555555555555" "group_mask 2 16 = 0x3333333333333333"
  "group_mask 4 8 = 0x0f0f0f0f0f0f0f0f"
  by (simp_all add: group_mask_numeral)

lemma digits_one: "digits_le 1 k 1 x"
  by (induction k arbitrary: x) simp_all

lemma digits_le_mono: "digits_le b k c x \<Longrightarrow> c \<le> d \<Longrightarrow> digits_le b k d x"
  by (induction k arbitrary: x) auto

text \<open>Adding up eight bytes of at most 8 with three shifted additions.\<close>

lemma div_add_low: "a < (B::nat) \<Longrightarrow> (a + B * q) div B = q"
  by simp

lemma mod_add_low: "a < (B::nat) \<Longrightarrow> (a + B * q) mod B = a"
  by simp

lemma bytes_shape:
  assumes "digits_le 8 8 8 x" "x < 2 ^ 64"
  obtains e0 e1 e2 e3 e4 e5 e6 e7 where
    "x = e0 + 256 * (e1 + 256 * (e2 + 256 * (e3 + 256 * (e4 + 256 * (e5 + 256 * (e6 + 256 * e7))))))"
    "e0 \<le> 8" "e1 \<le> 8" "e2 \<le> 8" "e3 \<le> 8" "e4 \<le> 8" "e5 \<le> 8" "e6 \<le> 8" "e7 \<le> 8"
    "digit_sum 8 8 x = e0 + (e1 + (e2 + (e3 + (e4 + (e5 + (e6 + e7))))))"
proof -
  define d where "d i = x div 256 ^ i" for i
  have nxt: "d i div 256 = d (Suc i)" for i
    by (simp add: d_def div_mult2_eq [symmetric] mult.commute)
  have step: "d i = d i mod 256 + 256 * d (Suc i)" for i
    unfolding nxt [symmetric] by simp
  have x: "x = d 0" by (simp add: d_def)
  have le: "d 0 mod 256 \<le> 8" "d (Suc 0) mod 256 \<le> 8" "d (Suc (Suc 0)) mod 256 \<le> 8"
    "d (Suc (Suc (Suc 0))) mod 256 \<le> 8" "d (Suc (Suc (Suc (Suc 0)))) mod 256 \<le> 8"
    "d (Suc (Suc (Suc (Suc (Suc 0))))) mod 256 \<le> 8"
    "d (Suc (Suc (Suc (Suc (Suc (Suc 0)))))) mod 256 \<le> 8"
    "d (Suc (Suc (Suc (Suc (Suc (Suc (Suc 0))))))) mod 256 \<le> 8"
    using assms(1) unfolding x by (simp_all add: digits_le_numeral nxt)
  have "d (Suc (Suc (Suc (Suc (Suc (Suc (Suc (Suc 0)))))))) = 0"
    using assms(2) by (simp add: d_def)
  then have top: "d (Suc (Suc (Suc (Suc (Suc (Suc (Suc 0))))))) =
      d (Suc (Suc (Suc (Suc (Suc (Suc (Suc 0))))))) mod 256"
    using step [of "Suc (Suc (Suc (Suc (Suc (Suc (Suc 0))))))"] by simp
  have sum: "digit_sum 8 8 x = d 0 mod 256 + (d (Suc 0) mod 256 + (d (Suc (Suc 0)) mod 256
      + (d (Suc (Suc (Suc 0))) mod 256 + (d (Suc (Suc (Suc (Suc 0)))) mod 256
      + (d (Suc (Suc (Suc (Suc (Suc 0))))) mod 256
      + (d (Suc (Suc (Suc (Suc (Suc (Suc 0)))))) mod 256
      + d (Suc (Suc (Suc (Suc (Suc (Suc (Suc 0))))))) mod 256))))))"
    unfolding x by (simp add: digit_sum_numeral nxt)
  show thesis
    by (rule that [OF _ le sum], unfold x)
      (subst step, subst step [of "Suc 0"], subst step [of "Suc (Suc 0)"],
       subst step [of "Suc (Suc (Suc 0))"], subst step [of "Suc (Suc (Suc (Suc 0)))"],
       subst step [of "Suc (Suc (Suc (Suc (Suc 0))))"],
       subst step [of "Suc (Suc (Suc (Suc (Suc (Suc 0)))))"], subst top, simp)
qed

lemma byte_fold:
  assumes "digits_le 8 8 8 x" "x < 2 ^ 64"
  defines "y \<equiv> x + x div 2 ^ 8"
  defines "z \<equiv> y + y div 2 ^ 16"
  shows "y < 2 ^ 64" "z < 2 ^ 64" "z + z div 2 ^ 32 < 2 ^ 64"
    "(z + z div 2 ^ 32) mod 128 = digit_sum 8 8 x"
proof -
  obtain e0 e1 e2 e3 e4 e5 e6 e7 where x:
    "x = e0 + 256 * (e1 + 256 * (e2 + 256 * (e3 + 256 * (e4 + 256 * (e5 + 256 * (e6 + 256 * e7))))))"
    and le: "e0 \<le> 8" "e1 \<le> 8" "e2 \<le> 8" "e3 \<le> 8" "e4 \<le> 8" "e5 \<le> 8" "e6 \<le> 8" "e7 \<le> 8"
    and sum: "digit_sum 8 8 x = e0 + (e1 + (e2 + (e3 + (e4 + (e5 + (e6 + e7))))))"
    by (rule bytes_shape [OF assms(1,2)])
  have "x div 2 ^ 8 = e1 + 256 * (e2 + 256 * (e3 + 256 * (e4 + 256 * (e5 + 256 * (e6 + 256 * e7)))))"
    unfolding x using le by simp
  then have y: "y = (e0 + e1) + 256 * (e1 + e2) + 65536 * ((e2 + e3) + 256 * ((e3 + e4) +
      256 * ((e4 + e5) + 256 * ((e5 + e6) + 256 * ((e6 + e7) + 256 * e7)))))"
    unfolding y_def using x by simp
  have "y div 65536 = (e2 + e3) + 256 * ((e3 + e4) + 256 * ((e4 + e5) + 256 * ((e5 + e6) +
      256 * ((e6 + e7) + 256 * e7))))"
    unfolding y by (rule div_add_low) (rule le_less_trans [of _ 4112], use le in simp_all)
  then have z: "z = ((e0 + e1 + e2 + e3) + 256 * ((e1 + e2 + e3 + e4) + 256 * ((e2 + e3 + e4 + e5) +
      256 * (e3 + e4 + e5 + e6)))) + 4294967296 * ((e4 + e5 + e6 + e7) + 256 * ((e5 + e6 + e7) +
      256 * ((e6 + e7) + 256 * e7)))"
    unfolding z_def using y by simp
  have "z div 4294967296 = (e4 + e5 + e6 + e7) + 256 * ((e5 + e6 + e7) + 256 * ((e6 + e7) + 256 * e7))"
    unfolding z by (rule div_add_low) (use le in simp)
  then have w: "z + z div 2 ^ 32 = (e0 + (e1 + (e2 + (e3 + (e4 + (e5 + (e6 + e7))))))) + 128 * (2 *
      ((e1 + e2 + e3 + e4 + e5 + e6 + e7) + 256 * ((e2 + e3 + e4 + e5 + e6 + e7) +
      256 * ((e3 + e4 + e5 + e6 + e7) + 256 * ((e4 + e5 + e6 + e7) + 256 * ((e5 + e6 + e7) +
      256 * ((e6 + e7) + 256 * e7)))))))"
    using z by simp
  show "(z + z div 2 ^ 32) mod 128 = digit_sum 8 8 x"
    unfolding w sum by (rule mod_add_low) (use le in simp)
  show "y < 2 ^ 64" unfolding y using le by simp
  show "z < 2 ^ 64" unfolding z using le by simp
  show "z + z div 2 ^ 32 < 2 ^ 64" unfolding w using le by simp
qed

lemma bit_nat_less: "bit (x::nat) n \<Longrightarrow> n < x"
proof -
  assume "bit x n"
  then have "0 < x div 2 ^ n" by (auto simp: bit_iff_odd intro: odd_pos)
  then have "2 ^ n \<le> x" by (simp add: div_greater_zero_iff)
  moreover have "n < 2 ^ n" by (rule less_exp)
  ultimately show ?thesis by linarith
qed

lemma digit_sum_one: "x < 2 ^ k \<Longrightarrow> digit_sum 1 k x = card {n. bit x n}"
proof (induction k arbitrary: x)
  case 0
  then show ?case by simp
next
  case (Suc k)
  have fin: "finite {n. bit y n}" for y :: nat
    using finite_subset [of "{n. bit y n}" "{..<y}"] by (auto dest: bit_nat_less)
  have "{n. bit x n} = (if odd x then {0} else {}) \<union> Suc ` {n. bit (x div 2) n}"
  proof (rule set_eqI)
    fix n show "n \<in> {n. bit x n} \<longleftrightarrow> n \<in> (if odd x then {0} else {}) \<union> Suc ` {n. bit (x div 2) n}"
      by (cases n) (auto simp: bit_0 bit_Suc)
  qed
  moreover have "card (Suc ` {n. bit (x div 2) n}) = card {n. bit (x div 2) n}"
    by (rule card_image) simp
  ultimately have "card {n. bit x n} = x mod 2 + card {n. bit (x div 2) n}"
    using fin [of "x div 2"] by (simp add: card_insert_disjoint odd_iff_mod_2_eq_one
        even_iff_mod_2_eq_zero)
  with Suc.IH [of "x div 2"] Suc.prems show ?case by simp
qed

lemma pop_unat: "pop w = digit_sum 1 64 (unat w)"
proof -
  have "unat w < 2 ^ 64" using unsigned_less [of w] by simp
  then have "digit_sum 1 64 (unat w) = card {n. bit (unat w) n}" by (rule digit_sum_one)
  then show ?thesis by (simp add: pop_def bit_unsigned_iff)
qed

lemma count_bits_pop: "count_bits v = pop v"
proof -
  define v1 where "v1 = v - (drop_bit 1 v AND 0x5555555555555555)"
  define v2 where "v2 = (v1 AND 0x3333333333333333) + (drop_bit 2 v1 AND 0x3333333333333333)"
  define v3 where "v3 = (v2 + drop_bit 4 v2) AND 0x0f0f0f0f0f0f0f0f"
  define v4 where "v4 = v3 + drop_bit 8 v3"
  define v5 where "v5 = v4 + drop_bit 16 v4"
  define v6 where "v6 = v5 + drop_bit 32 v5"
  have lt: "unat w < 2 ^ 64" for w :: "64 word" using unsigned_less [of w] by simp
  have dr: "unat (drop_bit n w) = unat w div 2 ^ n" for n and w :: "64 word"
    by (simp only: unat_drop_bit_eq) (simp only: drop_bit_eq_div)
  have plus: "unat (a + b) = unat a + unat b" if "unat a + unat b < 2 ^ 64" for a b :: "64 word"
    using that by (simp add: unat_word_ariths)
  have m: "unat (0x5555555555555555 :: 64 word) = group_mask 1 32"
    "unat (0x3333333333333333 :: 64 word) = group_mask 2 16"
    "unat (0x0f0f0f0f0f0f0f0f :: 64 word) = group_mask 4 8"
    unfolding group_masks by simp_all
  have u1: "unat v1 = pair_sum 1 32 (unat v)"
  proof -
    have split: "unat v = (unat v AND group_mask 1 32) + 2 * ((unat v div 2) AND group_mask 1 32)"
      by (rule sub_is_pair) (use lt [of v] in simp)
    have "unat (drop_bit 1 v AND 0x5555555555555555) = (unat v div 2) AND group_mask 1 32"
      unfolding unsigned_and_eq m dr by simp
    moreover from this split have "drop_bit 1 v AND 0x5555555555555555 \<le> v"
      by (simp add: word_le_nat_alt)
    ultimately have "unat v1 = unat v - ((unat v div 2) AND group_mask 1 32)"
      unfolding v1_def by (simp add: unat_sub)
    with split show ?thesis by (simp add: pair_sum_def)
  qed
  have u2: "unat v2 = pair_sum 2 16 (unat v1)"
  proof -
    have "unat (v1 AND 0x3333333333333333) + unat (drop_bit 2 v1 AND 0x3333333333333333)
        = pair_sum 2 16 (unat v1)"
      unfolding unsigned_and_eq m dr pair_sum_def by simp
    moreover have "pair_sum 2 16 (unat v1) < 2 ^ 64" using pair_sum_bound [of 2 16] by simp
    ultimately show ?thesis unfolding v2_def by (simp add: plus)
  qed
  have le1: "digits_le 2 32 2 (unat v1)"
    using digits_le_pair [of 1 32 1 "unat v"] digits_one [of 64] unfolding u1 by simp
  have le2: "digits_le 4 16 4 (unat v2)"
    using digits_le_pair [of 2 16 2 "unat v1"] le1 unfolding u2 by simp
  have u3: "unat v3 = pair_sum 4 8 (unat v2)"
  proof -
    have "digits_le 4 16 7 (unat v2)" using le2 by (rule digits_le_mono) simp
    then have "(unat v2 + unat v2 div 16) AND group_mask 4 8 = pair_sum 4 8 (unat v2)"
      using one_mask_is_pair [of 8] by simp
    moreover have "unat (v2 + drop_bit 4 v2) = unat v2 + unat v2 div 16"
    proof -
      have "unat v2 div 2 ^ 60 \<le> 4"
        using le2 by (simp add: digits_le_numeral div_mult2_eq [symmetric]) (use lt [of v2] in simp)
      then have "unat v2 + unat v2 div 16 < 2 ^ 64" by simp
      then show ?thesis by (subst plus) (simp_all add: dr)
    qed
    ultimately show ?thesis unfolding v3_def unsigned_and_eq m by simp
  qed
  have le3: "digits_le 8 8 8 (unat v3)"
    using digits_le_pair [of 4 8 4 "unat v2"] le2 unfolding u3 by simp
  note fold = byte_fold [OF le3 lt]
  have u4: "unat v4 = unat v3 + unat v3 div 2 ^ 8"
    unfolding v4_def by (subst plus) (use fold(1) in \<open>simp_all add: dr\<close>)
  have u5: "unat v5 = unat v4 + unat v4 div 2 ^ 16"
    unfolding v5_def by (subst plus) (use fold(2) in \<open>simp_all add: dr u4\<close>)
  have u6: "unat v6 = unat v5 + unat v5 div 2 ^ 32"
    unfolding v6_def by (subst plus) (use fold(3) in \<open>simp_all add: dr u5 u4\<close>)
  have "count_bits v = unat (v6 AND 0x7f)"
    unfolding count_bits_def Let_def v6_def v5_def v4_def v3_def v2_def v1_def ..
  also have "\<dots> = unat v6 mod 128"
    using and_low_mask [of "unat v6" 7] by (simp add: unsigned_and_eq)
  also have "\<dots> = digit_sum 8 8 (unat v3)" unfolding u6 u5 u4 by (rule fold(4))
  also have "\<dots> = pop v"
    unfolding u3 u2 u1 pop_unat
    using digit_sum_pair [of 4 8] digit_sum_pair [of 2 16] digit_sum_pair [of 1 32] by simp
  finally show ?thesis .
qed

subsection \<open>Laws of the number of set bits\<close>

lemma word64_bit: "bit (w :: 64 word) n \<Longrightarrow> n < 64"
  by (drule bit_imp_le_length) simp

lemma pop_finite: "finite {n. bit (w :: 64 word) n}"
  by (rule finite_subset [of _ "{..<64}"]) (auto dest: bit_imp_le_length)

lemma pop_0 [simp]: "pop 0 = 0"
  by (simp add: pop_def)

lemma pop_or: "a AND b = 0 \<Longrightarrow> pop (a OR b) = pop a + pop b"
proof -
  assume "a AND b = 0"
  then have "{n. bit a n} \<inter> {n. bit b n} = {}"
    by (simp add: bit_eq_iff bit_simps disjoint_iff) (blast dest: word64_bit)
  moreover have "{n. bit (a OR b) n} = {n. bit a n} \<union> {n. bit b n}" by (auto simp: bit_simps)
  ultimately show ?thesis by (simp add: pop_def card_Un_disjoint pop_finite)
qed

lemma pop_diff: "a AND b = b \<Longrightarrow> pop (a AND NOT b) + pop b = pop a"
proof -
  assume ab: "a AND b = b"
  have "(a AND NOT b) AND b = 0" by (simp add: bit_eq_iff bit_simps)
  moreover have "(a AND NOT b) OR b = a"
    using ab by (auto simp: bit_eq_iff bit_simps)
  ultimately show ?thesis using pop_or [of "a AND NOT b" b] by simp
qed

lemma pop_not: "pop (NOT a) + pop a = 64"
proof -
  have "{n. bit (NOT a) n} = {..<64} - {n. bit a n}" by (auto simp: bit_simps)
  moreover have "{n. bit a n} \<subseteq> {..<64}" by (auto dest: bit_imp_le_length)
  ultimately show ?thesis
    by (simp add: pop_def card_Diff_subset pop_finite) (metis card_lessThan card_mono
        finite_lessThan le_add_diff_inverse2)
qed

lemma pop_full [simp]: "pop (NOT 0) = 64"
  using pop_not [of 0] by simp

lemma pop_zero_iff: "pop w = 0 \<longleftrightarrow> w = 0"
proof -
  have "pop w = 0 \<longleftrightarrow> (\<forall>n. \<not> bit w n)" using pop_finite [of w] by (simp add: pop_def)
  also have "\<dots> \<longleftrightarrow> w = 0" by (auto simp: bit_eq_iff [of w 0] dest: word64_bit)
  finally show ?thesis .
qed

text \<open>The parallel bit count, with its masks and shifted additions, is the number of bits set in
  the word, for every 64-bit word.\<close>
theorem count_bits_correct: "count_bits w = card {n. bit w n}"
  using count_bits_pop by (simp add: pop_def)

end
