(* ===== verification/Solution.thy ===== *)
theory Solution
  imports BitCount
begin

unbundle bit_operations_syntax

text \<open>
  The solver behind on-line data reduction, from \<open>src/src/trackmask.h\<close> and
  \<open>src/src/trackmask.cc\<close>. A track mask says which bits of every 64-bit word must be kept. A
  solution is a list of steps, each moving bits of a source word (taken from the end of the
  data) into the free places of a destination word (at its begin); masks say which source bits
  are still to move and which destination bits are taken. The \<open>quality\<close> of a solution is
  floating-point arithmetic used to order a set of candidate solutions; the code generates one
  candidate at a time (see \<open>partial_solve_singleton\<close>), so the order never matters and the quality
  is left out. An assertion or exception is a value of \<open>sol_error\<close>.
\<close>

type_synonym data_type = "64 word"

definition trackmask_empty :: data_type where "trackmask_empty = 0"
definition trackmask_full :: data_type where "trackmask_full = NOT 0"

subsection \<open>Steps\<close>

record step_type =
  st_shift :: int
  st_inc_dst :: bool
  st_dec_src :: bool
  st_mask_from :: data_type
  st_mask_to :: data_type
  st_bits_moved :: nat

definition step_new :: "data_type \<Rightarrow> data_type \<Rightarrow> int \<Rightarrow> step_type" where
  "step_new mask_f mask_t s =
     \<lparr>st_shift = s, st_inc_dst = False, st_dec_src = False, st_mask_from = mask_f,
      st_mask_to = mask_t, st_bits_moved = count_bits mask_f\<rparr>"

definition step_mark :: "step_type \<Rightarrow> bool \<Rightarrow> bool \<Rightarrow> step_type" where
  "step_mark other src dst = other\<lparr>st_inc_dst := dst, st_dec_src := src\<rparr>"

definition step_bool :: "step_type \<Rightarrow> bool" where
  "step_bool s \<longleftrightarrow> st_mask_from s \<noteq> trackmask_empty"

subsection \<open>Solutions\<close>

record solution =
  sol_full_cycle :: bool
  sol_mask_in :: data_type
  sol_mask_out :: data_type
  sol_trackmask :: data_type
  sol_steps :: "step_type list"
  sol_n_dstinc :: nat
  sol_n_srcdec :: nat
  sol_n_bits_moved :: nat

datatype sol_error = Sol_Assertion | Sol_Complete | From_Missing | To_Taken | Off_End | Out_Of_Fuel

definition solution_empty :: solution where
  "solution_empty =
     \<lparr>sol_full_cycle = True, sol_mask_in = trackmask_empty, sol_mask_out = trackmask_empty,
      sol_trackmask = trackmask_empty, sol_steps = [], sol_n_dstinc = 0, sol_n_srcdec = 0,
      sol_n_bits_moved = 0\<rparr>"

definition solution_two :: "data_type \<Rightarrow> data_type \<Rightarrow> solution" where
  "solution_two bitstomove bitstokeep =
     \<lparr>sol_full_cycle = (bitstomove = bitstokeep), sol_mask_in = bitstomove,
      sol_mask_out = bitstokeep, sol_trackmask = bitstokeep, sol_steps = [],
      sol_n_dstinc = 0, sol_n_srcdec = 0, sol_n_bits_moved = 0\<rparr>"

definition solution_new :: "data_type \<Rightarrow> solution" where
  "solution_new bitstokeep = solution_two bitstokeep bitstokeep"

definition sol_complete :: "solution \<Rightarrow> bool" where
  "sol_complete s \<longleftrightarrow> sol_mask_in s = trackmask_empty
     \<and> (if sol_full_cycle s then sol_mask_out s = trackmask_full else True)"

definition sol_bool :: "solution \<Rightarrow> bool" where
  "sol_bool s \<longleftrightarrow> length (sol_steps s) > 0"

definition sol_cycle :: "solution \<Rightarrow> nat" where
  "sol_cycle s = sol_n_srcdec s + sol_n_dstinc s"

definition sol_compressed_cycle :: "solution \<Rightarrow> nat" where
  "sol_compressed_cycle s = sol_n_dstinc s"

text \<open>\<open>operator==\<close>\<close>

definition sol_equal :: "solution \<Rightarrow> solution \<Rightarrow> bool" where
  "sol_equal a b \<longleftrightarrow> sol_mask_in a = sol_mask_in b \<and> sol_mask_out a = sol_mask_out b
     \<and> sol_n_bits_moved a = sol_n_bits_moved b \<and> length (sol_steps a) = length (sol_steps b)"

text \<open>
  The loops of \<open>outputsize\<close> and \<open>inputsize\<close> over the remaining words: the steps not yet done,
  whether the last step done filled a destination (\<open>None\<close> before any step), and the count.
  Running past the last step is an error.
\<close>

fun out_steps :: "step_type list \<Rightarrow> bool option \<Rightarrow> nat \<Rightarrow> nat \<Rightarrow> sol_error + bool option \<times> nat" where
  "out_steps steps prev 0 opsize = Inr (prev, opsize)"
| "out_steps [] prev (Suc r) opsize = Inl Off_End"
| "out_steps (s # steps) prev (Suc r) opsize =
     out_steps steps (Some (st_inc_dst s))
       (if st_inc_dst s \<or> st_dec_src s then r else Suc r)
       (if st_inc_dst s then u32_add opsize 1 else opsize)"

definition outputsize :: "solution \<Rightarrow> nat \<Rightarrow> sol_error + nat" where
  "outputsize s insize =
     (let dutycycle = sol_cycle s
      in if \<not> (sol_complete s \<and> dutycycle > 0) then Inl Sol_Assertion
         else (case out_steps (sol_steps s) None (insize mod dutycycle)
                      (u32_mul (insize div dutycycle) (sol_n_dstinc s)) of
                 Inl e \<Rightarrow> Inl e
               | Inr (prev, opsize) \<Rightarrow>
                   Inr (if prev = Some False then u32_add opsize 1 else opsize)))"

fun in_steps :: "step_type list \<Rightarrow> bool option \<Rightarrow> nat \<Rightarrow> nat \<Rightarrow> sol_error + bool option \<times> nat" where
  "in_steps steps prev 0 ipsize = Inr (prev, ipsize)"
| "in_steps [] prev (Suc r) ipsize = Inl Off_End"
| "in_steps (s # steps) prev (Suc r) ipsize =
     (let i1 = (if st_dec_src s then u32_add ipsize 1 else ipsize)
      in in_steps steps (Some (st_inc_dst s)) (if st_inc_dst s then r else Suc r)
           (if st_inc_dst s then u32_add i1 1 else i1))"

definition inputsize :: "solution \<Rightarrow> nat \<Rightarrow> sol_error + nat" where
  "inputsize s outsize =
     (let dutycycle = sol_cycle s
      in if \<not> dutycycle > 0 then Inl Sol_Assertion
         else if \<not> sol_n_dstinc s > 0 then Inl Sol_Assertion
         else (case in_steps (sol_steps s) None (outsize mod sol_n_dstinc s)
                      (u32_mul (outsize div sol_n_dstinc s) dutycycle) of
                 Inl e \<Rightarrow> Inl e
               | Inr (prev, ipsize) \<Rightarrow>
                   Inr (if prev = Some False then u32_add ipsize 1 else ipsize)))"

text \<open>\<open>add_step\<close>\<close>

definition add_step :: "solution \<Rightarrow> step_type \<Rightarrow> sol_error + solution" where
  "add_step s0 st =
     (if sol_complete s0 then Inl Sol_Complete
      else if sol_mask_in s0 AND st_mask_from st \<noteq> st_mask_from st then Inl From_Missing
      else if NOT (sol_mask_out s0) AND st_mask_to st \<noteq> st_mask_to st then Inl To_Taken
      else
        let s = s0\<lparr>sol_mask_in := sol_mask_in s0 AND NOT (st_mask_from st),
                   sol_mask_out := sol_mask_out s0 OR st_mask_to st\<rparr>;
            dst_full = (sol_mask_out s = trackmask_full);
            src_empty = (sol_mask_in s = trackmask_empty);
            reset_mask_in = (src_empty \<and> \<not> sol_complete s);
            reset_mask_out = (dst_full \<and> \<not> sol_complete s)
        in Inr (s\<lparr>sol_n_dstinc := (if dst_full then sol_n_dstinc s + 1 else sol_n_dstinc s),
                  sol_n_srcdec := (if src_empty then sol_n_srcdec s + 1 else sol_n_srcdec s),
                  sol_mask_in := (if reset_mask_in then sol_trackmask s else sol_mask_in s),
                  sol_mask_out := (if reset_mask_out then sol_trackmask s else sol_mask_out s),
                  sol_n_bits_moved := sol_n_bits_moved s + st_bits_moved st,
                  sol_steps := sol_steps s @ [step_mark st src_empty dst_full]\<rparr>))"

subsection \<open>Candidate steps\<close>

text \<open>\<open>multiset::insert\<close> ordered by the number of bits moved, most first; equals keep their order.\<close>

fun step_insert :: "step_type \<Rightarrow> step_type list \<Rightarrow> step_type list" where
  "step_insert s [] = [s]"
| "step_insert s (x # xs) =
     (if st_bits_moved s > st_bits_moved x then s # x # xs else x # step_insert s xs)"

text \<open>The two loops that shift the source right and left; the measures are the shifts left.\<close>

lemma drop_bit_less: "w \<noteq> 0 \<Longrightarrow> unat (drop_bit 1 w) < unat (w :: 64 word)"
proof -
  assume "w \<noteq> 0"
  then have "0 < unat w" by (simp add: unat_gt_0)
  then have "unat w div 2 < unat w" by simp
  then show ?thesis by (simp add: drop_bit_eq_div unat_div)
qed

function right_shifts :: "data_type \<Rightarrow> data_type \<Rightarrow> nat \<Rightarrow> step_type list \<Rightarrow> step_type list" where
  "right_shifts notdest ssrc n steps =
     (if ssrc = 0 then steps
      else
        let tmp = ssrc AND notdest
        in right_shifts notdest (drop_bit 1 ssrc) (n + 1)
             (if tmp \<noteq> 0 then step_insert (step_new (push_bit n tmp) tmp (- int n)) steps
              else steps))"
  by pat_completeness auto
termination
  by (relation "measure (\<lambda>(_, ssrc, _). unat ssrc)") (simp_all add: drop_bit_less [unfolded One_nat_def])

declare right_shifts.simps [simp del]

definition low_bit :: "data_type \<Rightarrow> nat" where
  "low_bit w = (LEAST n. bit w n)"

lemma low_bit_push: "push_bit 1 w \<noteq> 0 \<Longrightarrow> 64 - low_bit (push_bit 1 w) < 64 - low_bit w"
proof -
  assume "push_bit 1 w \<noteq> 0"
  then have ex: "\<exists>n. bit (push_bit 1 w) n" by (metis bit_0_eq bit_eq_iff bot_apply bot_bool_def)
  let ?n = "low_bit (push_bit 1 w)"
  have b: "bit (push_bit 1 w) ?n" unfolding low_bit_def by (rule LeastI_ex [OF ex])
  then have n: "?n < 64" "0 < ?n" "bit w (?n - 1)"
    unfolding bit_push_bit_iff by (simp_all add: possible_bit_word)
  have "low_bit w \<le> ?n - 1" unfolding low_bit_def [of w] by (rule Least_le) (rule n(3))
  with n show ?thesis by linarith
qed

definition left_measure :: "data_type \<Rightarrow> nat" where
  "left_measure w = (if w = 0 then 0 else 65 - low_bit w)"

lemma left_measure_less: "w \<noteq> 0 \<Longrightarrow> left_measure (push_bit 1 w) < left_measure w"
proof -
  assume w: "w \<noteq> 0"
  then have "\<exists>n. bit w n" by (metis bit_0_eq bit_eq_iff bot_apply bot_bool_def)
  then have "bit w (low_bit w)" unfolding low_bit_def by (rule LeastI_ex)
  then have "low_bit w < 64" using bit_imp_le_length by force
  then show ?thesis using w low_bit_push [of w] by (auto simp: left_measure_def)
qed

function left_shifts :: "data_type \<Rightarrow> data_type \<Rightarrow> nat \<Rightarrow> step_type list \<Rightarrow> step_type list" where
  "left_shifts notdest ssrc n steps =
     (if ssrc = 0 then steps
      else
        let tmp = ssrc AND notdest
        in left_shifts notdest (push_bit 1 ssrc) (n + 1)
             (if tmp \<noteq> 0 then step_insert (step_new (drop_bit n tmp) tmp (int n)) steps
              else steps))"
  by pat_completeness auto
termination
  by (relation "measure (\<lambda>(_, ssrc, _). left_measure ssrc)") (simp_all add: left_measure_less [simplified])

declare left_shifts.simps [simp del]

definition possible_steps :: "solution \<Rightarrow> step_type list" where
  "possible_steps s =
     (let source = sol_mask_in s; notdest = NOT (sol_mask_out s)
      in left_shifts notdest source 0 (right_shifts notdest (drop_bit 1 source) 1 []))"

text \<open>
  With \<open>onlyfirst\<close> set, only the first of the possible steps is taken. (On an empty multiset
  the code dereferences its end; \<open>possible_steps_ne\<close> shows that this does not happen.)
\<close>

definition possibilities :: "solution \<Rightarrow> sol_error + solution list" where
  "possibilities s =
     (case possible_steps s of
        [] \<Rightarrow> Inl Off_End
      | st # _ \<Rightarrow> (case add_step s st of Inl e \<Rightarrow> Inl e | Inr s' \<Rightarrow> Inr [s']))"

subsection \<open>Solving and sanitizing\<close>

text \<open>\<open>find_eligible_ranges\<close>: half-open index ranges.\<close>

definition eligible :: "step_type \<Rightarrow> bool" where
  "eligible s \<longleftrightarrow> \<not> (st_dec_src s \<or> st_inc_dst s)"

definition find_eligible :: "step_type list \<Rightarrow> nat \<Rightarrow> nat" where
  "find_eligible steps p = p + length (takeWhile (\<lambda>s. \<not> eligible s) (drop p steps))"

function eligible_ranges :: "step_type list \<Rightarrow> nat \<Rightarrow> (nat \<times> nat) list" where
  "eligible_ranges steps p =
     (if p < length steps
      then
        let q0 = p + 1 + length (takeWhile eligible (drop (p + 1) steps));
            q = (if q0 \<noteq> length steps then q0 + 1 else q0)
        in (if q \<noteq> length steps then [(p, q)] else [])
           @ eligible_ranges steps (find_eligible steps q)
      else [])"
  by pat_completeness auto
termination
  by (relation "measure (\<lambda>(steps, p). length steps - p)") (auto simp: find_eligible_def)

declare eligible_ranges.simps [simp del]

definition find_eligible_ranges :: "step_type list \<Rightarrow> (nat \<times> nat) list" where
  "find_eligible_ranges steps = eligible_ranges steps (find_eligible steps 0)"

text \<open>
  \<open>partial_solve\<close>: \<open>left\<close> expansions are still allowed; \<open>san\<close> is \<open>sanitize\<close>, with which it is
  mutually recursive.
\<close>

fun concat_results :: "(sol_error + 'a list) list \<Rightarrow> sol_error + 'a list" where
  "concat_results [] = Inr []"
| "concat_results (Inl e # _) = Inl e"
| "concat_results (Inr xs # rs) =
     (case concat_results rs of Inl e \<Rightarrow> Inl e | Inr ys \<Rightarrow> Inr (xs @ ys))"

fun partial_solve :: "(solution \<Rightarrow> sol_error + solution) \<Rightarrow> nat \<Rightarrow> solution \<Rightarrow>
    sol_error + solution list" where
  "partial_solve san 0 s = (case san s of Inl e \<Rightarrow> Inl e | Inr s' \<Rightarrow> Inr [s'])"
| "partial_solve san (Suc left) s =
     (if sol_complete s then (case san s of Inl e \<Rightarrow> Inl e | Inr s' \<Rightarrow> Inr [s'])
      else (case possibilities s of
              Inl e \<Rightarrow> Inl e
            | Inr ss \<Rightarrow> concat_results (map (partial_solve san left) ss)))"

definition range_masks :: "step_type list \<Rightarrow> data_type \<times> data_type" where
  "range_masks steps =
     fold (\<lambda>s (from, to). (from OR st_mask_from s, to OR st_mask_to s)) steps (0, 0)"

text \<open>The loop of \<open>sanitize\<close> over the ranges; \<open>lastptr\<close> is the index up to which steps are copied.\<close>

fun sanitize_ranges :: "(solution \<Rightarrow> sol_error + solution list) \<Rightarrow> step_type list \<Rightarrow>
    (nat \<times> nat) list \<Rightarrow> nat \<Rightarrow> sol_error + step_type list" where
  "sanitize_ranges resolve steps [] lastptr = Inr (drop lastptr steps)"
| "sanitize_ranges resolve steps ((p, q) # ranges) lastptr =
     (let (from, to) = range_masks (chunk p (q - p) steps)
      in case resolve (solution_two from (NOT to)) of
           Inl e \<Rightarrow> Inl e
         | Inr sols \<Rightarrow>
             let new = (case sols of
                          [] \<Rightarrow> chunk p (q - p) steps
                        | sout # _ \<Rightarrow>
                            let origlast = steps ! (q - 1); ss = sol_steps sout
                            in butlast ss @ [step_mark (List.last ss) (st_dec_src origlast)
                                               (st_inc_dst origlast)])
             in (case sanitize_ranges resolve steps ranges q of
                   Inl e \<Rightarrow> Inl e
                 | Inr rest \<Rightarrow> Inr (chunk lastptr (p - lastptr) steps @ new @ rest)))"

text \<open>The first argument bounds the nesting of \<open>sanitize\<close> inside \<open>partial_solve\<close> inside it.\<close>

primrec sanitize :: "nat \<Rightarrow> solution \<Rightarrow> sol_error + solution" where
  "sanitize 0 s = Inl Out_Of_Fuel"
| "sanitize (Suc n) s =
     (let steps = sol_steps s; ranges = find_eligible_ranges steps
      in if ranges = [] then Inr s
         else (case sanitize_ranges (partial_solve (sanitize n) 4) steps ranges 0 of
                 Inl e \<Rightarrow> Inl e
               | Inr newsteps \<Rightarrow>
                   Inr (if length newsteps < length steps then s\<lparr>sol_steps := newsteps\<rparr> else s)))"

definition nesting :: nat where "nesting = 4"

text \<open>\<open>solve\<close>: at most \<open>niter\<close> rounds, 500 candidates kept after each.\<close>

fun solve_loop :: "nat \<Rightarrow> solution list \<Rightarrow> sol_error + solution list" where
  "solve_loop 0 p = Inr p"
| "solve_loop (Suc niter) p =
     (if (\<exists>s\<in>set p. sol_complete s) \<or> p = [] then Inr p
      else (case concat_results (map (partial_solve (sanitize nesting) 3) p) of
              Inl e \<Rightarrow> Inl e
            | Inr tmp \<Rightarrow> solve_loop niter (take 500 tmp)))"

definition solve_from :: "solution \<Rightarrow> nat \<Rightarrow> sol_error + solution" where
  "solve_from s niter =
     (case solve_loop niter [s] of
        Inl e \<Rightarrow> Inl e
      | Inr p \<Rightarrow> Inr (if \<exists>s\<in>set p. sol_complete s then hd p else solution_empty))"

definition solve :: "data_type \<Rightarrow> sol_error + solution" where
  "solve trackmask = solve_from (solution_new trackmask) 100"

subsection \<open>Moving bits\<close>

text \<open>
  A step is well formed when its destination bits are its source bits shifted, none falling
  off, and its count is their number.
\<close>

definition shift_word :: "int \<Rightarrow> data_type \<Rightarrow> data_type" where
  "shift_word s w = (if 0 \<le> s then push_bit (nat s) w else drop_bit (nat (- s)) w)"

definition step_ok :: "step_type \<Rightarrow> bool" where
  "step_ok st \<longleftrightarrow> st_mask_to st = shift_word (st_shift st) (st_mask_from st)
     \<and> pop (st_mask_to st) = pop (st_mask_from st) \<and> st_bits_moved st = pop (st_mask_from st)
     \<and> st_mask_from st \<noteq> 0"

definition sol_inv :: "solution \<Rightarrow> bool" where
  "sol_inv s \<longleftrightarrow> sol_full_cycle s \<and> sol_trackmask s \<noteq> 0 \<and> sol_trackmask s \<noteq> trackmask_full
     \<and> (if sol_complete s
        then sol_n_bits_moved s = pop (sol_trackmask s) * sol_n_srcdec s
           \<and> sol_n_bits_moved s = (64 - pop (sol_trackmask s)) * sol_n_dstinc s
        else sol_n_bits_moved s + pop (sol_mask_in s) = pop (sol_trackmask s) * (sol_n_srcdec s + 1)
           \<and> sol_mask_in s \<noteq> 0 \<and> sol_mask_out s \<noteq> trackmask_full
           \<and> sol_n_bits_moved s + pop (sol_trackmask s) =
               (64 - pop (sol_trackmask s)) * sol_n_dstinc s + pop (sol_mask_out s))"

lemma pop_le_64: "pop w \<le> 64"
  using pop_not [of w] by linarith

lemma pop_full_iff: "pop w = 64 \<longleftrightarrow> w = NOT 0"
proof
  assume "pop w = 64"
  then have "NOT w = 0" using pop_not [of w] pop_zero_iff [of "NOT w"] by simp
  then show "w = NOT 0" by (metis bit.double_compl)
qed (simp only: pop_full)

lemma sol_inv_new: "m \<noteq> 0 \<Longrightarrow> m \<noteq> NOT 0 \<Longrightarrow> sol_inv (solution_new m)"
  by (auto simp: sol_inv_def solution_new_def solution_two_def sol_complete_def
      trackmask_empty_def trackmask_full_def)

lemma add_step_inv:
  assumes inv: "sol_inv s" and st: "step_ok st" and add: "add_step s st = Inr s'"
  shows "sol_inv s'"
proof -
  let ?k = "pop (sol_trackmask s)" and ?b = "pop (st_mask_from st)"
  have nc: "\<not> sol_complete s" and sub: "sol_mask_in s AND st_mask_from st = st_mask_from st"
    and free: "NOT (sol_mask_out s) AND st_mask_to st = st_mask_to st"
    using add by (auto simp: add_step_def split: if_splits)
  have i: "sol_full_cycle s" "sol_trackmask s \<noteq> 0" "sol_trackmask s \<noteq> NOT 0"
    "sol_n_bits_moved s + pop (sol_mask_in s) = ?k * (sol_n_srcdec s + 1)"
    "sol_n_bits_moved s + ?k = (64 - ?k) * sol_n_dstinc s + pop (sol_mask_out s)"
    using inv nc by (simp_all add: sol_inv_def trackmask_full_def)
  have k: "0 < ?k" "?k < 64"
    using i(2,3) pop_zero_iff [of "sol_trackmask s"] pop_full_iff [of "sol_trackmask s"]
      pop_le_64 [of "sol_trackmask s"] by (auto simp: le_less)
  let ?mi = "sol_mask_in s AND NOT (st_mask_from st)" and ?mo = "sol_mask_out s OR st_mask_to st"
  have mi: "pop ?mi + ?b = pop (sol_mask_in s)" by (rule pop_diff [OF sub])
  have "sol_mask_out s AND st_mask_to st = 0"
    using free by (metis and.left_commute and_zero_eq bit.conj_cancel_right and.commute)
  then have mo: "pop ?mo = pop (sol_mask_out s) + ?b"
    using pop_or [of "sol_mask_out s" "st_mask_to st"] st unfolding step_ok_def by linarith
  have moved: "st_bits_moved st = ?b" using st by (simp add: step_ok_def)
  let ?n = "sol_n_bits_moved s + ?b"
  have src: "?n + pop ?mi = ?k * (sol_n_srcdec s + 1)" using i(4) mi by linarith
  have dst: "?n + ?k = (64 - ?k) * sol_n_dstinc s + pop ?mo" using i(5) mo by linarith
  have s': "s' = s\<lparr>sol_mask_in := (if ?mi = 0 \<and> ?mo \<noteq> NOT 0 then sol_trackmask s else ?mi),
      sol_mask_out := (if ?mo = NOT 0 \<and> ?mi \<noteq> 0 then sol_trackmask s else ?mo),
      sol_n_dstinc := (if ?mo = NOT 0 then sol_n_dstinc s + 1 else sol_n_dstinc s),
      sol_n_srcdec := (if ?mi = 0 then sol_n_srcdec s + 1 else sol_n_srcdec s),
      sol_n_bits_moved := ?n,
      sol_steps := sol_steps s @ [step_mark st (?mi = 0) (?mo = NOT 0)]\<rparr>"
    using add nc sub free i(1) moved
    by (auto simp: add_step_def Let_def sol_complete_def trackmask_full_def trackmask_empty_def)
  have full: "?mo = NOT 0 \<Longrightarrow> ?n + ?k = (64 - ?k) * sol_n_dstinc s + 64"
    using dst pop_full by (simp only:)
  have empty: "?mi = 0 \<Longrightarrow> ?n = ?k * (sol_n_srcdec s + 1)" using src by simp
  show ?thesis
  proof (cases "?mi = 0")
    case True
    show ?thesis
    proof (cases "?mo = NOT 0")
      case full': True
      have "?n = (64 - ?k) * (sol_n_dstinc s + 1)" using full [OF full'] k by (simp add: algebra_simps)
      with True full' empty i k show ?thesis
        by (simp add: sol_inv_def s' sol_complete_def trackmask_full_def trackmask_empty_def)
    next
      case False
      with True empty dst i k show ?thesis
        by (simp add: sol_inv_def s' sol_complete_def trackmask_full_def trackmask_empty_def)
    qed
  next
    case nz: False
    show ?thesis
    proof (cases "?mo = NOT 0")
      case full': True
      have "?n + ?k = (64 - ?k) * (sol_n_dstinc s + 1) + ?k" using full [OF full'] k by (simp add: algebra_simps)
      with nz full' src i k show ?thesis
        by (simp add: sol_inv_def s' sol_complete_def trackmask_full_def trackmask_empty_def)
    next
      case False
      with nz src dst i k show ?thesis
        by (simp add: sol_inv_def s' sol_complete_def trackmask_full_def trackmask_empty_def)
    qed
  qed
qed

subsection \<open>The candidate steps are well formed\<close>

lemma push_drop: "\<forall>i<n. \<not> bit w i \<Longrightarrow> push_bit n (drop_bit n w) = (w :: data_type)"
proof (rule bit_word_eqI)
  fix i assume low: "\<forall>i<n. \<not> bit w i" and "i < LENGTH(64)"
  then show "bit (push_bit n (drop_bit n w)) i = bit w i"
    by (cases "i < n") (simp_all add: bit_simps)
qed

lemma drop_push: "\<forall>i. bit w i \<longrightarrow> i + n < 64 \<Longrightarrow> drop_bit n (push_bit n w) = (w :: data_type)"
  by (rule bit_word_eqI) (auto simp: bit_simps)

lemma pop_push: "\<forall>i. bit w i \<longrightarrow> i + n < 64 \<Longrightarrow> pop (push_bit n w) = pop w"
proof -
  assume "\<forall>i. bit w i \<longrightarrow> i + n < 64"
  then have "{i. bit (push_bit n w) i} = (\<lambda>i. i + n) ` {i. bit w i}"
    by (auto simp: bit_simps image_iff) (metis le_add_diff_inverse2)
  then show ?thesis by (simp add: pop_def card_image)
qed

lemma pop_drop: "\<forall>i<n. \<not> bit w i \<Longrightarrow> pop (drop_bit n w) = pop w"
proof -
  assume low: "\<forall>i<n. \<not> bit w i"
  have "\<forall>i. bit (drop_bit n w) i \<longrightarrow> i + n < 64" by (auto simp: bit_simps dest: word64_bit)
  from pop_push [OF this] show ?thesis by (simp only: push_drop [OF low])
qed

definition step_fits :: "data_type \<Rightarrow> data_type \<Rightarrow> step_type \<Rightarrow> bool" where
  "step_fits source notdest st \<longleftrightarrow> step_ok st \<and> source AND st_mask_from st = st_mask_from st
     \<and> notdest AND st_mask_to st = st_mask_to st"

lemma right_step_fits:
  assumes "drop_bit n source AND notdest \<noteq> 0"
  shows "step_fits source notdest (step_new (push_bit n (drop_bit n source AND notdest))
    (drop_bit n source AND notdest) (- int n))"
proof -
  let ?t = "drop_bit n source AND notdest"
  have fit: "\<forall>i. bit ?t i \<longrightarrow> i + n < 64" by (auto simp: bit_simps dest: word64_bit)
  have "shift_word (- int n) (push_bit n ?t) = ?t"
    using drop_push [OF fit] by (cases "n = 0") (simp_all add: shift_word_def)
  moreover have "source AND push_bit n ?t = push_bit n ?t"
    by (rule bit_word_eqI) (auto simp: bit_simps)
  moreover have "notdest AND ?t = ?t" by (rule bit_word_eqI) (auto simp: bit_simps)
  moreover have "push_bit n ?t \<noteq> 0" using drop_push [OF fit] assms by (metis drop_bit_of_0)
  ultimately show ?thesis
    using pop_push [OF fit] by (simp add: step_fits_def step_ok_def step_new_def count_bits_pop)
qed

lemma left_step_fits:
  assumes "push_bit n source AND notdest \<noteq> 0"
  shows "step_fits source notdest (step_new (drop_bit n (push_bit n source AND notdest))
    (push_bit n source AND notdest) (int n))"
proof -
  let ?t = "push_bit n source AND notdest"
  have low: "\<forall>i<n. \<not> bit ?t i" by (auto simp: bit_simps)
  have "shift_word (int n) (drop_bit n ?t) = ?t"
    using push_drop [OF low] by (simp add: shift_word_def)
  moreover have "source AND drop_bit n ?t = drop_bit n ?t"
    by (rule bit_word_eqI) (auto simp: bit_simps)
  moreover have "notdest AND ?t = ?t" by (rule bit_word_eqI) (auto simp: bit_simps)
  moreover have "drop_bit n ?t \<noteq> 0" using push_drop [OF low] assms by (metis push_bit_of_0)
  ultimately show ?thesis
    using pop_drop [OF low] by (simp add: step_fits_def step_ok_def step_new_def count_bits_pop)
qed

lemma set_step_insert [simp]: "set (step_insert s xs) = insert s (set xs)"
  by (induction xs) auto

lemma right_shifts_fit:
  "ssrc = drop_bit n source \<Longrightarrow> \<forall>s\<in>set steps. step_fits source notdest s \<Longrightarrow>
   \<forall>s\<in>set (right_shifts notdest ssrc n steps). step_fits source notdest s"
proof (induction notdest ssrc n steps rule: right_shifts.induct)
  case (1 notdest ssrc n steps)
  show ?case
  proof (cases "ssrc = 0")
    case True
    with 1 show ?thesis by (subst right_shifts.simps) simp
  next
    case False
    let ?t = "ssrc AND notdest"
    let ?steps = "if ?t \<noteq> 0 then step_insert (step_new (push_bit n ?t) ?t (- int n)) steps else steps"
    have "\<forall>s\<in>set ?steps. step_fits source notdest s"
      using "1.prems" right_step_fits [of n source notdest] by simp
    moreover have "drop_bit 1 ssrc = drop_bit (n + 1) source"
      using "1.prems"(1) by (simp add: drop_bit_drop_bit add.commute del: drop_bit_Suc)
    ultimately have "\<forall>s\<in>set (right_shifts notdest (drop_bit 1 ssrc) (n + 1) ?steps).
        step_fits source notdest s"
      using "1.IH" [OF False refl] by blast
    with False show ?thesis by (subst right_shifts.simps) (simp only: Let_def if_False)
  qed
qed

lemma left_shifts_fit:
  "ssrc = push_bit n source \<Longrightarrow> \<forall>s\<in>set steps. step_fits source notdest s \<Longrightarrow>
   \<forall>s\<in>set (left_shifts notdest ssrc n steps). step_fits source notdest s"
proof (induction notdest ssrc n steps rule: left_shifts.induct)
  case (1 notdest ssrc n steps)
  show ?case
  proof (cases "ssrc = 0")
    case True
    with 1 show ?thesis by (subst left_shifts.simps) simp
  next
    case False
    let ?t = "ssrc AND notdest"
    let ?steps = "if ?t \<noteq> 0 then step_insert (step_new (drop_bit n ?t) ?t (int n)) steps else steps"
    have "\<forall>s\<in>set ?steps. step_fits source notdest s"
      using "1.prems" left_step_fits [of n source notdest] by simp
    moreover have "push_bit 1 ssrc = push_bit (n + 1) source"
      using "1.prems"(1) by (simp add: push_bit_push_bit add.commute del: push_bit_Suc)
    ultimately have "\<forall>s\<in>set (left_shifts notdest (push_bit 1 ssrc) (n + 1) ?steps).
        step_fits source notdest s"
      using "1.IH" [OF False refl] by blast
    with False show ?thesis by (subst left_shifts.simps) (simp only: Let_def if_False)
  qed
qed

lemma possible_steps_fit:
  "st \<in> set (possible_steps s) \<Longrightarrow> step_fits (sol_mask_in s) (NOT (sol_mask_out s)) st"
proof -
  let ?nd = "NOT (sol_mask_out s)" and ?src = "sol_mask_in s"
  have "\<forall>st\<in>set (right_shifts ?nd (drop_bit 1 ?src) 1 []). step_fits ?src ?nd st"
    by (rule right_shifts_fit) simp_all
  then have "\<forall>st\<in>set (possible_steps s). step_fits ?src ?nd st"
    unfolding possible_steps_def Let_def by (intro left_shifts_fit) simp_all
  then show "st \<in> set (possible_steps s) \<Longrightarrow> step_fits ?src ?nd st" by blast
qed

lemma possibilities_inv:
  assumes "sol_inv s" "possibilities s = Inr ss"
  shows "\<exists>s'. ss = [s'] \<and> sol_inv s'"
proof -
  obtain st sts s' where st: "possible_steps s = st # sts" "add_step s st = Inr s'" "ss = [s']"
    using assms(2) by (auto simp: possibilities_def split: list.splits sum.splits)
  have "step_ok st" using possible_steps_fit [of st s] st(1) by (simp add: step_fits_def)
  with add_step_inv [OF assms(1) _ st(2)] st(3) show ?thesis by simp
qed

subsection \<open>Solving keeps the counts\<close>

lemma sanitize_frame: "sanitize n s = Inr s' \<Longrightarrow> \<exists>steps. s' = s\<lparr>sol_steps := steps\<rparr>"
  by (cases n) (auto simp: Let_def split: if_splits sum.splits intro: exI [of _ "sol_steps s"])

lemma sol_inv_steps [simp]: "sol_inv (s\<lparr>sol_steps := steps\<rparr>) = sol_inv s"
  by (simp add: sol_inv_def sol_complete_def)

lemma sanitize_inv: "sol_inv s \<Longrightarrow> sanitize n s = Inr s' \<Longrightarrow> sol_inv s'"
  using sanitize_frame by fastforce

lemma partial_solve_singleton:
  "sol_inv s \<Longrightarrow> partial_solve (sanitize n) left s = Inr ss \<Longrightarrow> \<exists>s'. ss = [s'] \<and> sol_inv s'"
proof (induction left arbitrary: s ss)
  case 0
  then show ?case by (auto split: sum.splits intro: sanitize_inv)
next
  case (Suc left)
  show ?case
  proof (cases "sol_complete s")
    case True
    with Suc.prems show ?thesis by (auto split: sum.splits intro: sanitize_inv)
  next
    case False
    with Suc.prems(2) obtain ps where ps: "possibilities s = Inr ps"
      "concat_results (map (partial_solve (sanitize n) left) ps) = Inr ss"
      by (auto split: sum.splits)
    from possibilities_inv [OF Suc.prems(1) ps(1)] obtain s1 where s1: "ps = [s1]" "sol_inv s1"
      by blast
    then obtain ss1 where "partial_solve (sanitize n) left s1 = Inr ss1" "ss = ss1"
      using ps(2) by (cases "partial_solve (sanitize n) left s1") auto
    with Suc.IH [OF s1(2)] show ?thesis by blast
  qed
qed

lemma solve_loop_singleton:
  "sol_inv s \<Longrightarrow> solve_loop niter [s] = Inr p \<Longrightarrow> \<exists>s'. p = [s'] \<and> sol_inv s'"
proof (induction niter arbitrary: s)
  case 0
  then show ?case by auto
next
  case (Suc niter)
  show ?case
  proof (cases "sol_complete s")
    case True
    with Suc.prems show ?thesis by auto
  next
    case False
    with Suc.prems(2) obtain ss where ss: "partial_solve (sanitize nesting) 3 s = Inr ss"
      "solve_loop niter (take 500 ss) = Inr p"
      by (cases "partial_solve (sanitize nesting) 3 s") auto
    from partial_solve_singleton [OF Suc.prems(1) ss(1)] obtain s1 where
      s1: "ss = [s1]" "sol_inv s1" by blast
    with Suc.IH [OF s1(2)] ss(2) show ?thesis by simp
  qed
qed

lemma solve_lemma:
  assumes "m \<noteq> 0" "m \<noteq> NOT 0" "solve m = Inr s" "sol_bool s"
  shows "sol_inv s" "sol_complete s"
proof -
  obtain p where p: "solve_loop 100 [solution_new m] = Inr p"
    "s = (if \<exists>s\<in>set p. sol_complete s then hd p else solution_empty)"
    using assms(3) by (auto simp: solve_def solve_from_def split: sum.splits)
  obtain s' where s': "p = [s']" "sol_inv s'"
    using solve_loop_singleton [OF sol_inv_new [OF assms(1,2)] p(1)] by blast
  have "s = s' \<and> sol_complete s'"
    using p(2) s'(1) assms(4) by (auto simp: sol_bool_def solution_empty_def split: if_splits)
  with s' show "sol_inv s" "sol_complete s" by simp_all
qed

lemma sol_inv_packs:
  assumes "sol_inv s" "sol_complete s"
  shows "sol_cycle s * pop (sol_trackmask s) = 64 * sol_compressed_cycle s"
proof -
  let ?k = "pop (sol_trackmask s)"
  have "?k * sol_n_srcdec s = (64 - ?k) * sol_n_dstinc s"
    using assms by (simp add: sol_inv_def)
  moreover have "(64 - ?k) * sol_n_dstinc s + ?k * sol_n_dstinc s = 64 * sol_n_dstinc s"
    using pop_le_64 [of "sol_trackmask s"] by (simp add: add_mult_distrib [symmetric])
  ultimately show ?thesis
    by (simp add: sol_cycle_def sol_compressed_cycle_def algebra_simps)
qed

lemma partial_solve_mask:
  "partial_solve (sanitize n) left s = Inr ss \<Longrightarrow> \<forall>s'\<in>set ss. sol_trackmask s' = sol_trackmask s"
proof (induction left arbitrary: s ss)
  case 0
  then show ?case using sanitize_frame by (fastforce split: sum.splits)
next
  case (Suc left)
  show ?case
  proof (cases "sol_complete s")
    case True
    with Suc.prems sanitize_frame show ?thesis by (fastforce split: sum.splits)
  next
    case False
    with Suc.prems obtain ps where ps: "possibilities s = Inr ps"
      "concat_results (map (partial_solve (sanitize n) left) ps) = Inr ss"
      by (auto split: sum.splits)
    obtain st s1 where s1: "add_step s st = Inr s1" "ps = [s1]"
      using ps(1) by (auto simp: possibilities_def split: list.splits sum.splits)
    have "sol_trackmask s1 = sol_trackmask s"
      using s1(1) by (auto simp: add_step_def Let_def split: if_splits)
    moreover obtain ss1 where "partial_solve (sanitize n) left s1 = Inr ss1" "ss = ss1"
      using ps(2) s1(2) by (cases "partial_solve (sanitize n) left s1") auto
    ultimately show ?thesis using Suc.IH by fastforce
  qed
qed

lemma solve_loop_mask:
  "solve_loop niter p = Inr q \<Longrightarrow> \<forall>s\<in>set p. sol_trackmask s = m \<Longrightarrow> \<forall>s\<in>set q. sol_trackmask s = m"
proof (induction niter arbitrary: p)
  case 0
  then show ?case by simp
next
  case (Suc niter)
  have conc: "concat_results (map (partial_solve (sanitize n) l) p) = Inr tmp \<Longrightarrow>
      \<forall>s\<in>set p. sol_trackmask s = m \<Longrightarrow> \<forall>s\<in>set tmp. sol_trackmask s = m" for n l p tmp
  proof (induction p arbitrary: tmp)
    case (Cons s p)
    obtain ss ts where "partial_solve (sanitize n) l s = Inr ss"
      "concat_results (map (partial_solve (sanitize n) l) p) = Inr ts" "tmp = ss @ ts"
      using Cons.prems(1) by (cases "partial_solve (sanitize n) l s") (auto split: sum.splits)
    with Cons partial_solve_mask [of n l s ss] show ?case by auto
  qed simp
  show ?case
  proof (cases "(\<exists>s\<in>set p. sol_complete s) \<or> p = []")
    case True
    with Suc.prems show ?thesis by simp
  next
    case False
    with Suc.prems(1) obtain tmp where
      "concat_results (map (partial_solve (sanitize nesting) 3) p) = Inr tmp"
      "solve_loop niter (take 500 tmp) = Inr q"
      by (auto split: sum.splits)
    with Suc.IH conc Suc.prems(2) show ?thesis by (meson in_set_takeD)
  qed
qed

lemma solve_mask:
  assumes "solve m = Inr s" "sol_bool s" shows "sol_trackmask s = m"
proof -
  obtain p where p: "solve_loop 100 [solution_new m] = Inr p"
    "s = (if \<exists>s\<in>set p. sol_complete s then hd p else solution_empty)"
    using assms(1) by (auto simp: solve_def solve_from_def split: sum.splits)
  then have "\<forall>s\<in>set p. sol_trackmask s = m"
    by (intro solve_loop_mask [OF p(1)]) (simp add: solution_new_def solution_two_def)
  with p(2) assms(2) show ?thesis
    by (cases p) (auto simp: sol_bool_def solution_empty_def split: if_splits)
qed


subsection \<open>The greedy choice\<close>

definition by_bits :: "step_type list \<Rightarrow> bool" where
  "by_bits steps \<longleftrightarrow> sorted_wrt (\<lambda>a b. st_bits_moved b \<le> st_bits_moved a) steps"

lemma by_bits_insert: "by_bits xs \<Longrightarrow> by_bits (step_insert s xs)"
  by (induction xs) (auto simp: by_bits_def)

lemma right_shifts_by_bits: "by_bits steps \<Longrightarrow> by_bits (right_shifts nd src n steps)"
proof (induction nd src n steps rule: right_shifts.induct)
  case (1 nd src n steps)
  then show ?case
    by (subst right_shifts.simps) (simp add: Let_def by_bits_insert del: drop_bit_Suc)
qed

lemma left_shifts_by_bits: "by_bits steps \<Longrightarrow> by_bits (left_shifts nd src n steps)"
proof (induction nd src n steps rule: left_shifts.induct)
  case (1 nd src n steps)
  then show ?case
    by (subst left_shifts.simps) (simp add: Let_def by_bits_insert del: push_bit_Suc)
qed

lemma possible_steps_by_bits: "by_bits (possible_steps s)"
  by (simp add: possible_steps_def Let_def by_bits_def
      left_shifts_by_bits [unfolded by_bits_def] right_shifts_by_bits [unfolded by_bits_def])

lemma right_shifts_keeps: "set steps \<subseteq> set (right_shifts nd src n steps)"
proof (induction nd src n steps rule: right_shifts.induct)
  case (1 nd src n steps)
  show ?case
  proof (cases "src = 0")
    case True
    then show ?thesis by (subst right_shifts.simps) simp
  next
    case False
    have "set steps \<subseteq> set (if src AND nd \<noteq> 0
        then step_insert (step_new (push_bit n (src AND nd)) (src AND nd) (- int n)) steps else steps)"
      by auto
    also note "1.IH" [OF False refl]
    finally show ?thesis using False by (subst right_shifts.simps) (simp only: Let_def if_False)
  qed
qed

lemma left_shifts_keeps: "set steps \<subseteq> set (left_shifts nd src n steps)"
proof (induction nd src n steps rule: left_shifts.induct)
  case (1 nd src n steps)
  show ?case
  proof (cases "src = 0")
    case True
    then show ?thesis by (subst left_shifts.simps) simp
  next
    case False
    have "set steps \<subseteq> set (if src AND nd \<noteq> 0
        then step_insert (step_new (drop_bit n (src AND nd)) (src AND nd) (int n)) steps else steps)"
      by auto
    also note "1.IH" [OF False refl]
    finally show ?thesis using False by (subst left_shifts.simps) (simp only: Let_def if_False)
  qed
qed

lemma right_shifts_mem:
  "drop_bit k src AND nd \<noteq> 0 \<Longrightarrow>
   step_new (push_bit (n + k) (drop_bit k src AND nd)) (drop_bit k src AND nd) (- int (n + k))
     \<in> set (right_shifts nd src n steps)"
proof (induction k arbitrary: src n steps)
  case 0
  then have "src \<noteq> 0" by auto
  with 0 right_shifts_keeps show ?case
    by (subst right_shifts.simps) (auto simp: Let_def subset_iff)
next
  case (Suc k)
  have src: "src \<noteq> 0" using Suc.prems by auto
  have sh: "drop_bit k (drop_bit 1 src) = drop_bit (Suc k) src"
    by (simp add: drop_bit_drop_bit del: drop_bit_Suc)
  show ?case
    using Suc.IH [of "drop_bit 1 src" "n + 1"] Suc.prems src unfolding sh
    by (subst right_shifts.simps) (simp add: Let_def del: drop_bit_Suc)
qed

lemma left_shifts_mem:
  "push_bit k src AND nd \<noteq> 0 \<Longrightarrow>
   step_new (drop_bit (n + k) (push_bit k src AND nd)) (push_bit k src AND nd) (int (n + k))
     \<in> set (left_shifts nd src n steps)"
proof (induction k arbitrary: src n steps)
  case 0
  then have "src \<noteq> 0" by auto
  with 0 left_shifts_keeps show ?case
    by (subst left_shifts.simps) (auto simp: Let_def subset_iff)
next
  case (Suc k)
  have src: "src \<noteq> 0" using Suc.prems by auto
  have sh: "push_bit k (push_bit 1 src) = push_bit (Suc k) src"
    by (simp add: push_bit_push_bit del: push_bit_Suc)
  show ?case
    using Suc.IH [of "push_bit 1 src" "n + 1"] Suc.prems src unfolding sh
    by (subst left_shifts.simps) (simp add: Let_def del: push_bit_Suc)
qed

lemma possible_steps_right:
  assumes "drop_bit (Suc k) src AND nd \<noteq> 0" "src = sol_mask_in s" "nd = NOT (sol_mask_out s)"
  shows "step_new (push_bit (Suc k) (drop_bit (Suc k) src AND nd)) (drop_bit (Suc k) src AND nd)
    (- int (Suc k)) \<in> set (possible_steps s)"
proof -
  have sh: "drop_bit k (drop_bit 1 src) = drop_bit (Suc k) src"
    by (simp add: drop_bit_drop_bit del: drop_bit_Suc)
  show ?thesis
    using right_shifts_mem [of k "drop_bit 1 src" nd 1 "[]"] assms left_shifts_keeps
    unfolding sh possible_steps_def Let_def by fastforce
qed

lemma possible_steps_left:
  assumes "push_bit k src AND nd \<noteq> 0" "src = sol_mask_in s" "nd = NOT (sol_mask_out s)"
  shows "step_new (drop_bit k (push_bit k src AND nd)) (push_bit k src AND nd) (int k)
    \<in> set (possible_steps s)"
  using left_shifts_mem [of k src nd 0] assms unfolding possible_steps_def Let_def by simp

text \<open>While there is a source bit to move and a free place, there is a step.\<close>

lemma possible_steps_ne:
  assumes "sol_mask_in s \<noteq> 0" "sol_mask_out s \<noteq> trackmask_full"
  shows "possible_steps s \<noteq> []"
proof -
  let ?src = "sol_mask_in s" and ?nd = "NOT (sol_mask_out s)"
  obtain i where i: "bit ?src i" "i < 64" using assms(1) by (auto simp: bit_eq_iff dest: word64_bit)
  have "?nd \<noteq> 0" using assms(2) unfolding trackmask_full_def by (metis bit.double_compl)
  then obtain j where j: "bit ?nd j" "j < 64" by (auto simp: bit_eq_iff dest: word64_bit)
  show ?thesis
  proof (cases "i \<le> j")
    case True
    have "bit (push_bit (j - i) ?src AND ?nd) j"
      using True i j by (simp only: bit_and_iff bit_push_bit_iff) (simp add: bit_simps)
    then have "push_bit (j - i) ?src AND ?nd \<noteq> 0" by auto
    from possible_steps_left [OF this refl refl] show ?thesis by auto
  next
    case False
    then obtain k where k: "i = j + Suc k" using less_imp_Suc_add [of j i] by auto
    have "bit (drop_bit (Suc k) ?src AND ?nd) j"
      using i j k by (simp only: bit_and_iff bit_drop_bit_eq) (simp add: comp_def add.commute)
    then have "drop_bit (Suc k) ?src AND ?nd \<noteq> 0" by auto
    from possible_steps_right [OF this refl refl] show ?thesis by auto
  qed
qed

text \<open>Hence the search never gets stuck on an unfinished solution.\<close>

lemma possibilities_total:
  assumes "sol_inv s" "\<not> sol_complete s" shows "\<exists>s'. possibilities s = Inr [s']"
proof -
  have "sol_mask_in s \<noteq> 0" "sol_mask_out s \<noteq> trackmask_full"
    using assms by (simp_all add: sol_inv_def)
  from possible_steps_ne [OF this] obtain st sts where st: "possible_steps s = st # sts"
    by (cases "possible_steps s") auto
  then have "step_fits (sol_mask_in s) (NOT (sol_mask_out s)) st"
    by (intro possible_steps_fit) simp
  then have "\<exists>s'. add_step s st = Inr s'"
    using assms(2) by (auto simp: add_step_def step_fits_def Let_def)
  with st show ?thesis by (auto simp: possibilities_def)
qed

text \<open>When one shift can move everything, that is the step taken.\<close>

lemma pop_subset_eq: "a AND b = b \<Longrightarrow> pop b = pop a \<Longrightarrow> b = a"
proof -
  assume ab: "a AND b = b" and "pop b = pop a"
  then have "pop (a AND NOT b) = 0" using pop_diff [OF ab] by linarith
  then have "a AND NOT b = 0" by (simp add: pop_zero_iff)
  with ab show "b = a" by (metis bit.conj_cancel_right bit.conj_disj_distrib and.right_neutral
        bit.disj_cancel_right or.right_neutral)
qed

lemma possibilities_all:
  assumes "st \<in> set (possible_steps s)" "st_bits_moved st = pop (sol_mask_in s)"
    "pop (NOT (sol_mask_out s)) = pop (sol_mask_in s)" "sol_inv s" "\<not> sol_complete s"
  obtains s' where "possibilities s = Inr [s']" "sol_complete s'" "sol_n_srcdec s' = sol_n_srcdec s + 1"
    "sol_n_dstinc s' = sol_n_dstinc s + 1" "sol_trackmask s' = sol_trackmask s"
    "\<exists>t. sol_steps s' = sol_steps s @ [step_mark t True True]"
proof -
  let ?in = "sol_mask_in s" and ?nd = "NOT (sol_mask_out s)"
  obtain hd tl where h: "possible_steps s = hd # tl" using assms(1) by (cases "possible_steps s") auto
  have "st_bits_moved st \<le> st_bits_moved hd"
    using possible_steps_by_bits [of s] assms(1) h by (auto simp: by_bits_def)
  moreover have fit: "step_fits ?in ?nd hd" using possible_steps_fit [of hd s] h by simp
  then have ok: "step_ok hd" "?in AND st_mask_from hd = st_mask_from hd"
    "?nd AND st_mask_to hd = st_mask_to hd" by (simp_all add: step_fits_def)
  moreover have "pop (st_mask_from hd) \<le> pop ?in" using pop_diff [OF ok(2)] by linarith
  ultimately have eq: "pop (st_mask_from hd) = pop ?in"
    using assms(2) by (simp add: step_ok_def)
  have frm: "st_mask_from hd = ?in" by (rule pop_subset_eq [OF ok(2) eq])
  have "pop (st_mask_to hd) = pop ?nd" using ok(1) eq assms(3) unfolding step_ok_def by linarith
  then have tos: "st_mask_to hd = ?nd" by (rule pop_subset_eq [OF ok(3)])
  have full: "sol_mask_out s OR ?nd = NOT 0" by (simp add: bit.disj_cancel_right)
  have cyc: "sol_full_cycle s" using assms(4) by (simp add: sol_inv_def)
  let ?s' = "s\<lparr>sol_mask_in := 0, sol_mask_out := NOT 0, sol_n_dstinc := sol_n_dstinc s + 1,
    sol_n_srcdec := sol_n_srcdec s + 1,
    sol_n_bits_moved := sol_n_bits_moved s + st_bits_moved hd,
    sol_steps := sol_steps s @ [step_mark hd True True]\<rparr>"
  have "add_step s hd = Inr ?s'"
    using assms(5) frm tos full cyc
    by (simp add: add_step_def Let_def sol_complete_def trackmask_full_def trackmask_empty_def)
  then have "possibilities s = Inr [?s']" using h by (simp add: possibilities_def)
  then show thesis
    by (rule that) (use cyc in \<open>auto simp: sol_complete_def trackmask_full_def trackmask_empty_def\<close>)
qed

lemma sanitize_one: "sol_steps s = [step_mark t True True] \<Longrightarrow> sanitize (Suc n) s = Inr s"
  by (simp add: find_eligible_ranges_def find_eligible_def eligible_def step_mark_def
      eligible_ranges.simps)

lemma solve_half:
  assumes "m = 0xFFFFFFFF00000000"
  shows "\<exists>s. solve m = Inr s \<and> sol_bool s \<and> sol_cycle s = 2 \<and> sol_compressed_cycle s = 1"
proof -
  let ?s = "solution_new m"
  have m: "m \<noteq> 0" "m \<noteq> NOT 0" by (simp_all add: assms)
  note inv = sol_inv_new [OF m]
  have nc: "\<not> sol_complete ?s"
    using m by (simp add: solution_new_def solution_two_def sol_complete_def trackmask_empty_def)
  have masks: "sol_mask_in ?s = m" "sol_mask_out ?s = m" "sol_n_srcdec ?s = 0" "sol_n_dstinc ?s = 0"
    "sol_steps ?s = []" by (simp_all add: solution_new_def solution_two_def)
  have "pop m = 32" "pop (NOT m) = 32"
    unfolding count_bits_pop [symmetric] assms by (simp_all add: count_bits_def)
  moreover have "drop_bit 32 m AND NOT m = 0xFFFFFFFF" by (simp add: assms)
  ultimately have st: "step_new (push_bit (Suc 31) (drop_bit (Suc 31) m AND NOT m))
      (drop_bit (Suc 31) m AND NOT m) (- int (Suc 31)) \<in> set (possible_steps ?s)"
    by (intro possible_steps_right) (simp_all add: masks del: drop_bit_Suc)
  have bits: "st_bits_moved (step_new (push_bit (Suc 31) (drop_bit (Suc 31) m AND NOT m))
      (drop_bit (Suc 31) m AND NOT m) (- int (Suc 31))) = pop m"
    unfolding step_new_def count_bits_pop [symmetric] assms by (simp add: count_bits_def)
  obtain s' where s': "possibilities ?s = Inr [s']" "sol_complete s'" "sol_n_srcdec s' = 1"
    "sol_n_dstinc s' = 1" "\<exists>t. sol_steps s' = [step_mark t True True]"
    by (rule possibilities_all [OF st, unfolded masks])
      (use bits \<open>pop m = 32\<close> \<open>pop (NOT m) = 32\<close> inv nc in auto)
  obtain t where t: "sol_steps s' = [step_mark t True True]" using s'(5) by blast
  have "partial_solve (sanitize nesting) 3 ?s = Inr [s']"
    using nc s'(1,2) sanitize_one [OF t] by (simp add: numeral_eq_Suc nesting_def del: sanitize.simps)
  then have "solve_loop 100 [?s] = Inr [s']"
    using nc s'(2) by (simp add: numeral_eq_Suc)
  then have "solve m = Inr s'" using s'(2) by (simp add: solve_def solve_from_def)
  with s' t show ?thesis
    by (auto simp: sol_bool_def sol_cycle_def sol_compressed_cycle_def)
qed


subsection \<open>Sizes before and after compression\<close>

definition sol_flags :: "solution \<Rightarrow> bool" where
  "sol_flags s \<longleftrightarrow> sol_full_cycle s
     \<and> length (filter st_inc_dst (sol_steps s)) = sol_n_dstinc s
     \<and> length (filter st_dec_src (sol_steps s)) = sol_n_srcdec s
     \<and> (\<forall>st\<in>set (if sol_complete s then butlast (sol_steps s) else sol_steps s).
          \<not> (st_inc_dst st \<and> st_dec_src st))
     \<and> (sol_complete s \<longrightarrow> sol_steps s = [] \<or> st_inc_dst (last (sol_steps s)))"

lemma add_step_flags: "sol_flags s \<Longrightarrow> add_step s st = Inr s' \<Longrightarrow> sol_flags s'"
  by (auto simp: sol_flags_def add_step_def Let_def sol_complete_def step_mark_def
      trackmask_full_def trackmask_empty_def split: if_splits)

fun add_steps :: "solution \<Rightarrow> step_type list \<Rightarrow> sol_error + solution" where
  "add_steps s [] = Inr s"
| "add_steps s (st # sts) = (case add_step s st of Inl e \<Rightarrow> Inl e | Inr s' \<Rightarrow> add_steps s' sts)"

lemma add_steps_flags: "sol_flags s \<Longrightarrow> add_steps s sts = Inr s' \<Longrightarrow> sol_flags s'"
  by (induction sts arbitrary: s) (auto split: sum.splits intro: add_step_flags)

lemma solution_new_flags: "sol_flags (solution_new m)"
  by (simp add: sol_flags_def solution_new_def solution_two_def)

lemma out_steps_lemma:
  "r \<le> length (filter (\<lambda>st. st_inc_dst st \<or> st_dec_src st) steps) \<Longrightarrow> o1 + r < 2 ^ 32 \<Longrightarrow>
   \<exists>p o2. out_steps steps prev r o1 = Inr (p, o2) \<and> o1 \<le> o2 \<and> o2 \<le> o1 + r
     \<and> (0 < r \<longrightarrow> p = Some False \<longrightarrow> o2 + 1 \<le> o1 + r) \<and> (r = 0 \<longrightarrow> p = prev \<and> o2 = o1)"
proof (induction steps arbitrary: prev r o1)
  case Nil
  then show ?case by simp
next
  case (Cons st steps)
  show ?case
  proof (cases r)
    case 0
    then show ?thesis by simp
  next
    case (Suc q)
    define r' where "r' = (if st_inc_dst st \<or> st_dec_src st then q else Suc q)"
    define o' where "o' = (if st_inc_dst st then o1 + 1 else o1)"
    have o: "(if st_inc_dst st then u32_add o1 1 else o1) = o'"
      using Cons.prems(2) Suc by (simp add: o'_def u32_add_exact)
    have "r' \<le> length (filter (\<lambda>st. st_inc_dst st \<or> st_dec_src st) steps)" "o' + r' < 2 ^ 32"
      using Cons.prems Suc by (auto simp: r'_def o'_def split: if_splits)
    from Cons.IH [OF this, of "Some (st_inc_dst st)"] obtain p o2 where
      ih: "out_steps steps (Some (st_inc_dst st)) r' o' = Inr (p, o2)" "o' \<le> o2" "o2 \<le> o' + r'"
      "0 < r' \<longrightarrow> p = Some False \<longrightarrow> o2 + 1 \<le> o' + r'"
      "r' = 0 \<longrightarrow> p = Some (st_inc_dst st) \<and> o2 = o'" by blast
    have "out_steps (st # steps) prev r o1 = Inr (p, o2)"
      using ih(1) unfolding Suc out_steps.simps o r'_def .
    moreover have "o' + r' \<le> o1 + r" "o1 \<le> o'" using Suc by (auto simp: r'_def o'_def)
    moreover have "p = Some False \<longrightarrow> o2 + 1 \<le> o1 + r"
    proof (cases "r' = 0")
      case True
      with ih(5) Suc show ?thesis by (auto simp: o'_def r'_def split: if_splits)
    qed (use ih(4) calculation in auto)
    ultimately show ?thesis using ih(2,3) Suc by (intro exI [of _ p] exI [of _ o2]) simp
  qed
qed

lemma flags_or:
  "\<forall>st\<in>set sts. \<not> (st_inc_dst st \<and> st_dec_src st) \<Longrightarrow>
   length (filter (\<lambda>st. st_inc_dst st \<or> st_dec_src st) sts) =
     length (filter st_inc_dst sts) + length (filter st_dec_src sts)"
  by (induction sts) auto

lemma sol_flags_count:
  assumes "sol_flags s" "sol_complete s" "0 < sol_cycle s"
  shows "sol_cycle s \<le> length (filter (\<lambda>st. st_inc_dst st \<or> st_dec_src st) (sol_steps s)) + 1"
proof (cases "sol_steps s" rule: rev_cases)
  case Nil
  with assms show ?thesis by (simp add: sol_flags_def sol_cycle_def)
next
  case (snoc sts st)
  then have "\<forall>st\<in>set sts. \<not> (st_inc_dst st \<and> st_dec_src st)" "st_inc_dst st"
    using assms(1,2) by (simp_all add: sol_flags_def)
  with flags_or [OF this(1)] snoc assms(1) show ?thesis
    by (cases "st_dec_src st") (auto simp: sol_flags_def sol_cycle_def)
qed

lemma out_steps_grows:
  "out_steps steps prev r o1 = Inr (p, o2) \<Longrightarrow> o1 + r < 2 ^ 32 \<Longrightarrow>
   o1 \<le> o2 \<and> (0 < r \<longrightarrow> o1 < o2 \<or> p = Some False)"
proof (induction steps prev r o1 rule: out_steps.induct)
  case (3 s steps prev r o1)
  let ?o = "if st_inc_dst s then u32_add o1 1 else o1"
  let ?r = "if st_inc_dst s \<or> st_dec_src s then r else Suc r"
  have o: "?o = (if st_inc_dst s then o1 + 1 else o1)" using "3.prems"(2) by (simp add: u32_add_exact)
  have "?o + ?r < 2 ^ 32" using "3.prems"(2) o by auto
  from "3.IH" [OF _ this] "3.prems"(1) have ih: "?o \<le> o2 \<and> (0 < ?r \<longrightarrow> ?o < o2 \<or> p = Some False)"
    by simp
  show ?case
  proof (cases "st_inc_dst s")
    case True
    with ih o show ?thesis by simp
  next
    case False
    have "?r = 0 \<Longrightarrow> p = Some False" using "3.prems"(1) False by (auto split: if_splits)
    with ih o False show ?thesis by auto
  qed
qed simp_all

lemma outputsize_sound:
  assumes "sol_flags s" "sol_complete s" "0 < sol_compressed_cycle s" "n < 2 ^ 32"
  shows "\<exists>r. outputsize s n = Inr r \<and> r \<le> n \<and> (0 < n \<longrightarrow> 0 < r)
    \<and> (sol_cycle s dvd n \<longrightarrow> r = n div sol_cycle s * sol_compressed_cycle s \<and> inputsize s r = Inr n)"
proof -
  let ?c = "sol_cycle s" and ?d = "sol_n_dstinc s"
  have fl: "sol_flags s" by fact
  have c: "0 < ?c" "?d \<le> ?c" "0 < ?d"
    using assms(3) by (simp_all add: sol_cycle_def sol_compressed_cycle_def)
  define whole where "whole = n div ?c * ?d"
  define r where "r = n mod ?c"
  have "n div ?c * ?d \<le> n div ?c * ?c" using c by simp
  moreover have "n div ?c * ?c + n mod ?c = n" by simp
  ultimately have n: "whole + r \<le> n" unfolding whole_def r_def by linarith
  have m32: "u32_mul (n div ?c) ?d = whole"
    unfolding whole_def by (rule u32_mul_exact) (use n assms(4) in \<open>simp add: whole_def\<close>)
  have "r < ?c" unfolding r_def by (rule mod_less_divisor [OF c(1)])
  then have "r \<le> length (filter (\<lambda>st. st_inc_dst st \<or> st_dec_src st) (sol_steps s))"
    using sol_flags_count [OF fl assms(2) c(1)] by linarith
  moreover have b: "whole + r < 2 ^ 32" using n assms(4) by linarith
  ultimately obtain p o2 where o2: "out_steps (sol_steps s) None r whole = Inr (p, o2)"
    "o2 \<le> whole + r" "0 < r \<longrightarrow> p = Some False \<longrightarrow> o2 + 1 \<le> whole + r"
    "r = 0 \<longrightarrow> p = None \<and> o2 = whole"
    using out_steps_lemma [of r "sol_steps s" whole None] by blast
  define res where "res = (if p = Some False then o2 + 1 else o2)"
  have res: "res \<le> n" using o2 n unfolding res_def by (cases "r = 0") auto
  then have "(if p = Some False then u32_add o2 1 else o2) = res"
    unfolding res_def using assms(4) u32_add_exact [of o2 1] by (auto split: if_splits)
  then have out: "outputsize s n = Inr res"
    using assms(2) c(1) o2(1) unfolding r_def by (simp add: outputsize_def Let_def m32)
  have pos: "0 < res" if "0 < n"
  proof (cases "r = 0")
    case True
    have "n div ?c * ?c + r = n" by (simp add: r_def)
    with that True have "0 < n div ?c" by (cases "n div ?c") simp_all
    with True o2(4) c(3) show ?thesis by (simp add: res_def whole_def)
  next
    case False
    with out_steps_grows [OF o2(1) b] show ?thesis by (auto simp: res_def)
  qed
  have "res = whole \<and> inputsize s whole = Inr n" if dvd: "?c dvd n"
  proof -
    have "n div ?c * ?c = n" using dvd by simp
    then have "u32_mul (n div ?c) ?c = n" using assms(4) by (simp add: u32_mul_exact)
    then have "inputsize s whole = Inr n" using c by (simp add: inputsize_def Let_def whole_def)
    moreover have "r = 0" using dvd by (simp add: r_def)
    ultimately show ?thesis using o2(4) by (simp add: res_def)
  qed
  with out res pos show ?thesis by (auto simp: whole_def sol_compressed_cycle_def)
qed

lemma in_steps_grows:
  "in_steps steps prev r i1 = Inr (p, i2) \<Longrightarrow> i1 + 2 * length steps < 2 ^ 32 \<Longrightarrow>
   i1 + r \<le> i2 \<and> i2 \<le> i1 + 2 * length steps"
proof (induction steps prev r i1 rule: in_steps.induct)
  case (3 s steps prev r i1)
  define i where "i = (if st_dec_src s then u32_add i1 1 else i1)"
  define i' where "i' = (if st_inc_dst s then u32_add i 1 else i)"
  have i: "i = (if st_dec_src s then i1 + 1 else i1)"
    using "3.prems"(2) by (simp add: i_def u32_add_exact)
  have i': "i' = (if st_inc_dst s then i + 1 else i)"
    using "3.prems"(2) i by (auto simp: i'_def u32_add_exact split: if_splits)
  have "i' + 2 * length steps < 2 ^ 32" using "3.prems"(2) i i' by (auto split: if_splits)
  moreover have "in_steps steps (Some (st_inc_dst s)) (if st_inc_dst s then r else Suc r) i' = Inr (p, i2)"
    using "3.prems"(1) unfolding in_steps.simps Let_def i_def i'_def .
  ultimately have "i' + (if st_inc_dst s then r else Suc r) \<le> i2 \<and> i2 \<le> i' + 2 * length steps"
    using "3.IH" [OF i_def] unfolding i'_def by blast
  with i i' show ?case by (auto split: if_splits)
qed simp_all

lemma inputsize_covers:
  assumes "0 < sol_compressed_cycle s" "sol_cycle s \<le> 2 ^ 12" "length (sol_steps s) \<le> 2 ^ 12"
    "n < 2 ^ 13" "inputsize s n = Inr m"
  shows "n \<le> m \<and> m < 2 ^ 26"
proof -
  let ?c = "sol_cycle s" and ?d = "sol_n_dstinc s"
  have d: "0 < ?d" "?d \<le> ?c" using assms(1) by (simp_all add: sol_compressed_cycle_def sol_cycle_def)
  have "n div ?d * ?c \<le> n * 2 ^ 12" using assms(2) by (intro mult_le_mono) simp_all
  then have w: "n div ?d * ?c < 2 ^ 25" using assms(4) by simp
  then have "u32_mul (n div ?d) ?c = n div ?d * ?c" by (simp add: u32_mul_exact)
  with assms(5) d obtain p i2 where i2: "in_steps (sol_steps s) None (n mod ?d) (n div ?d * ?c) = Inr (p, i2)"
    and m: "m = (if p = Some False then u32_add i2 1 else i2)"
    by (auto simp: inputsize_def Let_def split: if_splits sum.splits)
  have "n div ?d * ?c + 2 * length (sol_steps s) < 2 ^ 32" using w assms(3) by simp
  from in_steps_grows [OF i2 this] have g: "n div ?d * ?c + n mod ?d \<le> i2"
    "i2 \<le> n div ?d * ?c + 2 * length (sol_steps s)" by auto
  have "n div ?d * ?d \<le> n div ?d * ?c" using d(2) by simp
  moreover have "n div ?d * ?d + n mod ?d = n" by simp
  ultimately have "n \<le> i2" using g(1) by linarith
  moreover have "i2 < 2 ^ 26 - 1" using g(2) w assms(3) by simp
  ultimately show ?thesis using m by (auto simp: u32_add_exact)
qed

text \<open>For a complete solution built by adding steps, the compressed size of any number of words is
  defined, is never larger than the input, and on whole cycles it is exact: each cycle gives
  \<open>compressed_cycle\<close> words and the uncompressed size computed back is the original one.\<close>
theorem output_input_sizes:
  assumes "add_steps (solution_new m) sts = Inr s" "sol_complete s" "0 < sol_compressed_cycle s"
    "n < 2 ^ 32"
  shows "\<exists>r. outputsize s n = Inr r \<and> r \<le> n
    \<and> (sol_cycle s dvd n \<longrightarrow> r = n div sol_cycle s * sol_compressed_cycle s \<and> inputsize s r = Inr n)"
proof -
  have "sol_flags s" using add_steps_flags [OF solution_new_flags assms(1)] .
  from outputsize_sound [OF this assms(2-4)] show ?thesis by blast
qed

lemma output_input_sizes_witness:
  "\<exists>s. add_steps (solution_new 0xFFFFFFFF00000000)
      [step_new 0xFFFFFFFF00000000 0xFFFFFFFF (-32)] = Inr s
    \<and> outputsize s 10 = Inr 5 \<and> inputsize s 5 = Inr 10"
proof -
  let ?st = "step_new 0xFFFFFFFF00000000 0xFFFFFFFF (-32)"
  obtain s where s: "add_steps (solution_new 0xFFFFFFFF00000000) [?st] = Inr s"
    "sol_complete s" "sol_cycle s = 2" "sol_compressed_cycle s = 1"
    by (simp add: add_step_def step_new_def solution_new_def solution_two_def sol_complete_def
        trackmask_full_def trackmask_empty_def sol_cycle_def sol_compressed_cycle_def)
  with output_input_sizes [OF s(1), of 10] show ?thesis by auto
qed

end
