(* ===== verification/Constraints.thy ===== *)
theory Constraints
  imports NetParms Formats Solution
begin

text \<open>
  Transfer size constraints, from \<open>src/src/constraints.h\<close> and \<open>src/src/constraints.cc\<close>: the set
  of constraints, its validation, and the two searches that find block, read and write sizes from
  the network parameters, a data format and a compression solution. All sizes are
  \<open>unsigned int\<close>; a division by zero and a loop that never ends are errors of their own.
\<close>

datatype constraint =
    C_framesize | C_blocksize | C_MTU | C_compress_offset | C_application_overhead
  | C_protocol_overhead | C_read_size | C_write_size | C_n_mtu

type_synonym constraintset = "constraint \<rightharpoonup> nat"

definition unconstrained :: nat where "unconstrained = 2 ^ 32 - 1"

definition BYFRAMESIZE :: nat where "BYFRAMESIZE = 1"

datatype c_error =
    Constraint_Error | Assertion_Failed | Size_Error sol_error | Div_By_Zero | Loops_Forever

subsection \<open>Constraint sets\<close>

definition cget :: "constraintset \<Rightarrow> constraint \<Rightarrow> nat" where
  "cget cs c = (case cs c of None \<Rightarrow> unconstrained | Some v \<Rightarrow> v)"

definition cset :: "constraintset \<Rightarrow> constraint \<Rightarrow> nat \<Rightarrow> constraintset" where
  "cset cs c v = cs(c \<mapsto> v)"

definition isset :: "constraintset \<Rightarrow> constraint \<Rightarrow> bool" where
  "isset cs c \<longleftrightarrow> cget cs c \<noteq> unconstrained"

text \<open>The assertions of \<open>validate\<close> in their order, up to the failing one.\<close>

fun c_assert :: "bool list \<Rightarrow> c_error + unit" where
  "c_assert [] = Inr ()"
| "c_assert (b # bs) = (if b then c_assert bs else Inl Constraint_Error)"

definition validate :: "constraintset \<Rightarrow> c_error + unit" where
  "validate cs =
     (let g = cget cs
      in c_assert ([isset cs C_blocksize, isset cs C_read_size, isset cs C_write_size, isset cs C_MTU,
           isset cs C_protocol_overhead, isset cs C_application_overhead, isset cs C_compress_offset,
           g C_blocksize > 0, g C_read_size > 0, g C_write_size > 0, g C_MTU > 0,
           g C_blocksize mod 8 = 0, g C_compress_offset mod 8 = 0,
           g C_n_mtu = 1 \<or> g C_n_mtu = unconstrained,
           g C_blocksize \<ge> g C_read_size, g C_blocksize mod g C_read_size = 0,
           g C_compress_offset < g C_read_size] @
          (if g C_n_mtu = 1
           then [u32_add (u32_add (g C_protocol_overhead) (g C_application_overhead)) (g C_write_size)
                 \<le> g C_MTU] else []) @
          [g C_write_size \<le> g C_read_size] @
          (if isset cs C_framesize
           then [g C_framesize > 0, g C_framesize mod 8 = 0, g C_framesize mod g C_read_size = 0]
           else [])))"

subsection \<open>Sizes before and after compression\<close>

definition compressed_size :: "nat \<Rightarrow> solution \<Rightarrow> c_error + nat" where
  "compressed_size uncompressedbytes s =
     (if \<not> sol_bool s then Inr uncompressedbytes
      else if \<not> uncompressedbytes mod 8 = 0 then Inl Assertion_Failed
      else (case outputsize s (uncompressedbytes div 8) of
              Inl e \<Rightarrow> Inl (Size_Error e) | Inr n \<Rightarrow> Inr (u32_mul n 8)))"

definition uncompressed_size :: "nat \<Rightarrow> solution \<Rightarrow> c_error + nat" where
  "uncompressed_size compressedbytes s =
     (if \<not> sol_bool s then Inr compressedbytes
      else if \<not> compressedbytes mod 8 = 0 then Inl Assertion_Failed
      else (case inputsize s (compressedbytes div 8) of
              Inl e \<Rightarrow> Inl (Size_Error e) | Inr n \<Rightarrow> Inr (u32_mul n 8)))"

subsection \<open>The search by block size\<close>

text \<open>
  The loop over decreasing write sizes. The write size lowers by 8 modulo \<open>2 ^ 32\<close>, so after
  \<open>2 ^ 29\<close> rounds every value it can take has been tried and the loop never ends. The result is
  the write size, and the read and block size when one was found.
\<close>

function wr_search :: "nat \<Rightarrow> solution \<Rightarrow> nat \<Rightarrow> nat \<Rightarrow> nat \<Rightarrow> nat \<Rightarrow>
    c_error + nat \<times> (nat \<times> nat) option" where
  "wr_search fuel s blocksize compress_offset abs_min wr_size =
     (if \<not> wr_size \<ge> abs_min then Inr (wr_size, None)
      else if fuel = 0 then Inl Loops_Forever
      else (case uncompressed_size (u32_sub wr_size compress_offset) s of
              Inl e \<Rightarrow> Inl e
            | Inr n \<Rightarrow>
              (let tst_rd_size = u32_add n compress_offset
               in if tst_rd_size \<le> blocksize \<and> tst_rd_size = 0 then Inl Div_By_Zero
                  else (let tst_blocksize = blocksize - blocksize mod tst_rd_size
                        in if tst_rd_size \<le> blocksize \<and> tst_blocksize > 0
                              \<and> tst_blocksize mod 8 = 0 \<and> tst_rd_size mod 8 = 0
                           then Inr (wr_size, Some (tst_rd_size, tst_blocksize))
                           else wr_search (fuel - 1) s blocksize compress_offset abs_min
                                  (u32_sub wr_size 8)))))"
  by pat_completeness auto
termination by (relation "measure fst") auto

declare wr_search.simps [simp del]

definition wr_fuel :: nat where "wr_fuel = 2 ^ 29 + 1"

definition min_read_bytes :: "solution \<Rightarrow> nat" where
  "min_read_bytes s = (if sol_bool s then u32_mul (sol_cycle s) 8 else 8)"

definition set_sizes :: "constraintset \<Rightarrow> nat \<Rightarrow> nat \<Rightarrow> nat \<Rightarrow> constraintset" where
  "set_sizes cs blocksize rd_size wr_size =
     cset (cset (cset cs C_blocksize blocksize) C_read_size rd_size) C_write_size wr_size"

definition constrain_by_blocksize :: "constraintset \<Rightarrow> solution \<Rightarrow> c_error + constraintset" where
  "constrain_by_blocksize cs s =
     (let min_read = min_read_bytes s; mtu = cget cs C_MTU; n_mtu = cget cs C_n_mtu;
          blocksize = cget cs C_blocksize; proto_overhead = cget cs C_protocol_overhead;
          app_overhead = cget cs C_application_overhead;
          compress_offset = cget cs C_compress_offset
      in if blocksize = unconstrained then Inl Constraint_Error
         else if compress_offset mod 8 \<noteq> 0 then Inl Constraint_Error
         else if blocksize < u32_add compress_offset min_read then Inl Constraint_Error
         else if n_mtu \<noteq> 1 \<and> n_mtu \<noteq> unconstrained then Inl Constraint_Error
         else if n_mtu = 1
              \<and> mtu < u32_add (u32_add proto_overhead app_overhead) compress_offset
         then Inl Constraint_Error
         else if n_mtu = unconstrained
         then (let rd_size = align8 blocksize
               in case compressed_size (u32_sub rd_size compress_offset) s of
                    Inl e \<Rightarrow> Inl e
                  | Inr n \<Rightarrow> Inr (set_sizes cs rd_size rd_size (u32_add n compress_offset)))
         else (case compressed_size (min_read div 8) s of
                 Inl e \<Rightarrow> Inl e
               | Inr n \<Rightarrow>
                 (case wr_search wr_fuel s blocksize compress_offset
                         (u32_add compress_offset (u32_mul n 8))
                         (align8 (u32_sub (u32_sub mtu proto_overhead) app_overhead)) of
                    Inl e \<Rightarrow> Inl e
                  | Inr (wr_size, None) \<Rightarrow> Inl Constraint_Error
                  | Inr (wr_size, Some (rd_size, bs)) \<Rightarrow> Inr (set_sizes cs bs rd_size wr_size))))"

subsection \<open>The search by frame size\<close>

text \<open>
  Streaming: the loop that looks for a divider of the frame size. The body only runs with
  \<open>i < fsize\<close>, so the new block size is not 0.
\<close>

function bs_search :: "nat \<Rightarrow> nat \<Rightarrow> nat \<Rightarrow> nat \<Rightarrow> nat \<times> nat" where
  "bs_search fsize compress_offset i bs =
     (if i < fsize
         \<and> \<not> (fsize mod bs = 0 \<and> bs mod 8 = 0 \<and> bs > compress_offset)
      then bs_search fsize compress_offset (Suc i) (fsize div i) else (i, bs))"
  by pat_completeness auto
termination by (relation "measure (\<lambda>(f, c, i, b). f - i)") auto

declare bs_search.simps [simp del]

definition stream_blocksize :: "nat \<Rightarrow> nat \<Rightarrow> nat \<Rightarrow> c_error + nat" where
  "stream_blocksize blocksize fsize compress_offset =
     (let bs = (if blocksize = unconstrained then fsize else align8 blocksize)
      in if bs > fsize then Inr (bs - bs mod fsize)
         else if bs = 0 then Inl Div_By_Zero
         else (case bs_search fsize compress_offset (fsize div bs) bs of
                 (i, bs') \<Rightarrow> if i \<ge> fsize then Inl Constraint_Error else Inr bs'))"

text \<open>Datagrams: the loop over the dividers \<open>fsize div i\<close>, from the whole frame down.\<close>

function rd_search :: "constraintset \<Rightarrow> solution \<Rightarrow> nat \<Rightarrow> nat \<Rightarrow> c_error + (nat \<times> nat) option" where
  "rd_search cs s fsize i =
     (if \<not> i < fsize then Inr None
      else if fsize mod i = 0 \<and> (\<not> sol_bool s \<or> fsize div i mod 8 = 0)
      then (let tst_rd_sz = fsize div i; compress_offset = cget cs C_compress_offset
            in if tst_rd_sz < compress_offset then Inr None
               else (case compressed_size (u32_sub tst_rd_sz compress_offset) s of
                       Inl e \<Rightarrow> Inl e
                     | Inr n \<Rightarrow>
                       (let tst_wr_sz = u32_add n compress_offset
                        in if u32_add (u32_add (cget cs C_protocol_overhead)
                                 (cget cs C_application_overhead)) tst_wr_sz < cget cs C_MTU
                              \<and> (\<not> sol_bool s \<or> tst_wr_sz < tst_rd_sz)
                           then Inr (Some (tst_rd_sz, tst_wr_sz))
                           else rd_search cs s fsize (Suc i))))
      else rd_search cs s fsize (Suc i))"
  by pat_completeness auto
termination by (relation "measure (\<lambda>(cs, s, f, i). f - i)") auto

declare rd_search.simps [simp del]

text \<open>The last loop of the block size: its condition asks for \<open>blocksize % rd_size != 0\<close>.\<close>

function bs_shrink :: "nat \<Rightarrow> nat \<Rightarrow> nat \<Rightarrow> nat" where
  "bs_shrink fsize rd_size blocksize =
     (if rd_size > 0 \<and> blocksize div rd_size > 1 \<and> blocksize mod rd_size \<noteq> 0
         \<and> fsize mod blocksize \<noteq> 0
      then bs_shrink fsize rd_size (blocksize - rd_size) else blocksize)"
  by pat_completeness auto
termination
  by (relation "measure (\<lambda>(f, r, b). b)") (auto intro!: diff_less, metis div_less_dividend gr0I div_0 not_less_zero)

declare bs_shrink.simps [simp del]

definition frame_blocksize :: "nat \<Rightarrow> nat \<Rightarrow> nat \<Rightarrow> c_error + nat" where
  "frame_blocksize blocksize fsize rd_size =
     (if blocksize = unconstrained then Inr fsize
      else if blocksize > fsize then Inr (blocksize - blocksize mod fsize)
      else if blocksize > rd_size
      then Inr (bs_shrink fsize rd_size (blocksize - blocksize mod rd_size))
      else Inl Constraint_Error)"

definition constrain_by_framesize :: "constraintset \<Rightarrow> solution \<Rightarrow> c_error + constraintset" where
  "constrain_by_framesize cs s =
     (let n_mtu = cget cs C_n_mtu; blocksize = cget cs C_blocksize; fsize = cget cs C_framesize;
          compress_offset = cget cs C_compress_offset
      in if compress_offset mod 8 \<noteq> 0 then Inl Constraint_Error
         else if n_mtu \<noteq> 1 \<and> n_mtu \<noteq> unconstrained then Inl Constraint_Error
         else if fsize = unconstrained \<or> fsize = 0 then Inl Constraint_Error
         else if n_mtu = unconstrained
         then (case stream_blocksize blocksize fsize compress_offset of
                 Inl e \<Rightarrow> Inl e
               | Inr bs \<Rightarrow>
                 (case compressed_size (u32_sub fsize compress_offset) s of
                    Inl e \<Rightarrow> Inl e
                  | Inr n \<Rightarrow> Inr (set_sizes cs bs fsize (u32_add n compress_offset))))
         else (case rd_search cs s fsize 1 of
                 Inl e \<Rightarrow> Inl e
               | Inr None \<Rightarrow> Inl Constraint_Error
               | Inr (Some (rd_size, wr_size)) \<Rightarrow>
                 (case frame_blocksize blocksize fsize rd_size of
                    Inl e \<Rightarrow> Inl e
                  | Inr bs \<Rightarrow> Inr (set_sizes cs bs rd_size wr_size))))"

subsection \<open>Constraints from network parameters, format and compression\<close>

definition constraints_from_nw :: "netparms \<Rightarrow> constraintset" where
  "constraints_from_nw np =
     (let proto = np_protocol np;
          udp = str_contains ''udp'' proto \<or> str_contains ''udt'' proto;
          (iphdr, aphdr, rv) =
            (if str_contains ''tcp'' proto then (20 + 6 * 4, 0, Map.empty)
             else if udp
             then (20 + 4 * 2, if str_contains ''udps'' proto then 8 else 0, cset Map.empty C_n_mtu 1)
             else (20, 0, Map.empty))
      in cset (cset (cset (cset rv C_MTU (np_mtu np)) C_blocksize (np_blocksize np))
           C_protocol_overhead iphdr) C_application_overhead aphdr)"

definition constrain_set :: "constraintset \<Rightarrow> solution \<Rightarrow> c_error + constraintset" where
  "constrain_set cs s =
     (let lcl = (if cget cs C_compress_offset = unconstrained \<or> \<not> sol_bool s
                 then cset cs C_compress_offset 0 else cs)
      in if cget lcl C_framesize = unconstrained then constrain_by_blocksize lcl s
         else constrain_by_framesize lcl s)"

text \<open>The three blocks that add the frame size to the constraints of the network.\<close>

definition constrain :: "netparms \<Rightarrow> headersearch \<Rightarrow> solution \<Rightarrow> nat \<Rightarrow> c_error + constraintset" where
  "constrain np hdr s options =
     (let with_frame = (\<lambda>cs. cset cs C_framesize (hs_framesize hdr));
          with_offset = (\<lambda>cs. if hs_frameformat hdr = fmt_mark5b
                              then cset cs C_compress_offset (hs_headersize hdr) else cs);
          lcl = constraints_from_nw np;
          lcl = (if sol_bool s \<and> hs_valid hdr then with_offset (with_frame lcl) else lcl);
          lcl = (if is_vdif (hs_frameformat hdr) \<and> str_contains ''udp'' (np_protocol np)
                 then with_frame lcl else lcl);
          byframesize = bit options 0
      in if byframesize \<and> \<not> hs_valid hdr then Inl Constraint_Error
         else constrain_set (if byframesize then with_offset (with_frame lcl) else lcl) s)"

text \<open>The three shorter forms.\<close>

definition constrain_net :: "netparms \<Rightarrow> c_error + constraintset" where
  "constrain_net np = constrain np headersearch_empty solution_empty 0"

definition constrain_solution :: "netparms \<Rightarrow> solution \<Rightarrow> c_error + constraintset" where
  "constrain_solution np s = constrain np headersearch_empty s 0"

definition constrain_header :: "netparms \<Rightarrow> headersearch \<Rightarrow> c_error + constraintset" where
  "constrain_header np hdr = constrain np hdr solution_empty 0"

subsection \<open>What the searches need of a pair of size functions\<close>

locale size_scheme =
  fixes csize usize :: "nat \<Rightarrow> 'sol \<Rightarrow> 'err + nat" and good :: "'sol \<Rightarrow> bool"
  assumes csize_le: "good s \<Longrightarrow> n < 2 ^ 32 \<Longrightarrow> csize n s = Inr m \<Longrightarrow> m \<le> n"
    and csize_pos: "good s \<Longrightarrow> 0 < n \<Longrightarrow> n < 2 ^ 32 \<Longrightarrow> csize n s = Inr m \<Longrightarrow> 0 < m"
    and usize_ge: "good s \<Longrightarrow> n < 2 ^ 16 \<Longrightarrow> usize n s = Inr m \<Longrightarrow> n \<le> m \<and> m < 2 ^ 31"
begin

lemma write_fits:
  assumes "good s" "co \<le> rd" "rd < 2 ^ 32" "csize (u32_sub rd co) s = Inr m"
  shows "u32_add m co = m + co" "m + co \<le> rd" "co < rd \<Longrightarrow> 0 < m"
proof -
  have d: "u32_sub rd co = rd - co" using assms(2,3) by (rule u32_sub_exact)
  have m: "m \<le> rd - co" by (rule csize_le [OF assms(1) _ assms(4) [unfolded d]]) (use assms(3) in simp)
  then show "m + co \<le> rd" using assms(2) by linarith
  with assms(3) show "u32_add m co = m + co" by (intro u32_add_exact) linarith
  show "0 < m" if "co < rd"
    by (rule csize_pos [OF assms(1) _ _ assms(4) [unfolded d]]) (use assms(3) that in auto)
qed

lemma read_covers:
  assumes "good s" "co \<le> wr" "wr < 2 ^ 16" "usize (u32_sub wr co) s = Inr m"
  shows "u32_add m co = m + co" "wr \<le> m + co"
proof -
  have d: "u32_sub wr co = wr - co" using assms(2,3) by (intro u32_sub_exact) simp_all
  have m: "wr - co \<le> m \<and> m < 2 ^ 31"
    by (rule usize_ge [OF assms(1) _ assms(4) [unfolded d]]) (use assms(3) in simp)
  then show "wr \<le> m + co" using assms(2) by linarith
  have "m + co < 2 ^ 32" using m assms(2,3) by simp
  then show "u32_add m co = m + co" by (rule u32_add_exact)
qed

end

text \<open>The solutions that qualify: none, or a complete one of a reasonable length.\<close>

definition packs :: "solution \<Rightarrow> bool" where
  "packs s \<longleftrightarrow> \<not> sol_bool s \<or> sol_flags s \<and> sol_complete s \<and> 0 < sol_compressed_cycle s
     \<and> sol_cycle s \<le> 2 ^ 12 \<and> length (sol_steps s) \<le> 2 ^ 12"

lemma compressed_size_sound:
  assumes "packs s" "n < 2 ^ 32" "compressed_size n s = Inr m"
  shows "m \<le> n" "0 < n \<Longrightarrow> 0 < m"
proof -
  have "m \<le> n \<and> (0 < n \<longrightarrow> 0 < m)"
  proof (cases "sol_bool s")
    case False
    with assms(3) show ?thesis by (simp add: compressed_size_def)
  next
    case True
    have w: "n div 8 < 2 ^ 32" using assms(2) by (rule le_less_trans [OF div_le_dividend])
    from True assms(1) have "sol_flags s" "sol_complete s" "0 < sol_compressed_cycle s"
      by (auto simp: packs_def)
    from outputsize_sound [OF this w] obtain r where
      r: "outputsize s (n div 8) = Inr r" "r \<le> n div 8" "0 < n div 8 \<longrightarrow> 0 < r"
      by (elim exE conjE) (rule that)
    have m: "n mod 8 = 0" "m = u32_mul r 8"
      using assms(3) True r(1) unfolding compressed_size_def by (simp_all split: if_splits)
    have "r * 8 \<le> n" using r(2) by linarith
    then have "m = r * 8" using m(2) assms(2) by (simp add: u32_mul_exact)
    moreover have "0 < n \<Longrightarrow> 0 < n div 8" using m(1) by auto
    ultimately show ?thesis using r(2,3) by auto
  qed
  then show "m \<le> n" "0 < n \<Longrightarrow> 0 < m" by auto
qed

lemma uncompressed_size_sound:
  assumes "packs s" "n < 2 ^ 16" "uncompressed_size n s = Inr m"
  shows "n \<le> m \<and> m < 2 ^ 31"
proof (cases "sol_bool s")
  case False
  with assms(2,3) show ?thesis by (simp add: uncompressed_size_def)
next
  case True
  then have s: "0 < sol_compressed_cycle s" "sol_cycle s \<le> 2 ^ 12" "length (sol_steps s) \<le> 2 ^ 12"
    using assms(1) by (auto simp: packs_def)
  obtain r where r: "inputsize s (n div 8) = Inr r" "m = u32_mul r 8" "n mod 8 = 0"
    using True assms(3) by (auto simp: uncompressed_size_def split: if_splits sum.splits)
  have "n div 8 < 2 ^ 13" using assms(2) by simp
  from inputsize_covers [OF s this r(1)] have "n div 8 \<le> r" "r < 2 ^ 26" by auto
  then have "m = r * 8" "n \<le> r * 8" using r(2,3) by (auto simp: u32_mul_exact)
  with \<open>r < 2 ^ 26\<close> show ?thesis by simp
qed

interpretation packing: size_scheme compressed_size uncompressed_size packs
  by (unfold_locales; rule compressed_size_sound uncompressed_size_sound; assumption)

lemma min_read_mult: "min_read_bytes s mod 8 = 0"
  by (simp add: min_read_bytes_def u32_mul_def mod_mult_mult2 mod_mod_cancel)

lemma min_read_pos: "packs s \<Longrightarrow> 8 \<le> min_read_bytes s \<and> min_read_bytes s \<le> 2 ^ 15"
  by (auto simp: packs_def min_read_bytes_def u32_mul_exact sol_compressed_cycle_def sol_cycle_def)

subsection \<open>The searches end and find consistent sizes\<close>

definition sizes_fit :: "constraintset \<Rightarrow> nat \<Rightarrow> nat \<Rightarrow> nat \<Rightarrow> bool" where
  "sizes_fit cs blocksize rd wr \<longleftrightarrow> cget cs C_compress_offset < rd \<and> 0 < wr \<and> wr \<le> rd \<and> 0 < blocksize
     \<and> rd \<le> blocksize \<and> blocksize < unconstrained \<and> blocksize mod rd = 0"

lemma wr_search_found:
  assumes "packs s" "co < abs_min" "8 \<le> abs_min"
  shows "wr < 2 ^ 16 \<Longrightarrow> wr mod 8 = 0 \<Longrightarrow> wr_search fuel s bs co abs_min wr = Inr (wr', Some (rd, bs')) \<Longrightarrow>
    wr' \<le> wr \<and> abs_min \<le> wr' \<and> wr' mod 8 = 0 \<and> wr' \<le> rd \<and> rd \<le> bs' \<and> bs' \<le> bs \<and> bs' mod 8 = 0 \<and> bs' mod rd = 0"
proof (induction fuel arbitrary: wr)
  case 0
  then show ?case by (simp add: wr_search.simps [of 0] split: if_splits)
next
  case (Suc fuel)
  let ?go = "wr_search fuel s bs co abs_min (u32_sub wr 8)"
  from Suc.prems(3) obtain n where ge: "abs_min \<le> wr"
    and n: "uncompressed_size (u32_sub wr co) s = Inr n"
    by (subst (asm) wr_search.simps) (auto split: if_splits sum.splits)
  define tst where "tst = u32_add n co"
  have "co \<le> wr" using ge assms(2) by simp
  from packing.read_covers [OF assms(1) this Suc.prems(1) n] have tst: "wr \<le> tst"
    by (simp add: tst_def)
  then have t0: "tst \<noteq> 0" using ge assms(3) by auto
  let ?blk = "bs - bs mod tst"
  have step: "wr_search (Suc fuel) s bs co abs_min wr =
      (if tst \<le> bs \<and> ?blk > 0 \<and> ?blk mod 8 = 0 \<and> tst mod 8 = 0 then Inr (wr, Some (tst, ?blk)) else ?go)"
    using ge t0 by (subst wr_search.simps) (simp add: n tst_def [symmetric] Let_def del: u32_add_def)
  show ?case
  proof (cases "tst \<le> bs \<and> ?blk > 0 \<and> ?blk mod 8 = 0 \<and> tst mod 8 = 0")
    case True
    with Suc.prems(3) step have e: "wr' = wr" "rd = tst" "bs' = ?blk" by auto
    have "tst dvd ?blk" by (simp add: dvd_minus_mod)
    with True have "tst \<le> ?blk" by (auto intro: dvd_imp_le)
    with \<open>tst dvd ?blk\<close> True show ?thesis unfolding e using ge tst Suc.prems(2) by auto
  next
    case False
    have w: "u32_sub wr 8 = wr - 8" using ge assms(3) Suc.prems(1) by (simp add: u32_sub_exact)
    have "(wr - 8) mod 8 = 0" using Suc.prems(2) ge assms(3) le_mod_geq [of 8 wr] by simp
    moreover have "wr - 8 < 2 ^ 16" using Suc.prems(1) by (rule less_imp_diff_less)
    moreover have "wr_search fuel s bs co abs_min (wr - 8) = Inr (wr', Some (rd, bs'))"
      using step Suc.prems(3) unfolding if_not_P [OF False] w by simp
    ultimately show ?thesis using Suc.IH [of "wr - 8"] by auto
  qed
qed

lemma wr_search_ends:
  assumes "packs s" "co < abs_min" "8 \<le> abs_min"
  shows "wr < 2 ^ 16 \<Longrightarrow> wr \<le> 8 * fuel \<Longrightarrow> wr_search fuel s bs co abs_min wr \<noteq> Inl Loops_Forever
    \<and> wr_search fuel s bs co abs_min wr \<noteq> Inl Div_By_Zero"
proof (induction fuel arbitrary: wr)
  case 0
  then show ?case using assms(3) by (simp add: wr_search.simps [of 0])
next
  case (Suc fuel)
  show ?case
  proof (cases "abs_min \<le> wr")
    case False
    then show ?thesis by (simp add: wr_search.simps [of "Suc fuel"])
  next
    case ge: True
    have ih: "wr_search fuel s bs co abs_min (u32_sub wr 8) \<noteq> Inl Loops_Forever
      \<and> wr_search fuel s bs co abs_min (u32_sub wr 8) \<noteq> Inl Div_By_Zero"
      by (rule Suc.IH) (use ge assms(3) Suc.prems in \<open>simp_all add: u32_sub_exact\<close>)
    show ?thesis
    proof (cases "uncompressed_size (u32_sub wr co) s")
      case (Inl e)
      then have "e \<noteq> Loops_Forever \<and> e \<noteq> Div_By_Zero"
        by (auto simp: uncompressed_size_def split: if_splits sum.splits)
      with Inl ge show ?thesis by (simp add: wr_search.simps [of "Suc fuel"])
    next
      case (Inr n)
      have "co \<le> wr" using ge assms(2) by simp
      from packing.read_covers [OF assms(1) this Suc.prems(1) Inr] have "u32_add n co \<noteq> 0"
        using ge assms(3) by auto
      with Inr ge ih show ?thesis by (subst (1 2) wr_search.simps) (auto simp: Let_def)
    qed
  qed
qed

subsection \<open>What validation accepts\<close>

lemma c_assert_iff: "c_assert bs = Inr () \<longleftrightarrow> (\<forall>b\<in>set bs. b)"
  by (induction bs) auto

lemma c_assert_error: "c_assert bs \<noteq> Inr () \<Longrightarrow> c_assert bs = Inl Constraint_Error"
  by (induction bs) auto

lemma ball_if_iff: "(\<forall>x\<in>set (if c then xs else []). P x) \<longleftrightarrow> (c \<longrightarrow> (\<forall>x\<in>set xs. P x))"
  by (cases c) simp_all

lemma validate_iff:
  "validate cs = Inr () \<longleftrightarrow>
     (isset cs C_blocksize \<and> isset cs C_read_size \<and> isset cs C_write_size \<and> isset cs C_MTU
      \<and> isset cs C_protocol_overhead \<and> isset cs C_application_overhead \<and> isset cs C_compress_offset
      \<and> 0 < cget cs C_blocksize \<and> 0 < cget cs C_read_size \<and> 0 < cget cs C_write_size \<and> 0 < cget cs C_MTU
      \<and> cget cs C_blocksize mod 8 = 0 \<and> cget cs C_compress_offset mod 8 = 0
      \<and> (cget cs C_n_mtu = 1 \<or> cget cs C_n_mtu = unconstrained)
      \<and> cget cs C_read_size \<le> cget cs C_blocksize \<and> cget cs C_blocksize mod cget cs C_read_size = 0
      \<and> cget cs C_compress_offset < cget cs C_read_size)
     \<and> (cget cs C_n_mtu = 1 \<longrightarrow> u32_add (u32_add (cget cs C_protocol_overhead)
           (cget cs C_application_overhead)) (cget cs C_write_size) \<le> cget cs C_MTU)
     \<and> cget cs C_write_size \<le> cget cs C_read_size
     \<and> (isset cs C_framesize \<longrightarrow> 0 < cget cs C_framesize \<and> cget cs C_framesize mod 8 = 0
          \<and> cget cs C_framesize mod cget cs C_read_size = 0)"
  unfolding validate_def Let_def c_assert_iff set_append ball_Un ball_if_iff
  by (simp only: list.set ball_simps simp_thms)

lemma validate_error: "validate cs \<noteq> Inr () \<Longrightarrow> validate cs = Inl Constraint_Error"
  unfolding validate_def Let_def by (rule c_assert_error)

lemma cget_set_sizes [simp]:
  "cget (set_sizes cs b r w) c =
     (if c = C_write_size then w else if c = C_read_size then r else if c = C_blocksize then b
      else cget cs c)"
  by (simp add: set_sizes_def cset_def cget_def)

lemma cget_cset [simp]: "cget (cset cs c v) d = (if d = c then v else cget cs d)"
  by (simp add: cset_def cget_def)

lemma isset_cget: "isset cs c = (cget cs c \<noteq> unconstrained)" by (simp add: isset_def)

text \<open>The constraints of a network with datagrams or streams that fit their types.\<close>

definition net_ok :: "constraintset \<Rightarrow> bool" where
  "net_ok cs \<longleftrightarrow> 0 < cget cs C_MTU \<and> cget cs C_MTU < 2 ^ 16
     \<and> cget cs C_protocol_overhead + cget cs C_application_overhead < 2 ^ 16
     \<and> cget cs C_compress_offset < 2 ^ 16 \<and> cget cs C_blocksize < 2 ^ 32
     \<and> cget cs C_framesize < 2 ^ 32"

lemma net_ok_isset:
  assumes "net_ok cs" shows "isset cs C_MTU" "isset cs C_protocol_overhead"
    "isset cs C_application_overhead" "isset cs C_compress_offset"
  using assms by (auto simp: net_ok_def isset_def unconstrained_def)

text \<open>Sizes that are set in constraints of a network make them valid.\<close>

lemma set_sizes_valid:
  assumes "net_ok cs" "b < unconstrained" "r \<le> b" "w \<le> r" "0 < w" "cget cs C_compress_offset < r"
    "b mod 8 = 0" "b mod r = 0" "cget cs C_compress_offset mod 8 = 0"
    "cget cs C_n_mtu = 1 \<or> cget cs C_n_mtu = unconstrained"
    "cget cs C_n_mtu = 1 \<Longrightarrow> u32_add (u32_add (cget cs C_protocol_overhead)
       (cget cs C_application_overhead)) w \<le> cget cs C_MTU"
    "cget cs C_framesize = unconstrained \<or>
     0 < cget cs C_framesize \<and> cget cs C_framesize mod 8 = 0 \<and> cget cs C_framesize mod r = 0"
  shows "validate (set_sizes cs b r w) = Inr ()"
proof -
  have "b \<noteq> unconstrained" "r \<noteq> unconstrained" "w \<noteq> unconstrained" "0 < r" "0 < b"
    using assms(2-5) by linarith+
  moreover have "0 < cget cs C_MTU" using assms(1) by (simp add: net_ok_def)
  ultimately show ?thesis
    unfolding validate_iff isset_cget cget_set_sizes
    using net_ok_isset [OF assms(1), unfolded isset_cget] assms(3-12)
    by (simp only: constraint.distinct if_False if_True simp_thms) blast
qed

lemma u32_min_read: "packs s \<Longrightarrow> co < 2 ^ 16 \<Longrightarrow> u32_add co (min_read_bytes s) = co + min_read_bytes s"
  using min_read_pos [of s] by (intro u32_add_exact) simp

lemma constrain_by_blocksize_stream:
  assumes "packs s" "net_ok cs" "constrain_by_blocksize cs s = Inr rv"
    "cget cs C_n_mtu = unconstrained"
  shows "\<exists>n. rv = set_sizes cs (align8 (cget cs C_blocksize)) (align8 (cget cs C_blocksize)) n
    \<and> cget cs C_compress_offset < align8 (cget cs C_blocksize) \<and> cget cs C_compress_offset mod 8 = 0
    \<and> n \<le> align8 (cget cs C_blocksize) \<and> 0 < n \<and> cget cs C_blocksize \<noteq> unconstrained"
proof -
  let ?co = "cget cs C_compress_offset" and ?rd = "align8 (cget cs C_blocksize)"
  from assms(3,4) obtain n where rv: "rv = set_sizes cs ?rd ?rd (u32_add n ?co)"
    and n: "compressed_size (u32_sub ?rd ?co) s = Inr n" and b: "cget cs C_blocksize \<noteq> unconstrained"
    and co: "?co mod 8 = 0" "\<not> cget cs C_blocksize < u32_add ?co (min_read_bytes s)"
    by (auto simp: constrain_by_blocksize_def Let_def unconstrained_def split: if_splits sum.splits)
  have "?co + 8 \<le> cget cs C_blocksize"
    using co(2) min_read_pos [OF assms(1)] assms(1,2) by (simp add: u32_min_read net_ok_def)
  then have "?co + 8 \<le> align8 (cget cs C_blocksize) + 7" using align8_gt [of "cget cs C_blocksize"] by simp
  then have lt: "?co < ?rd" by linarith
  have "cget cs C_blocksize < 2 ^ 32" using assms(2) by (simp add: net_ok_def)
  with align8_le have "?rd < 2 ^ 32" by (rule le_less_trans)
  from packing.write_fits [OF assms(1) _ this n] lt rv b co(1) show ?thesis by auto
qed

lemma constrain_by_blocksize_datagram:
  assumes "packs s" "net_ok cs" "constrain_by_blocksize cs s = Inr rv" "cget cs C_n_mtu = 1"
  shows "\<exists>rd bs wr. rv = set_sizes cs bs rd wr \<and> wr mod 8 = 0 \<and> cget cs C_compress_offset < wr \<and> wr \<le> rd \<and> rd \<le> bs
    \<and> bs \<le> cget cs C_blocksize \<and> bs mod 8 = 0 \<and> bs mod rd = 0 \<and> cget cs C_compress_offset mod 8 = 0
    \<and> cget cs C_blocksize \<noteq> unconstrained
    \<and> u32_add (u32_add (cget cs C_protocol_overhead) (cget cs C_application_overhead)) wr \<le> cget cs C_MTU"
proof -
  let ?co = "cget cs C_compress_offset" and ?mtu = "cget cs C_MTU" and ?b = "cget cs C_blocksize"
  let ?p = "cget cs C_protocol_overhead" and ?a = "cget cs C_application_overhead"
  let ?min = "min_read_bytes s" and ?start = "align8 (u32_sub (u32_sub ?mtu ?p) ?a)"
  from assms(3,4) obtain n wr rd bs where rv: "rv = set_sizes cs bs rd wr"
    and n: "compressed_size (?min div 8) s = Inr n"
    and w: "wr_search wr_fuel s ?b ?co (u32_add ?co (u32_mul n 8)) ?start = Inr (wr, Some (rd, bs))"
    and c: "?co mod 8 = 0" "\<not> ?mtu < u32_add (u32_add ?p ?a) ?co" "?b \<noteq> unconstrained"
    by (auto simp: constrain_by_blocksize_def Let_def unconstrained_def
        split: if_splits sum.splits option.splits)
  have ok: "?mtu < 2 ^ 16" "?p + ?a < 2 ^ 16" "?co < 2 ^ 16" using assms(2) by (simp_all add: net_ok_def)
  have m: "8 \<le> ?min" "?min \<le> 2 ^ 15" using min_read_pos [OF assms(1)] by auto
  have n8: "0 < n" "n \<le> ?min div 8" using compressed_size_sound [OF assms(1) _ n] m by auto
  then have nm: "u32_mul n 8 = n * 8" "n * 8 \<le> ?min" using m(2) by (auto simp: u32_mul_exact)
  then have amin: "u32_add ?co (u32_mul n 8) = ?co + n * 8" using ok(3) m(2) by (simp add: u32_add_exact)
  have pa: "u32_add ?p ?a = ?p + ?a" "?p + ?a + ?co \<le> ?mtu" using c(2) ok by (simp_all add: u32_add_exact)
  then have st: "u32_sub (u32_sub ?mtu ?p) ?a = ?mtu - ?p - ?a" using ok by (simp add: u32_sub_exact)
  have "?start \<le> ?mtu - ?p - ?a" unfolding st by simp
  then have s16: "?start < 2 ^ 16" using ok(1) by linarith
  note f = wr_search_found [OF assms(1) _ _ s16 _ w [unfolded amin]]
  have f: "wr \<le> ?start" "?co + n * 8 \<le> wr" "wr mod 8 = 0" "wr \<le> rd" "rd \<le> bs" "bs \<le> ?b" "bs mod 8 = 0"
    "bs mod rd = 0" using f n8(1) by auto
  have "?p + ?a + wr \<le> ?mtu" using f(1) \<open>?start \<le> _\<close> pa(2) by linarith
  then have "u32_add (u32_add ?p ?a) wr \<le> ?mtu" using ok(1) pa(1) by (simp add: u32_add_exact)
  with rv f c(1,3) n8(1) show ?thesis by (intro exI [of _ rd] exI [of _ bs] exI [of _ wr]) auto
qed

text \<open>C20: Whatever the search by block size returns passes validation, for streams and datagrams, with
  or without compression.\<close>

theorem blocksize_result_validates:
  assumes "packs s" "net_ok cs" "cget cs C_framesize = unconstrained"
    "constrain_by_blocksize cs s = Inr rv"
  shows "validate rv = Inr ()"
proof -
  have b: "n < unconstrained" if "n \<le> cget cs C_blocksize" "cget cs C_blocksize \<noteq> unconstrained" for n
    using that assms(2) by (simp add: net_ok_def unconstrained_def)
  have "cget cs C_n_mtu = 1 \<or> cget cs C_n_mtu = unconstrained"
    using assms(4) by (auto simp: constrain_by_blocksize_def Let_def split: if_splits)
  then show ?thesis
  proof
    assume u: "cget cs C_n_mtu = 1"
    from constrain_by_blocksize_datagram [OF assms(1,2,4) u] obtain rd bs wr where
      "rv = set_sizes cs bs rd wr \<and> wr mod 8 = 0 \<and> cget cs C_compress_offset < wr \<and> wr \<le> rd \<and> rd \<le> bs
    \<and> bs \<le> cget cs C_blocksize \<and> bs mod 8 = 0 \<and> bs mod rd = 0 \<and> cget cs C_compress_offset mod 8 = 0
    \<and> cget cs C_blocksize \<noteq> unconstrained
    \<and> u32_add (u32_add (cget cs C_protocol_overhead) (cget cs C_application_overhead)) wr \<le> cget cs C_MTU"
      by (elim exE) (rule that)
    then have
      r: "rv = set_sizes cs bs rd wr" "wr mod 8 = 0" "cget cs C_compress_offset < wr" "wr \<le> rd" "rd \<le> bs"
        "bs \<le> cget cs C_blocksize" "bs mod 8 = 0" "bs mod rd = 0" "cget cs C_compress_offset mod 8 = 0"
        "cget cs C_blocksize \<noteq> unconstrained"
        "u32_add (u32_add (cget cs C_protocol_overhead) (cget cs C_application_overhead)) wr \<le> cget cs C_MTU"
      by simp_all
    have "bs < unconstrained" using b r(6,10) by blast
    moreover have "cget cs C_compress_offset < rd" "0 < wr" using r(3,4) by linarith+
    ultimately show ?thesis
      unfolding r(1) using r assms(2,3) u by (intro set_sizes_valid) simp_all
  next
    assume u: "cget cs C_n_mtu = unconstrained"
    let ?bs = "align8 (cget cs C_blocksize)"
    from constrain_by_blocksize_stream [OF assms(1,2,4) u] obtain n where
      r: "rv = set_sizes cs ?bs ?bs n" "cget cs C_compress_offset < ?bs" "cget cs C_compress_offset mod 8 = 0"
        "n \<le> ?bs" "0 < n" "cget cs C_blocksize \<noteq> unconstrained" by (elim exE conjE) (rule that)
    have "?bs < unconstrained" using b [OF align8_le r(6)] .
    then show ?thesis
      unfolding r(1)
      by (rule set_sizes_valid [OF assms(2) _ order_refl r(4,5,2) align8_mod mod_self r(3) disjI2 [OF u] _
            disjI1 [OF assms(3)]]) (simp add: u unconstrained_def)
  qed
qed
text \<open>The network constraints of UDP with the default sizes, and of a compressing solution.\<close>

lemma packs_empty: "packs solution_empty"
  by (simp add: packs_def sol_bool_def solution_empty_def)

lemma sol_bool_empty [simp]: "\<not> sol_bool solution_empty"
  by (simp add: sol_bool_def solution_empty_def)

definition udp_constraints :: "nat \<Rightarrow> nat \<Rightarrow> nat \<Rightarrow> constraintset" where
  "udp_constraints overhead mtu blocksize =
     [C_n_mtu \<mapsto> 1, C_MTU \<mapsto> mtu, C_blocksize \<mapsto> blocksize, C_protocol_overhead \<mapsto> 28,
      C_application_overhead \<mapsto> overhead, C_compress_offset \<mapsto> 0]"

lemma cget_udp [simp]:
  "cget (udp_constraints ov mtu bs) c =
     (case c of C_n_mtu \<Rightarrow> 1 | C_MTU \<Rightarrow> mtu | C_blocksize \<Rightarrow> bs | C_protocol_overhead \<Rightarrow> 28
      | C_application_overhead \<Rightarrow> ov | C_compress_offset \<Rightarrow> 0 | _ \<Rightarrow> unconstrained)"
  by (cases c) (simp_all add: cget_def udp_constraints_def)

text \<open>Without compression the first candidate is taken.\<close>

lemma constrain_udp:
  assumes "ov \<le> 8" "64 \<le> mtu" "mtu < 2 ^ 16" "mtu \<le> bs" "bs < unconstrained"
  defines "w \<equiv> align8 (mtu - 28 - ov)"
  shows "constrain_by_blocksize (udp_constraints ov mtu bs) solution_empty =
      Inr (set_sizes (udp_constraints ov mtu bs) (bs - bs mod w) w w)"
    "8 \<le> w" "w \<le> bs" "w mod 8 = 0"
proof -
  have "mtu - 28 - ov < w + 8" unfolding w_def by (rule align8_gt)
  then show w8: "8 \<le> w" using assms(1,2) by linarith
  have wle: "w \<le> mtu - 28 - ov" unfolding w_def by simp
  then show wbs: "w \<le> bs" using assms(4) by linarith
  show wm: "w mod 8 = 0" by (simp add: w_def)
  have "8 dvd w" by (simp add: w_def)
  moreover have "w dvd bs - bs mod w" by (simp add: dvd_minus_mod)
  ultimately have "8 dvd bs - bs mod w" by (rule dvd_trans)
  then have m8: "(bs - bs mod w) mod 8 = 0" by (rule dvd_imp_mod_0)
  have "bs mod w < w" using w8 by simp
  then have pos: "0 < bs - bs mod w" using wbs by linarith
  have w32: "w < 2 ^ 32" using wle assms(3) by simp
  have s: "u32_sub w 0 = w" "u32_add w 0 = w" using w32 by (simp_all add: u32_sub_exact u32_add_exact)
  have search: "wr_search wr_fuel solution_empty bs 0 8 w = Inr (w, Some (w, bs - bs mod w))"
    by (subst wr_search.simps) (use w8 wbs wm m8 pos in \<open>simp add: uncompressed_size_def s wr_fuel_def\<close>)
  have o: "u32_sub (u32_sub mtu 28) ov = mtu - 28 - ov" "u32_add 28 ov = 28 + ov"
    using assms(1-3) by (simp_all add: u32_sub_exact u32_add_exact)
  have wa: "align8 (mtu - (28 + ov)) = w" by (simp add: w_def)
  show "constrain_by_blocksize (udp_constraints ov mtu bs) solution_empty =
      Inr (set_sizes (udp_constraints ov mtu bs) (bs - bs mod w) w w)"
    unfolding constrain_by_blocksize_def using assms(1-5) search
    by (simp add: min_read_bytes_def compressed_size_def o wa unconstrained_def
        u32_add_exact u32_mul_exact)
qed

theorem blocksize_result_validates_witness:
  "validate (set_sizes (udp_constraints 8 1500 131072) (131072 - 131072 mod 1464) 1464 1464) = Inr ()"
proof -
  have "align8 1464 = 1464" by (simp add: align8_def)
  then have "constrain_by_blocksize (udp_constraints 8 1500 131072) solution_empty =
      Inr (set_sizes (udp_constraints 8 1500 131072) (131072 - 131072 mod 1464) 1464 1464)"
    using constrain_udp(1) [of 8 1500 131072] by (simp add: unconstrained_def)
  moreover have "net_ok (udp_constraints 8 1500 131072)" by (simp add: net_ok_def unconstrained_def)
  ultimately show ?thesis
    by (intro blocksize_result_validates [OF packs_empty]) simp_all
qed

text \<open>C11: For UDP and UDPs, when the MTU leaves room for the headers and a block holds at least one
  datagram, the constraints derived from the network parameters alone exist and are valid: each
  datagram carries the largest multiple of 8 bytes that fits the payload of the network parameters,
  and blocks are truncated to whole datagrams.\<close>

theorem net_constraints_udp:
  assumes "str_contains ''udp'' (np_protocol np)" "\<not> str_contains ''tcp'' (np_protocol np)"
    "64 \<le> np_mtu np" "np_mtu np < 2 ^ 16" "np_mtu np \<le> np_blocksize np"
    "np_blocksize np < unconstrained"
  defines "w \<equiv> align8 (get_max_payload np)"
  shows "\<exists>cs. constrain_net np = Inr cs \<and> validate cs = Inr () \<and> cget cs C_write_size = w
    \<and> cget cs C_read_size = w \<and> cget cs C_blocksize = np_blocksize np - np_blocksize np mod w"
proof -
  let ?ov = "if str_contains ''udps'' (np_protocol np) then 8 else (0 :: nat)"
  let ?u = "udp_constraints ?ov (np_mtu np) (np_blocksize np)"
  have "header_size (np_protocol np) = 28 + ?ov" using assms(1,2) by (simp add: header_size_def)
  then have w: "w = align8 (np_mtu np - 28 - ?ov)"
    using assms(3,4) by (simp add: w_def get_max_payload_def u32_sub_exact)
  have "constraints_from_nw np = ?u(C_compress_offset := None)"
    using assms(1,2) by (auto simp: constraints_from_nw_def cset_def udp_constraints_def)
  then have "cset (constraints_from_nw np) C_compress_offset 0 = ?u"
    by (simp add: cset_def udp_constraints_def fun_upd_twist)
  moreover have "cget (constraints_from_nw np) C_framesize = unconstrained"
    by (simp add: constraints_from_nw_def cget_def cset_def Let_def)
  ultimately have "constrain_net np = constrain_by_blocksize ?u solution_empty"
    by (simp add: Let_def constrain_net_def constrain_def constrain_set_def headersearch_empty_def is_vdif_def
        hs_valid_def)
  moreover have "?ov \<le> 8" by simp
  note c = constrain_udp [OF this assms(3-6), folded w]
  ultimately have e: "constrain_net np = Inr (set_sizes ?u (np_blocksize np - np_blocksize np mod w) w w)"
    and cu: "constrain_by_blocksize ?u solution_empty =
      Inr (set_sizes ?u (np_blocksize np - np_blocksize np mod w) w w)"
    by simp_all
  have "w \<le> np_mtu np - 28 - ?ov" unfolding w by simp
  then have wm: "w \<le> np_mtu np - 28 - ?ov" .
  have "validate (set_sizes ?u (np_blocksize np - np_blocksize np mod w) w w) = Inr ()"
  proof (rule set_sizes_valid)
    show "net_ok ?u" using assms(3-6) by (simp add: net_ok_def unconstrained_def)
    have b: "np_blocksize np mod w < w" using c(2) by simp
    have "w dvd np_blocksize np - np_blocksize np mod w" by (simp add: dvd_minus_mod)
    moreover have "0 < np_blocksize np - np_blocksize np mod w" using b c(3) by simp
    ultimately show "w \<le> np_blocksize np - np_blocksize np mod w" by (rule dvd_imp_le)
    from \<open>w dvd _\<close> show "(np_blocksize np - np_blocksize np mod w) mod w = 0" by simp
    have "8 dvd w" by (simp add: w_def)
    from dvd_trans [OF this \<open>w dvd _\<close>] show "(np_blocksize np - np_blocksize np mod w) mod 8 = 0" by simp
    show "u32_add (u32_add (cget ?u C_protocol_overhead) (cget ?u C_application_overhead)) w
        \<le> cget ?u C_MTU"
      using wm assms(3,4) by (auto simp: u32_add_exact split: if_splits)
  qed (use c(2) assms(3-6) in auto)
  with e show ?thesis by auto
qed

definition udps_defaults :: netparms where
  "udps_defaults = \<lparr>np_rcvbufsize = defSockbuf, np_sndbufsize = defSockbuf,
     np_interpacketdelay_ns = defIPD, np_theoretical_ipd_ns = 0, np_ackPeriod = defACK,
     np_nblock = defNBlock, np_protocol = ''udps'', np_mtu = 9000, np_blocksize = defBlockSize,
     np_hps = defHPS, np_n_non_empty_suffixes = 0, np_suffixmap = Map.empty\<rparr>"

theorem net_constraints_udp_witness:
  "\<exists>cs. constrain_net udps_defaults = Inr cs \<and> validate cs = Inr () \<and> cget cs C_write_size = 8960"
proof -
  have h: "header_size ''udps'' = 36" by (simp add: header_size_def)
  have "align8 (get_max_payload udps_defaults) = 8960"
    by (simp add: get_max_payload_def udps_defaults_def h u32_sub_def align8_def)
  then have "\<exists>cs. constrain_net udps_defaults = Inr cs \<and> validate cs = Inr ()
      \<and> cget cs C_write_size = 8960 \<and> cget cs C_read_size = 8960 \<and> cget cs C_blocksize = 125440"
    using net_constraints_udp [of udps_defaults]
    by (simp add: udps_defaults_def defBlockSize_def unconstrained_def)
  then show ?thesis by blast
qed

subsection \<open>Frames\<close>

lemma rd_search_found:
  assumes "packs s" "net_ok cs" "\<not> sol_bool s \<Longrightarrow> cget cs C_compress_offset = 0"
  shows "fs < 2 ^ 32 \<Longrightarrow> 0 < i \<Longrightarrow> rd_search cs s fs i = Inr (Some (rd, wr)) \<Longrightarrow>
    rd dvd fs \<and> cget cs C_compress_offset < rd \<and> 0 < wr \<and> wr \<le> rd \<and> rd \<le> fs
    \<and> u32_add (u32_add (cget cs C_protocol_overhead) (cget cs C_application_overhead)) wr < cget cs C_MTU"
proof (induction "fs - i" arbitrary: i)
  case 0
  then show ?case by (simp add: rd_search.simps)
next
  case (Suc k)
  let ?co = "cget cs C_compress_offset" and ?rd = "fs div i"
  have i: "i < fs" "k = fs - Suc i" using Suc.hyps(2) by simp_all
  show ?case
  proof (cases "rd_search cs s fs (Suc i) = Inr (Some (rd, wr))")
    case True
    from Suc.hyps(1) [OF i(2) Suc.prems(1) _ True] show ?thesis by simp
  next
    case False
    from Suc.prems(3) False obtain n where
      d: "fs mod i = 0" "rd = ?rd" "wr = u32_add n ?co" "\<not> ?rd < ?co"
      and n: "compressed_size (u32_sub ?rd ?co) s = Inr n"
      and l: "u32_add (u32_add (cget cs C_protocol_overhead) (cget cs C_application_overhead)) wr < cget cs C_MTU"
        "\<not> sol_bool s \<or> wr < rd"
      by (subst (asm) rd_search.simps) (auto simp: Let_def split: if_splits sum.splits)
    have "?rd \<le> fs" by simp
    then have "?rd < 2 ^ 32" using Suc.prems(1) by (rule le_less_trans)
    note f = packing.write_fits [OF assms(1) _ this n]
    have "0 < ?rd" using i(1) Suc.prems(2) by (simp add: div_greater_zero_iff)
    moreover have "u32_add n ?co = n + ?co" "n + ?co \<le> ?rd" using f d(4) by simp_all
    ultimately have "?co < rd" using l(2) assms(3) d(2,3) by (cases "sol_bool s") auto
    moreover have "rd dvd fs" using d(1,2) by (metis dvd_div_mult_self dvd_eq_mod_eq_0 dvd_triv_left)
    ultimately show ?thesis using f d l by auto
  qed
qed

text \<open>The search by frame size is sound when a block can hold a frame: for frames of a multiple of 8
  bytes, whatever it returns passes validation and its blocks hold whole frames.\<close>

theorem framesize_result_validates:
  assumes "packs s" "net_ok cs" "\<not> sol_bool s \<Longrightarrow> cget cs C_compress_offset = 0"
    "cget cs C_framesize mod 8 = 0" "cget cs C_compress_offset < cget cs C_framesize"
    "cget cs C_blocksize = unconstrained \<or> cget cs C_framesize \<le> align8 (cget cs C_blocksize)"
    "constrain_by_framesize cs s = Inr rv"
  shows "validate rv = Inr () \<and> cget rv C_blocksize mod cget cs C_framesize = 0"
proof -
  let ?fs = "cget cs C_framesize" and ?b = "cget cs C_blocksize" and ?co = "cget cs C_compress_offset"
  let ?oh = "u32_add (cget cs C_protocol_overhead) (cget cs C_application_overhead)"
  have fs: "0 < ?fs" "?fs < unconstrained" and co: "?co mod 8 = 0"
    and n: "cget cs C_n_mtu = 1 \<or> cget cs C_n_mtu = unconstrained"
    using assms(2,7) by (auto simp: constrain_by_framesize_def Let_def net_ok_def unconstrained_def
        split: if_splits)
  have block: "validate (set_sizes cs bs rd wr) = Inr () \<and> bs mod ?fs = 0"
    if "?fs dvd bs" "0 < bs" "bs < unconstrained" "rd dvd ?fs" "?co < rd" "0 < wr" "wr \<le> rd"
      "cget cs C_n_mtu = 1 \<Longrightarrow> u32_add ?oh wr \<le> cget cs C_MTU" for bs rd wr
  proof -
    have "8 dvd ?fs" using assms(4) by (simp add: dvd_eq_mod_eq_0)
    then have b8: "bs mod 8 = 0" using that(1) dvd_trans dvd_imp_mod_0 by blast
    have rb: "rd dvd bs" using that(4,1) by (rule dvd_trans)
    then have "rd \<le> bs" using that(2) by (rule dvd_imp_le)
    then have "validate (set_sizes cs bs rd wr) = Inr ()"
      by (rule set_sizes_valid [OF assms(2) that(3) _ that(7,6,5) b8 dvd_imp_mod_0 [OF rb] co n that(8)
            disjI2 [OF conjI [OF fs(1) conjI [OF assms(4) dvd_imp_mod_0 [OF that(4)]]]]])
    with that(1) show ?thesis by simp
  qed
  have trunc: "?fs dvd b - b mod ?fs \<and> 0 < b - b mod ?fs \<and> b - b mod ?fs < unconstrained"
    if "?fs \<le> b" "b < unconstrained" for b
  proof -
    have "b mod ?fs < ?fs" using fs(1) by simp
    then show ?thesis using that by (auto simp: dvd_minus_mod)
  qed
  have blt: "b \<le> ?b \<Longrightarrow> ?b \<noteq> unconstrained \<Longrightarrow> b < unconstrained" for b
    using assms(2) by (simp add: net_ok_def unconstrained_def)
  from n show ?thesis
  proof
    assume u: "cget cs C_n_mtu = 1"
    with assms(7) fs co obtain rd wr bs where
      r: "rd_search cs s ?fs 1 = Inr (Some (rd, wr))" "frame_blocksize ?b ?fs rd = Inr bs"
        "rv = set_sizes cs bs rd wr"
      by (auto simp: constrain_by_framesize_def Let_def unconstrained_def
          split: if_splits sum.splits option.splits)
    have "?fs < 2 ^ 32" using fs(2) by (simp add: unconstrained_def)
    from rd_search_found [OF assms(1-3) this _ r(1)] have
      f: "rd dvd ?fs" "?co < rd" "0 < wr" "wr \<le> rd" "u32_add ?oh wr < cget cs C_MTU" by auto
    have "?fs dvd bs \<and> 0 < bs \<and> bs < unconstrained"
    proof (cases "?b = unconstrained \<or> ?b = ?fs")
      case True
      have "rd \<le> ?fs" using f(1) fs(1) by (rule dvd_imp_le)
      with True r(2) f(1) fs show ?thesis
        by (auto simp: frame_blocksize_def bs_shrink.simps dvd_imp_mod_0 split: if_splits)
    next
      case False
      then have "?fs < ?b" using assms(6) align8_le [of ?b] by linarith
      with False r(2) have "bs = ?b - ?b mod ?fs" by (simp add: frame_blocksize_def)
      with trunc [of ?b] \<open>?fs < ?b\<close> blt [of ?b] False show ?thesis by simp
    qed
    with block f show ?thesis unfolding r(3) by simp
  next
    assume u: "cget cs C_n_mtu = unconstrained"
    with assms(7) fs co obtain m bs where
      r: "stream_blocksize ?b ?fs ?co = Inr bs" "compressed_size (u32_sub ?fs ?co) s = Inr m"
        "rv = set_sizes cs bs ?fs (u32_add m ?co)"
      by (auto simp: constrain_by_framesize_def Let_def unconstrained_def split: if_splits sum.splits)
    define b where "b = (if ?b = unconstrained then ?fs else align8 ?b)"
    have b: "?fs \<le> b" "b < unconstrained"
      using assms(6) fs(2) blt [OF align8_le] by (auto simp: b_def)
    have "bs = b - b mod ?fs"
    proof (cases "b = ?fs")
      case True
      have "b mod 8 = 0" using True assms(4) by simp
      with True r(1) fs assms(5) show ?thesis
        by (simp add: stream_blocksize_def b_def [symmetric] Let_def bs_search.simps split: if_splits)
    next
      case False
      with r(1) b(1) show ?thesis by (simp add: stream_blocksize_def b_def [symmetric] Let_def)
    qed
    moreover have "?fs < 2 ^ 32" using fs(2) by (simp add: unconstrained_def)
    note w = packing.write_fits [OF assms(1) less_imp_le [OF assms(5)] this r(2)]
    ultimately have "validate (set_sizes cs bs ?fs (m + ?co)) = Inr () \<and> bs mod ?fs = 0"
      by (intro block) (use trunc [OF b] w assms(5) u in \<open>auto simp: unconstrained_def\<close>)
    then show ?thesis unfolding r(3) w(1) by simp
  qed
qed


definition frame_constraints :: "nat \<Rightarrow> nat \<Rightarrow> constraintset" where
  "frame_constraints fs bs =
     [C_MTU \<mapsto> 1500, C_blocksize \<mapsto> bs, C_protocol_overhead \<mapsto> 44, C_framesize \<mapsto> fs,
      C_application_overhead \<mapsto> 0, C_compress_offset \<mapsto> 0]"

lemma cget_frame [simp]:
  "cget (frame_constraints fs bs) c =
     (case c of C_MTU \<Rightarrow> 1500 | C_blocksize \<Rightarrow> bs | C_protocol_overhead \<Rightarrow> 44
      | C_application_overhead \<Rightarrow> 0 | C_compress_offset \<Rightarrow> 0 | C_framesize \<Rightarrow> fs
      | _ \<Rightarrow> unconstrained)"
  by (cases c) (simp_all add: cget_def frame_constraints_def)

theorem framesize_result_validates_witness:
  "validate (set_sizes (cset (frame_constraints 1024 131072) C_n_mtu 1) 131072 1024 1024) = Inr ()"
proof -
  let ?cs = "cset (frame_constraints 1024 131072) C_n_mtu 1"
  have "rd_search ?cs solution_empty 1024 1 = Inr (Some (1024, 1024))"
    by (subst rd_search.simps) (simp add: compressed_size_def u32_sub_def u32_add_def)
  then have "constrain_by_framesize ?cs solution_empty = Inr (set_sizes ?cs 131072 1024 1024)"
    by (simp add: constrain_by_framesize_def frame_blocksize_def unconstrained_def)
  moreover have "net_ok ?cs" by (simp add: net_ok_def unconstrained_def)
  moreover have "align8 131072 = 131072" by (simp add: align8_def)
  ultimately show ?thesis
    using framesize_result_validates [OF packs_empty, of ?cs] by simp
qed

lemma bs_search_small:
  assumes "0 < bs" "bs < fs" "2 \<le> i" "i < fs"
  shows "bs_search fs co i bs = (j, bs') \<Longrightarrow> j < fs \<Longrightarrow> bs' < fs \<and> 0 < bs'"
  using assms
proof (induction fs co i bs rule: bs_search.induct)
  case (1 fs co i bs)
  show ?case
  proof (cases "fs mod bs = 0 \<and> bs mod 8 = 0 \<and> bs > co")
    case True
    with "1.prems" show ?thesis by (simp add: bs_search.simps)
  next
    case False
    have "fs div i < fs" "0 < fs div i" using "1.prems"(5,6) by (simp_all add: div_greater_zero_iff)
    moreover have "bs_search fs co (Suc i) (fs div i) = (j, bs')"
      using "1.prems"(1,6) False by (subst (asm) bs_search.simps) simp
    moreover have "Suc i < fs" if "\<not> j < fs \<or> Suc i < fs" using that "1.prems"(2) by simp
    moreover have "Suc i = fs \<Longrightarrow> j = fs"
      using calculation(3) by (simp add: bs_search.simps)
    ultimately show ?thesis using "1.IH" "1.prems" False by (cases "Suc i = fs") auto
  qed
qed

text \<open>Streaming frames of at least two blocks: the divider found for the block size is smaller than
  the read size, which is a whole frame, so the constraints returned never pass validation.\<close>

theorem streaming_small_block_rejected:
  assumes "constrain_by_framesize cs s = Inr rv" "cget cs C_n_mtu = unconstrained"
    "cget cs C_blocksize \<noteq> unconstrained" "2 * align8 (cget cs C_blocksize) \<le> cget cs C_framesize"
  shows "validate rv = Inl Constraint_Error"
proof -
  let ?fs = "cget cs C_framesize" and ?co = "cget cs C_compress_offset"
  let ?b = "align8 (cget cs C_blocksize)"
  from assms(1-3) obtain m bs where r: "stream_blocksize (cget cs C_blocksize) ?fs ?co = Inr bs"
    "rv = set_sizes cs bs ?fs m" "0 < ?fs"
    by (auto simp: constrain_by_framesize_def Let_def unconstrained_def split: if_splits sum.splits)
  with assms(3,4) obtain i where b: "0 < ?b" "i < ?fs" "bs_search ?fs ?co (?fs div ?b) ?b = (i, bs)"
    by (auto simp: stream_blocksize_def Let_def split: if_splits prod.splits)
  have "2 \<le> ?fs div ?b" using assms(4) b(1) by (simp add: less_eq_div_iff_mult_less_eq)
  moreover have "?b \<noteq> 1" using align8_mod [of "cget cs C_blocksize"] by (metis One_nat_def mod_less one_less_numeral_iff zero_neq_one semiring_norm(76))
  then have "?fs div ?b < ?fs" using b(1) r(3) by (simp add: div_less_dividend)
  ultimately have "bs < ?fs" using bs_search_small [OF b(1) _ _ _ b(3,2)] assms(4) b(1) by simp
  then show ?thesis unfolding r(2) by (intro validate_error) (simp add: validate_iff)
qed

theorem streaming_small_block_rejected_witness:
  "\<exists>rv. constrain_by_framesize (frame_constraints 8192 4096) solution_empty = Inr rv
     \<and> validate rv = Inl Constraint_Error"
proof -
  let ?cs = "frame_constraints 8192 4096"
  have a: "align8 4096 = 4096" by (simp add: align8_def)
  then have "stream_blocksize 4096 8192 0 = Inr 4096"
    by (simp add: stream_blocksize_def unconstrained_def bs_search.simps)
  then have "constrain_by_framesize ?cs solution_empty = Inr (set_sizes ?cs 4096 8192 8192)"
    by (simp add: constrain_by_framesize_def unconstrained_def compressed_size_def u32_sub_def u32_add_def)
  with streaming_small_block_rejected [of ?cs] a show ?thesis by (simp add: unconstrained_def)
qed

text \<open>Between one half and one frame, the block grows to a whole frame.\<close>

lemma stream_block_grows:
  assumes "align8 b < fs" "fs < 2 * align8 b" "fs mod 8 = 0" "co < fs" "b \<noteq> unconstrained"
  shows "stream_blocksize b fs co = Inr fs"
proof -
  let ?b = "align8 b"
  have d: "fs div ?b = 1" using assms(1,2) by (intro div_nat_eqI) simp_all
  have "fs mod ?b = fs - ?b" using assms(1) le_mod_geq [of ?b fs] assms(2) by simp
  then have "fs mod ?b \<noteq> 0" using assms(1) by simp
  moreover have "8 \<le> fs" using assms(1,3) by (metis dvd_eq_mod_eq_0 dvd_imp_le gr_zeroI not_less_zero)
  ultimately have "bs_search fs co 1 ?b = (2, fs)"
    using assms(3,4) by (subst bs_search.simps) (simp add: bs_search.simps)
  then show ?thesis using assms(1,5) d \<open>8 \<le> fs\<close> assms(2) by (simp add: stream_blocksize_def Let_def)
qed

end
