(* ===== verification/Calendar.thy ===== *)
theory Calendar
  imports Complex_Main "HOL-Library.Signed_Division"
begin

text \<open>
  Calendar computations: the broken down time of the C library in the time zone the program runs in
  (UTC, set by \<open>main\<close>), the Julian day formulas of \<open>src/src/timezooi.cc\<close> and the day number
  conversions of \<open>src/src/dayconversion.cc\<close>. Doubles are modelled as exact rationals.
\<close>

subsection \<open>Day numbers and months\<close>

definition isLeapYear :: "int \<Rightarrow> bool" where
  "isLeapYear year \<longleftrightarrow> year mod 4 = 0 \<and> (\<not> year mod 100 = 0 \<or> year mod 400 = 0)"

definition daysPerMonth :: "bool \<Rightarrow> int list" where
  "daysPerMonth is_leap = [31, if is_leap then 29 else 28, 31, 30, 31, 30, 31, 31, 30, 31, 30, 31]"

text \<open>The loop: months left in the table, the current month, the days before it.\<close>

fun month_loop :: "int list \<Rightarrow> int \<Rightarrow> int \<Rightarrow> int \<Rightarrow> (int \<times> int) option" where
  "month_loop [] monthcnt cumulativeday daynr = None"
| "month_loop (d # ds) monthcnt cumulativeday daynr =
     (if \<not> cumulativeday < daynr then None
      else if cumulativeday + d \<ge> daynr then Some (monthcnt, daynr - cumulativeday)
      else month_loop ds (monthcnt + 1) (cumulativeday + d) daynr)"

definition dayNrToMonthDay :: "int \<Rightarrow> int \<Rightarrow> (int \<times> int) option" where
  "dayNrToMonthDay daynr year = month_loop (daysPerMonth (isLeapYear year)) 0 0 daynr"

definition dayMonthDayToNr :: "int \<Rightarrow> int \<Rightarrow> int \<Rightarrow> int option" where
  "dayMonthDayToNr month day year =
     (if month \<ge> 12 then None
      else let daynr = day + sum_list (take (nat month) (daysPerMonth (isLeapYear year)))
           in if daynr = - 1 then None else Some daynr)"

subsection \<open>Broken down time\<close>

record tm =
  tm_sec :: int
  tm_min :: int
  tm_hour :: int
  tm_mday :: int
  tm_mon :: int
  tm_year :: int
  tm_yday :: int

text \<open>Days from 1 January 1970 to 1 January of a year.\<close>

definition days_to_year :: "int \<Rightarrow> int" where
  "days_to_year y = 365 * (y - 1970) + (y - 1969) div 4 - (y - 1901) div 100 + (y - 1601) div 400"

definition days_to_month :: "int \<Rightarrow> int \<Rightarrow> int" where
  "days_to_month y m = sum_list (take (nat m) (daysPerMonth (isLeapYear y)))"

text \<open>\<open>mktime\<close>: month and day may be out of range.\<close>

definition mktime :: "tm \<Rightarrow> int" where
  "mktime t =
     (let y = tm_year t + 1900 + tm_mon t div 12
      in 86400 * (days_to_year y + days_to_month y (tm_mon t mod 12) + tm_mday t - 1)
         + 3600 * tm_hour t + 60 * tm_min t + tm_sec t)"

text \<open>\<open>gmtime\<close>: the year is searched within the cycle of 400 years.\<close>

function year_of_day :: "int \<Rightarrow> int \<Rightarrow> int \<times> int" where
  "year_of_day y d =
     (let n = (if isLeapYear y then 366 else 365)
      in if d < n then (y, d) else year_of_day (y + 1) (d - n))"
  by pat_completeness auto
termination by (relation "measure (\<lambda>(y, d). nat d)") (auto split: if_splits)

declare year_of_day.simps [simp del]

fun month_of_day :: "int list \<Rightarrow> int \<Rightarrow> int \<Rightarrow> int \<times> int" where
  "month_of_day [] m d = (m, d)"
| "month_of_day (n # ns) m d = (if d < n then (m, d) else month_of_day ns (m + 1) (d - n))"

definition gmtime :: "int \<Rightarrow> tm" where
  "gmtime t =
     (let day = t div 86400; s = t mod 86400;
          (y', yday) = year_of_day 1970 (day mod 146097);
          (mon, mday) = month_of_day (daysPerMonth (isLeapYear y')) 0 yday
      in \<lparr>tm_sec = s mod 60, tm_min = s div 60 mod 60, tm_hour = s div 3600, tm_mday = mday + 1,
          tm_mon = mon, tm_year = y' + 400 * (day div 146097) - 1900, tm_yday = yday\<rparr>)"

definition get_current_year :: "int \<Rightarrow> int" where
  "get_current_year now = 1900 + tm_year (gmtime now)"

text \<open>Normalising a broken down time.\<close>

definition normalize_tm :: "tm \<Rightarrow> (int \<times> tm) option" where
  "normalize_tm t = (if tm_year t < 2 \<or> tm_mday t < 1 then None else Some (mktime t, gmtime (mktime t)))"

subsection \<open>Julian days\<close>

definition jd :: "tm \<Rightarrow> rat" where
  "jd t =
     (let a = (14 - (tm_mon t + 1)) div 12;
          y = tm_year t + 1900 + 4800 - a;
          m = tm_mon t + 1 + 12 * a - 3
      in of_int (tm_mday t + (153 * m + 2) div 5 + 365 * y + y div 4 - y div 100 + y div 400 - 32045)
         + (of_int (tm_hour t - 12) / 24 + of_int (tm_min t) / 1440 + of_int (tm_sec t) / 86500))"

definition mjd :: "tm \<Rightarrow> rat" where "mjd t = jd t - 2400000.5"

definition mjdnow :: "int \<Rightarrow> rat" where "mjdnow now = mjd (gmtime now)"

definition jdboy :: "int \<Rightarrow> int" where
  "jdboy year = (let y = year + 4799 in y * 365 + y sdiv 4 - y sdiv 100 + y sdiv 400 - 31739)"

definition UNIX_MJD_EPOCH :: int where "UNIX_MJD_EPOCH = 40587"

lemma sdiv_pos: "0 \<le> a \<Longrightarrow> 0 < b \<Longrightarrow> a sdiv b = a div b" for a b :: int
  by (auto simp: signed_divide_int_def sgn_if)

lemma smod_pos: "0 \<le> a \<Longrightarrow> 0 < b \<Longrightarrow> a smod b = a mod b" for a b :: int
  by (auto simp: signed_modulo_int_def sgn_if)

subsection \<open>Years\<close>

lemma div_step: "0 < c \<Longrightarrow> x div c = (x - 1) div c + (if x mod c = 0 then 1 else 0)" for x c :: int
proof -
  assume c: "0 < c"
  have x: "x = (x div c) * c + x mod c" by simp
  show ?thesis
  proof (cases "x mod c = 0")
    case True
    then have "x - 1 = (c - 1) + (x div c - 1) * c" using x by (simp add: algebra_simps)
    then have "(x - 1) div c = x div c - 1" using c by (simp only: div_mult_self1) simp
    then show ?thesis using True by simp
  next
    case False
    then have "0 \<le> x mod c - 1" "x mod c - 1 < c" using c pos_mod_sign [OF c, of x] pos_mod_bound [OF c, of x] by auto
    moreover have "x - 1 = (x mod c - 1) + (x div c) * c" using x by simp
    ultimately have "(x - 1) div c = x div c" using c by (simp only: div_mult_self1) simp
    then show ?thesis using False by simp
  qed
qed

lemma div_leap: "0 < c \<Longrightarrow> (y + 1 - (c * k + 1)) div c = (y - (c * k + 1)) div c + (if y mod c = 0 then 1 else 0)"
  for y c k :: int
proof -
  assume c: "0 < c"
  have "(y + 1 - (c * k + 1)) mod c = y mod c"
    using mod_mult_self2 [of y c "- k"] by (simp add: algebra_simps)
  moreover have "y + 1 - (c * k + 1) - 1 = y - (c * k + 1)" by simp
  ultimately show ?thesis using div_step [OF c, of "y + 1 - (c * k + 1)"] by (simp only:)
qed

lemma days_to_year_step: "days_to_year (y + 1) = days_to_year y + (if isLeapYear y then 366 else 365)"
proof -
  have k: "4 * 492 + 1 = (1969 :: int)" "100 * 19 + 1 = (1901 :: int)" "400 * 4 + 1 = (1601 :: int)"
    by simp_all
  have d: "(y + 1 - 1969) div 4 = (y - 1969) div 4 + (if y mod 4 = 0 then 1 else 0)"
    "(y + 1 - 1901) div 100 = (y - 1901) div 100 + (if y mod 100 = 0 then 1 else 0)"
    "(y + 1 - 1601) div 400 = (y - 1601) div 400 + (if y mod 400 = 0 then 1 else 0)"
    by (rule div_leap [of 4 y 492, unfolded k, OF zero_less_numeral]
        div_leap [of 100 y 19, unfolded k, OF zero_less_numeral]
        div_leap [of 400 y 4, unfolded k, OF zero_less_numeral])+
  have dvd: "(100 :: int) dvd 400" "(4 :: int) dvd 100" by simp_all
  have c: "y mod 400 = 0 \<longrightarrow> y mod 100 = 0" "y mod 100 = 0 \<longrightarrow> y mod 4 = 0"
    unfolding mod_eq_0_iff_dvd by (rule impI, erule dvd_trans [OF dvd(1)], rule impI, erule dvd_trans [OF dvd(2)])
  have gen: "365 * (y + 1 - 1970) + (d4 + (if c4 then 1 else 0)) - (d100 + (if c100 then 1 else 0))
      + (d400 + (if c400 then 1 else 0))
    = 365 * (y - 1970) + d4 - d100 + d400 + (if c4 \<and> (\<not> c100 \<or> c400) then 366 else 365)"
    if "c400 \<longrightarrow> c100" "c100 \<longrightarrow> c4" for c4 c100 c400 :: bool and d4 d100 d400 :: int
    using that by (cases c4; cases c100; cases c400; simp)
  show ?thesis unfolding days_to_year_def isLeapYear_def d by (rule gen [OF c])
qed

lemma days_to_year_cycle: "days_to_year (y + 400 * c) = days_to_year y + 146097 * c"
proof -
  have "(y + 400 * c - 1969) div 4 = (y - 1969) div 4 + 100 * c"
    "(y + 400 * c - 1901) div 100 = (y - 1901) div 100 + 4 * c"
    "(y + 400 * c - 1601) div 400 = (y - 1601) div 400 + c"
    using div_mult_self2 [of 4 "y - 1969" "100 * c"] div_mult_self2 [of 100 "y - 1901" "4 * c"]
      div_mult_self2 [of 400 "y - 1601" c] by (simp_all add: algebra_simps)
  then show ?thesis by (simp add: days_to_year_def algebra_simps)
qed

lemma leap_cycle: "isLeapYear (y + 400 * c) = isLeapYear y"
proof -
  have "(y + 400 * c) mod 4 = y mod 4" "(y + 400 * c) mod 100 = y mod 100" "(y + 400 * c) mod 400 = y mod 400"
    using mod_mult_self2 [of y 4 "100 * c"] mod_mult_self2 [of y 100 "4 * c"] mod_mult_self2 [of y 400 c]
    by simp_all
  then show ?thesis by (simp add: isLeapYear_def)
qed

lemma year_of_dayD:
  "year_of_day y d = (y', d') \<Longrightarrow> 0 \<le> d \<Longrightarrow>
   0 \<le> d' \<and> d' < (if isLeapYear y' then 366 else 365) \<and> days_to_year y' + d' = days_to_year y + d \<and> y \<le> y'"
proof (induction y d arbitrary: y' d' rule: year_of_day.induct)
  case (1 y d)
  let ?n = "if isLeapYear y then 366 else 365 :: int"
  show ?case
  proof (cases "d < ?n")
    case True
    then show ?thesis using 1(2,3) by (subst (asm) year_of_day.simps) auto
  next
    case False
    have "year_of_day (y + 1) (d - ?n) = (y', d')"
      using 1(2) False by (subst (asm) year_of_day.simps) simp
    with 1(1) [OF refl False this] False show ?thesis using days_to_year_step [of y] by auto
  qed
qed

subsection \<open>Broken down time and back\<close>

lemma month_of_dayD:
  "month_of_day ns m d = (m', d') \<Longrightarrow> 0 \<le> d \<Longrightarrow> d < sum_list ns \<Longrightarrow>
   \<exists>k. k < length ns \<and> m' = m + int k \<and> d = sum_list (take k ns) + d' \<and> 0 \<le> d' \<and> d' < ns ! k"
proof (induction ns arbitrary: m d)
  case (Cons n ns)
  show ?case
  proof (cases "d < n")
    case True
    with Cons.prems show ?thesis by (intro exI [of _ 0]) auto
  next
    case False
    with Cons.prems Cons.IH [of "m + 1" "d - n"] obtain k where
      "k < length ns \<and> m' = m + 1 + int k \<and> d - n = sum_list (take k ns) + d' \<and> 0 \<le> d' \<and> d' < ns ! k"
      by auto
    then show ?thesis by (intro exI [of _ "Suc k"]) auto
  qed
qed simp

lemma sum_daysPerMonth: "sum_list (daysPerMonth l) = (if l then 366 else 365)"
  by (simp add: daysPerMonth_def)

lemma length_daysPerMonth [simp]: "length (daysPerMonth l) = 12"
  by (simp add: daysPerMonth_def)

text \<open>What the fields of a broken down time mean.\<close>

lemma gmtimeE:
  obtains y k where "tm_year (gmtime t) = y - 1900" "tm_mon (gmtime t) = int k" "k < 12"
    "tm_yday (gmtime t) = sum_list (take k (daysPerMonth (isLeapYear y))) + (tm_mday (gmtime t) - 1)"
    "1 \<le> tm_mday (gmtime t)" "tm_mday (gmtime t) \<le> daysPerMonth (isLeapYear y) ! k"
    "t div 86400 = days_to_year y + tm_yday (gmtime t)"
    "0 \<le> tm_yday (gmtime t)" "tm_yday (gmtime t) < (if isLeapYear y then 366 else 365)"
    "t mod 86400 = 3600 * tm_hour (gmtime t) + 60 * tm_min (gmtime t) + tm_sec (gmtime t)"
    "0 \<le> tm_hour (gmtime t)" "tm_hour (gmtime t) < 24" "0 \<le> tm_min (gmtime t)" "tm_min (gmtime t) < 60"
    "0 \<le> tm_sec (gmtime t)" "tm_sec (gmtime t) < 60"
proof -
  define day where "day = t div 86400"
  define s where "s = t mod 86400"
  obtain y' yd where y: "year_of_day 1970 (day mod 146097) = (y', yd)" by force
  obtain m d where m: "month_of_day (daysPerMonth (isLeapYear y')) 0 yd = (m, d)" by force
  have yd: "0 \<le> yd" "yd < (if isLeapYear y' then 366 else 365)"
    "days_to_year y' + yd = days_to_year 1970 + day mod 146097"
    using year_of_dayD [OF y] by simp_all
  define y0 where "y0 = y' + 400 * (day div 146097)"
  have leap: "isLeapYear y0 = isLeapYear y'" by (simp add: y0_def leap_cycle)
  have "days_to_year 1970 = 0" by (simp add: days_to_year_def)
  then have day: "day = days_to_year y0 + yd"
    using yd(3) days_to_year_cycle [of y' "day div 146097"] mult_div_mod_eq [of 146097 day]
    unfolding y0_def by linarith
  from month_of_dayD [OF m yd(1)] yd(2) obtain k where k: "k < 12" "m = int k"
    "yd = sum_list (take k (daysPerMonth (isLeapYear y'))) + d" "0 \<le> d" "d < daysPerMonth (isLeapYear y') ! k"
    by (auto simp: sum_daysPerMonth)
  define hh where "hh = s div 3600"
  define mm where "mm = s div 60 mod 60"
  define ss where "ss = s mod 60"
  have g: "gmtime t = \<lparr>tm_sec = ss, tm_min = mm, tm_hour = hh, tm_mday = d + 1,
      tm_mon = m, tm_year = y0 - 1900, tm_yday = yd\<rparr>"
    unfolding hh_def mm_def ss_def by (simp add: gmtime_def Let_def y m y0_def flip: day_def s_def)
  have s: "0 \<le> s" "s < 86400" by (simp_all add: s_def)
  have hms: "s = 3600 * hh + 60 * mm + ss"
  proof -
    have e: "s div 3600 = s div 60 div 60" using zdiv_zmult2_eq [of 60 s 60] by simp
    have c: "x = b * 60 + c \<Longrightarrow> b = a * 60 + d \<Longrightarrow> x = 3600 * a + 60 * d + c" for x a b c d :: int
      by simp
    show ?thesis unfolding hh_def mm_def ss_def e
      by (rule c [OF div_mult_mod_eq [symmetric] div_mult_mod_eq [symmetric]])
  qed
  have b: "0 \<le> mm" "mm < 60" "0 \<le> ss" "ss < 60" by (simp_all add: mm_def ss_def)
  then have "0 \<le> hh" "hh < 24" using s hms by simp_all
  with b k yd hms day show thesis
    by (intro that [of y0 k]) (simp_all add: g leap flip: day_def s_def)
qed

lemma gmtime_hms:
  "t mod 86400 = 3600 * tm_hour (gmtime t) + 60 * tm_min (gmtime t) + tm_sec (gmtime t)"
  "0 \<le> tm_hour (gmtime t)" "tm_hour (gmtime t) \<le> 23" "0 \<le> tm_min (gmtime t)" "tm_min (gmtime t) \<le> 59"
  "0 \<le> tm_sec (gmtime t)" "tm_sec (gmtime t) \<le> 59"
  by (rule gmtimeE [of t]; linarith)+

lemma mktime_gmtime: "mktime (gmtime t) = t"
proof (rule gmtimeE [of t])
  fix y k
  assume k: "tm_mon (gmtime t) = int k" "k < 12" and y: "tm_year (gmtime t) = y - 1900"
    and yd: "tm_yday (gmtime t) = sum_list (take k (daysPerMonth (isLeapYear y))) + (tm_mday (gmtime t) - 1)"
    and d: "t div 86400 = days_to_year y + tm_yday (gmtime t)"
    and s: "t mod 86400 = 3600 * tm_hour (gmtime t) + 60 * tm_min (gmtime t) + tm_sec (gmtime t)"
  have "tm_mon (gmtime t) div 12 = 0" "tm_mon (gmtime t) mod 12 = int k" using k by simp_all
  then have "mktime (gmtime t) = 86400 * (t div 86400) + t mod 86400"
    unfolding mktime_def Let_def y by (simp add: days_to_month_def yd d s)
  then show ?thesis by simp
qed

subsection \<open>Julian days\<close>

text \<open>The day count of the Gregorian calendar in the formulas, from the year 4800 before the era.\<close>

definition gregorian :: "int \<Rightarrow> int" where
  "gregorian y = 365 * y + y div 4 - y div 100 + y div 400"

lemma gregorian_days: "gregorian (y + 4799) = days_to_year y + 2472326"
proof -
  have k: "y - 1969 + 4 * 1692 = y + 4799" "y - 1901 + 100 * 67 = y + 4799" "y - 1601 + 400 * 16 = y + 4799"
    by simp_all
  have nz: "(4 :: int) \<noteq> 0" "(100 :: int) \<noteq> 0" "(400 :: int) \<noteq> 0" by simp_all
  have d: "(y + 4799) div 4 = 1692 + (y - 1969) div 4" "(y + 4799) div 100 = 67 + (y - 1901) div 100"
    "(y + 4799) div 400 = 16 + (y - 1601) div 400"
    by (rule div_mult_self2 [of 4 "y - 1969" 1692, unfolded k, OF nz(1)]
        div_mult_self2 [of 100 "y - 1901" 67, unfolded k, OF nz(2)]
        div_mult_self2 [of 400 "y - 1601" 16, unfolded k, OF nz(3)])+
  have gen: "365 * (y + 4799) + (1692 + a) - (67 + b) + (16 + c) = 365 * (y - 1970) + a - b + c + 2472326"
    for a b c :: int by simp
  show ?thesis unfolding gregorian_def days_to_year_def d by (rule gen)
qed

lemma jdboy_days: "- 4799 \<le> y \<Longrightarrow> jdboy y = days_to_year y + 2440587"
  using gregorian_days [of y] by (simp add: jdboy_def gregorian_def Let_def sdiv_pos mult.commute)

lemma gregorian_days': "gregorian (y + 4800) = days_to_year y + 2472326 + (if isLeapYear y then 366 else 365)"
  using gregorian_days [of "y + 1"] days_to_year_step [of y] by (simp add: add.assoc)

lemma month_days:
  fixes y d :: int
  assumes "k < 12"
  defines "a \<equiv> (14 - (int k + 1)) div 12"
  shows "d + (153 * (int k + 1 + 12 * a - 3) + 2) div 5 + gregorian (y + 4800 - a) - 32045
    = 2440587 + days_to_year y + days_to_month y (int k) + d"
proof -
  have "k = 0 \<or> k = 1 \<or> k = 2 \<or> k = 3 \<or> k = 4 \<or> k = 5 \<or> k = 6 \<or> k = 7 \<or> k = 8 \<or> k = 9 \<or> k = 10 \<or> k = 11"
    using assms(1) by (auto simp: eval_nat_numeral less_Suc_eq)
  moreover have "gregorian (4799 + y) = days_to_year y + 2472326" using gregorian_days [of y] by (simp add: add.commute)
  ultimately show ?thesis
    using gregorian_days [of y] gregorian_days' [of y]
    unfolding a_def days_to_month_def daysPerMonth_def
    by (elim disjE; cases "isLeapYear y"; simp)
qed

lemma jd_gmtime:
  "jd (gmtime t) = of_int (2440588 + t div 86400)
     + (of_int (tm_hour (gmtime t) - 12) / 24 + of_int (tm_min (gmtime t)) / 1440 + of_int (tm_sec (gmtime t)) / 86500)"
proof (rule gmtimeE [of t])
  fix y k
  assume k: "tm_mon (gmtime t) = int k" "k < 12" and y: "tm_year (gmtime t) = y - 1900"
    and yd: "tm_yday (gmtime t) = sum_list (take k (daysPerMonth (isLeapYear y))) + (tm_mday (gmtime t) - 1)"
    and d: "t div 86400 = days_to_year y + tm_yday (gmtime t)"
  have e: "2440588 + t div 86400 = 2440587 + days_to_year y + days_to_month y (int k) + tm_mday (gmtime t)"
    unfolding d yd days_to_month_def by simp
  have y': "y - 1900 + 1900 + 4800 = y + 4800" by simp
  show ?thesis
    unfolding e month_days [OF k(2), symmetric] jd_def Let_def k(1) y y' gregorian_def
    by (simp only: add.assoc diff_add_eq add_diff_eq)
qed

lemma floor_mjd: "\<lfloor>mjd (gmtime now)\<rfloor> = UNIX_MJD_EPOCH + now div 86400"
proof -
  let ?g = "gmtime now"
  define f where "f = (of_int (tm_hour ?g - 12) / 24 + of_int (tm_min ?g) / 1440 + of_int (tm_sec ?g) / 86500 :: rat)"
  have "mjd ?g = of_int (2440588 + now div 86400) + f - 2400000.5"
    by (simp add: mjd_def jd_gmtime f_def)
  moreover have "(of_int (tm_hour ?g) :: rat) \<le> 23" "(of_int (tm_min ?g) :: rat) \<le> 59" "(of_int (tm_sec ?g) :: rat) \<le> 59"
    "0 \<le> (of_int (tm_hour ?g) :: rat)" "0 \<le> (of_int (tm_min ?g) :: rat)" "0 \<le> (of_int (tm_sec ?g) :: rat)"
    using gmtime_hms [of now] by simp_all
  ultimately show ?thesis
    unfolding floor_eq_iff UNIX_MJD_EPOCH_def f_def by (simp add: field_simps)
qed

text \<open>C34: The Modified Julian Day computed from the current time is the number of days since 1970 plus
  40587, for every time; the decoders build full days on it.\<close>

theorem mjdnow_is_day_number: "\<lfloor>mjdnow now\<rfloor> = UNIX_MJD_EPOCH + now div 86400"
  unfolding mjdnow_def by (rule floor_mjd)

lemma month_loop_take:
  assumes "\<forall>n\<in>set ns. 0 < n"
  shows "k < length ns \<Longrightarrow> 1 \<le> d \<Longrightarrow> d \<le> ns ! k \<Longrightarrow>
    month_loop ns m c (c + sum_list (take k ns) + d) = Some (m + int k, d)"
  using assms
proof (induction ns arbitrary: k m c)
  case (Cons n ns)
  show ?case
  proof (cases k)
    case 0
    with Cons.prems show ?thesis by simp
  next
    case (Suc j)
    have nn: "0 \<le> sum_list (take j ns)"
      by (rule sum_list_nonneg) (meson Cons.prems(4) in_set_takeD less_imp_le list.set_intros(2))
    have "month_loop ns (m + 1) (c + n) (c + n + sum_list (take j ns) + d) = Some (m + 1 + int j, d)"
      by (rule Cons.IH) (use Cons.prems Suc in simp_all)
    then show ?thesis using Cons.prems nn Suc by (simp add: add.assoc)
  qed
qed simp

text \<open>The conversions between day of year and month and day agree with the broken down time of
  the C library, in both directions, for every time.\<close>

theorem day_conversion_agrees:
  "dayNrToMonthDay (tm_yday (gmtime t) + 1) (tm_year (gmtime t) + 1900)
     = Some (tm_mon (gmtime t), tm_mday (gmtime t))
   \<and> dayMonthDayToNr (tm_mon (gmtime t)) (tm_mday (gmtime t)) (tm_year (gmtime t) + 1900)
     = Some (tm_yday (gmtime t) + 1)"
proof (rule gmtimeE [of t])
  fix y k
  let ?ns = "daysPerMonth (isLeapYear y)"
  assume k: "tm_mon (gmtime t) = int k" "k < 12" and y: "tm_year (gmtime t) = y - 1900"
    and yd: "tm_yday (gmtime t) = sum_list (take k ?ns) + (tm_mday (gmtime t) - 1)" "0 \<le> tm_yday (gmtime t)"
    and d: "1 \<le> tm_mday (gmtime t)" "tm_mday (gmtime t) \<le> ?ns ! k"
  have "\<forall>n\<in>set ?ns. 0 < n" by (simp add: daysPerMonth_def)
  from month_loop_take [OF this _ d, of 0 0] k have
    "month_loop ?ns 0 0 (tm_yday (gmtime t) + 1) = Some (int k, tm_mday (gmtime t))"
    by (simp add: yd(1))
  then show ?thesis
    using k yd by (auto simp: dayNrToMonthDay_def dayMonthDayToNr_def y)
qed

text \<open>The fraction of a day in the Julian date is wrong by the seconds: a day has 86400, and the
  formula divides by 86500.\<close>

theorem jd_seconds_wrong:
  "jd (gmtime t) - (of_int t / 86400 + 2440587.5) = - (of_int (t mod 60) / 74736000)"
proof -
  let ?g = "gmtime t"
  have "tm_sec ?g = t mod 86400 mod 60" by (simp add: gmtime_def Let_def split: prod.split)
  moreover have "t mod 86400 mod 60 = t mod 60" by (rule mod_mod_cancel) simp
  ultimately have s: "tm_sec ?g = t mod 60" by simp
  let ?n = "86400 * (t div 86400) + (3600 * tm_hour ?g + 60 * tm_min ?g + tm_sec ?g)"
  have "t = ?n" unfolding gmtime_hms(1) [symmetric] by (rule mult_div_mod_eq [symmetric])
  then have "(of_int t :: rat) = of_int ?n" by (rule arg_cong)
  then have "(of_int t :: rat) = 86400 * of_int (t div 86400) + (3600 * of_int (tm_hour ?g) + 60 * of_int (tm_min ?g)
      + of_int (tm_sec ?g))" unfolding of_int_add of_int_mult of_int_numeral .
  moreover have "x = 86400 * d + (3600 * h + 60 * m + c) \<Longrightarrow>
      2440588 + d + ((h - 12) / 24 + m / 1440 + c / 86500) - (x / 86400 + 2440587.5) = - (c / 74736000)"
    for x d h m c :: rat by (simp add: field_simps)
  ultimately show ?thesis
    unfolding jd_gmtime s [symmetric] of_int_add [of 2440588] of_int_diff of_int_numeral by blast
qed

end
