(* ===== verification/Crc.thy ===== *)
theory Crc
  imports JPrelude
begin

unbundle bit_operations_syntax

text \<open>
  The table driven cyclic redundancy checks of Mark4 (12 bits) and VLBA and Mark5B (16 bits) frame
  headers, from \<open>src/src/headersearch.cc\<close>: computing the table and the check, the equivalence with
  the division of the bit sequence by the generator, the zero residue of a message whose last
  bits hold its check, and the detection of errors in one byte.
\<close>

subsection \<open>The table and the check\<close>

text \<open>One round of the inner loop of the constructor: \<open>reg <<= 1; if( reg & polyorderbit ) reg ^= Key\<close>.\<close>

definition crc_shift :: "nat \<Rightarrow> 32 word \<Rightarrow> 32 word \<Rightarrow> 32 word" where
  "crc_shift w key reg = (let r = push_bit 1 reg in if r AND push_bit w 1 \<noteq> 0 then r XOR key else r)"

definition crc_table :: "nat \<Rightarrow> 32 word \<Rightarrow> 32 word list" where
  "crc_table w key =
     map (\<lambda>i. (crc_shift w key ^^ 8) (push_bit (w - 8) (word_of_nat i))) [0..<256]"

text \<open>One byte of the loop: \<open>crc_register = ((crc_register<<8) + *data++) ^ crc_table[top]\<close>.\<close>

definition crc_byte :: "nat \<Rightarrow> 32 word list \<Rightarrow> 32 word \<Rightarrow> byte \<Rightarrow> 32 word" where
  "crc_byte w table reg d =
     (let top = (ucast (drop_bit (w - 8) reg) :: byte)
      in (push_bit 8 reg + ucast d) XOR table ! unat top)"

definition crc_of :: "nat \<Rightarrow> 32 word \<Rightarrow> byte list \<Rightarrow> 32 word" where
  "crc_of w key data = foldl (crc_byte w (crc_table w key)) 0 data AND (push_bit w 1 - 1)"

definition crc12_mark4 :: "byte list \<Rightarrow> 32 word" where
  "crc12_mark4 idata = crc_of 12 0x80f idata"

definition crc16_vlba :: "byte list \<Rightarrow> 32 word" where
  "crc16_vlba idata = crc_of 16 0x8005 idata"

subsection \<open>Division bit by bit\<close>

text \<open>The reference: the next bit enters at the bottom of a register of \<open>w\<close> bits, and when a bit
  leaves at the top the generator is subtracted.\<close>

definition div_bit :: "nat \<Rightarrow> 32 word \<Rightarrow> 32 word \<Rightarrow> bool \<Rightarrow> 32 word" where
  "div_bit w key reg b =
     take_bit w ((push_bit 1 reg OR of_bool b) XOR (if bit reg (w - 1) then key else 0))"

definition byte_bits :: "byte \<Rightarrow> bool list" where
  "byte_bits d = map (bit d) (rev [0..<8])"

definition div_bits :: "nat \<Rightarrow> 32 word \<Rightarrow> bool list \<Rightarrow> 32 word" where
  "div_bits w key bs = foldl (div_bit w key) 0 bs"

subsection \<open>The shift is linear\<close>

lemma bit_shl1: "bit (push_bit (Suc 0) x) n \<longleftrightarrow> 0 < n \<and> n < 32 \<and> bit x (n - 1)" for x :: "32 word"
  unfolding bit_push_bit_iff by auto

lemma bit_times2: "bit (x * 2) n \<longleftrightarrow> 0 < n \<and> n < 32 \<and> bit x (n - 1)" for x :: "32 word"
  using bit_shl1 [of x n] by (simp add: mult.commute)

lemma and_bit_mask: "x AND push_bit w 1 \<noteq> 0 \<longleftrightarrow> bit x w" if "w < 32" for x :: "32 word"
  using that by (metis and_exp_eq_0_iff_not_bit push_bit_of_1)

lemma crc_shift_eq:
  assumes "0 < w" "w < 32"
  shows "crc_shift w key reg = push_bit 1 reg XOR (if bit reg (w - 1) then key else 0)"
proof -
  have "push_bit 1 reg AND push_bit w 1 \<noteq> (0 :: 32 word) \<longleftrightarrow> bit reg (w - 1)"
    using assms by (simp only: and_bit_mask One_nat_def bit_shl1) simp
  then show ?thesis by (simp add: crc_shift_def Let_def)
qed

lemma crc_shift_xor:
  assumes "0 < w" "w < 32"
  shows "crc_shift w key (a XOR b) = crc_shift w key a XOR crc_shift w key b"
  by (rule bit_word_eqI) (auto simp: crc_shift_eq [OF assms] bit_simps bit_times2)

lemma crc_shift_zero [simp]: "crc_shift w key 0 = 0" by (simp add: crc_shift_def)

lemma crc_shift_cong:
  assumes "0 < w" "w < 32" "take_bit w a = take_bit w b"
  shows "take_bit w (crc_shift w key a) = take_bit w (crc_shift w key b)"
proof -
  have e: "bit a i \<longleftrightarrow> bit b i" if "i < w" for i
    using assms(3) that by (metis bit_take_bit_iff)
  show ?thesis
    by (rule bit_word_eqI) (use assms(1,2) e in \<open>auto simp: crc_shift_eq bit_simps bit_times2\<close>)
qed

lemma crc_shifts_xor:
  assumes "0 < w" "w < 32"
  shows "(crc_shift w key ^^ n) (a XOR b) = (crc_shift w key ^^ n) a XOR (crc_shift w key ^^ n) b"
  by (induction n) (simp_all add: crc_shift_xor [OF assms])

lemma crc_shifts_cong:
  assumes "0 < w" "w < 32" "take_bit w a = take_bit w b"
  shows "take_bit w ((crc_shift w key ^^ n) a) = take_bit w ((crc_shift w key ^^ n) b)"
  by (induction n) (auto intro: crc_shift_cong assms)

lemma crc_shifts_low:
  assumes "0 < w" "w < 32" "\<And>i. bit a i \<Longrightarrow> i + n < w"
  shows "(crc_shift w key ^^ n) a = push_bit n a"
  using assms(3)
proof (induction n)
  case (Suc n)
  have ih: "(crc_shift w key ^^ n) a = push_bit n a"
    by (rule Suc.IH) (use Suc.prems in fastforce)
  have "\<not> bit (push_bit n a) (w - 1)"
    using Suc.prems [of "w - 1 - n"] assms(1) unfolding bit_push_bit_iff by auto
  then have "crc_shift w key ((crc_shift w key ^^ n) a) = push_bit 1 (push_bit n a)"
    unfolding ih crc_shift_eq [OF assms(1,2)] by simp
  then show ?case by (simp only: funpow.simps o_apply push_bit_push_bit plus_1_eq_Suc)
qed simp


subsection \<open>One byte at a time\<close>

lemma length_crc_table [simp]: "length (crc_table w key) = 256" by (simp add: crc_table_def)

text \<open>A byte shifts the register by eight and enters at the bottom.\<close>

lemma crc_byte_shifts:
  assumes "8 \<le> w" "w \<le> 24"
  shows "take_bit w (crc_byte w (crc_table w key) reg d) =
    take_bit w ((crc_shift w key ^^ 8) reg XOR ucast d)"
proof -
  have w: "0 < w" "w < 32" using assms by simp_all
  define top where "top = (ucast (drop_bit (w - 8) reg) :: byte)"
  define hi where "hi = push_bit (w - 8) (ucast top :: 32 word)"
  define low where "low = take_bit (w - 8) reg"
  have bt: "bit top i \<longleftrightarrow> i < 8 \<and> bit reg (w - 8 + i)" for i
    by (auto simp: top_def bit_simps)
  have split: "take_bit w reg = hi XOR low"
  proof (rule bit_word_eqI)
    fix n
    show "bit (take_bit w reg) n \<longleftrightarrow> bit (hi XOR low) n"
      using assms by (auto simp: hi_def low_def bit_simps bt)
  qed
  have "word_of_nat (unat top) = (ucast top :: 32 word)" by (simp add: of_nat_unat)
  moreover have "unat top < 256" using unsigned_less [of top] by simp
  ultimately have tab: "crc_table w key ! unat top = (crc_shift w key ^^ 8) hi"
    by (simp add: crc_table_def hi_def)
  have low8: "(crc_shift w key ^^ 8) low = push_bit 8 low"
    by (rule crc_shifts_low [OF w]) (use assms in \<open>auto simp: low_def bit_simps\<close>)
  have "take_bit w ((crc_shift w key ^^ 8) reg) = take_bit w ((crc_shift w key ^^ 8) (hi XOR low))"
    by (rule crc_shifts_cong [OF w]) (simp add: split [symmetric])
  then have s8: "take_bit w ((crc_shift w key ^^ 8) reg) =
      take_bit w ((crc_shift w key ^^ 8) hi XOR push_bit 8 low)"
    by (simp add: crc_shifts_xor [OF w] low8)
  have "bit (push_bit 8 reg) i \<Longrightarrow> bit (ucast d :: 32 word) i \<Longrightarrow> False" for i
    by (auto simp: bit_simps dest: bit_imp_le_length)
  then have add: "push_bit 8 reg + ucast d = push_bit 8 reg XOR ucast d"
    by (intro disjunctive_add_eq_xor bit_eqI) (auto simp: bit_and_iff)
  have p8: "take_bit w (push_bit 8 reg) = take_bit w (push_bit 8 low)"
    by (rule bit_word_eqI) (use assms in \<open>auto simp: low_def bit_simps\<close>)
  have "take_bit w (crc_byte w (crc_table w key) reg d) =
      take_bit w (push_bit 8 reg) XOR take_bit w (ucast d) XOR take_bit w ((crc_shift w key ^^ 8) hi)"
    by (simp only: crc_byte_def Let_def top_def [symmetric] tab add take_bit_xor xor.assoc)
  also have "\<dots> = take_bit w ((crc_shift w key ^^ 8) reg XOR ucast d)"
    by (simp add: p8 s8 take_bit_xor ac_simps)
  finally show ?thesis .
qed


lemma div_bit_eq:
  assumes "0 < w" "w < 32"
  shows "div_bit w key reg b = take_bit w (crc_shift w key reg XOR of_bool b)"
proof -
  have "push_bit 1 reg OR of_bool b = push_bit 1 reg XOR of_bool b"
    by (rule bit_word_eqI) (auto simp: bit_simps bit_times2)
  then show ?thesis by (simp add: div_bit_def crc_shift_eq [OF assms] ac_simps)
qed

lemma div_bit_cong:
  assumes "0 < w" "w < 32"
  shows "div_bit w key (take_bit w reg) b = div_bit w key reg b"
  by (simp add: div_bit_eq [OF assms] take_bit_xor crc_shift_cong [OF assms, of "take_bit w reg" reg])

text \<open>The first bits of a byte, as a number.\<close>

fun bits_word :: "bool list \<Rightarrow> 32 word" where
  "bits_word [] = 0"
| "bits_word (b # bs) = push_bit (length bs) (of_bool b) XOR bits_word bs"

lemma foldl_div_bits:
  assumes "0 < w" "w < 32"
  shows "length bs \<le> w \<Longrightarrow> take_bit w (foldl (div_bit w key) reg bs) =
    take_bit w ((crc_shift w key ^^ length bs) reg XOR bits_word bs)"
proof (induction bs arbitrary: reg)
  case (Cons b bs)
  let ?n = "length bs"
  have "take_bit w ((crc_shift w key ^^ ?n) (div_bit w key reg b)) =
      take_bit w ((crc_shift w key ^^ ?n) (crc_shift w key reg XOR of_bool b))"
    by (rule crc_shifts_cong [OF assms]) (simp add: div_bit_eq [OF assms])
  also have "(crc_shift w key ^^ ?n) (crc_shift w key reg XOR of_bool b) =
      (crc_shift w key ^^ Suc ?n) reg XOR push_bit ?n (of_bool b)"
  proof -
    have "(crc_shift w key ^^ ?n) (of_bool b) = push_bit ?n (of_bool b)"
      by (rule crc_shifts_low [OF assms]) (use Cons.prems in \<open>auto simp: bit_simps split: if_splits\<close>)
    then show ?thesis by (simp add: crc_shifts_xor [OF assms] funpow_swap1)
  qed
  finally show ?case
    using Cons.IH [of "div_bit w key reg b"] Cons.prems by (simp add: take_bit_xor ac_simps)
qed simp

lemma bit_bits_word: "bit (bits_word bs) n \<longleftrightarrow> n < length bs \<and> n < 32 \<and> rev bs ! n"
proof (induction bs)
  case (Cons b bs)
  have "bit (push_bit (length bs) (of_bool b) :: 32 word) n \<longleftrightarrow> n = length bs \<and> n < 32 \<and> b"
    by (auto simp: bit_simps)
  with Cons.IH show ?case by (auto simp: bit_xor_iff nth_append less_Suc_eq)
qed simp

lemma bits_word_byte: "bits_word (byte_bits d) = ucast d"
proof (rule bit_word_eqI)
  fix n
  have "bit d n \<Longrightarrow> n < 8" by (auto dest: bit_imp_le_length)
  then show "bit (bits_word (byte_bits d)) n \<longleftrightarrow> bit (ucast d :: 32 word) n"
    by (auto simp: bit_bits_word byte_bits_def rev_map bit_simps)
qed

lemma length_byte_bits [simp]: "length (byte_bits d) = 8" by (simp add: byte_bits_def)

lemma div_byte:
  assumes "8 \<le> w" "w \<le> 24" "take_bit w a = take_bit w b"
  shows "take_bit w (crc_byte w (crc_table w key) a d) = take_bit w (foldl (div_bit w key) b (byte_bits d))"
proof -
  have w: "0 < w" "w < 32" using assms(1,2) by simp_all
  have "take_bit w ((crc_shift w key ^^ 8) a) = take_bit w ((crc_shift w key ^^ 8) b)"
    by (rule crc_shifts_cong [OF w assms(3)])
  then show ?thesis
    using crc_byte_shifts [OF assms(1,2), of key a d] foldl_div_bits [OF w, of "byte_bits d" key b] assms(1)
    by (simp add: bits_word_byte take_bit_xor)
qed

lemma crc_fold:
  assumes "8 \<le> w" "w \<le> 24"
  shows "take_bit w a = take_bit w b \<Longrightarrow> take_bit w (foldl (crc_byte w (crc_table w key)) a data) =
    take_bit w (foldl (div_bit w key) b (concat (map byte_bits data)))"
  by (induction data arbitrary: a b) (simp_all add: div_byte [OF assms])

lemma crc_of_take_bit:
  "w < 32 \<Longrightarrow> crc_of w key data = take_bit w (foldl (crc_byte w (crc_table w key)) 0 data)"
  by (simp add: crc_of_def take_bit_eq_mask mask_eq_exp_minus_1 push_bit_of_1)

lemma take_bit_div_bits: "take_bit w (div_bits w key bs) = div_bits w key bs"
  by (cases bs rule: rev_cases) (simp_all add: div_bits_def div_bit_def)

lemma crc_of_division:
  assumes "8 \<le> w" "w \<le> 24"
  shows "crc_of w key data = div_bits w key (concat (map byte_bits data))"
proof -
  have "crc_of w key data = take_bit w (div_bits w key (concat (map byte_bits data)))"
    using assms crc_fold [OF assms, of 0 0 key data] by (simp add: crc_of_take_bit div_bits_def)
  then show ?thesis by (simp only: take_bit_div_bits)
qed

text \<open>C27: The table driven checks are the division of the bits of the message, most significant first, by
  their generator polynomials, for every message.\<close>

theorem crc_is_division:
  "crc12_mark4 data = div_bits 12 0x80f (concat (map byte_bits data))
   \<and> crc16_vlba data = div_bits 16 0x8005 (concat (map byte_bits data))"
  unfolding crc12_mark4_def crc16_vlba_def by (intro conjI crc_of_division) simp_all

lemma xor_cancel: "a XOR c = b XOR c \<Longrightarrow> a = b" "c XOR a = c XOR b \<Longrightarrow> a = b" for a b c :: "32 word"
proof -
  assume "a XOR c = b XOR c"
  then have "(a XOR c) XOR c = (b XOR c) XOR c" by (rule arg_cong)
  then show "a = b" by (simp add: xor.assoc)
next
  assume "c XOR a = c XOR b"
  then have "c XOR (c XOR a) = c XOR (c XOR b)" by simp
  then show "a = b" by (simp flip: xor.assoc)
qed

lemma crc_of_Nil: "crc_of w key [] = 0" by (simp add: crc_of_def)

lemma crc_of_snoc:
  assumes "8 \<le> w" "w \<le> 24"
  shows "crc_of w key (xs @ [d]) = take_bit w ((crc_shift w key ^^ 8) (crc_of w key xs) XOR ucast d)"
proof -
  let ?t = "crc_table w key"
  have w: "0 < w" "w < 32" using assms by simp_all
  have "take_bit w ((crc_shift w key ^^ 8) (foldl (crc_byte w ?t) 0 xs)) =
      take_bit w ((crc_shift w key ^^ 8) (crc_of w key xs))"
    by (rule crc_shifts_cong [OF w]) (simp add: crc_of_take_bit w)
  then show ?thesis
    by (simp add: crc_of_take_bit w crc_byte_shifts [OF assms] take_bit_xor)
qed

lemma take_bit_crc_of [simp]: "w < 32 \<Longrightarrow> take_bit w (crc_of w key xs) = crc_of w key xs"
  by (simp add: crc_of_take_bit)

lemma crc_of_residue:
  fixes key :: "32 word"
  assumes "8 \<le> w" "w \<le> 16"
  defines "c \<equiv> \<lambda>h a b. crc_of w key (h @ [a, b])"
  shows "crc_of w key (h @ [a XOR ucast (drop_bit 8 (c h a b)), b XOR ucast (c h a b)]) = 0"
proof -
  have w: "0 < w" "w < 32" "8 \<le> w" "w \<le> 24" using assms(1,2) by simp_all
  let ?c = "c h a b" and ?s = "crc_shift w key ^^ 8" and ?r = "crc_of w key h"
  let ?e1 = "ucast (ucast (drop_bit 8 ?c) :: byte) :: 32 word" and ?e2 = "ucast (ucast ?c :: byte) :: 32 word"
  have two: "crc_of w key (h @ [x, y]) = take_bit w (?s (?s ?r XOR ucast x) XOR ucast y)" for x y
  proof -
    have "crc_of w key ((h @ [x]) @ [y]) = take_bit w (?s (take_bit w (?s ?r XOR ucast x)) XOR ucast y)"
      by (simp only: crc_of_snoc [OF w(3,4)])
    moreover have "take_bit w (?s (take_bit w (?s ?r XOR ucast x))) = take_bit w (?s (?s ?r XOR ucast x))"
      by (rule crc_shifts_cong [OF w(1,2)]) simp
    ultimately show ?thesis by (simp add: take_bit_xor)
  qed
  have ct: "take_bit w ?c = ?c" using w by (simp add: c_def)
  then have cb: "bit ?c i \<Longrightarrow> i < w" for i by (metis bit_take_bit_iff)
  have "?s ?e1 = push_bit 8 ?e1"
    by (rule crc_shifts_low [OF w(1,2)]) (use cb in \<open>fastforce simp: bit_simps\<close>)
  moreover have "push_bit 8 ?e1 XOR ?e2 = ?c"
  proof (rule bit_word_eqI)
    fix n
    show "bit (push_bit 8 ?e1 XOR ?e2) n \<longleftrightarrow> bit ?c n"
      using cb [of n] assms(2) by (auto simp: bit_simps)
  qed
  ultimately have e: "?s ?e1 XOR ?e2 = ?c" by simp
  have u: "ucast (x XOR y) = (ucast x XOR ucast y :: 32 word)" for x y :: byte
    by (rule bit_word_eqI) (auto simp: bit_simps)
  have "crc_of w key (h @ [a XOR ucast (drop_bit 8 ?c), b XOR ucast ?c]) =
      take_bit w (?s (?s ?r XOR ucast a) XOR ucast b XOR (?s ?e1 XOR ?e2))"
    unfolding two u by (simp add: crc_shifts_xor [OF w(1,2)] ac_simps xor.assoc)
  also have "\<dots> = take_bit w ((?s (?s ?r XOR ucast a) XOR ucast b) XOR ?c)"
    unfolding e by (simp only: xor.assoc)
  also have "\<dots> = ?c XOR ?c"
    unfolding take_bit_xor [of w _ ?c] ct by (simp only: c_def two)
  finally show ?thesis by simp
qed

text \<open>A message whose last two bytes are combined with its check has check zero: the test on received
  headers accepts what the encoders write, for both checks.\<close>

theorem crc_residue:
  "crc12_mark4 (h @ [a XOR ucast (drop_bit 8 (crc12_mark4 (h @ [a, b]))), b XOR ucast (crc12_mark4 (h @ [a, b]))]) = 0
   \<and> crc16_vlba (h @ [a XOR ucast (drop_bit 8 (crc16_vlba (h @ [a, b]))), b XOR ucast (crc16_vlba (h @ [a, b]))]) = 0"
  unfolding crc12_mark4_def crc16_vlba_def by (intro conjI crc_of_residue) simp_all

lemma crc_shift_inj:
  assumes "0 < w" "w < 32" "bit key 0" "take_bit w (crc_shift w key a) = take_bit w (crc_shift w key b)"
  shows "take_bit w a = take_bit w b"
proof (rule bit_word_eqI)
  fix n
  have e: "bit (crc_shift w key a) i \<longleftrightarrow> bit (crc_shift w key b) i" if "i < w" for i
    using assms(4) that by (metis bit_take_bit_iff)
  have top: "bit a (w - 1) \<longleftrightarrow> bit b (w - 1)"
    using e [of 0] assms(1-3) by (auto simp: crc_shift_eq bit_simps bit_times2 split: if_splits)
  have "bit a n \<longleftrightarrow> bit b n" if "Suc n < w"
    using e [OF that] top assms(1,2) that
    by (auto simp: crc_shift_eq bit_simps bit_times2 split: if_splits)
  with top show "bit (take_bit w a) n \<longleftrightarrow> bit (take_bit w b) n"
    using assms(1) by (cases "n = w - 1") (auto simp: bit_take_bit_iff)
qed

lemma crc_shifts_inj:
  assumes "0 < w" "w < 32" "bit key 0"
  shows "take_bit w ((crc_shift w key ^^ n) a) = take_bit w ((crc_shift w key ^^ n) b) \<Longrightarrow>
    take_bit w a = take_bit w b"
  by (induction n) (auto dest: crc_shift_inj [OF assms])

lemma crc_snoc_inj:
  assumes "8 \<le> w" "w \<le> 24" "bit key 0" "crc_of w key (xs @ [d]) = crc_of w key (ys @ [d])"
  shows "crc_of w key xs = crc_of w key ys"
proof -
  have w: "0 < w" "w < 32" using assms(1,2) by simp_all
  have "take_bit w ((crc_shift w key ^^ 8) (crc_of w key xs)) XOR take_bit w (ucast d) =
      take_bit w ((crc_shift w key ^^ 8) (crc_of w key ys)) XOR take_bit w (ucast d)"
    using assms(4) unfolding crc_of_snoc [OF assms(1,2)] take_bit_xor .
  then have "take_bit w ((crc_shift w key ^^ 8) (crc_of w key xs)) =
      take_bit w ((crc_shift w key ^^ 8) (crc_of w key ys))"
    by (rule xor_cancel(1))
  from crc_shifts_inj [OF w assms(3) this] w show ?thesis by simp
qed

text \<open>C28: Any error confined to one byte is detected: two messages of the same length that differ in one
  byte have different checks (for a generator with a constant term, as both in use have).\<close>

theorem crc_detects_byte_errors:
  assumes "8 \<le> w" "w \<le> 24" "bit key 0" "a \<noteq> b"
  shows "crc_of w key (xs @ a # ys) \<noteq> crc_of w key (xs @ b # ys)"
proof (induction ys rule: rev_induct)
  case Nil
  have "crc_of w key (xs @ [a]) = crc_of w key (xs @ [b]) \<Longrightarrow> a = b"
  proof (rule bit_word_eqI)
    fix n assume e: "crc_of w key (xs @ [a]) = crc_of w key (xs @ [b])" and n: "n < LENGTH(8)"
    have "take_bit w (ucast a :: 32 word) = take_bit w (ucast b)"
      using e unfolding crc_of_snoc [OF assms(1,2)] take_bit_xor by (rule xor_cancel(2))
    then have "bit (take_bit w (ucast a :: 32 word)) n = bit (take_bit w (ucast b :: 32 word)) n" by simp
    then show "bit a n \<longleftrightarrow> bit b n" using n assms(1) by (simp add: bit_simps)
  qed
  with assms(4) show ?case by auto
next
  case (snoc y ys)
  then show ?case using crc_snoc_inj [OF assms(1-3), of "xs @ a # ys" y "xs @ b # ys"] by auto
qed

theorem crc_detects_byte_errors_witness:
  "crc16_vlba ([1, 2] @ 3 # [4]) \<noteq> crc16_vlba ([1, 2] @ 5 # [4])"
  unfolding crc16_vlba_def by (rule crc_detects_byte_errors) simp_all

end
