(* ===== verification/TrackBits.thy ===== *)
theory TrackBits
  imports Crc Formats
begin

unbundle bit_operations_syntax

text \<open>
  Track headers of Mark4 and VLBA frames, from \<open>src/src/headersearch.cc\<close> and
  \<open>src/src/headersearch.impl\<close>: spreading the bits of a header over all tracks, extracting the bits
  of one track, and the checks of sync word, sample word and CRC on a frame. A frame is the list of
  its bytes; reading past its end is an error of its own.
\<close>

datatype tb_error = Invalid_Track_Requested | Off_Frame | Invalid_Number_Of_Tracks

subsection \<open>Extracting the bits of a track\<close>

text \<open>The loop: \<open>n\<close> bits to go, the bits counted so far, the source byte, and the byte and bit of the
  destination. \<open>bitmask\<close> selects the track in a source byte.\<close>

fun extract_loop :: "bool \<Rightarrow> nat \<Rightarrow> byte \<Rightarrow> byte list \<Rightarrow> nat \<Rightarrow> nat \<Rightarrow> nat \<Rightarrow> nat \<Rightarrow> nat \<Rightarrow> byte list \<Rightarrow>
    tb_error + byte list" where
  "extract_loop strip step bitmask frame 0 counter srcbyte dstbyte dstbit dst = Inr dst"
| "extract_loop strip step bitmask frame (Suc n) counter srcbyte dstbyte dstbit dst =
     (if \<not> srcbyte < length frame then Inl Off_Frame
      else
        let f = (frame ! srcbyte AND bitmask \<noteq> 0);
            d = (dst ! dstbyte AND NOT (push_bit dstbit 1)) OR (if f then push_bit dstbit 1 else 0);
            dst' = dst[dstbyte := d];
            srcbyte' = srcbyte + step + (if strip \<and> (counter + 1) mod 8 = 0 then step else 0)
        in if dstbit = 0
           then extract_loop strip step bitmask frame n (counter + 1) srcbyte' (dstbyte + 1) 7 dst'
           else extract_loop strip step bitmask frame n (counter + 1) srcbyte' dstbyte (dstbit - 1) dst')"

definition extract_bitstream ::
  "bool \<Rightarrow> byte list \<Rightarrow> nat \<Rightarrow> nat \<Rightarrow> nat \<Rightarrow> byte list \<Rightarrow> tb_error + byte list" where
  "extract_bitstream strip dst track ntrack nbit frame =
     (if track \<ge> ntrack then Inl Invalid_Track_Requested
      else extract_loop strip (ntrack div 8) (push_bit (track mod 8) 1) frame nbit 0 (track div 8) 0 7 dst)"

subsection \<open>Spreading a header over the tracks\<close>

text \<open>The bits of a header, most significant first; each fills one row of \<open>ntrack\<close> equal bits.\<close>

definition header_bits :: "byte list \<Rightarrow> bool list" where
  "header_bits h = concat (map byte_bits h)"

fun spread_bits :: "nat \<Rightarrow> nat \<Rightarrow> bool list \<Rightarrow> byte list \<Rightarrow> byte list" where
  "spread_bits step pos [] frame = frame"
| "spread_bits step pos (b # bs) frame =
     spread_bits step (pos + 1) bs (blit frame (pos * step) (replicate step (if b then 0xff else 0)) 0 step)"

definition spread_header :: "nat \<Rightarrow> nat \<Rightarrow> byte list \<Rightarrow> byte list \<Rightarrow> tb_error + byte list" where
  "spread_header ntrack off header frame =
     (if ntrack \<in> {8, 16, 32, 64} then Inr (spread_bits (ntrack div 8) off (header_bits header) frame)
      else Inl Invalid_Number_Of_Tracks)"

subsection \<open>Checks on a frame\<close>

definition mark5b_syncword :: "byte list" where "mark5b_syncword = [0xed, 0xde, 0xad, 0xab]"
definition mark4_syncword :: "byte list" where "mark4_syncword = replicate 256 0xff"

definition st_syncword :: "byte list" where
  "st_syncword = concat (replicate 4 (replicate 32 0xff @ replicate 4 0))"

definition SYNCWORD_ST :: "format_type \<Rightarrow> byte list" where
  "SYNCWORD_ST fmt = (if IS_ST fmt then st_syncword else if fmt = fmt_mark5b then mark5b_syncword
     else if MK4VLBA fmt then mark4_syncword else [])"

text \<open>The flags of \<open>strict_type\<close> the code tests.\<close>

record strict =
  chk_syncword :: bool
  chk_crc :: bool
  chk_strict :: bool
  chk_consistent :: bool
  chk_allow_dbe :: bool
  chk_nothrow :: bool

text \<open>Bytes of the frame at a distance; \<open>None\<close> past the end.\<close>

definition byte_at :: "byte list \<Rightarrow> nat \<Rightarrow> byte option" where
  "byte_at frame i = (if i < length frame then Some (frame ! i) else None)"

fun match_bytes :: "byte list \<Rightarrow> nat \<Rightarrow> byte list \<Rightarrow> tb_error + bool" where
  "match_bytes frame pos [] = Inr True"
| "match_bytes frame pos (b # bs) =
     (case byte_at frame pos of None \<Rightarrow> Inl Off_Frame
      | Some c \<Rightarrow> if c = b then match_bytes frame (pos + 1) bs else Inr False)"

definition check_syncword :: "headersearch \<Rightarrow> byte list \<Rightarrow> tb_error + bool" where
  "check_syncword h frame =
     match_bytes frame (hs_syncwordoffset h) (take (hs_syncwordsize h) (SYNCWORD_ST (hs_frameformat h)))"

text \<open>Up to eight rows of ones after the sync word; the last byte read must be zero.\<close>

function skip_ones :: "byte list \<Rightarrow> nat \<Rightarrow> nat \<Rightarrow> nat \<Rightarrow> byte \<Rightarrow> tb_error + nat \<times> byte" where
  "skip_ones frame step bitcount pos c =
     (if \<not> bitcount < 8 then Inr (bitcount, c)
      else (case byte_at frame pos of None \<Rightarrow> Inl Off_Frame
            | Some c' \<Rightarrow> if c' = 0xff then skip_ones frame step (bitcount + 1) (pos + step) c'
                        else Inr (bitcount, c')))"
  by pat_completeness auto
termination by (relation "measure (\<lambda>(f, s, b, p, c). 8 - b)") auto

declare skip_ones.simps [simp del]

text \<open>The CRC is only looked at when the flag asks for it; \<open>track\<close> must exist in any case.\<close>

definition check_header :: "bool \<Rightarrow> nat \<Rightarrow> (byte list \<Rightarrow> bool) \<Rightarrow> headersearch \<Rightarrow> strict \<Rightarrow> byte list \<Rightarrow> nat \<Rightarrow>
    tb_error + bool" where
  "check_header strip hdrlen crc_ok h st frame track =
     (case (if chk_syncword st then check_syncword h frame else Inr True) of
        Inl e \<Rightarrow> Inl e
      | Inr False \<Rightarrow> Inr False
      | Inr True \<Rightarrow>
        (case skip_ones frame (hs_ntrack h div 8) 0 (hs_syncwordoffset h + hs_syncwordsize h) 0 of
           Inl e \<Rightarrow> Inl e
         | Inr (bitcount, c) \<Rightarrow>
           (if chk_strict st \<and> (bitcount = 8 \<or> c \<noteq> 0) then Inr False
            else (case extract_bitstream strip (replicate hdrlen 0) track (hs_ntrack h) (hdrlen * 8) frame of
                    Inl e \<Rightarrow> Inl e
                  | Inr trackheader \<Rightarrow> Inr (\<not> chk_crc st \<or> crc_ok trackheader)))))"

definition check_mark4 :: "bool \<Rightarrow> headersearch \<Rightarrow> strict \<Rightarrow> byte list \<Rightarrow> nat \<Rightarrow> tb_error + bool" where
  "check_mark4 strip h st frame track = check_header strip 20 (\<lambda>t. crc12_mark4 t = 0) h st frame track"

definition check_vlba :: "bool \<Rightarrow> headersearch \<Rightarrow> strict \<Rightarrow> byte list \<Rightarrow> nat \<Rightarrow> tb_error + bool" where
  "check_vlba strip h st frame track = check_header strip 12 (\<lambda>t. crc16_vlba (drop 4 t) = 0) h st frame track"

definition check_mark5b :: "headersearch \<Rightarrow> strict \<Rightarrow> byte list \<Rightarrow> tb_error + bool" where
  "check_mark5b h st frame =
     (case (if chk_syncword st then check_syncword h frame else Inr True) of
        Inl e \<Rightarrow> Inl e
      | Inr False \<Rightarrow> Inr False
      | Inr True \<Rightarrow>
        (if length frame < 16 then Inl Off_Frame
         else Inr (\<not> chk_crc st \<or> chk_allow_dbe st
           \<or> crc16_vlba (map (\<lambda>i. frame ! (8 + 4 * (i div 4) + (3 - i mod 4))) [0..<8]) = 0)))"

subsection \<open>A spread header is extracted again\<close>

lemma length_header_bits [simp]: "length (header_bits h) = 8 * length h"
  by (induction h) (simp_all add: header_bits_def)

lemma nth_header_bits: "k < 8 * length h \<Longrightarrow> header_bits h ! k = bit (h ! (k div 8)) (7 - k mod 8)"
proof (induction h arbitrary: k)
  case (Cons d h)
  show ?case
  proof (cases "k < 8")
    case True
    then show ?thesis
      by (simp add: header_bits_def nth_append byte_bits_def rev_nth)
  next
    case False
    have "header_bits (d # h) ! k = header_bits h ! (k - 8)"
      using False by (simp add: header_bits_def nth_append)
    also have "\<dots> = bit (h ! ((k - 8) div 8)) (7 - (k - 8) mod 8)"
      by (rule Cons.IH) (use Cons.prems False in simp)
    also have "(k - 8) div 8 = k div 8 - 1" using False le_div_geq [of 8 k] by simp
    also have "(k - 8) mod 8 = k mod 8" using False le_mod_geq [of 8 k] by simp
    finally have e: "header_bits (d # h) ! k = bit (h ! (k div 8 - 1)) (7 - k mod 8)" .
    have "k div 8 \<noteq> 0" using False by (simp add: div_eq_0_iff)
    then show ?thesis unfolding e by (simp add: nth_Cons')
  qed
qed simp

lemma length_spread_bits [simp]: "length (spread_bits step pos bs frame) = length frame"
  by (induction bs arbitrary: pos frame) simp_all

lemma nth_spread_bits:
  assumes "0 < step"
  shows "(pos + length bs) * step \<le> length frame \<Longrightarrow> i < length frame \<Longrightarrow>
    spread_bits step pos bs frame ! i =
      (if pos * step \<le> i \<and> i < (pos + length bs) * step
       then (if bs ! (i div step - pos) then 0xff else 0) else frame ! i)"
proof (induction bs arbitrary: pos frame)
  case (Cons b bs)
  let ?f = "blit frame (pos * step) (replicate step (if b then 0xff else 0)) 0 step"
  have l: "pos * step + step \<le> length frame" using Cons.prems(1) by (simp add: algebra_simps)
  have f: "?f ! i = (if pos * step \<le> i \<and> i < pos * step + step then (if b then 0xff else 0) else frame ! i)"
    using nth_blit [OF l Cons.prems(2)] by auto
  have "spread_bits step pos (b # bs) frame ! i = spread_bits step (pos + 1) bs ?f ! i" by simp
  also have "\<dots> = (if (pos + 1) * step \<le> i \<and> i < (pos + 1 + length bs) * step
       then (if bs ! (i div step - (pos + 1)) then 0xff else 0) else ?f ! i)"
    by (rule Cons.IH) (use Cons.prems in \<open>simp_all add: algebra_simps\<close>)
  finally have e: "spread_bits step pos (b # bs) frame ! i = \<dots>" .
  have d: "i div step = pos" if "pos * step \<le> i" "i < pos * step + step"
    using that by (intro div_nat_eqI) (simp_all add: mult.commute)
  have d': "i div step - pos = Suc (i div step - (pos + 1))" if "(pos + 1) * step \<le> i"
  proof -
    have "pos + 1 \<le> i div step" using that assms by (simp add: less_eq_div_iff_mult_less_eq)
    then show ?thesis by simp
  qed
  show ?case unfolding e f using d d' by (auto simp: algebra_simps)
qed auto

text \<open>The rows the loop reads: one per bit, and one skipped after eight when parity is stripped.\<close>

definition row_of :: "bool \<Rightarrow> nat \<Rightarrow> nat" where
  "row_of strip k = k + (if strip then k div 8 else 0)"

lemma row_of_Suc: "row_of strip (Suc k) = row_of strip k + 1 + (if strip \<and> (k + 1) mod 8 = 0 then 1 else 0)"
  by (auto simp: row_of_def div_Suc)

lemma bit_replace:
  "n < 8 \<Longrightarrow> i < 8 \<Longrightarrow> bit ((d AND NOT (push_bit n 1)) OR (if f then push_bit n 1 else 0)) i \<longleftrightarrow>
     (if i = n then f else bit d i)" for d :: byte
  by (auto simp: bit_simps)

lemma byte_pos: "x < 8 \<Longrightarrow> (8 * j + x) mod 8 = x" "x < 8 \<Longrightarrow> (8 * j + x) div 8 = j" for x :: nat
  by simp_all

lemma extract_loop_lemma:
  assumes "0 < step" "src0 < step"
    "\<And>k. k < nbits \<Longrightarrow> row_of strip k * step + src0 < length frame"
  shows "k + n \<le> nbits \<Longrightarrow> nbits \<le> 8 * length dst \<Longrightarrow>
    \<exists>dst'. extract_loop strip step m frame n k (row_of strip k * step + src0) (k div 8) (7 - k mod 8) dst = Inr dst'
      \<and> length dst' = length dst
      \<and> (\<forall>j<length dst. \<forall>i<8. bit (dst' ! j) i \<longleftrightarrow>
           (if k \<le> 8 * j + (7 - i) \<and> 8 * j + (7 - i) < k + n
            then frame ! (row_of strip (8 * j + (7 - i)) * step + src0) AND m \<noteq> 0 else bit (dst ! j) i))"
proof (induction n arbitrary: k dst)
  case 0
  then show ?case by auto
next
  case (Suc n)
  let ?src = "row_of strip k * step + src0" and ?b = "7 - k mod 8" and ?j = "k div 8"
  define f where "f \<longleftrightarrow> frame ! ?src AND m \<noteq> 0"
  define d where "d = (dst ! ?j AND NOT (push_bit ?b 1)) OR (if f then push_bit ?b 1 else 0)"
  define dst1 where "dst1 = dst[?j := d]"
  have bd: "bit d i \<longleftrightarrow> (if i = ?b then f else bit (dst ! ?j) i)" if "i < 8" for i
    unfolding d_def by (rule bit_replace) (use that in simp_all)
  have in_frame: "?src < length frame" using Suc.prems by (intro assms(3)) simp
  have j: "?j < length dst" using Suc.prems by (simp add: less_mult_imp_div_less mult.commute)
  have src: "?src + step + (if strip \<and> (k + 1) mod 8 = 0 then step else 0) = row_of strip (Suc k) * step + src0"
    by (simp add: row_of_Suc algebra_simps)
  have pos: "Suc k div 8 = (if ?b = 0 then ?j + 1 else ?j)" "7 - Suc k mod 8 = (if ?b = 0 then 7 else ?b - 1)"
    by (auto simp: div_Suc mod_Suc)
  have step1: "extract_loop strip step m frame (Suc n) k ?src ?j ?b dst =
      extract_loop strip step m frame n (Suc k) (row_of strip (Suc k) * step + src0) (Suc k div 8) (7 - Suc k mod 8) dst1"
    unfolding extract_loop.simps Let_def f_def [symmetric] d_def [symmetric] dst1_def [symmetric] src pos
    using in_frame by (cases "?b = 0") simp_all
  have "length dst1 = length dst" by (simp add: dst1_def)
  with Suc.IH [of "Suc k" dst1] Suc.prems obtain dst' where
    r: "extract_loop strip step m frame n (Suc k) (row_of strip (Suc k) * step + src0) (Suc k div 8)
          (7 - Suc k mod 8) dst1 = Inr dst'" "length dst' = length dst"
    and bits: "\<And>j i. j < length dst \<Longrightarrow> i < 8 \<Longrightarrow> bit (dst' ! j) i \<longleftrightarrow>
           (if Suc k \<le> 8 * j + (7 - i) \<and> 8 * j + (7 - i) < Suc k + n
            then frame ! (row_of strip (8 * j + (7 - i)) * step + src0) AND m \<noteq> 0 else bit (dst1 ! j) i)"
    by auto
  have "bit (dst' ! j') i \<longleftrightarrow> (if k \<le> 8 * j' + (7 - i) \<and> 8 * j' + (7 - i) < k + Suc n
      then frame ! (row_of strip (8 * j' + (7 - i)) * step + src0) AND m \<noteq> 0 else bit (dst ! j') i)"
    if "j' < length dst" "i < 8" for j' i
  proof (cases "8 * j' + (7 - i) = k")
    case True
    have "(8 * j' + (7 - i)) div 8 = j'" "(8 * j' + (7 - i)) mod 8 = 7 - i" by (rule byte_pos; simp)+
    with True that(2) have "j' = ?j" "i = ?b" by simp_all
    then have "bit (dst1 ! j') i \<longleftrightarrow> f" using j bd [of i] that(2) by (simp add: dst1_def)
    with bits [OF that] True show ?thesis by (simp add: f_def)
  next
    case False
    have "bit (dst1 ! j') i \<longleftrightarrow> bit (dst ! j') i"
    proof (cases "j' = ?j")
      case True
      have "i = ?b \<Longrightarrow> 8 * j' + (7 - i) = k" using True mod_less_divisor [of 8 k] by (simp add: mult_div_mod_eq)
      then have "i \<noteq> ?b" using False by blast
      with True j that(2) bd [of i] show ?thesis by (simp add: dst1_def)
    qed (simp add: dst1_def)
    with bits [OF that] False show ?thesis by auto
  qed
  with r show ?case unfolding step1 by (intro exI [of _ dst']) auto
qed

text \<open>Rows of equal bits that hold the bits of some bytes: each track has these bytes.\<close>

lemma extract_rows:
  assumes "ntrack \<in> {8, 16, 32, 64}" "track < ntrack" "8 * length h * (ntrack div 8) \<le> length frame"
    and rows: "\<And>k s. k < 8 * length h \<Longrightarrow> s < ntrack div 8 \<Longrightarrow>
      frame ! (k * (ntrack div 8) + s) = (if header_bits h ! k then 0xff else 0)"
    and dst: "length dst = length h"
  shows "extract_bitstream False dst track ntrack (length h * 8) frame = Inr h"
proof -
  let ?step = "ntrack div 8" and ?src = "track div 8" and ?m = "push_bit (track mod 8) 1 :: byte"
  have step: "0 < ?step" "?src < ?step" using assms(1,2) by auto
  have row: "k * ?step + ?src < length frame" if "k < 8 * length h" for k
  proof -
    have "(k + 1) * ?step \<le> 8 * length h * ?step" using that by (intro mult_le_mono1) simp
    then show ?thesis using step(2) assms(3) by (simp add: algebra_simps)
  qed
  have bit: "frame ! (k * ?step + ?src) AND ?m \<noteq> 0 \<longleftrightarrow> header_bits h ! k" if "k < 8 * length h" for k
  proof -
    have ff: "(0xff :: byte) = - 1" by simp
    have "bit ?m (track mod 8)" by (simp add: bit_simps)
    then have "?m \<noteq> 0" by auto
    then show ?thesis unfolding rows [OF that step(2)] ff by simp
  qed
  have "row_of False k * ?step + ?src < length frame" if "k < 8 * length h" for k
    using row [OF that] by (simp add: row_of_def)
  from extract_loop_lemma [OF step this, where k = 0 and n = "8 * length h" and dst = dst and m = ?m] dst
  obtain dst' where r: "extract_loop False ?step ?m frame (8 * length h) 0 ?src 0 7 dst = Inr dst'"
    "length dst' = length h"
    and b: "\<And>j i. j < length h \<Longrightarrow> i < 8 \<Longrightarrow> 8 * j + (7 - i) < 8 * length h \<Longrightarrow>
       bit (dst' ! j) i \<longleftrightarrow> frame ! (row_of False (8 * j + (7 - i)) * ?step + ?src) AND ?m \<noteq> 0"
    by (auto simp: row_of_def [of False 0])
  have bits: "bit (dst' ! j) i \<longleftrightarrow> frame ! ((8 * j + (7 - i)) * ?step + ?src) AND ?m \<noteq> 0"
    if "j < length h" "i < 8" for j i
  proof -
    have "8 * j + (7 - i) < 8 * length h" using that by linarith
    from b [OF that this] show ?thesis unfolding row_of_def if_False add_0_right by simp
  qed
  have "dst' = h"
  proof (rule nth_equalityI)
    fix j assume j: "j < length dst'"
    show "dst' ! j = h ! j"
    proof (rule bit_word_eqI)
      fix i assume i: "i < LENGTH(8)"
      define k where "k = 8 * j + (7 - i)"
      have k: "k < 8 * length h" using i j r(2) by (simp add: k_def)
      have "k mod 8 = 7 - i" "k div 8 = j" unfolding k_def by (rule byte_pos; simp)+
      then show "bit (dst' ! j) i \<longleftrightarrow> bit (h ! j) i"
        using bits [of j i, folded k_def] j r(2) i bit [OF k] nth_header_bits [OF k] by simp
    qed
  qed (use r in simp)
  with r(1) assms(2) show ?thesis by (simp add: extract_bitstream_def mult.commute)
qed

lemma spread_headerD:
  assumes "spread_header ntrack off h frame = Inr frame'" "(off + 8 * length h) * (ntrack div 8) \<le> length frame"
  shows "ntrack \<in> {8, 16, 32, 64}" "length frame' = length frame"
    "k < 8 * length h \<Longrightarrow> s < ntrack div 8 \<Longrightarrow>
       frame' ! ((off + k) * (ntrack div 8) + s) = (if header_bits h ! k then 0xff else 0)"
    "i < off * (ntrack div 8) \<Longrightarrow> frame' ! i = frame ! i"
proof -
  let ?step = "ntrack div 8"
  show nt: "ntrack \<in> {8, 16, 32, 64}" using assms(1) by (auto simp: spread_header_def split: if_splits)
  have f': "frame' = spread_bits ?step off (header_bits h) frame"
    using assms(1) by (auto simp: spread_header_def split: if_splits)
  then show "length frame' = length frame" by simp
  have step: "0 < ?step" using nt by auto
  note nth = nth_spread_bits [OF step, where frame = frame and bs = "header_bits h" and pos = off]
  show "frame' ! ((off + k) * ?step + s) = (if header_bits h ! k then 0xff else 0)"
    if "k < 8 * length h" "s < ?step"
  proof -
    have le: "(off + k + 1) * ?step \<le> (off + 8 * length h) * ?step" using that(1) by (intro mult_le_mono1) simp
    then have i: "(off + k) * ?step + s < (off + 8 * length h) * ?step" using that(2) by (simp add: algebra_simps)
    moreover have "((off + k) * ?step + s) div ?step = off + k"
      using that(2) by (intro div_nat_eqI) (simp_all add: algebra_simps)
    ultimately show ?thesis unfolding f' using assms(2) that(1) by (subst nth) (simp_all add: algebra_simps)
  qed
  show "frame' ! i = frame ! i" if "i < off * ?step"
  proof -
    have "off * ?step \<le> (off + 8 * length h) * ?step" by (intro mult_le_mono1) simp
    then have "i < length frame" using assms(2) that by linarith
    then show ?thesis unfolding f' using assms(2) that by (subst nth) simp_all
  qed
qed

text \<open>Part of a spread header, from a row on.\<close>

lemma extract_spread:
  assumes "spread_header ntrack off h frame = Inr frame'" "(off + 8 * length h) * (ntrack div 8) \<le> length frame"
    "track < ntrack" "c + n \<le> length h" "length dst = n"
  shows "extract_bitstream False dst track ntrack (n * 8) (drop ((off + 8 * c) * (ntrack div 8)) frame')
    = Inr (chunk c n h)"
proof -
  let ?step = "ntrack div 8" and ?h = "chunk c n h"
  note sp = spread_headerD [OF assms(1,2)]
  have l: "length ?h = n" using assms(4) by simp
  have "(off + 8 * c + 8 * n) * ?step \<le> (off + 8 * length h) * ?step" using assms(4) by (intro mult_le_mono1) simp
  then have fit: "(off + 8 * c) * ?step + 8 * n * ?step \<le> length frame'"
    using assms(2) sp(2) by (simp add: algebra_simps)
  have "extract_bitstream False dst track ntrack (length ?h * 8) (drop ((off + 8 * c) * ?step) frame') = Inr ?h"
  proof (rule extract_rows [OF sp(1) assms(3)])
    fix k s assume k: "k < 8 * length ?h" and s: "s < ?step"
    have e1: "header_bits h ! (8 * c + k) = header_bits ?h ! k"
      using k l assms(4) by (simp add: nth_header_bits nth_chunk less_mult_imp_div_less mult.commute)
    have e2: "(off + 8 * c) * ?step + (k * ?step + s) = (off + (8 * c + k)) * ?step + s"
      by (simp add: algebra_simps)
    have e3: "drop ((off + 8 * c) * ?step) frame' ! (k * ?step + s) = frame' ! ((off + 8 * c) * ?step + (k * ?step + s))"
      by (rule nth_drop) (use fit in linarith)
    have "8 * c + k < 8 * length h" using k l assms(4) by linarith
    then show "drop ((off + 8 * c) * ?step) frame' ! (k * ?step + s) = (if header_bits ?h ! k then 0xff else 0)"
      unfolding e3 e2 e1 [symmetric] by (rule sp(3) [OF _ s])
  qed (use l fit assms(5) in simp_all)
  then show ?thesis unfolding l .
qed

text \<open>C29: What is spread over the tracks of a frame is extracted again from each of them: for any
  header, any frame it fits in, and every track.\<close>

theorem spread_header_extracted:
  assumes "spread_header ntrack off h frame = Inr frame'" "track < ntrack"
    "(off + 8 * length h) * (ntrack div 8) \<le> length frame"
  shows "extract_bitstream False (replicate (length h) 0) track ntrack (length h * 8)
    (drop (off * (ntrack div 8)) frame') = Inr h"
  using extract_spread [OF assms(1,3,2), of 0 "length h" "replicate (length h) 0"] by (simp add: chunk_def)

theorem spread_header_extracted_witness:
  "extract_bitstream False (replicate (length [0xa5, 0x0f :: byte]) 0) 11 16 (length [0xa5, 0x0f :: byte] * 8)
     (drop (1 * (16 div 8)) (spread_bits (16 div 8) 1 (header_bits [0xa5, 0x0f]) (replicate 40 0x77)))
     = Inr [0xa5, 0x0f]"
  by (rule spread_header_extracted [where frame = "replicate 40 0x77"]) (simp_all add: spread_header_def)

end
