(* ===== verification/Timestamps.thy ===== *)
theory Timestamps
  imports Calendar TrackBits
begin

unbundle bit_operations_syntax

text \<open>
  Time stamps of \<open>src/src/highrestime.cc\<close> and their coding in Mark4, VLBA, Mark5B and VDIF frame headers
  (\<open>src/src/headersearch.cc\<close>). Rationals are exact. The current time, which the decoders need to
  complete truncated dates, is a parameter; the broken down time is that of theory \<open>Calendar\<close>. A
  frame is the list of its bytes, words in it are little endian as on the machines the program
  runs on.
\<close>

subsection \<open>High resolution time\<close>

record highrestime =
  tv_sec :: int
  tv_subsecond :: rat

definition UNKNOWN_SUBSECOND :: rat where "UNKNOWN_SUBSECOND = 2 ^ 64 - 1"

definition hr_normalize :: "highrestime \<Rightarrow> highrestime" where
  "hr_normalize t =
     (if tv_subsecond t \<noteq> UNKNOWN_SUBSECOND
      then let nsec = \<lfloor>tv_subsecond t\<rfloor>
           in if nsec \<noteq> 0 then \<lparr>tv_sec = tv_sec t + nsec, tv_subsecond = tv_subsecond t - of_int nsec\<rparr> else t
      else t)"

definition hr_zero :: highrestime where "hr_zero = \<lparr>tv_sec = 0, tv_subsecond = 0\<rparr>"

definition hr_new :: "int \<Rightarrow> rat \<Rightarrow> highrestime" where
  "hr_new time ss = hr_normalize \<lparr>tv_sec = time, tv_subsecond = ss\<rparr>"

text \<open>A time with microseconds, and with nanoseconds.\<close>

definition hr_of_timeval :: "int \<Rightarrow> nat \<Rightarrow> highrestime" where
  "hr_of_timeval sec usec = hr_new sec (of_nat usec / 1000000)"

definition hr_of_timespec :: "int \<Rightarrow> nat \<Rightarrow> highrestime" where
  "hr_of_timespec sec nsec = hr_new sec (of_nat nsec / 1000000000)"

datatype ts_error = Undefined_Subsecond | Bad_Rational | Invalid_Track_Bitrate | No_Tracks
  | Not_Representable | Frame_Number_Overflow | Bad_Timecode | Out_Of_Range | Inconsistent
  | No_Function | No_Offset | Track_Error tb_error

definition hr_add :: "highrestime \<Rightarrow> rat \<Rightarrow> ts_error + highrestime" where
  "hr_add t dt =
     (if tv_subsecond t = UNKNOWN_SUBSECOND then Inl Undefined_Subsecond
      else if dt < 0
      then let nsec = \<lfloor>tv_subsecond t - \<bar>dt\<bar>\<rfloor>
           in Inr (hr_normalize \<lparr>tv_sec = tv_sec t - \<bar>nsec\<bar>,
                                  tv_subsecond = tv_subsecond t + of_int \<bar>nsec\<bar> - \<bar>dt\<bar>\<rparr>)
      else Inr (hr_normalize (t\<lparr>tv_subsecond := tv_subsecond t + dt\<rparr>)))"

definition hr_sub :: "highrestime \<Rightarrow> rat \<Rightarrow> ts_error + highrestime" where
  "hr_sub t dt = hr_add t (- dt)"

definition hr_diff :: "highrestime \<Rightarrow> highrestime \<Rightarrow> ts_error + rat" where
  "hr_diff l r =
     (if tv_subsecond l = UNKNOWN_SUBSECOND \<or> tv_subsecond r = UNKNOWN_SUBSECOND then Inl Undefined_Subsecond
      else let borrow = tv_subsecond l < tv_subsecond r;
               isec = tv_sec l - tv_sec r - (if borrow then 1 else 0);
               lss = tv_subsecond l + (if borrow then 1 else 0) - tv_subsecond r
           in Inr (lss + of_int isec))"

definition hr_less :: "highrestime \<Rightarrow> highrestime \<Rightarrow> bool" where
  "hr_less l r =
     (if tv_sec l = tv_sec r then tv_subsecond l < tv_subsecond r else tv_sec l < tv_sec r)"

definition isModulo :: "highrestime \<Rightarrow> rat \<Rightarrow> ts_error + bool" where
  "isModulo dt frameduration =
     (if frameduration = 0 then Inl Bad_Rational
      else Inr (denominator ((of_int (tv_sec dt) + tv_subsecond dt) / frameduration) = 1))"

subsection \<open>Words and nibbles in a frame\<close>

definition get_le32 :: "byte list \<Rightarrow> nat \<Rightarrow> 32 word" where
  "get_le32 frame off =
     ucast (frame ! off) OR push_bit 8 (ucast (frame ! (off + 1)))
     OR push_bit 16 (ucast (frame ! (off + 2))) OR push_bit 24 (ucast (frame ! (off + 3)))"

definition le32 :: "32 word \<Rightarrow> byte list" where
  "le32 w = [ucast w, ucast (drop_bit 8 w), ucast (drop_bit 16 w), ucast (drop_bit 24 w)]"

definition put_le32 :: "byte list \<Rightarrow> nat \<Rightarrow> 32 word \<Rightarrow> byte list" where
  "put_le32 frame off w = blit frame off (le32 w) 0 4"

definition get_field :: "nat \<Rightarrow> nat \<Rightarrow> 32 word \<Rightarrow> 32 word" where
  "get_field lo len w = take_bit len (drop_bit lo w)"

definition set_field :: "nat \<Rightarrow> nat \<Rightarrow> 32 word \<Rightarrow> 32 word \<Rightarrow> 32 word" where
  "set_field lo len v w = (w AND NOT (push_bit lo (mask len))) OR push_bit lo (take_bit len v)"

definition hi_nibble :: "byte \<Rightarrow> int" where "hi_nibble b = uint (drop_bit 4 b)"
definition lo_nibble :: "byte \<Rightarrow> int" where "lo_nibble b = uint (take_bit 4 b)"

text \<open>\<open>(unsigned char)(x << 4) | y\<close>\<close>

definition nibbles :: "int \<Rightarrow> int \<Rightarrow> byte" where
  "nibbles hi lo = push_bit 4 (word_of_int hi) OR word_of_int lo"

text \<open>\<open>(x / d) % 10\<close>\<close>

definition digit :: "int \<Rightarrow> int \<Rightarrow> int" where "digit d x = (x sdiv d) smod 10"

text \<open>Digits or'ed into a word, four bits each, from the lowest up.\<close>

fun bcd32 :: "int list \<Rightarrow> 32 word" where
  "bcd32 [] = 0"
| "bcd32 (d # ds) = word_of_int d OR push_bit 4 (bcd32 ds)"

subsection \<open>Encoding\<close>

definition u32_of :: "rat \<Rightarrow> int" where "u32_of r = \<lfloor>r\<rfloor> mod 2 ^ 32"

definition bad_bitrate :: "headersearch \<Rightarrow> bool" where
  "bad_bitrate hdr \<longleftrightarrow> hs_trackbitrate hdr = 0 \<or> hs_trackbitrate hdr = UNKNOWN_TRACKBITRATE
     \<or> denominator (hs_trackbitrate hdr) \<noteq> 1"

text \<open>The 20 bytes of a Mark4 header before its checksum.\<close>

definition mk4_header :: "highrestime \<Rightarrow> byte list" where
  "mk4_header ts =
     (let g = gmtime (tv_sec ts); yday = tm_yday g + 1; ms = u32_of (tv_subsecond ts * 1000)
      in replicate 8 0 @ replicate 4 0xff @
         [nibbles (digit 1 (tm_year g)) (digit 100 yday), nibbles (digit 10 yday) (digit 1 yday),
          nibbles (digit 10 (tm_hour g)) (digit 1 (tm_hour g)), nibbles (digit 10 (tm_min g)) (digit 1 (tm_min g)),
          nibbles (digit 10 (tm_sec g)) (digit 1 (tm_sec g)), nibbles (digit 100 ms) (digit 10 ms),
          push_bit 4 (word_of_int (digit 1 ms)), 0])"

definition mk4_add_crc :: "byte list \<Rightarrow> byte list" where
  "mk4_add_crc header =
     (let crc = crc12_mark4 header
      in header[18 := header ! 18 OR ucast (drop_bit 8 crc AND 0x0f), 19 := ucast (crc AND 0xff)])"

definition spread :: "nat \<Rightarrow> nat \<Rightarrow> byte list \<Rightarrow> byte list \<Rightarrow> ts_error + byte list" where
  "spread ntrack off header frame =
     (case spread_header ntrack off header frame of Inl e \<Rightarrow> Inl (Track_Error e) | Inr f \<Rightarrow> Inr f)"

definition encode_mk4_timestamp :: "headersearch \<Rightarrow> highrestime \<Rightarrow> byte list \<Rightarrow> ts_error + byte list" where
  "encode_mk4_timestamp hdr ts frame =
     (if bad_bitrate hdr then Inl Invalid_Track_Bitrate
      else if hs_frametime hdr = 0 then Inl Bad_Rational
      else if denominator (tv_subsecond ts / hs_frametime hdr) \<noteq> 1 then Inl Not_Representable
      else if digit 1 (u32_of (tv_subsecond ts * 1000)) \<in> {4, 9} then Inl Bad_Timecode
      else spread (hs_ntrack hdr) 0 (mk4_add_crc (mk4_header ts)) frame)"

text \<open>Straight through: the rows of 32 tracks get a parity row after each eight, inverted over the
  sync word, and are then written as differences.\<close>

fun st_parity :: "32 word list \<Rightarrow> nat \<Rightarrow> nat \<Rightarrow> 32 word list" where
  "st_parity [] i ones = []"
| "st_parity (w # ws) i ones =
     (let ones' = (if w \<noteq> 0 then ones + 1 else ones); i' = i + 1
      in if i' mod 8 = 0
         then let p = (if odd ones' then - 1 else 0)
              in w # (if i' \<ge> 64 \<and> i' < 96 then NOT p else p) # st_parity ws i' 0
         else w # st_parity ws i' ones')"

fun nrzm :: "nat \<Rightarrow> 32 word \<Rightarrow> 32 word list \<Rightarrow> 32 word list" where
  "nrzm n prev [] = []"
| "nrzm 0 prev (w # ws) = w # ws"
| "nrzm (Suc n) prev (w # ws) = (w XOR prev) # nrzm n (w XOR prev) ws"

definition encode_mk4_timestamp_st :: "headersearch \<Rightarrow> highrestime \<Rightarrow> byte list \<Rightarrow> ts_error + byte list" where
  "encode_mk4_timestamp_st hdr ts frame =
     (case encode_mk4_timestamp hdr ts (replicate 640 0) of Inl e \<Rightarrow> Inl e
      | Inr header \<Rightarrow>
        let rows = st_parity (map (\<lambda>i. get_le32 header (4 * i)) [0..<160]) 0 0;
            out = concat (map le32 (hd rows # nrzm 159 (hd rows) (tl rows)))
        in Inr (blit frame 0 out 0 (length out)))"

definition vlba_words :: "highrestime \<Rightarrow> 32 word \<times> 32 word" where
  "vlba_words ts =
     (let mjd = 40587 + tv_sec ts sdiv 86400; sec = tv_sec ts smod 86400;
          dms = u32_of (tv_subsecond ts * 10000)
      in (bcd32 [digit 1 sec, digit 10 sec, digit 100 sec, digit 1000 sec, digit 10000 sec,
                 digit 1 mjd, digit 10 mjd, digit 100 mjd],
          bcd32 [0, 0, 0, 0, digit 1 dms, digit 10 dms, digit 100 dms, digit 1000 dms]))"

text \<open>The checksum is computed over the words as they lie in memory; the header is in the other
  byte order.\<close>

definition encode_vlba_timestamp :: "headersearch \<Rightarrow> highrestime \<Rightarrow> byte list \<Rightarrow> ts_error + byte list" where
  "encode_vlba_timestamp hdr ts frame =
     (let (w0, w1) = vlba_words ts;
          crc = crc16_vlba (le32 w0 @ le32 w1);
          w1' = w1 OR (crc AND 0xffff)
      in spread (hs_ntrack hdr) 32 (rev (le32 w0) @ rev (le32 w1')) frame)"

definition encode_mk5b_timestamp :: "headersearch \<Rightarrow> highrestime \<Rightarrow> byte list \<Rightarrow> ts_error + byte list" where
  "encode_mk5b_timestamp hdr ts frame =
     (if bad_bitrate hdr then Inl Invalid_Track_Bitrate
      else if hs_frametime hdr = 0 then Inl Bad_Rational
      else let framenum = tv_subsecond ts / hs_frametime hdr
      in if denominator framenum \<noteq> 1 then Inl Not_Representable
      else if \<not> numerator framenum < 2 ^ 32 - 1 then Inl Frame_Number_Overflow
      else let (w2, w3) = vlba_words ts;
               crc = crc16_vlba (rev (le32 w2) @ rev (le32 w3))
           in Inr (put_le32 (put_le32 (put_le32 frame 4 (word_of_int (numerator framenum) AND 0x7fff)) 8 w2)
                     12 (w3 OR (crc AND 0xffff))))"

text \<open>The start of the half year of a time, and its number since 2000.\<close>

definition vdif_epoch :: "int \<Rightarrow> int" where
  "vdif_epoch sec = (let k = gmtime sec in (tm_year k + 1900 - 2000) * 2 + (if tm_mon k \<ge> 6 then 1 else 0))"

definition vdif_tm_epoch :: "int \<Rightarrow> int" where
  "vdif_tm_epoch sec = (let k = gmtime sec
     in mktime (k\<lparr>tm_hour := 0, tm_min := 0, tm_sec := 0, tm_mon := tm_mon k sdiv 6 * 6, tm_mday := 1\<rparr>))"

text \<open>The fields both VDIF encoders write: time of frame zero, frame number.\<close>

definition vdif_write :: "headersearch \<Rightarrow> int \<Rightarrow> int \<Rightarrow> int \<Rightarrow> byte list \<Rightarrow> byte list" where
  "vdif_write hdr sec zero_sec framenum frame =
     (let legacy = is_legacy (hs_frameformat hdr);
          cplx = is_complex (hs_frameformat hdr);
          w0 = set_field 0 30 (word_of_int (zero_sec - vdif_tm_epoch sec))
                 (set_field 30 1 (of_bool legacy) (get_le32 frame 0));
          w1 = set_field 24 6 (word_of_int (vdif_epoch sec))
                 (set_field 0 24 (word_of_int framenum) (get_le32 frame 4));
          w2 = set_field 0 24 (word_of_nat (u32_add (hs_payloadsize hdr) (if legacy then 16 else 32) div 8))
                 (get_le32 frame 8);
          w3 = set_field 31 1 (of_bool cplx) (get_le32 frame 12)
      in put_le32 (put_le32 (put_le32 (put_le32 frame 0 w0) 4 w1) 8 w2) 12 w3)"

definition encode_vdif_timestamp :: "headersearch \<Rightarrow> highrestime \<Rightarrow> byte list \<Rightarrow> ts_error + byte list" where
  "encode_vdif_timestamp hdr ts frame =
     (if hs_trackbitrate hdr = 0 \<or> hs_trackbitrate hdr = UNKNOWN_TRACKBITRATE then Inl Invalid_Track_Bitrate
      else if hs_ntrack hdr = 0 then Inl No_Tracks
      else if hs_frametime hdr = 0 then Inl Bad_Rational
      else let framenum = tv_subsecond ts / hs_frametime hdr
      in if denominator framenum \<noteq> 1 then Inl Not_Representable
      else if \<not> numerator framenum < 2 ^ 24 - 1 then Inl Frame_Number_Overflow
      else Inr (vdif_write hdr (tv_sec ts) (tv_sec ts) (numerator framenum) frame))"

subsection \<open>Frame numbers of VDIF with a frame rate that is not an integer\<close>

text \<open>Per remainder, how many seconds ago a frame started on a whole second.\<close>

definition trunc :: "rat \<Rightarrow> int" where "trunc r = (if r < 0 then - \<lfloor>- r\<rfloor> else \<lfloor>r\<rfloor>)"

definition subsec_modulo :: "rat \<Rightarrow> rat \<Rightarrow> nat" where
  "subsec_modulo ss frametime =
     nat ((numerator ss * (denominator frametime div denominator ss)) mod 2 ^ 64 mod numerator frametime)"

fun lut_loop :: "rat \<Rightarrow> nat \<Rightarrow> int \<Rightarrow> highrestime \<Rightarrow> int list \<Rightarrow> ts_error + int list" where
  "lut_loop frametime 0 t0 tm lut = Inr lut"
| "lut_loop frametime (Suc n) t0 tm lut =
     (let lut' = lut[subsec_modulo (tv_subsecond tm) frametime := - tv_sec tm]
      in case hr_diff (hr_new (t0 + 1) 0) tm of Inl e \<Rightarrow> Inl e
         | Inr d \<Rightarrow>
           (case hr_add tm (frametime * of_int ((trunc (d / frametime) + 1) mod 2 ^ 32)) of
              Inl e \<Rightarrow> Inl e
            | Inr tm' \<Rightarrow> lut_loop frametime n (t0 + 1) tm' lut'))"

definition compute_offset_lut :: "rat \<Rightarrow> ts_error + int list" where
  "compute_offset_lut frametime =
     (let period = numerator frametime
      in if period \<le> 2 ^ 63 - 1
         then lut_loop frametime (nat period) 0 (hr_new 0 frametime) (replicate (nat period) 0)
         else Inl Out_Of_Range)"

definition offset_lut :: "headersearch \<Rightarrow> ts_error + int list" where
  "offset_lut hdr =
     (if valid_samplerate (hs_frametime hdr) \<and> valid_samplerate (hs_framerate hdr)
         \<and> denominator (hs_framerate hdr) \<noteq> 1
      then compute_offset_lut (hs_frametime hdr) else Inr [])"

definition encode_vdif2_timestamp :: "headersearch \<Rightarrow> highrestime \<Rightarrow> byte list \<Rightarrow> ts_error + byte list" where
  "encode_vdif2_timestamp hdr ts frame =
     (if hs_trackbitrate hdr = 0 \<or> hs_trackbitrate hdr = UNKNOWN_TRACKBITRATE then Inl Invalid_Track_Bitrate
      else if hs_ntrack hdr = 0 then Inl No_Tracks
      else case offset_lut hdr of Inl e \<Rightarrow> Inl e
      | Inr lut \<Rightarrow>
        let modulo = subsec_modulo (tv_subsecond ts) (hs_frametime hdr)
        in if \<not> modulo < length lut then Inl No_Offset
           else let zero_sec = tv_sec ts + lut ! modulo
           in case hr_diff ts (hr_new zero_sec 0) of Inl e \<Rightarrow> Inl e
              | Inr d \<Rightarrow>
                let framenum = d / hs_frametime hdr
                in if denominator framenum \<noteq> 1 then Inl Not_Representable
                   else if \<not> numerator framenum < 2 ^ 24 - 1 then Inl Frame_Number_Overflow
                   else Inr (vdif_write hdr (tv_sec ts) zero_sec (numerator framenum) frame))"

subsection \<open>Decoding\<close>

text \<open>The checks that fail either throw or, with \<open>chk_nothrow\<close>, give time zero.\<close>

definition ts_fail :: "strict \<Rightarrow> ts_error \<Rightarrow> ts_error + highrestime" where
  "ts_fail st e = (if chk_nothrow st then Inr hr_zero else Inl e)"

text \<open>The fields of the Mark4 time code in the eight bytes of a track.\<close>

definition mk4_SS0 :: "byte list \<Rightarrow> int" where "mk4_SS0 ts = hi_nibble (ts ! 6)"

definition mk4_subsecond :: "rat \<Rightarrow> byte list \<Rightarrow> rat" where
  "mk4_subsecond trackbitrate ts =
     of_int (100 * hi_nibble (ts ! 5) + 10 * lo_nibble (ts ! 5) + mk4_SS0 ts) / 1000
     + (if trackbitrate = 8000000 \<or> trackbitrate = 16000000
        then of_int (mk4_SS0 ts mod 5) * (25 / 100000) else 0)"

definition decode_mk4_timestamp ::
  "int \<Rightarrow> byte list \<Rightarrow> rat \<Rightarrow> strict \<Rightarrow> rat \<Rightarrow> ts_error + highrestime" where
  "decode_mk4_timestamp now ts trackbitrate st frametime =
     (if mk4_SS0 ts \<in> {4, 9} \<and> chk_strict st then ts_fail st Bad_Timecode
      else let ss = mk4_subsecond trackbitrate ts
      in case (if chk_strict st \<and> trackbitrate \<noteq> UNKNOWN_TRACKBITRATE
               then isModulo \<lparr>tv_sec = 0, tv_subsecond = ss\<rparr> frametime else Inr True) of
           Inl e \<Rightarrow> Inl e
         | Inr False \<Rightarrow> ts_fail st Not_Representable
         | Inr True \<Rightarrow>
           (let current_year = get_current_year now;
                y = hi_nibble (ts ! 0) + current_year - current_year smod 10;
                year = (if y > current_year then y - 10 else y)
            in Inr \<lparr>tv_sec = mktime \<lparr>tm_sec = 10 * hi_nibble (ts ! 4) + lo_nibble (ts ! 4),
                       tm_min = 10 * hi_nibble (ts ! 3) + lo_nibble (ts ! 3),
                       tm_hour = 10 * hi_nibble (ts ! 2) + lo_nibble (ts ! 2),
                       tm_mday = 100 * lo_nibble (ts ! 0) + 10 * hi_nibble (ts ! 1) + lo_nibble (ts ! 1),
                       tm_mon = 0, tm_year = year - 1900, tm_yday = 0\<rparr>,
                     tv_subsecond = ss\<rparr>))"

text \<open>The digits of a VLBA time code, whose order in memory differs between tape and Mark5B.\<close>

record vlba_ts =
  vlba_J :: int
  vlba_S :: int
  vlba_SS :: int

definition vlba_tape_ts :: "byte list \<Rightarrow> vlba_ts" where
  "vlba_tape_ts b =
     \<lparr>vlba_J = 100 * hi_nibble (b ! 0) + 10 * lo_nibble (b ! 0) + hi_nibble (b ! 1),
      vlba_S = 10000 * lo_nibble (b ! 1) + 1000 * hi_nibble (b ! 2) + 100 * lo_nibble (b ! 2)
               + 10 * hi_nibble (b ! 3) + lo_nibble (b ! 3),
      vlba_SS = 1000 * hi_nibble (b ! 4) + 100 * lo_nibble (b ! 4) + 10 * hi_nibble (b ! 5) + lo_nibble (b ! 5)\<rparr>"

definition mk5b_ts :: "byte list \<Rightarrow> vlba_ts" where
  "mk5b_ts b =
     \<lparr>vlba_J = 100 * hi_nibble (b ! 3) + 10 * lo_nibble (b ! 3) + hi_nibble (b ! 2),
      vlba_S = 10000 * lo_nibble (b ! 2) + 1000 * hi_nibble (b ! 1) + 100 * lo_nibble (b ! 1)
               + 10 * hi_nibble (b ! 0) + lo_nibble (b ! 0),
      vlba_SS = 1000 * hi_nibble (b ! 7) + 100 * lo_nibble (b ! 7) + 10 * hi_nibble (b ! 6) + lo_nibble (b ! 6)\<rparr>"

definition decode_vlba_timestamp :: "int \<Rightarrow> vlba_ts \<Rightarrow> highrestime" where
  "decode_vlba_timestamp now ts =
     (let current_mjd = trunc (mjdnow now);
          s = vlba_S ts;
          d = vlba_J ts + current_mjd - current_mjd smod 1000;
          mday = (if d > current_mjd then d - 1000 else d) - UNIX_MJD_EPOCH + 1
      in hr_of_timespec
           (mktime \<lparr>tm_sec = s smod 3600 smod 60, tm_min = s smod 3600 sdiv 60, tm_hour = s sdiv 3600,
                    tm_mday = mday, tm_mon = 0, tm_year = 70, tm_yday = 0\<rparr>)
           (nat (100000 * vlba_SS ts)))"

definition track_bits :: "bool \<Rightarrow> nat \<Rightarrow> nat \<Rightarrow> nat \<Rightarrow> byte list \<Rightarrow> ts_error + byte list" where
  "track_bits strip track ntrack off frame =
     (case extract_bitstream strip (replicate 8 0) track ntrack 64 (drop off frame) of
        Inl e \<Rightarrow> Inl (Track_Error e) | Inr b \<Rightarrow> Inr b)"

definition mk4_frame_timestamp :: "int \<Rightarrow> bool \<Rightarrow> byte list \<Rightarrow> nat \<Rightarrow> nat \<Rightarrow> rat \<Rightarrow> rat \<Rightarrow> strict \<Rightarrow>
    ts_error + highrestime" where
  "mk4_frame_timestamp now strip frame track ntrack trackbitrate frametime st =
     (case track_bits strip track ntrack (if strip then u32_mul (u32_mul 12 ntrack) 9 div 8 else u32_mul 12 ntrack) frame of
        Inl e \<Rightarrow> Inl e
      | Inr timecode \<Rightarrow> decode_mk4_timestamp now timecode trackbitrate st frametime)"

definition vlba_frame_timestamp :: "int \<Rightarrow> bool \<Rightarrow> byte list \<Rightarrow> nat \<Rightarrow> nat \<Rightarrow> ts_error + highrestime" where
  "vlba_frame_timestamp now strip frame track ntrack =
     (case track_bits strip track ntrack (if strip then u32_mul (u32_mul 4 ntrack) 9 div 8 else u32_mul 4 ntrack) frame of
        Inl e \<Rightarrow> Inl e
      | Inr timecode \<Rightarrow> Inr (decode_vlba_timestamp now (vlba_tape_ts timecode)))"

text \<open>Mark5B keeps the last second and frame number to notice that the 15 bit frame number wrapped.\<close>

record m5b_state =
  m5b_second :: int
  m5b_frameno :: rat
  m5b_wrap :: bool

definition m5b_state0 :: m5b_state where
  "m5b_state0 = \<lparr>m5b_second = 0, m5b_frameno = 0, m5b_wrap = False\<rparr>"

text \<open>The digits against the frame number, to 1/10000 s; digital back ends write no digits.\<close>

definition mk5b_inconsistent :: "strict \<Rightarrow> rat \<Rightarrow> rat \<Rightarrow> rat \<Rightarrow> bool" where
  "mk5b_inconsistent st prevnsec frameno subsecond \<longleftrightarrow>
     (let maybe_dbe = (prevnsec = 0 \<and> frameno \<noteq> 0);
          errcond = (u32_of (prevnsec * 10000) \<noteq> u32_of (subsecond * 10000))
      in errcond \<and> (\<not> maybe_dbe \<or> (maybe_dbe \<and> \<not> chk_allow_dbe st)))"

definition mk5b_frame_timestamp :: "int \<Rightarrow> byte list \<Rightarrow> rat \<Rightarrow> rat \<Rightarrow> rat \<Rightarrow> strict \<Rightarrow> m5b_state \<Rightarrow>
    m5b_state \<times> (ts_error + highrestime)" where
  "mk5b_frame_timestamp now frame trackbitrate framerate frametime st s =
     (let vlba = decode_vlba_timestamp now (mk5b_ts (drop 8 frame));
          hdr_frameno = of_int (uint (get_field 0 15 (get_le32 frame 4)));
          wrap = (tv_sec vlba = m5b_second s \<and> (m5b_wrap s \<or> hdr_frameno < m5b_frameno s));
          s1 = s\<lparr>m5b_wrap := wrap\<rparr>;
          frameno = (if wrap then hdr_frameno + 0x8000 else hdr_frameno);
          done = (\<lambda>v. (s1\<lparr>m5b_second := tv_sec vlba, m5b_frameno := hdr_frameno\<rparr>, Inr v))
      in if trackbitrate = UNKNOWN_TRACKBITRATE then done vlba
         else if frameno \<ge> framerate
         then (if chk_strict st \<or> chk_consistent st then (s1, ts_fail st Out_Of_Range) else done vlba)
         else let v = vlba\<lparr>tv_subsecond := frametime * frameno\<rparr>
              in if chk_consistent st \<and> mk5b_inconsistent st (tv_subsecond vlba) frameno (tv_subsecond v)
                 then (s1, ts_fail st Inconsistent) else done v)"

definition vdif_frame_timestamp :: "byte list \<Rightarrow> rat \<Rightarrow> rat \<Rightarrow> ts_error + highrestime" where
  "vdif_frame_timestamp frame trackbitrate frametime =
     (if \<not> trackbitrate > 0 then Inl Invalid_Track_Bitrate
      else let ref_epoch = uint (get_field 24 6 (get_le32 frame 4));
               sec = uint (get_field 0 30 (get_le32 frame 0));
               framenum = uint (get_field 0 24 (get_le32 frame 4))
           in Inr (hr_new (mktime \<lparr>tm_sec = sec, tm_min = 0, tm_hour = 0, tm_mday = 1,
                                   tm_mon = 6 * (ref_epoch mod 2), tm_year = 100 + ref_epoch div 2, tm_yday = 0\<rparr>)
                     (if trackbitrate = UNKNOWN_TRACKBITRATE then UNKNOWN_SUBSECOND else of_int framenum * frametime)))"

subsection \<open>The functions of a header\<close>

definition encode_timestamp :: "headersearch \<Rightarrow> highrestime \<Rightarrow> byte list \<Rightarrow> ts_error + byte list" where
  "encode_timestamp hdr ts frame =
     (case hs_encoder hdr of
        Mk4 \<Rightarrow> encode_mk4_timestamp hdr ts frame
      | Mk4_St \<Rightarrow> encode_mk4_timestamp_st hdr ts frame
      | Vlba \<Rightarrow> encode_vlba_timestamp hdr ts frame
      | Mk5b \<Rightarrow> encode_mk5b_timestamp hdr ts frame
      | Vdif \<Rightarrow> encode_vdif_timestamp hdr ts frame
      | Vdif2 \<Rightarrow> encode_vdif2_timestamp hdr ts frame
      | _ \<Rightarrow> Inl No_Function)"

definition decode_timestamp :: "int \<Rightarrow> headersearch \<Rightarrow> byte list \<Rightarrow> strict \<Rightarrow> nat \<Rightarrow> m5b_state \<Rightarrow>
    m5b_state \<times> (ts_error + highrestime)" where
  "decode_timestamp now hdr frame st track s =
     (case hs_decoder hdr of
        Mk4 \<Rightarrow> (s, mk4_frame_timestamp now False frame track (hs_ntrack hdr) (hs_trackbitrate hdr) (hs_frametime hdr) st)
      | Mk4_St \<Rightarrow> (s, mk4_frame_timestamp now True frame track (hs_ntrack hdr) (hs_trackbitrate hdr) (hs_frametime hdr) st)
      | Vlba \<Rightarrow> (s, vlba_frame_timestamp now False frame track (hs_ntrack hdr))
      | Vlba_St \<Rightarrow> (s, vlba_frame_timestamp now True frame track (hs_ntrack hdr))
      | Mk5b \<Rightarrow> mk5b_frame_timestamp now frame (hs_trackbitrate hdr) (hs_framerate hdr) (hs_frametime hdr) st s
      | Vdif \<Rightarrow> (s, vdif_frame_timestamp frame (hs_trackbitrate hdr) (hs_frametime hdr))
      | _ \<Rightarrow> (s, Inl No_Function))"

definition check_frame :: "headersearch \<Rightarrow> byte list \<Rightarrow> strict \<Rightarrow> nat \<Rightarrow> ts_error + bool" where
  "check_frame hdr frame st track =
     (let lift = (\<lambda>r. case r of Inl e \<Rightarrow> Inl (Track_Error e) | Inr b \<Rightarrow> Inr b)
      in case hs_checker hdr of
           Mk4 \<Rightarrow> lift (check_mark4 False hdr st frame track)
         | Mk4_St \<Rightarrow> lift (check_mark4 True hdr st frame track)
         | Vlba \<Rightarrow> lift (check_vlba False hdr st frame track)
         | Vlba_St \<Rightarrow> lift (check_vlba True hdr st frame track)
         | Mk5b \<Rightarrow> lift (check_mark5b hdr st frame)
         | Vdif \<Rightarrow> Inr True
         | _ \<Rightarrow> Inl No_Function)"

end
