(* ===== verification/FrameTimes.thy ===== *)
theory FrameTimes
  imports Timestamps
begin

unbundle bit_operations_syntax

text \<open>
  Correctness of the time stamps: what the encoders of theory \<open>Timestamps\<close> write is accepted by the
  checks and decoded to the same time, on every track; where this fails, concrete counterexamples.
\<close>

named_theorems digit_simps "digits, nibbles and their places"

subsection \<open>Digits and nibbles\<close>

lemma digit_pos: "0 \<le> x \<Longrightarrow> 0 < d \<Longrightarrow> digit d x = x div d mod 10"
  by (simp add: digit_def sdiv_pos smod_pos pos_imp_zdiv_nonneg_iff)

lemma nibble_word: "0 \<le> x \<Longrightarrow> x < 16 \<Longrightarrow> bit (word_of_int x :: byte) n \<Longrightarrow> n < 4"
proof -
  assume x: "0 \<le> x" "x < 16" and b: "bit (word_of_int x :: byte) n"
  have "take_bit 4 x = x" using x by (simp add: take_bit_int_eq_self)
  moreover have "bit x n" using b by (simp add: bit_simps)
  ultimately show "n < 4" by (metis bit_take_bit_iff)
qed

lemma uint_nibble: "0 \<le> x \<Longrightarrow> x < 16 \<Longrightarrow> uint (word_of_int x :: byte) = x"
  by (simp add: uint_word_of_int)

lemma nibbles_word:
  assumes "0 \<le> hi" "hi < 16" "0 \<le> lo" "lo < 16"
  shows "drop_bit 4 (nibbles hi lo) = word_of_int hi" "take_bit 4 (nibbles hi lo) = word_of_int lo"
proof -
  note nib = nibble_word [OF assms(1,2)] nibble_word [OF assms(3,4)]
  show "drop_bit 4 (nibbles hi lo) = word_of_int hi"
    by (rule bit_word_eqI) (use nib in \<open>force simp: nibbles_def bit_drop_bit_eq bit_or_iff bit_push_bit_iff\<close>)
  show "take_bit 4 (nibbles hi lo) = word_of_int lo"
    by (rule bit_word_eqI) (use nib in \<open>auto simp: nibbles_def bit_simps\<close>)
qed

lemma nibbles_read [digit_simps]:
  assumes "0 \<le> hi" "hi < 16" "0 \<le> lo" "lo < 16"
  shows "hi_nibble (nibbles hi lo) = hi" "lo_nibble (nibbles hi lo) = lo"
  using assms by (simp_all add: hi_nibble_def lo_nibble_def nibbles_word uint_nibble)

lemma digit_range [digit_simps]: "0 \<le> x \<Longrightarrow> 0 < d \<Longrightarrow> 0 \<le> digit d x" "0 \<le> x \<Longrightarrow> 0 < d \<Longrightarrow> digit d x < 16"
  "0 \<le> x \<Longrightarrow> 0 < d \<Longrightarrow> digit d x < 10"
  using pos_mod_bound [of 10 "x div d"] by (auto simp: digit_pos intro: less_trans)

text \<open>A number is the sum of its digits.\<close>

lemma digits_step:
  assumes "0 \<le> x" "0 < d"
  shows "x mod (d * 10) = d * digit d x + x mod d"
  using assms zmod_zmult2_eq [of 10 x d] by (simp add: digit_pos)

lemma digits2: "0 \<le> x \<Longrightarrow> x < 100 \<Longrightarrow> 10 * digit 10 x + digit 1 x = x"
  using digits_step [of x 1] digits_step [of x 10] by simp

lemma digits3: "0 \<le> x \<Longrightarrow> 100 * digit 100 x + 10 * digit 10 x + digit 1 x = x mod 1000"
  using digits_step [of x 1] digits_step [of x 10] digits_step [of x 100] by simp

lemma digits4: "0 \<le> x \<Longrightarrow> x < 10000 \<Longrightarrow>
    1000 * digit 1000 x + 100 * digit 100 x + 10 * digit 10 x + digit 1 x = x"
  using digits_step [of x 1] digits_step [of x 10] digits_step [of x 100] digits_step [of x 1000] by simp

lemma digits5: "0 \<le> x \<Longrightarrow> x < 100000 \<Longrightarrow>
    10000 * digit 10000 x + 1000 * digit 1000 x + 100 * digit 100 x + 10 * digit 10 x + digit 1 x = x"
  using digits_step [of x 1] digits_step [of x 10] digits_step [of x 100] digits_step [of x 1000]
    digits_step [of x 10000] by simp

subsection \<open>Mark4 headers\<close>

lemma power_of_two_tracks: "power_of_two n \<Longrightarrow> 8 \<le> n \<Longrightarrow> n \<le> 64 \<Longrightarrow> n \<in> {8, 16, 32, 64}"
proof -
  assume p: "power_of_two n" and n: "8 \<le> n" "n \<le> 64"
  have "\<forall>n\<in>set [8..<65]. power_of_two n \<longrightarrow> n \<in> {8, 16, 32, 64}" by code_simp
  moreover have "n \<in> set [8..<65]" using n by (simp only: set_upt atLeastLessThan_iff) simp
  ultimately show ?thesis using p by blast
qed

lemma mark4_fields:
  assumes "headersearch_new fmt_mark4 ntrack rate 0 = Inr h"
  shows "ntrack \<in> {8, 16, 32, 64}" "hs_ntrack h = ntrack" "hs_trackbitrate h = rate" "hs_frameformat h = fmt_mark4"
    "hs_syncwordoffset h = 8 * ntrack" "hs_syncwordsize h = 4 * ntrack"
    "hs_encoder h = Mk4" "hs_decoder h = Mk4" "hs_checker h = Mk4"
    "valid_samplerate rate \<Longrightarrow> hs_frametime h = 20000 / rate" "rate \<noteq> UNKNOWN_TRACKBITRATE \<Longrightarrow> denominator rate = 1"
proof -
  show nt: "ntrack \<in> {8, 16, 32, 64}"
    using assms power_of_two_tracks [of ntrack]
    by (auto simp: headersearch_new_def Let_def MK4VLBA_def split: if_splits)
  then have "ntrack \<le> 64" by auto
  then show "hs_ntrack h = ntrack" "hs_trackbitrate h = rate" "hs_frameformat h = fmt_mark4"
    "hs_syncwordoffset h = 8 * ntrack" "hs_syncwordsize h = 4 * ntrack"
    "hs_encoder h = Mk4" "hs_decoder h = Mk4" "hs_checker h = Mk4"
    "rate \<noteq> UNKNOWN_TRACKBITRATE \<Longrightarrow> denominator rate = 1"
    "valid_samplerate rate \<Longrightarrow> hs_frametime h = 20000 / rate"
    using assms nt
    by (auto simp: headersearch_new_def Let_def layout_defs u32_simps DECODERFN_def ENCODERFN_def CHECKFN_def
        state_frametime_def u32_mul_def split: if_splits)
qed

text \<open>The header with its checksum: the last two bytes change, the time code is kept.\<close>

lemma mk4_header_snoc:
  obtains pre where "mk4_header ts = pre @ [push_bit 4 (word_of_int (digit 1 (u32_of (tv_subsecond ts * 1000)))), 0]"
    "length pre = 18"
  by (simp add: mk4_header_def Let_def)

lemma u32_of_nonneg [simp]: "0 \<le> u32_of r" by (simp add: u32_of_def)

lemma crc_nibble:
  fixes c :: "32 word"
  assumes "\<And>n. bit c n \<Longrightarrow> n < 12"
  shows "(ucast (drop_bit 8 c AND 0x0f) :: byte) = ucast (drop_bit 8 c)"
proof -
  have f: "(0x0f :: 32 word) = mask 4" by (simp add: mask_eq_exp_minus_1)
  show ?thesis unfolding f by (rule bit_word_eqI) (auto simp: bit_simps dest: assms)
qed

lemma low_nibble:
  fixes e :: byte
  assumes "\<And>n. bit e n \<Longrightarrow> n < 4"
  shows "push_bit 4 d OR e = push_bit 4 d XOR e" "uint e < 16"
proof -
  show "push_bit 4 d OR e = push_bit 4 d XOR e"
    by (rule bit_word_eqI) (auto simp: bit_or_iff bit_xor_iff bit_push_bit_iff dest: assms)
  have "take_bit 4 e = e" by (rule bit_word_eqI) (auto simp: bit_take_bit_iff dest: assms)
  then have "take_bit 4 (uint e) = uint e" by (metis unsigned_take_bit_eq)
  then show "uint e < 16" using take_bit_int_less_exp [of 4 "uint e"] by simp
qed

lemma byte_or_xor:
  assumes "take_bit 12 c = (c :: 32 word)"
  defines "e \<equiv> ucast (drop_bit 8 c) :: byte"
  shows "push_bit 4 (word_of_int d) OR ucast (drop_bit 8 c AND 0x0f) = push_bit 4 (word_of_int d) XOR e"
    and "\<exists>lo. 0 \<le> lo \<and> lo < 16 \<and> push_bit 4 (word_of_int d) XOR e = nibbles d lo"
proof -
  have c: "bit c n \<Longrightarrow> n < 12" for n using assms(1) by (metis bit_take_bit_iff)
  have eb: "bit e n \<Longrightarrow> n < 4" for n using c [of "8 + n"] by (auto simp: e_def bit_simps)
  have n: "ucast (drop_bit 8 c AND 0x0f) = e" unfolding e_def by (rule crc_nibble) (rule c)
  have x: "push_bit 4 (word_of_int d) OR e = push_bit 4 (word_of_int d) XOR e" and u: "uint e < 16"
    by (rule low_nibble, rule eb, assumption)+
  show "push_bit 4 (word_of_int d) OR ucast (drop_bit 8 c AND 0x0f) = push_bit 4 (word_of_int d) XOR e"
    unfolding n by (rule x)
  have "push_bit 4 (word_of_int d) XOR e = nibbles d (uint e)"
    using x by (simp add: nibbles_def)
  then show "\<exists>lo. 0 \<le> lo \<and> lo < 16 \<and> push_bit 4 (word_of_int d) XOR e = nibbles d lo"
    using u by (intro exI [of _ "uint e"]) simp
qed

lemma mk4_add_crc_facts:
  fixes ts :: highrestime
  defines "d \<equiv> digit 1 (u32_of (tv_subsecond ts * 1000))"
  obtains lo b where "mk4_add_crc (mk4_header ts) = take 18 (mk4_header ts) @ [nibbles d lo, b]"
    "0 \<le> lo" "lo < 16" "crc12_mark4 (mk4_add_crc (mk4_header ts)) = 0"
proof -
  obtain pre where h: "mk4_header ts = pre @ [push_bit 4 (word_of_int d), 0]" and l: "length pre = 18"
    unfolding d_def by (rule mk4_header_snoc)
  let ?c = "crc12_mark4 (mk4_header ts)"
  have d: "0 \<le> d" "d < 16" by (simp_all add: d_def digit_range)
  have c: "take_bit 12 ?c = ?c" by (simp add: crc12_mark4_def)
  obtain lo where lo: "0 \<le> lo" "lo < 16" "push_bit 4 (word_of_int d) XOR ucast (drop_bit 8 ?c) = nibbles d lo"
    using byte_or_xor(2) [OF c] by blast
  have ff: "(ucast (?c AND 0xff) :: byte) = 0 XOR ucast ?c"
  proof -
    have f: "(0xff :: 32 word) = mask 8" by (simp add: mask_eq_exp_minus_1)
    show ?thesis unfolding f by (rule bit_word_eqI) (auto simp: bit_simps)
  qed
  have e: "mk4_add_crc (mk4_header ts) = pre @ [push_bit 4 (word_of_int d) XOR ucast (drop_bit 8 ?c), 0 XOR ucast ?c]"
    unfolding mk4_add_crc_def Let_def ff [symmetric] byte_or_xor(1) [OF c, symmetric]
    by (simp add: h l nth_append list_update_append)
  have "crc12_mark4 (mk4_add_crc (mk4_header ts)) = 0"
    unfolding e unfolding crc12_mark4_def h by (rule crc_of_residue) simp_all
  moreover have "mk4_add_crc (mk4_header ts) = take 18 (mk4_header ts) @ [nibbles d lo, 0 XOR ucast ?c]"
    unfolding e lo(3) [symmetric] by (simp add: h l)
  ultimately show thesis using lo by (intro that)
qed

lemma gmtime_yday:
  "mktime \<lparr>tm_sec = tm_sec (gmtime t), tm_min = tm_min (gmtime t), tm_hour = tm_hour (gmtime t),
     tm_mday = tm_yday (gmtime t) + 1, tm_mon = 0, tm_year = tm_year (gmtime t), tm_yday = 0\<rparr> = t"
proof (rule gmtimeE [of t])
  fix y k
  assume y: "tm_year (gmtime t) = y - 1900" and d: "t div 86400 = days_to_year y + tm_yday (gmtime t)"
    and s: "t mod 86400 = 3600 * tm_hour (gmtime t) + 60 * tm_min (gmtime t) + tm_sec (gmtime t)"
  have "86400 * (t div 86400) + t mod 86400 = t" by simp
  then show ?thesis unfolding d s by (simp add: mktime_def y days_to_month_def)
qed

lemma gmtime_yday_range: "0 \<le> tm_yday (gmtime t)" "tm_yday (gmtime t) < 366"
  by (rule gmtimeE [of t]; simp split: if_splits)+

text \<open>The year is the one of the last ten with the digit.\<close>

lemma year_from_digit:
  assumes "cy - 10 < Y" "Y \<le> cy" "1900 \<le> Y"
  defines "y \<equiv> digit 1 (Y - 1900) + cy - cy smod 10"
  shows "(if y > cy then y - 10 else y) = Y"
proof -
  have "digit 1 (Y - 1900) = (Y - 1900) mod 10" using assms(3) by (simp add: digit_pos)
  also have "\<dots> = Y mod 10" using mod_mult_self2 [of Y 10 "- 190"] by simp
  finally have d: "digit 1 (Y - 1900) = Y mod 10" .
  have c: "cy smod 10 = cy mod 10" using assms(1-3) by (simp add: smod_pos)
  have "(if r' + cy - r > cy then r' + cy - r - 10 else r' + cy - r) = Y"
    if "cy = 10 * q + r" "Y = 10 * q' + r'" "0 \<le> r" "r < 10" "0 \<le> r'" "r' < 10" for q r q' r'
  proof (cases "r < r'")
    case True
    then have "q' = q - 1" using that assms(1,2) by linarith
    with True that show ?thesis by simp
  next
    case False
    then have "q' = q" using that assms(1,2) by linarith
    with False that show ?thesis by simp
  qed
  from this [of "cy div 10" "cy mod 10" "Y div 10" "Y mod 10"] show ?thesis unfolding y_def d c by simp
qed

lemma rat_div4: "(of_int j :: rat) = 4 * of_int (j div 4) + of_int (j mod 4)"
proof -
  have "j = 4 * (j div 4) + j mod 4" by simp
  then have "(of_int j :: rat) = of_int (4 * (j div 4) + j mod 4)" by (rule arg_cong)
  then show ?thesis by (simp only: of_int_add of_int_mult of_int_numeral)
qed

text \<open>Milliseconds of multiples of a frame time.\<close>

definition mk4_rates :: "rat set" where "mk4_rates = {1000000, 2000000, 4000000, 8000000, 16000000}"

lemma ms_800:
  assumes "0 \<le> (j :: int)"
  shows "\<lfloor>of_int j / 800 * 1000 :: rat\<rfloor> = 5 * (j div 4) + j mod 4"
proof -
  have "0 \<le> (of_int (j mod 4) :: rat)" "(of_int (j mod 4) :: rat) \<le> 3" by simp_all
  then show ?thesis unfolding floor_eq_iff rat_div4 [of j] by simp
qed

lemma mk4_ms:
  fixes k :: nat and rate :: rat
  assumes "rate \<in> mk4_rates" "ss = of_nat k * (20000 / rate)" "ss < 1"
  defines "ms \<equiv> u32_of (ss * 1000)"
  shows "0 \<le> ms" "ms < 1000" "ms mod 5 \<noteq> 4"
    "of_int ms / 1000 + (if rate = 8000000 \<or> rate = 16000000 then of_int (ms mod 5) * (25 / 100000) else 0) = ss"
proof -
  have ss: "0 \<le> ss" using assms(1,2) by (auto simp: mk4_rates_def)
  have fl: "ms = \<lfloor>ss * 1000\<rfloor>"
  proof -
    have "0 \<le> \<lfloor>ss * 1000\<rfloor>" "\<lfloor>ss * 1000\<rfloor> < 2 ^ 32" using ss assms(3) by (simp_all add: floor_less_iff)
    then show ?thesis unfolding ms_def u32_of_def by simp
  qed
  show "0 \<le> ms" "ms < 1000" using ss assms(3) unfolding fl by (simp_all add: floor_less_iff)
  consider (fast) j where "0 \<le> j" "ss = of_int j / 800" "rate = 8000000 \<or> rate = 16000000"
    | (slow) j where "0 \<le> j" "ss = of_int j / 200" "\<not> (rate = 8000000 \<or> rate = 16000000)"
  proof (cases "rate = 8000000 \<or> rate = 16000000")
    case True
    then show thesis using assms(2)
      by (intro fast [of "int k * (if rate = 8000000 then 2 else 1)"]) auto
  next
    case False
    then have "rate = 1000000 \<or> rate = 2000000 \<or> rate = 4000000" using assms(1) by (auto simp: mk4_rates_def)
    then show thesis using assms(2) False
      by (intro slow [of "int k * (if rate = 1000000 then 4 else if rate = 2000000 then 2 else 1)"]) auto
  qed
  then have "ms mod 5 \<noteq> 4 \<and> of_int ms / 1000
      + (if rate = 8000000 \<or> rate = 16000000 then of_int (ms mod 5) * (25 / 100000) else 0) = ss"
  proof cases
    case fast
    have m: "(5 * (j div 4) + j mod 4) mod 5 = j mod 4" by (simp add: mod_pos_pos_trivial)
    have e: "ms = 5 * (j div 4) + j mod 4" unfolding fl fast(2) by (rule ms_800 [OF fast(1)])
    have "ms mod 5 \<noteq> 4" unfolding e m using pos_mod_bound [of 4 j] by simp
    moreover have "of_int ms / 1000 + of_int (ms mod 5) * (25 / 100000) = (of_int j / 800 :: rat)"
      unfolding e m rat_div4 [of j] by (simp add: field_simps)
    ultimately show ?thesis using fast by simp
  next
    case slow
    then have "ms = 5 * j" unfolding fl floor_eq_iff by simp
    then show ?thesis using slow by simp
  qed
  then show "ms mod 5 \<noteq> 4"
    "of_int ms / 1000 + (if rate = 8000000 \<or> rate = 16000000 then of_int (ms mod 5) * (25 / 100000) else 0) = ss"
    by simp_all
qed

definition mk4_digits :: "highrestime \<Rightarrow> byte list" where
  "mk4_digits ts = take 6 (drop 12 (mk4_header ts))"

lemma mk4_timecode:
  obtains lo b where
    "chunk 12 8 (mk4_add_crc (mk4_header ts)) = mk4_digits ts @ [nibbles (digit 1 (u32_of (tv_subsecond ts * 1000))) lo, b]"
    "0 \<le> lo" "lo < 16"
proof -
  from mk4_add_crc_facts [of ts] obtain lo b where
    "mk4_add_crc (mk4_header ts) = take 18 (mk4_header ts) @ [nibbles (digit 1 (u32_of (tv_subsecond ts * 1000))) lo, b]"
    "0 \<le> lo" "lo < 16" by metis
  then show thesis
    by (intro that [of lo b]) (simp_all add: chunk_def mk4_digits_def mk4_header_def Let_def numeral_eq_Suc)
qed

lemma mk4_digits_list:
  defines "g \<equiv> \<lambda>ts. gmtime (tv_sec ts)" and "ms \<equiv> \<lambda>ts. u32_of (tv_subsecond ts * 1000)"
  shows "mk4_digits ts = [nibbles (digit 1 (tm_year (g ts))) (digit 100 (tm_yday (g ts) + 1)),
      nibbles (digit 10 (tm_yday (g ts) + 1)) (digit 1 (tm_yday (g ts) + 1)),
      nibbles (digit 10 (tm_hour (g ts))) (digit 1 (tm_hour (g ts))),
      nibbles (digit 10 (tm_min (g ts))) (digit 1 (tm_min (g ts))),
      nibbles (digit 10 (tm_sec (g ts))) (digit 1 (tm_sec (g ts))),
      nibbles (digit 100 (ms ts)) (digit 10 (ms ts))]"
  by (simp add: mk4_digits_def mk4_header_def Let_def g_def ms_def numeral_eq_Suc)

lemma mk4_decode_digits:
  fixes ts :: highrestime and now :: int
  defines "g \<equiv> gmtime (tv_sec ts)" and "cy \<equiv> get_current_year now"
  assumes tc: "tc = mk4_digits ts @ [nibbles (digit 1 (u32_of (tv_subsecond ts * 1000))) lo, b]" "0 \<le> lo" "lo < 16"
    and rate: "rate \<in> mk4_rates" "tv_subsecond ts = of_nat k * (20000 / rate)" "tv_subsecond ts < 1"
    and year: "cy - 10 < tm_year g + 1900" "tm_year g + 1900 \<le> cy" "0 \<le> tm_year g"
  shows "decode_mk4_timestamp now tc rate st (20000 / rate) = Inr ts"
proof -
  let ?ms = "u32_of (tv_subsecond ts * 1000)"
  note ms = mk4_ms [OF rate]
  note hms = gmtime_hms [of "tv_sec ts", folded g_def] and yd = gmtime_yday_range [of "tv_sec ts", folded g_def]
  note yday = gmtime_yday [of "tv_sec ts", folded g_def]
  note dl = mk4_digits_list [of ts, folded g_def]
  have ss0: "mk4_SS0 tc = digit 1 ?ms"
    unfolding mk4_SS0_def tc(1) dl using tc(2,3) by (simp add: digit_simps)
  have m5: "digit 1 ?ms mod 5 = ?ms mod 5"
    using ms(1) mod_mod_cancel [of 5 10 ?ms] by (simp add: digit_pos)
  have ss: "mk4_subsecond rate tc = tv_subsecond ts"
  proof -
    have "100 * hi_nibble (tc ! 5) + 10 * lo_nibble (tc ! 5) + digit 1 ?ms = ?ms"
      unfolding tc(1) dl using digits3 [OF ms(1)] ms(1,2) by (simp add: digit_simps)
    then show ?thesis unfolding mk4_subsecond_def ss0 m5 using ms(4) by simp
  qed
  have fr: "20000 / rate \<noteq> 0" "(0 + tv_subsecond ts) / (20000 / rate) = of_nat k"
    using rate(1,2) by (auto simp: mk4_rates_def)
  have "denominator (of_nat k) = 1" by (simp add: denominator_def)
  then have modulo: "isModulo \<lparr>tv_sec = 0, tv_subsecond = tv_subsecond ts\<rparr> (20000 / rate) = Inr True"
    unfolding isModulo_def using fr by simp
  have "digit 1 ?ms \<notin> {4, 9}" using ms(3) m5 by auto
  moreover have "10 * hi_nibble (tc ! 4) + lo_nibble (tc ! 4) = tm_sec g"
    "10 * hi_nibble (tc ! 3) + lo_nibble (tc ! 3) = tm_min g"
    "10 * hi_nibble (tc ! 2) + lo_nibble (tc ! 2) = tm_hour g"
    unfolding tc(1) dl using hms digits2 by (simp_all add: digit_simps)
  moreover have "100 * lo_nibble (tc ! 0) + 10 * hi_nibble (tc ! 1) + lo_nibble (tc ! 1) = tm_yday g + 1"
    unfolding tc(1) dl using yd year(3) digits3 [of "tm_yday g + 1"] by (simp add: digit_simps)
  moreover have "hi_nibble (tc ! 0) = digit 1 (tm_year g + 1900 - 1900)"
    unfolding tc(1) dl using yd year(3) by (simp add: digit_simps)
  moreover have "1900 \<le> tm_year g + 1900" using year(3) by simp
  note yy = year_from_digit [OF year(1,2) this]
  ultimately show ?thesis
    unfolding decode_mk4_timestamp_def ss0 ss modulo Let_def cy_def [symmetric]
    using yday yy by (simp split: if_splits)
qed

lemma match_bytes_True:
  "(\<And>i. i < length bs \<Longrightarrow> pos + i < length frame \<and> frame ! (pos + i) = bs ! i) \<Longrightarrow>
   match_bytes frame pos bs = Inr True"
proof (induction bs arbitrary: pos)
  case (Cons b bs)
  from Cons.prems [of 0] have h: "pos < length frame" "frame ! pos = b" by simp_all
  have "match_bytes frame (pos + 1) bs = Inr True"
    by (rule Cons.IH) (use Cons.prems [of "Suc i" for i] in force)
  then show ?case using h by (simp add: byte_at_def)
qed simp

text \<open>The loop over the sample rows stops at a row of zeroes.\<close>

lemma skip_ones_step:
  "n < 8 \<Longrightarrow> pos < length frame \<Longrightarrow> skip_ones frame step n pos c =
     (if frame ! pos = 0xff then skip_ones frame step (n + 1) (pos + step) (frame ! pos) else Inr (n, frame ! pos))"
  by (subst skip_ones.simps) (simp add: byte_at_def)

lemma skip_ones_stops:
  assumes rows: "\<And>i. i < 8 \<Longrightarrow> pos + i * step < length frame \<and> frame ! (pos + i * step) \<in> {0, 0xff}"
    and j: "j < 8" "frame ! (pos + j * step) = 0"
  shows "n \<le> j \<Longrightarrow> \<exists>m<8. skip_ones frame step n (pos + n * step) c = Inr (m, 0)"
proof (induction "j - n" arbitrary: n c rule: less_induct)
  case less
  have n: "n < 8" using less.prems j(1) by simp
  have next_row: "pos + n * step + step = pos + (n + 1) * step" by simp
  note u = skip_ones_step [OF n, of "pos + n * step" frame step c, unfolded next_row]
  show ?case
  proof (cases "frame ! (pos + n * step) = 0xff")
    case True
    with j(2) less.prems have "n < j" by (cases "n = j") auto
    then have "\<exists>m<8. skip_ones frame step (n + 1) (pos + (n + 1) * step) 0xff = Inr (m, 0)"
      by (intro less.hyps) simp_all
    then show ?thesis using u rows [OF n] True by simp
  next
    case False
    then show ?thesis using u rows [OF n] n by auto
  qed
qed

lemma nibbles_zero_bit: "0 \<le> x \<Longrightarrow> x < 10 \<Longrightarrow> 0 \<le> y \<Longrightarrow> y < 16 \<Longrightarrow> \<exists>j<8. \<not> bit (nibbles x y) (7 - j)"
proof -
  assume xy: "0 \<le> x" "x < 10" "0 \<le> y" "y < 16"
  have b: "bit (nibbles x y) (4 + i) \<longleftrightarrow> bit (word_of_int x :: byte) i" for i
    using nibbles_word(1) [of x y, symmetric] xy by (simp add: bit_drop_bit_eq)
  show ?thesis
  proof (cases "x < 8")
    case True
    then have "take_bit 3 x = x" using xy by (simp add: take_bit_int_eq_self)
    then have "\<not> bit x 3" using bit_take_bit_iff [of 3 x 3] by simp
    then have "\<not> bit (word_of_int x :: byte) 3" by (simp add: bit_simps)
    then show ?thesis using b [of 3] by (intro exI [of _ 0]) simp
  next
    case False
    then have "x = 8 \<or> x = 9" using xy by auto
    then have "\<not> bit (word_of_int x :: byte) 2" by auto
    then show ?thesis using b [of 2] by (intro exI [of _ 1]) simp
  qed
qed

lemma bit_ff: "bit (0xff :: byte) n \<longleftrightarrow> n < 8"
proof -
  have "(0xff :: byte) = mask 8" by (simp add: mask_eq_exp_minus_1)
  then show ?thesis by (simp only: bit_mask_iff possible_bit_word) simp
qed

text \<open>A frame whose rows hold a header with the sync word from byte \<open>p\<close> on and a decimal digit behind it
  passes every check but that of the checksum.\<close>

lemma check_header_rows:
  fixes ntrack :: nat
  defines "step \<equiv> ntrack div 8"
  assumes nt: "ntrack \<in> {8, 16, 32, 64}" "track < ntrack" "8 * length hdr * step \<le> length frame"
    and rows: "\<And>k s. k < 8 * length hdr \<Longrightarrow> s < step \<Longrightarrow> frame ! (k * step + s) = (if header_bits hdr ! k then 0xff else 0)"
    and h: "hs_ntrack h = ntrack" "hs_syncwordoffset h = 8 * p * step" "hs_syncwordsize h = 32 * step"
      "hs_frameformat h = fmt_mark4 \<or> hs_frameformat h = fmt_vlba"
    and hdr: "p + 4 < length hdr" "\<And>i. p \<le> i \<Longrightarrow> i < p + 4 \<Longrightarrow> hdr ! i = 0xff" "hdr ! (p + 4) = nibbles x y"
      "0 \<le> x" "x < 10" "0 \<le> y" "y < 16"
  shows "check_header False (length hdr) ok h st frame track = Inr (\<not> chk_crc st \<or> ok hdr)"
proof -
  have step: "0 < step" "step \<le> 8" using nt(1) by (auto simp: step_def)
  have row: "k * step + s < length frame" "frame ! (k * step + s) = (if bit (hdr ! (k div 8)) (7 - k mod 8) then 0xff else 0)"
    if "k < 8 * length hdr" "s < step" for k s
  proof -
    have "Suc k * step \<le> 8 * length hdr * step" using that(1) by (intro mult_le_mono1) simp
    then show "k * step + s < length frame" using that(2) nt(3) unfolding mult_Suc by linarith
    show "frame ! (k * step + s) = (if bit (hdr ! (k div 8)) (7 - k mod 8) then 0xff else 0)"
      using rows that by (simp add: nth_header_bits)
  qed
  have sw: "SYNCWORD_ST (hs_frameformat h) = replicate 256 0xff"
    using h(4) by (auto simp: SYNCWORD_ST_def IS_ST_def MK4VLBA_def mark4_syncword_def)
  have sync: "check_syncword h frame = Inr True"
    unfolding check_syncword_def sw h
  proof (rule match_bytes_True)
    fix i assume "i < length (take (32 * step) (replicate 256 (0xff :: byte)))"
    then have i: "i < 32 * step" "i < 256" by simp_all
    define k where "k = 8 * p + i div step"
    have d: "i div step < 32" using i(1) step by (simp add: less_mult_imp_div_less)
    then have k: "k < 8 * length hdr" "p \<le> k div 8" "k div 8 < p + 4" using hdr(1) by (simp_all add: k_def)
    have pos: "8 * p * step + i = k * step + i mod step" by (simp add: k_def algebra_simps)
    show "8 * p * step + i < length frame \<and> frame ! (8 * p * step + i) = take (32 * step) (replicate 256 0xff) ! i"
      unfolding pos using row [OF k(1), of "i mod step"] step hdr(2) [OF k(2,3)] i bit_ff [of "7 - k mod 8"] by simp
  qed
  have nib: "8 * p + 32 + i < 8 * length hdr" "(8 * p + 32 + i) div 8 = p + 4" "(8 * p + 32 + i) mod 8 = i"
    if "i < 8" for i :: nat
  proof -
    have "8 * p + 32 + i = 8 * (p + 4) + i" by simp
    then show "(8 * p + 32 + i) div 8 = p + 4" "(8 * p + 32 + i) mod 8 = i"
      using byte_pos [OF that, of "p + 4"] by simp_all
  qed (use that hdr(1) in simp)
  let ?p = "hs_syncwordoffset h + hs_syncwordsize h"
  have pos: "?p + i * step = (8 * p + 32 + i) * step + 0" for i by (simp add: h algebra_simps)
  have samples: "?p + i * step < length frame \<and> frame ! (?p + i * step) = (if bit (nibbles x y) (7 - i) then 0xff else 0)"
    if "i < 8" for i
    unfolding pos using row [OF nib(1) [OF that] step(1)] unfolding nib(2,3) [OF that] hdr(3) by simp
  obtain j where j: "j < 8" "\<not> bit (nibbles x y) (7 - j)" using nibbles_zero_bit [OF hdr(4-7)] by blast
  have "\<exists>m<8. skip_ones frame step 0 (?p + 0 * step) 0 = Inr (m, 0)"
    by (rule skip_ones_stops [OF _ j(1)]) (use samples j in auto)
  then obtain m where "m < 8" "skip_ones frame step 0 ?p 0 = Inr (m, 0)" by auto
  moreover have "extract_bitstream False (replicate (length hdr) 0) track ntrack (length hdr * 8) frame = Inr hdr"
    by (rule extract_rows) (use nt rows in \<open>simp_all add: step_def\<close>)
  ultimately show ?thesis
    using sync unfolding check_header_def h(1) step_def [symmetric] by simp
qed

text \<open>A frame whose rows hold a Mark4 header passes every check.\<close>

lemma check_mark4_spread:
  assumes new: "headersearch_new fmt_mark4 ntrack rate 0 = Inr h"
    and sp: "spread_header ntrack 0 hdr frame = Inr frame'" "20 * ntrack \<le> length frame" "track < ntrack"
    and hdr: "length hdr = 20" "\<And>i. 8 \<le> i \<Longrightarrow> i < 12 \<Longrightarrow> hdr ! i = 0xff" "hdr ! 12 = nibbles x y"
      "0 \<le> x" "x < 10" "0 \<le> y" "y < 16" "crc12_mark4 hdr = 0"
  shows "check_mark4 False h st frame' track = Inr True"
proof -
  note f = mark4_fields [OF new]
  have n8: "ntrack = 8 * (ntrack div 8)" using f(1) by auto
  have fit: "(0 + 8 * length hdr) * (ntrack div 8) \<le> length frame" using sp(2) n8 hdr(1) by simp
  note sd = spread_headerD [OF sp(1) fit]
  have "check_header False (length hdr) (\<lambda>t. crc12_mark4 t = 0) h st frame' track
      = Inr (\<not> chk_crc st \<or> crc12_mark4 hdr = 0)"
  proof (rule check_header_rows [where p = 8, OF f(1) sp(3) _ _ f(2)])
    show "hs_syncwordoffset h = 8 * 8 * (ntrack div 8)" "hs_syncwordsize h = 32 * (ntrack div 8)"
      using f(5,6) n8 by simp_all
  qed (use sd(2) sd(3) fit f(4) hdr in simp_all)
  then show ?thesis using hdr(1,8) by (simp add: check_mark4_def)
qed

text \<open>The header that is written: its length, sync word, first byte of the time code, and checksum.\<close>

lemma mk4_hdr_facts:
  fixes ts :: highrestime
  defines "hdr \<equiv> mk4_add_crc (mk4_header ts)" and "g \<equiv> gmtime (tv_sec ts)"
  shows "length hdr = 20" "crc12_mark4 hdr = 0" "8 \<le> i \<Longrightarrow> i < 12 \<Longrightarrow> hdr ! i = 0xff"
    "hdr ! 12 = nibbles (digit 1 (tm_year g)) (digit 100 (tm_yday g + 1))"
proof -
  obtain lo b where hdr: "hdr = take 18 (mk4_header ts) @ [nibbles (digit 1 (u32_of (tv_subsecond ts * 1000))) lo, b]"
    "crc12_mark4 hdr = 0"
    using mk4_add_crc_facts [of ts] unfolding hdr_def by metis
  show "length hdr = 20" unfolding hdr(1) by (simp add: mk4_header_def Let_def)
  show "crc12_mark4 hdr = 0" by (rule hdr(2))
  show "hdr ! i = 0xff" if "8 \<le> i" "i < 12"
  proof -
    have "i = 8 \<or> i = 9 \<or> i = 10 \<or> i = 11" using that by linarith
    then show ?thesis unfolding hdr(1) by (auto simp: mk4_header_def Let_def nth_append)
  qed
  show "hdr ! 12 = nibbles (digit 1 (tm_year g)) (digit 100 (tm_yday g + 1))"
    unfolding hdr(1) by (simp add: mk4_header_def Let_def nth_append g_def)
qed

lemma mk4_encodes:
  assumes new: "headersearch_new fmt_mark4 ntrack rate 0 = Inr h" and rate: "rate \<in> mk4_rates"
    and ss: "tv_subsecond ts = of_nat k * (20000 / rate)" "tv_subsecond ts < 1"
  obtains frame' where "spread_header ntrack 0 (mk4_add_crc (mk4_header ts)) frame = Inr frame'"
    "encode_timestamp h ts frame = Inr frame'" "hs_frametime h = 20000 / rate"
proof -
  let ?ms = "u32_of (tv_subsecond ts * 1000)"
  note f = mark4_fields [OF new] and ms = mk4_ms [OF rate ss]
  have valid: "valid_samplerate rate" "rate \<noteq> UNKNOWN_TRACKBITRATE" "rate \<noteq> 0"
    using rate by (auto simp: mk4_rates_def valid_samplerate_def UNKNOWN_TRACKBITRATE_def)
  have ft: "hs_frametime h = 20000 / rate" "hs_frametime h \<noteq> 0" using f(10) valid by simp_all
  then have "tv_subsecond ts / hs_frametime h = of_nat k" using ss(1) by simp
  then have den: "denominator (tv_subsecond ts / hs_frametime h) = 1" by (simp add: denominator_def)
  have "digit 1 ?ms mod 5 = ?ms mod 5" using ms(1) mod_mod_cancel [of 5 10 ?ms] by (simp add: digit_pos)
  then have dig: "digit 1 ?ms \<notin> {4, 9}" using ms(3) by auto
  obtain frame' where "spread_header ntrack 0 (mk4_add_crc (mk4_header ts)) frame = Inr frame'"
    using f(1) by (auto simp: spread_header_def)
  then show thesis using ft
    by (intro that [of frame']) (use valid f(11) ft(2) den dig in
      \<open>simp_all add: encode_timestamp_def encode_mk4_timestamp_def bad_bitrate_def f spread_def\<close>)
qed

text \<open>C15: The time stamp of a Mark4 frame: the encoder succeeds on every time that is a whole number of
  frames, in the ten years up to the current one, at the usual rates per track; and for every track,
  the frame passes all checks, whichever are asked for, and its time is read back exactly.\<close>

theorem mark4_time_roundtrip:
  assumes new: "headersearch_new fmt_mark4 ntrack rate 0 = Inr h" and rate: "rate \<in> mk4_rates"
    and ss: "tv_subsecond ts = of_nat k * (20000 / rate)" "tv_subsecond ts < 1"
    and year: "get_current_year now - 10 < get_current_year (tv_sec ts)"
      "get_current_year (tv_sec ts) \<le> get_current_year now" "1900 \<le> get_current_year (tv_sec ts)"
    and frame: "20 * ntrack \<le> length frame"
  shows "\<exists>frame'. encode_timestamp h ts frame = Inr frame'
    \<and> (\<forall>track<ntrack. check_frame h frame' st track = Inr True
         \<and> decode_timestamp now h frame' st' track s = (s, Inr ts))"
proof -
  let ?hdr = "mk4_add_crc (mk4_header ts)"
  note f = mark4_fields [OF new] and hf = mk4_hdr_facts [where ts = ts]
  obtain frame' where sp: "spread_header ntrack 0 ?hdr frame = Inr frame'"
    and enc: "encode_timestamp h ts frame = Inr frame'" and ft: "hs_frametime h = 20000 / rate"
    by (rule mk4_encodes [OF new rate ss])
  have y0: "0 \<le> tm_year (gmtime (tv_sec ts))" using year(3) by (simp add: get_current_year_def)
  have "check_frame h frame' st track = Inr True \<and> decode_timestamp now h frame' st' track s = (s, Inr ts)"
    if track: "track < ntrack" for track
  proof
    have "check_mark4 False h st frame' track = Inr True"
      by (rule check_mark4_spread [OF new sp frame track hf(1,3,4) _ _ _ _ hf(2)])
        (use y0 gmtime_yday_range [of "tv_sec ts"] in \<open>simp_all add: digit_range\<close>)
    then show "check_frame h frame' st track = Inr True" by (simp add: check_frame_def f)
    obtain lo b where tc: "chunk 12 8 ?hdr = mk4_digits ts @ [nibbles (digit 1 (u32_of (tv_subsecond ts * 1000))) lo, b]"
      "0 \<le> lo" "lo < 16" by (rule mk4_timecode)
    have "(0 + 8 * length ?hdr) * (ntrack div 8) \<le> length frame" using frame f(1) hf(1) by auto
    from extract_spread [OF sp this track, of 12 8 "replicate 8 0"] hf(1)
    have "extract_bitstream False (replicate 8 0) track ntrack 64 (drop (96 * (ntrack div 8)) frame')
        = Inr (chunk 12 8 ?hdr)" by simp
    moreover have "96 * (ntrack div 8) = u32_mul 12 ntrack" using f(1) by (auto simp: u32_mul_def)
    ultimately have "track_bits False track ntrack (u32_mul 12 ntrack) frame' = Inr (chunk 12 8 ?hdr)"
      by (simp add: track_bits_def)
    moreover have "decode_mk4_timestamp now (chunk 12 8 ?hdr) rate st' (20000 / rate) = Inr ts"
      by (rule mk4_decode_digits [OF tc rate ss]) (use year in \<open>simp_all add: get_current_year_def\<close>)
    ultimately show "decode_timestamp now h frame' st' track s = (s, Inr ts)"
      by (simp add: decode_timestamp_def f mk4_frame_timestamp_def ft)
  qed
  then show ?thesis using enc by blast
qed

text \<open>All checks, and failures reported.\<close>

definition strict_all :: strict where
  "strict_all = \<lparr>chk_syncword = True, chk_crc = True, chk_strict = True, chk_consistent = True,
     chk_allow_dbe = False, chk_nothrow = False\<rparr>"

theorem mark4_time_roundtrip_witness:
  "\<exists>h frame'. headersearch_new fmt_mark4 8 16000000 0 = Inr h
    \<and> encode_timestamp h \<lparr>tv_sec = 1577836800, tv_subsecond = 3 / 800\<rparr> (replicate 160 0) = Inr frame'
    \<and> decode_timestamp 1600000000 h frame' strict_all 5 m5b_state0
        = (m5b_state0, Inr \<lparr>tv_sec = 1577836800, tv_subsecond = 3 / 800\<rparr>)"
proof -
  have y: "get_current_year 1577836800 = 2020" "get_current_year 1600000000 = 2020" by code_simp+
  obtain h where h: "headersearch_new fmt_mark4 8 16000000 0 = Inr h"
    by (simp add: headersearch_new_def Let_def layout_defs u32_mul_def power_of_two_def numerator_def denominator_def)
  from mark4_time_roundtrip [OF h, of "\<lparr>tv_sec = 1577836800, tv_subsecond = 3 / 800\<rparr>" 3 1600000000
      "replicate 160 0" strict_all strict_all m5b_state0]
  show ?thesis using h by (auto simp: mk4_rates_def y)
qed

end
