(* ===== verification/WordTimes.thy ===== *)
theory WordTimes
  imports FrameTimes
begin

unbundle bit_operations_syntax

text \<open>
  Time stamps in words: the decimal digits of the VLBA time code that VLBA and Mark5B headers share,
  and the bit fields of VDIF headers, with the round trips through Mark5B, VLBA and VDIF frames.
\<close>

subsection \<open>Words in a frame\<close>

lemma length_le32 [simp]: "length (le32 w) = 4" by (simp add: le32_def)

lemma length_put_le32 [simp]: "length (put_le32 frame off w) = length frame" by (simp add: put_le32_def)

lemma nth_put_le32: "off + 4 \<le> length frame \<Longrightarrow> i < length frame \<Longrightarrow>
    put_le32 frame off w ! i = (if off \<le> i \<and> i < off + 4 then le32 w ! (i - off) else frame ! i)"
  using nth_blit [of off 4 frame i "le32 w" 0] by (simp add: put_le32_def)

lemma le32_bytes: "ucast (le32 w ! 0) OR push_bit 8 (ucast (le32 w ! 1)) OR push_bit 16 (ucast (le32 w ! 2))
    OR push_bit 24 (ucast (le32 w ! 3)) = w" (is "?l = w")
proof (rule bit_word_eqI)
  fix n assume "n < LENGTH(32)"
  then consider "n < 8" | "8 \<le> n" "n < 16" | "16 \<le> n" "n < 24" | "24 \<le> n" "n < 32" by fastforce
  then show "bit ?l n \<longleftrightarrow> bit w n" by cases (auto simp: le32_def bit_simps)
qed

lemma get_put_same: "off + 4 \<le> length frame \<Longrightarrow> get_le32 (put_le32 frame off w) off = w"
  using le32_bytes [of w] by (simp add: get_le32_def nth_put_le32)

lemma get_put_other: "off + 4 \<le> length frame \<Longrightarrow> off' + 4 \<le> length frame \<Longrightarrow> off' + 4 \<le> off \<or> off + 4 \<le> off' \<Longrightarrow>
    get_le32 (put_le32 frame off w) off' = get_le32 frame off'"
  by (auto simp: get_le32_def nth_put_le32)

lemma get_set_same: "lo + len \<le> 32 \<Longrightarrow> get_field lo len (set_field lo len v w) = take_bit len v"
  by (rule bit_word_eqI) (auto simp: get_field_def set_field_def bit_simps)

lemma get_set_other: "lo' + len' \<le> lo \<or> lo + len \<le> lo' \<Longrightarrow>
    get_field lo' len' (set_field lo len v w) = get_field lo' len' w"
  by (rule bit_word_eqI) (auto simp: get_field_def set_field_def bit_simps dest: bit_imp_le_length)

subsection \<open>Digits in a word\<close>

definition is_nibble :: "int \<Rightarrow> bool" where "is_nibble d \<longleftrightarrow> 0 \<le> d \<and> d < 16"

lemma bit_digit: "is_nibble d \<Longrightarrow> bit (word_of_int d :: 'a :: len word) n \<Longrightarrow> n < 4"
proof -
  assume d: "is_nibble d" and b: "bit (word_of_int d :: 'a word) n"
  have "take_bit 4 d = d" using d by (simp add: is_nibble_def take_bit_int_eq_self)
  moreover have "bit d n" using b by (simp add: bit_simps)
  ultimately show "n < 4" by (metis bit_take_bit_iff)
qed

lemma bcd32_small: "\<forall>d\<in>set ds. is_nibble d \<Longrightarrow> bit (bcd32 ds) n \<Longrightarrow> n < 4 * length ds"
proof (induction ds arbitrary: n)
  case (Cons d ds)
  then show ?case using bit_digit [of d n] by (cases "n < 4") (fastforce simp: bit_or_iff bit_push_bit_iff)+
qed simp

lemma bcd32_drop:
  assumes "\<forall>d\<in>set (d # ds). is_nibble d" "length ds < 8"
  shows "drop_bit 4 (bcd32 (d # ds)) = bcd32 ds"
proof (rule bit_word_eqI)
  fix n assume n: "n < LENGTH(32)"
  have "\<not> bit (word_of_int d :: 32 word) (4 + n)" using bit_digit [of d "4 + n"] assms(1) by auto
  moreover have "bit (bcd32 ds) n \<Longrightarrow> 4 + n < 32" using bcd32_small [of ds n] assms by auto
  ultimately show "bit (drop_bit 4 (bcd32 (d # ds))) n \<longleftrightarrow> bit (bcd32 ds) n"
    using n by (auto simp: bit_drop_bit_eq bit_or_iff bit_push_bit_iff)
qed

lemma bcd32_byte:
  assumes "is_nibble a" "is_nibble b"
  shows "(ucast (bcd32 (a # b # ds)) :: byte) = nibbles b a"
proof (rule bit_word_eqI)
  fix n assume n: "n < LENGTH(8)"
  have "bit (word_of_int a :: byte) n \<longleftrightarrow> bit a n" "bit (word_of_int a :: 32 word) n \<longleftrightarrow> bit a n"
    "bit (word_of_int b :: byte) (n - 4) \<longleftrightarrow> bit b (n - 4)" "bit (word_of_int b :: 32 word) (n - 4) \<longleftrightarrow> bit b (n - 4)"
    using n by (auto simp: bit_simps)
  then show "bit (ucast (bcd32 (a # b # ds)) :: byte) n \<longleftrightarrow> bit (nibbles b a) n"
    using n bit_digit [of a n, where 'a = 32] assms
    by (auto simp: nibbles_def bit_or_iff bit_push_bit_iff bit_ucast_iff)
qed

declare bcd32.simps [simp del]

lemma bcd32_drop8:
  assumes "\<forall>d\<in>set (a # b # ds). is_nibble d" "length ds \<le> 6"
  shows "drop_bit 8 (bcd32 (a # b # ds)) = bcd32 ds"
proof -
  have "drop_bit 8 (bcd32 (a # b # ds)) = drop_bit 4 (drop_bit 4 (bcd32 (a # b # ds)))" by simp
  also have "drop_bit 4 (bcd32 (a # b # ds)) = bcd32 (b # ds)" by (rule bcd32_drop) (use assms in simp_all)
  also have "drop_bit 4 (bcd32 (b # ds)) = bcd32 ds" by (rule bcd32_drop) (use assms in simp_all)
  finally show ?thesis .
qed

lemma le32_bcd32:
  assumes "\<forall>d\<in>set [a, b, c, d, e, f, g, h]. is_nibble d"
  shows "le32 (bcd32 [a, b, c, d, e, f, g, h]) = [nibbles b a, nibbles d c, nibbles f e, nibbles h g]"
proof -
  have s: "drop_bit 8 (bcd32 [a, b, c, d, e, f, g, h]) = bcd32 [c, d, e, f, g, h]"
    "drop_bit 8 (bcd32 [c, d, e, f, g, h]) = bcd32 [e, f, g, h]" "drop_bit 8 (bcd32 [e, f, g, h]) = bcd32 [g, h]"
    by (rule bcd32_drop8; use assms in simp)+
  have d: "drop_bit 16 w = drop_bit 8 (drop_bit 8 w)" "drop_bit 24 w = drop_bit 8 (drop_bit 8 (drop_bit 8 w))" for w :: "32 word"
    by simp_all
  show ?thesis unfolding le32_def d s using assms by (simp add: bcd32_byte)
qed

subsection \<open>The VLBA time code\<close>

definition vlba_sec :: "highrestime \<Rightarrow> int" where "vlba_sec ts = tv_sec ts mod 86400"
definition vlba_mjd :: "highrestime \<Rightarrow> int" where "vlba_mjd ts = 40587 + tv_sec ts div 86400"
definition vlba_dms :: "highrestime \<Rightarrow> int" where "vlba_dms ts = u32_of (tv_subsecond ts * 10000)"

lemma vlba_parts_nonneg: "0 \<le> vlba_sec ts" "0 \<le> tv_sec ts \<Longrightarrow> 0 \<le> vlba_mjd ts" "0 \<le> vlba_dms ts"
  "vlba_sec ts < 86400"
  by (simp_all add: vlba_sec_def vlba_mjd_def vlba_dms_def pos_imp_zdiv_nonneg_iff)

lemma is_nibble_digit: "0 \<le> x \<Longrightarrow> 0 < d \<Longrightarrow> is_nibble (digit d x)"
  by (simp add: is_nibble_def digit_range)

lemma nibbles_zero: "nibbles 0 0 = 0" by (simp add: nibbles_def)

lemma vlba_le32:
  assumes "0 \<le> tv_sec ts" "vlba_words ts = (w0, w1)"
  defines "s \<equiv> \<lambda>d. digit d (vlba_sec ts)" and "j \<equiv> \<lambda>d. digit d (vlba_mjd ts)" and "f \<equiv> \<lambda>d. digit d (vlba_dms ts)"
  shows "le32 w0 = [nibbles (s 10) (s 1), nibbles (s 1000) (s 100), nibbles (j 1) (s 10000), nibbles (j 100) (j 10)]"
    "le32 w1 = [0, 0, nibbles (f 10) (f 1), nibbles (f 1000) (f 100)]"
    "le32 (w1 OR (c AND 0xffff)) = [ucast c, ucast (drop_bit 8 c), nibbles (f 10) (f 1), nibbles (f 1000) (f 100)]"
proof -
  note nn = vlba_parts_nonneg(1,3) vlba_parts_nonneg(2) [OF assms(1)]
  have w: "w0 = bcd32 [s 1, s 10, s 100, s 1000, s 10000, j 1, j 10, j 100]" "w1 = bcd32 [0, 0, 0, 0, f 1, f 10, f 100, f 1000]"
    using assms(1,2) by (simp_all add: vlba_words_def Let_def s_def j_def f_def vlba_sec_def vlba_mjd_def vlba_dms_def
        sdiv_pos smod_pos)
  show "le32 w0 = [nibbles (s 10) (s 1), nibbles (s 1000) (s 100), nibbles (j 1) (s 10000), nibbles (j 100) (j 10)]"
    unfolding w s_def j_def by (rule le32_bcd32) (simp add: is_nibble_digit nn)
  have "le32 w1 = [nibbles 0 0, nibbles 0 0, nibbles (f 10) (f 1), nibbles (f 1000) (f 100)]"
    unfolding w f_def by (rule le32_bcd32) (simp add: is_nibble_digit nn is_nibble_def [of 0])
  then show w1: "le32 w1 = [0, 0, nibbles (f 10) (f 1), nibbles (f 1000) (f 100)]" by (simp only: nibbles_zero)
  have low: "(ucast w1 :: byte) = 0" "(ucast (drop_bit 8 w1) :: byte) = 0" using w1 by (simp_all add: le32_def)
  have m: "(0xffff :: 32 word) = mask 16" by (simp add: mask_eq_exp_minus_1)
  have hi: "ucast (drop_bit 16 (w1 OR (c AND 0xffff))) = (ucast (drop_bit 16 w1) :: byte)"
    "ucast (drop_bit 24 (w1 OR (c AND 0xffff))) = (ucast (drop_bit 24 w1) :: byte)"
    unfolding m by (rule bit_word_eqI; auto simp: bit_simps)+
  have lo: "ucast (w1 OR (c AND 0xffff)) = ((ucast w1 OR ucast c) :: byte)"
    "ucast (drop_bit 8 (w1 OR (c AND 0xffff))) = ((ucast (drop_bit 8 w1) OR ucast (drop_bit 8 c)) :: byte)"
    unfolding m by (rule bit_word_eqI; auto simp: bit_simps)+
  show "le32 (w1 OR (c AND 0xffff)) = [ucast c, ucast (drop_bit 8 c), nibbles (f 10) (f 1), nibbles (f 1000) (f 100)]"
    using w1 unfolding le32_def hi lo low by simp
qed

text \<open>Both layouts read the digits back.\<close>

lemma vlba_digits_read:
  assumes "0 \<le> tv_sec ts" "vlba_words ts = (w0, w1)" "0 \<le> tv_subsecond ts" "tv_subsecond ts < 1"
  defines "r \<equiv> \<lparr>vlba_J = vlba_mjd ts mod 1000, vlba_S = vlba_sec ts, vlba_SS = vlba_dms ts\<rparr>"
  shows "mk5b_ts (le32 w0 @ le32 (w1 OR (c AND 0xffff)) @ rest) = r"
    "vlba_tape_ts (rev (le32 w0) @ rev (le32 (w1 OR (c AND 0xffff)))) = r"
proof -
  have "0 \<le> \<lfloor>tv_subsecond ts * 10000\<rfloor>" "\<lfloor>tv_subsecond ts * 10000\<rfloor> < 10000"
    using assms(3,4) by (simp_all add: floor_less_iff)
  then have "vlba_dms ts < 10000" by (simp add: vlba_dms_def u32_of_def)
  note sums = digits3 [OF vlba_parts_nonneg(2) [OF assms(1)]] digits5 [OF vlba_parts_nonneg(1), of ts]
    digits4 [OF vlba_parts_nonneg(3) this]
  note rg = digit_range(1,2) [OF vlba_parts_nonneg(1)] digit_range(1,2) [OF vlba_parts_nonneg(3)]
    digit_range(1,2) [OF vlba_parts_nonneg(2) [OF assms(1)]]
  have "vlba_sec ts < 100000" using vlba_parts_nonneg(4) [of ts] by linarith
  then show "mk5b_ts (le32 w0 @ le32 (w1 OR (c AND 0xffff)) @ rest) = r"
    "vlba_tape_ts (rev (le32 w0) @ rev (le32 (w1 OR (c AND 0xffff)))) = r"
    unfolding vlba_le32(1,3) [OF assms(1,2)] mk5b_ts_def vlba_tape_ts_def r_def using sums
    by (simp_all add: nibbles_read rg)
qed

lemma trunc_mjdnow: "0 \<le> now \<Longrightarrow> trunc (mjdnow now) = 40587 + now div 86400"
proof -
  assume "0 \<le> now"
  then have "0 \<le> \<lfloor>mjdnow now\<rfloor>" by (simp add: mjdnow_def floor_mjd UNIX_MJD_EPOCH_def pos_imp_zdiv_nonneg_iff)
  then have "0 \<le> mjdnow now" by simp
  then show ?thesis by (simp add: trunc_def mjdnow_def floor_mjd UNIX_MJD_EPOCH_def)
qed

text \<open>The full day is the one of the last thousand.\<close>

lemma mjd_from_digits:
  fixes d :: int
  assumes "cm - 1000 < d" "d \<le> cm" "0 \<le> d"
  shows "(if d mod 1000 + cm - cm smod 1000 > cm then d mod 1000 + cm - cm smod 1000 - 1000
          else d mod 1000 + cm - cm smod 1000) = d"
proof -
  have "cm smod 1000 = cm mod 1000" using assms by (simp add: smod_pos)
  moreover have "(if r' + cm - r > cm then r' + cm - r - 1000 else r' + cm - r) = d"
    if "cm = 1000 * q + r" "d = 1000 * q' + r'" "0 \<le> r" "r < 1000" "0 \<le> r'" "r' < 1000" for q r q' r'
  proof (cases "r < r'")
    case True
    then have "q' = q - 1" using that assms(1,2) by linarith
    with True that show ?thesis by simp
  next
    case False
    then have "q' = q" using that assms(1,2) by linarith
    with False that show ?thesis by simp
  qed
  from this [of "cm div 1000" "cm mod 1000" "d div 1000" "d mod 1000"] have
    "(if d mod 1000 + cm - cm mod 1000 > cm then d mod 1000 + cm - cm mod 1000 - 1000
      else d mod 1000 + cm - cm mod 1000) = d" by simp
  ultimately show ?thesis by (simp only:)
qed

lemma decode_vlba:
  assumes "0 \<le> tv_sec ts" "0 \<le> now" "0 \<le> tv_subsecond ts" "tv_subsecond ts < 1"
    "now div 86400 - 1000 < tv_sec ts div 86400" "tv_sec ts div 86400 \<le> now div 86400"
  shows "decode_vlba_timestamp now \<lparr>vlba_J = vlba_mjd ts mod 1000, vlba_S = vlba_sec ts, vlba_SS = vlba_dms ts\<rparr>
    = \<lparr>tv_sec = tv_sec ts, tv_subsecond = of_int (vlba_dms ts) / 10000\<rparr>"
proof -
  have "0 \<le> tv_sec ts div 86400" using assms(1) by (simp add: pos_imp_zdiv_nonneg_iff)
  then have d: "(if vlba_mjd ts mod 1000 + trunc (mjdnow now) - trunc (mjdnow now) smod 1000 > trunc (mjdnow now)
      then vlba_mjd ts mod 1000 + trunc (mjdnow now) - trunc (mjdnow now) smod 1000 - 1000
      else vlba_mjd ts mod 1000 + trunc (mjdnow now) - trunc (mjdnow now) smod 1000) = vlba_mjd ts"
    unfolding trunc_mjdnow [OF assms(2)] by (intro mjd_from_digits) (use assms(5,6) in \<open>simp_all add: vlba_mjd_def\<close>)
  have s: "vlba_sec ts = 3600 * (vlba_sec ts sdiv 3600) + 60 * (vlba_sec ts smod 3600 sdiv 60) + vlba_sec ts smod 3600 smod 60"
  proof -
    have "x = 3600 * a + r \<Longrightarrow> r = 60 * b + c \<Longrightarrow> x = 3600 * a + 60 * b + c" for x a b c r :: int by simp
    from this [of "vlba_sec ts" "vlba_sec ts div 3600" "vlba_sec ts mod 3600"] show ?thesis
      using vlba_parts_nonneg(1) [of ts] by (simp add: sdiv_pos smod_pos)
  qed
  have t: "mktime \<lparr>tm_sec = vlba_sec ts smod 3600 smod 60, tm_min = vlba_sec ts smod 3600 sdiv 60,
      tm_hour = vlba_sec ts sdiv 3600, tm_mday = vlba_mjd ts - UNIX_MJD_EPOCH + 1, tm_mon = 0, tm_year = 70,
      tm_yday = 0\<rparr> = tv_sec ts"
  proof -
    have "86400 * (tv_sec ts div 86400) + tv_sec ts mod 86400 = tv_sec ts" by simp
    then show ?thesis using s
      by (simp add: mktime_def UNIX_MJD_EPOCH_def vlba_mjd_def days_to_year_def days_to_month_def flip: vlba_sec_def)
  qed
  have "0 \<le> \<lfloor>tv_subsecond ts * 10000\<rfloor>" "\<lfloor>tv_subsecond ts * 10000\<rfloor> < 10000"
    using assms(3,4) by (simp_all add: floor_less_iff)
  then have "0 \<le> vlba_dms ts" "vlba_dms ts < 10000" by (simp_all add: vlba_dms_def u32_of_def)
  then have f: "of_nat (nat (100000 * vlba_dms ts)) / 1000000000 = (of_int (vlba_dms ts) / 10000 :: rat)"
    "\<lfloor>of_int (vlba_dms ts) / 10000 :: rat\<rfloor> = 0"
    by (simp_all add: floor_eq_iff)
  have "decode_vlba_timestamp now \<lparr>vlba_J = vlba_mjd ts mod 1000, vlba_S = vlba_sec ts, vlba_SS = vlba_dms ts\<rparr>
      = hr_of_timespec (tv_sec ts) (nat (100000 * vlba_dms ts))"
    unfolding decode_vlba_timestamp_def Let_def vlba_ts.simps d t ..
  then show ?thesis unfolding hr_of_timespec_def f(1) using f(2) by (simp add: hr_new_def hr_normalize_def)
qed

subsection \<open>Mark5B frames\<close>

lemma mark5b_fields:
  assumes "headersearch_new fmt_mark5b ntrack rate 0 = Inr h" "valid_samplerate rate" "0 < rate"
  shows "hs_ntrack h = ntrack" "hs_trackbitrate h = rate" "hs_syncwordoffset h = 0" "hs_syncwordsize h = 4"
    "hs_frameformat h = fmt_mark5b" "hs_encoder h = Mk5b" "hs_decoder h = Mk5b" "hs_checker h = Mk5b"
    "0 < hs_framerate h" "hs_frametime h = 1 / hs_framerate h" "denominator rate = 1"
    "rate \<noteq> 0" "rate \<noteq> UNKNOWN_TRACKBITRATE"
proof -
  have v: "rate \<noteq> 0" "rate \<noteq> UNKNOWN_TRACKBITRATE" using assms(2) by (auto simp: valid_samplerate_def)
  then show "rate \<noteq> 0" "rate \<noteq> UNKNOWN_TRACKBITRATE" .
  have n: "1 \<le> ntrack" using headersearch_newD(1) [OF assms(1)] by simp
  show "hs_ntrack h = ntrack" "hs_trackbitrate h = rate" "hs_syncwordoffset h = 0" "hs_syncwordsize h = 4"
    "hs_frameformat h = fmt_mark5b" "hs_encoder h = Mk5b" "hs_decoder h = Mk5b" "hs_checker h = Mk5b"
    "0 < hs_framerate h" "hs_frametime h = 1 / hs_framerate h" "denominator rate = 1"
    using assms n v
    by (auto simp: headersearch_new_def Let_def layout_defs DECODERFN_def ENCODERFN_def CHECKFN_def
        mark5b_syncword_def state_framerate_def state_frametime_def u32_mul_def split: if_splits)
qed

definition mk5b_frame :: "nat \<Rightarrow> highrestime \<Rightarrow> byte list \<Rightarrow> byte list" where
  "mk5b_frame k ts frame =
     (let (w2, w3) = vlba_words ts; crc = crc16_vlba (rev (le32 w2) @ rev (le32 w3))
      in put_le32 (put_le32 (put_le32 frame 4 (word_of_nat k AND 0x7fff)) 8 w2) 12 (w3 OR (crc AND 0xffff)))"

lemma mk5b_encodes:
  assumes "headersearch_new fmt_mark5b ntrack rate 0 = Inr h" "valid_samplerate rate" "0 < rate"
    "tv_subsecond ts = of_nat k / hs_framerate h" "k < 2 ^ 16"
  shows "encode_timestamp h ts frame = Inr (mk5b_frame k ts frame)"
proof -
  note f = mark5b_fields [OF assms(1-3)]
  have e: "tv_subsecond ts / hs_frametime h = of_nat k" using f(9,10) assms(4) by simp
  have nk: "numerator (of_nat k) = int k" "denominator (of_nat k) = 1" by (simp_all add: numerator_def denominator_def)
  have "int k < 2 ^ 32 - 1" "hs_framerate h \<noteq> 0" using assms(5) f(9) by simp_all
  then show ?thesis
    unfolding encode_timestamp_def encode_mk5b_timestamp_def bad_bitrate_def f(6) codec.case Let_def e nk
    by (simp add: f mk5b_frame_def Let_def split: prod.split)
qed

text \<open>The words of the frame.\<close>

lemma mk5b_frame_bytes:
  fixes k :: nat
  assumes "vlba_words ts = (w2, w3)" "16 \<le> length frame"
  defines "w3' \<equiv> w3 OR (crc16_vlba (rev (le32 w2) @ rev (le32 w3)) AND 0xffff)" and "f \<equiv> mk5b_frame k ts frame"
  shows "drop 8 f = le32 w2 @ le32 w3' @ drop 16 frame" "get_le32 f 4 = word_of_nat k AND 0x7fff"
    "take 4 f = take 4 frame" "length f = length frame"
proof -
  have f: "f = put_le32 (put_le32 (put_le32 frame 4 (word_of_nat k AND 0x7fff)) 8 w2) 12 w3'"
    by (simp add: f_def mk5b_frame_def assms(1) w3'_def)
  show l: "length f = length frame" by (simp add: f)
  show "get_le32 f 4 = word_of_nat k AND 0x7fff" unfolding f using assms(2) by (simp add: get_put_other get_put_same)
  show "take 4 f = take 4 frame"
    by (rule nth_equalityI) (use assms(2) in \<open>simp_all add: f nth_put_le32\<close>)
  show "drop 8 f = le32 w2 @ le32 w3' @ drop 16 frame"
  proof (rule nth_equalityI)
    fix i assume "i < length (drop 8 f)"
    then show "drop 8 f ! i = (le32 w2 @ le32 w3' @ drop 16 frame) ! i"
      using assms(2) by (auto simp: f nth_put_le32 nth_append)
  qed (use assms(2) l in simp)
qed

lemma mk5b_crc:
  assumes "0 \<le> tv_sec ts" "vlba_words ts = (w2, w3)"
  shows "crc16_vlba (rev (le32 w2) @ rev (le32 (w3 OR (crc16_vlba (rev (le32 w2) @ rev (le32 w3)) AND 0xffff)))) = 0"
proof -
  define c where "c = crc16_vlba (rev (le32 w2) @ rev (le32 w3))"
  obtain a b where w3: "rev (le32 w3) = [a, b, 0, 0]"
    "rev (le32 (w3 OR (c AND 0xffff))) = [a, b, ucast (drop_bit 8 c), ucast c]"
    using vlba_le32(2,3) [OF assms] by simp
  have c: "c = crc_of 16 0x8005 ((rev (le32 w2) @ [a, b]) @ [0, 0])" by (simp add: c_def w3 crc16_vlba_def)
  have "crc_of 16 0x8005 ((rev (le32 w2) @ [a, b]) @ [0 XOR ucast (drop_bit 8 c), 0 XOR ucast c]) = 0"
    unfolding c by (rule crc_of_residue) simp_all
  then show ?thesis unfolding c_def [symmetric] w3(2) by (simp add: crc16_vlba_def)
qed

lemma mk5b_check:
  assumes "headersearch_new fmt_mark5b ntrack rate 0 = Inr h" "valid_samplerate rate" "0 < rate"
    "0 \<le> tv_sec ts" "16 \<le> length frame" "take 4 frame = mark5b_syncword"
  shows "check_frame h (mk5b_frame k ts frame) st track = Inr True"
proof -
  note f = mark5b_fields [OF assms(1-3)]
  let ?f = "mk5b_frame k ts frame"
  obtain w2 w3 where w: "vlba_words ts = (w2, w3)" by force
  note b = mk5b_frame_bytes [OF w assms(5), of k]
  let ?w3 = "w3 OR (crc16_vlba (rev (le32 w2) @ rev (le32 w3)) AND 0xffff)"
  have "check_syncword h ?f = Inr True"
    unfolding check_syncword_def f
  proof (rule match_bytes_True)
    fix i assume "i < length (take 4 (SYNCWORD_ST fmt_mark5b))"
    then have i: "i < 4" by simp
    then have "?f ! i = take 4 frame ! i" using b(3) by (metis nth_take)
    then show "0 + i < length ?f \<and> ?f ! (0 + i) = take 4 (SYNCWORD_ST fmt_mark5b) ! i"
      using i b(4) assms(5,6) by (simp add: SYNCWORD_ST_def IS_ST_def mark5b_syncword_def)
  qed
  moreover have "map (\<lambda>i. ?f ! (8 + 4 * (i div 4) + (3 - i mod 4))) [0..<8] = rev (le32 w2) @ rev (le32 ?w3)"
  proof -
    have n: "?f ! (8 + i) = (le32 w2 @ le32 ?w3) ! i" if "i < 8" for i
    proof -
      have "?f ! (8 + i) = drop 8 ?f ! i" using that b(4) assms(5) by (simp add: nth_drop)
      also have "\<dots> = ((le32 w2 @ le32 ?w3) @ drop 16 frame) ! i" unfolding b(1) by simp
      also have "\<dots> = (le32 w2 @ le32 ?w3) ! i" by (rule nth_append_left) (use that in simp)
      finally show ?thesis .
    qed
    have u: "[0..<8] = [0, 1, 2, 3, 4, 5, 6, 7 :: nat]" by (simp add: upt_rec)
    show ?thesis unfolding u using n [of 0] n [of 1] n [of 2] n [of 3] n [of 4] n [of 5] n [of 6] n [of 7]
      by (simp add: le32_def)
  qed
  ultimately show ?thesis
    using mk5b_crc [OF assms(4) w] b(4) assms(5) unfolding check_frame_def Let_def f(8) codec.case check_mark5b_def
    by simp
qed

lemma uint_frameno: "uint (get_field 0 15 (word_of_nat k AND 0x7fff)) = int (k mod 2 ^ 15)"
proof -
  have "(0x7fff :: 32 word) = mask 15" by (simp add: mask_eq_exp_minus_1)
  then have "get_field 0 15 (word_of_nat k AND 0x7fff) = take_bit 15 (word_of_nat k)"
    by (simp only: get_field_def drop_bit_0 id_apply take_bit_eq_mask and.assoc and.idem)
  then have "uint (get_field 0 15 (word_of_nat k AND 0x7fff)) = take_bit 15 (uint (word_of_nat k :: 32 word))"
    by (simp only: unsigned_take_bit_eq)
  also have "uint (word_of_nat k :: 32 word) = take_bit 32 (int k)"
    by (simp only: unsigned_of_nat of_nat_take_bit) simp
  also have "take_bit 15 (take_bit 32 (int k)) = take_bit 15 (int k)" by (simp only: take_bit_take_bit)
  also have "\<dots> = int (k mod 2 ^ 15)" by (simp only: take_bit_eq_mod of_nat_mod) simp
  finally show ?thesis .
qed

text \<open>The state after frame \<open>k\<close> of a second.\<close>

definition m5b_after :: "int \<Rightarrow> nat \<Rightarrow> m5b_state" where
  "m5b_after sec k = \<lparr>m5b_second = sec, m5b_frameno = of_nat (k mod 2 ^ 15), m5b_wrap = (2 ^ 15 \<le> k)\<rparr>"

lemma mk5b_decode:
  assumes "headersearch_new fmt_mark5b ntrack rate 0 = Inr h" "valid_samplerate rate" "0 < rate"
    and ts: "0 \<le> tv_sec ts" "tv_subsecond ts = of_nat k / hs_framerate h" "of_nat k < hs_framerate h" "k < 2 ^ 16"
    and now: "0 \<le> now" "now div 86400 - 1000 < tv_sec ts div 86400" "tv_sec ts div 86400 \<le> now div 86400"
    and frame: "16 \<le> length frame"
    and wrap: "tv_sec ts = m5b_second s \<and> (m5b_wrap s \<or> of_nat (k mod 2 ^ 15) < m5b_frameno s) \<longleftrightarrow> 2 ^ 15 \<le> k"
  shows "decode_timestamp now h (mk5b_frame k ts frame) st track s = (m5b_after (tv_sec ts) k, Inr ts)"
proof -
  note f = mark5b_fields [OF assms(1-3)]
  let ?f = "mk5b_frame k ts frame"
  have ss: "0 \<le> tv_subsecond ts" "tv_subsecond ts < 1" using ts(2,3) f(9) by simp_all
  obtain w2 w3 where w: "vlba_words ts = (w2, w3)" by force
  note b = mk5b_frame_bytes [OF w frame, of k]
  let ?v = "\<lparr>tv_sec = tv_sec ts, tv_subsecond = of_int (vlba_dms ts) / 10000\<rparr> :: highrestime"
  have v: "decode_vlba_timestamp now (mk5b_ts (drop 8 ?f)) = ?v"
    unfolding b(1) vlba_digits_read(1) [OF ts(1) w ss] by (rule decode_vlba [OF ts(1) now(1) ss now(2,3)])
  have n: "(of_int (uint (get_field 0 15 (get_le32 ?f 4))) :: rat) = of_nat (k mod 2 ^ 15)"
    unfolding b(2) uint_frameno by simp
  have k: "(if 2 ^ 15 \<le> k then of_nat (k mod 2 ^ 15) + 0x8000 else of_nat (k mod 2 ^ 15)) = (of_nat k :: rat)"
  proof (cases "2 ^ 15 \<le> k")
    case True
    then have "k = k mod 2 ^ 15 + 0x8000" using ts(4) le_mod_geq [of "2 ^ 15" k] by simp
    then have "(of_nat k :: rat) = of_nat (k mod 2 ^ 15 + 0x8000)" by (rule arg_cong)
    then show ?thesis using True by simp
  qed simp
  have ft: "hs_frametime h * of_nat k = tv_subsecond ts" using f(10) ts(2) by simp
  have "u32_of (of_int (vlba_dms ts) / 10000 * 10000) = u32_of (tv_subsecond ts * 10000)"
    by (simp add: vlba_dms_def u32_of_def)
  then have c: "\<not> mk5b_inconsistent st (of_int (vlba_dms ts) / 10000) fn (tv_subsecond ts)" for fn
    by (simp add: mk5b_inconsistent_def Let_def)
  show ?thesis
    unfolding decode_timestamp_def f(7) codec.case mk5b_frame_timestamp_def Let_def v n highrestime.simps wrap k f(2) ft
    using ts(3) f(13) c by (simp add: m5b_after_def)
qed

fun decode_seq :: "int \<Rightarrow> headersearch \<Rightarrow> strict \<Rightarrow> byte list list \<Rightarrow> m5b_state \<Rightarrow> (ts_error + highrestime) list" where
  "decode_seq now h st [] s = []"
| "decode_seq now h st (f # fs) s =
     (let (s', r) = decode_timestamp now h f st 0 s in r # decode_seq now h st fs s')"

text \<open>C18: The frames of one second of Mark5B, up to 65536 of them, twice what the frame number in the
  header counts: each is encoded, passes all checks, and decoding them in order gives each its exact time.\<close>

theorem mark5b_second_roundtrip:
  fixes now sec :: int
  assumes new: "headersearch_new fmt_mark5b ntrack rate 0 = Inr h" "valid_samplerate rate" "0 < rate"
    and now: "0 \<le> now" "0 \<le> sec" "now div 86400 - 1000 < sec div 86400" "sec div 86400 \<le> now div 86400"
    and n: "n \<le> 2 ^ 16" "of_nat n \<le> hs_framerate h"
    and buf: "\<And>k. k < n \<Longrightarrow> 16 \<le> length (buf k) \<and> take 4 (buf k) = mark5b_syncword"
    and s: "m5b_second s \<noteq> sec"
  defines "ts \<equiv> \<lambda>k. \<lparr>tv_sec = sec, tv_subsecond = of_nat k / hs_framerate h\<rparr>"
  shows "\<exists>fr. (\<forall>k<n. encode_timestamp h (ts k) (buf k) = Inr (fr k) \<and> check_frame h (fr k) st 0 = Inr True)
    \<and> decode_seq now h st (map fr [0..<n]) s = map (\<lambda>k. Inr (ts k)) [0..<n]"
proof -
  define fr where "fr = (\<lambda>k. mk5b_frame k (ts k) (buf k))"
  have kn: "(of_nat k :: rat) < hs_framerate h" "k < 2 ^ 16" if "k < n" for k
  proof -
    have "(of_nat k :: rat) < of_nat n" using that by simp
    then show "(of_nat k :: rat) < hs_framerate h" using n(2) by (rule less_le_trans)
  qed (use that n(1) in simp)
  have seq: "decode_seq now h st (map fr [m..<n]) s = map (\<lambda>k. Inr (ts k)) [m..<n]"
    if "(m = 0 \<and> m5b_second s \<noteq> sec) \<or> (0 < m \<and> s = m5b_after sec (m - 1))" for m s
    using that
  proof (induction "n - m" arbitrary: m s)
    case (Suc d)
    then have m: "m < n" by simp
    have wrap: "tv_sec (ts m) = m5b_second s \<and> (m5b_wrap s \<or> of_nat (m mod 2 ^ 15) < m5b_frameno s) \<longleftrightarrow> 2 ^ 15 \<le> m"
    proof (cases "m = 0")
      case False
      with Suc.prems have s: "s = m5b_after sec (m - 1)" by simp
      show ?thesis
      proof (cases "m \<le> 2 ^ 15")
        case True
        then show ?thesis using False by (cases "m = 2 ^ 15") (simp_all add: s m5b_after_def ts_def)
      next
        case large: False
        then have "2 ^ 15 \<le> m - 1" by simp
        then show ?thesis using large by (simp add: s m5b_after_def ts_def)
      qed
    qed (use Suc.prems in \<open>simp add: ts_def\<close>)
    have "decode_timestamp now h (fr m) st 0 s = (m5b_after (tv_sec (ts m)) m, Inr (ts m))"
      unfolding fr_def using now kn [OF m] buf [OF m] by (intro mk5b_decode [OF new _ _ _ _ _ _ _ _ wrap]) (simp_all add: ts_def)
    moreover have "decode_seq now h st (map fr [Suc m..<n]) (m5b_after (tv_sec (ts m)) m) = map (\<lambda>k. Inr (ts k)) [Suc m..<n]"
      by (rule Suc.hyps(1)) (use Suc.hyps(2) in \<open>simp_all add: ts_def\<close>)
    ultimately show ?case using m by (simp add: upt_conv_Cons)
  qed simp
  have "encode_timestamp h (ts k) (buf k) = Inr (fr k) \<and> check_frame h (fr k) st 0 = Inr True" if "k < n" for k
    unfolding fr_def using mk5b_encodes [OF new, of "ts k" k "buf k"] mk5b_check [OF new, of "ts k" "buf k" k st 0]
      kn [OF that] buf [OF that] now by (simp add: ts_def)
  then show ?thesis using seq [of 0 s] s by blast
qed

theorem mark5b_second_roundtrip_witness:
  "\<exists>h fr. headersearch_new fmt_mark5b 16 4000000 0 = Inr h
    \<and> decode_seq 1600000000 h strict_all (map fr [0..<3]) m5b_state0
        = map (\<lambda>k. Inr \<lparr>tv_sec = 1577836800, tv_subsecond = of_nat k / hs_framerate h\<rparr>) [0..<3]"
proof -
  obtain h where h: "headersearch_new fmt_mark5b 16 4000000 0 = Inr h" "hs_framerate h = 800"
    by (simp add: headersearch_new_def Let_def layout_defs u32_mul_def power_of_two_def numerator_def denominator_def
        state_framerate_def valid_samplerate_def UNKNOWN_TRACKBITRATE_def)
  from mark5b_second_roundtrip [OF h(1), of 1600000000 1577836800 3 "\<lambda>_. mark5b_syncword @ replicate 12 0" m5b_state0 strict_all]
  show ?thesis using h
    by (auto simp: valid_samplerate_def UNKNOWN_TRACKBITRATE_def m5b_state0_def mark5b_syncword_def)
qed

subsection \<open>VLBA frames\<close>

lemma vlba_fields:
  assumes "headersearch_new fmt_vlba ntrack rate 0 = Inr h"
  shows "ntrack \<in> {8, 16, 32, 64}" "hs_ntrack h = ntrack" "hs_frameformat h = fmt_vlba"
    "hs_syncwordoffset h = 0" "hs_syncwordsize h = 4 * ntrack"
    "hs_encoder h = Vlba" "hs_decoder h = Vlba" "hs_checker h = Vlba"
proof -
  show nt: "ntrack \<in> {8, 16, 32, 64}"
    using assms power_of_two_tracks [of ntrack]
    by (auto simp: headersearch_new_def Let_def MK4VLBA_def split: if_splits)
  then have "ntrack \<le> 64" by auto
  then show "hs_ntrack h = ntrack" "hs_frameformat h = fmt_vlba" "hs_syncwordoffset h = 0" "hs_syncwordsize h = 4 * ntrack"
    "hs_encoder h = Vlba" "hs_decoder h = Vlba" "hs_checker h = Vlba"
    using assms nt
    by (auto simp: headersearch_new_def Let_def layout_defs u32_simps DECODERFN_def ENCODERFN_def CHECKFN_def
        split: if_splits)
qed

text \<open>The eight bytes that are spread over the tracks.\<close>

definition vlba_header :: "highrestime \<Rightarrow> byte list" where
  "vlba_header ts = (let (w0, w1) = vlba_words ts
     in rev (le32 w0) @ rev (le32 (w1 OR (crc16_vlba (le32 w0 @ le32 w1) AND 0xffff))))"

lemma length_vlba_header [simp]: "length (vlba_header ts) = 8"
  by (simp add: vlba_header_def split: prod.split)

lemma vlba_encodes:
  assumes "headersearch_new fmt_vlba ntrack rate 0 = Inr h"
  obtains frame' where "spread_header ntrack 32 (vlba_header ts) frame = Inr frame'"
    "encode_timestamp h ts frame = Inr frame'"
proof -
  note f = vlba_fields [OF assms]
  obtain frame' where "spread_header ntrack 32 (vlba_header ts) frame = Inr frame'"
    using f(1) by (auto simp: spread_header_def)
  then show thesis
    by (intro that [of frame'])
      (simp_all add: encode_timestamp_def encode_vlba_timestamp_def f spread_def vlba_header_def split: prod.splits)
qed

text \<open>C31: The time stamp of a VLBA frame: the encoder always succeeds, and from every track the time is
  read back, cut off to the 1/10000 s the header holds, within a thousand days of the current one.\<close>

theorem vlba_time_roundtrip:
  assumes new: "headersearch_new fmt_vlba ntrack rate 0 = Inr h"
    and ts: "0 \<le> tv_sec ts" "0 \<le> tv_subsecond ts" "tv_subsecond ts < 1"
    and now: "0 \<le> now" "now div 86400 - 1000 < tv_sec ts div 86400" "tv_sec ts div 86400 \<le> now div 86400"
    and frame: "12 * ntrack \<le> length frame"
  shows "\<exists>frame'. encode_timestamp h ts frame = Inr frame'
    \<and> (\<forall>track<ntrack. decode_timestamp now h frame' st track s
         = (s, Inr \<lparr>tv_sec = tv_sec ts, tv_subsecond = of_int \<lfloor>tv_subsecond ts * 10000\<rfloor> / 10000\<rparr>))"
proof -
  note f = vlba_fields [OF new]
  obtain frame' where sp: "spread_header ntrack 32 (vlba_header ts) frame = Inr frame'"
    and enc: "encode_timestamp h ts frame = Inr frame'" by (rule vlba_encodes [OF new])
  obtain w0 w1 where w: "vlba_words ts = (w0, w1)" by force
  have "0 \<le> \<lfloor>tv_subsecond ts * 10000\<rfloor>" "\<lfloor>tv_subsecond ts * 10000\<rfloor> < 10000"
    using ts(2,3) by (simp_all add: floor_less_iff)
  then have dms: "vlba_dms ts = \<lfloor>tv_subsecond ts * 10000\<rfloor>" by (simp add: vlba_dms_def u32_of_def)
  have dec: "decode_vlba_timestamp now (vlba_tape_ts (vlba_header ts))
      = \<lparr>tv_sec = tv_sec ts, tv_subsecond = of_int \<lfloor>tv_subsecond ts * 10000\<rfloor> / 10000\<rparr>"
    unfolding vlba_header_def Let_def w prod.case vlba_digits_read(2) [OF ts(1) w ts(2,3)]
    using decode_vlba [OF ts(1) now(1) ts(2,3) now(2,3)] dms by simp
  have fit: "(32 + 8 * length (vlba_header ts)) * (ntrack div 8) \<le> length frame" using frame f(1) by auto
  have "track_bits False track ntrack (u32_mul 4 ntrack) frame' = Inr (vlba_header ts)" if "track < ntrack" for track
  proof -
    have "32 * (ntrack div 8) = u32_mul 4 ntrack" using f(1) by (auto simp: u32_mul_def)
    then show ?thesis
      using extract_spread [OF sp fit that, of 0 8 "replicate 8 0"] by (simp add: track_bits_def chunk_def)
  qed
  then show ?thesis
    using enc dec by (intro exI [of _ frame']) (simp add: decode_timestamp_def f vlba_frame_timestamp_def)
qed

text \<open>With its sync word in place, the frame passes every check but possibly that of the checksum.\<close>

lemma vlba_check:
  assumes new: "headersearch_new fmt_vlba ntrack rate 0 = Inr h" and ts: "0 \<le> tv_sec ts"
    and sp: "spread_header ntrack 32 (vlba_header ts) frame = Inr frame'" "track < ntrack"
    and frame: "12 * ntrack \<le> length frame" "\<And>i. i < 4 * ntrack \<Longrightarrow> frame ! i = 0xff"
  shows "check_frame h frame' st track = Inr (\<not> chk_crc st \<or> crc16_vlba (vlba_header ts) = 0)"
proof -
  note f = vlba_fields [OF new]
  let ?step = "ntrack div 8" and ?hdr = "replicate 4 0xff @ vlba_header ts"
  obtain w0 w1 where w: "vlba_words ts = (w0, w1)" by force
  have n8: "ntrack = 8 * ?step" using f(1) by auto
  have fit: "(32 + 8 * length (vlba_header ts)) * ?step \<le> length frame" using frame(1) n8 by simp
  note sd = spread_headerD [OF sp(1) fit]
  have rows: "frame' ! (k * ?step + s) = (if header_bits ?hdr ! k then 0xff else 0)" if k: "k < 8 * length ?hdr" and s: "s < ?step" for k s
  proof (cases "k < 32")
    case True
    then have "Suc k * ?step \<le> 32 * ?step" by (intro mult_le_mono1) simp
    then have "k * ?step + s < 32 * ?step" "k * ?step + s < 4 * ntrack" using s n8 unfolding mult_Suc by linarith+
    moreover have "header_bits ?hdr ! k"
      using True k bit_ff [of "7 - k mod 8"] by (simp add: nth_header_bits nth_append less_mult_imp_div_less)
    ultimately show ?thesis using sd(4) frame(2) by simp
  next
    case False
    then have "k = 8 * 4 + (k - 32)" by simp
    then have "k div 8 = 4 + (k - 32) div 8" "k mod 8 = (k - 32) mod 8"
      by (metis div_mult_self4 zero_neq_numeral) (metis \<open>k = 8 * 4 + (k - 32)\<close> mod_mult_self4)
    then have "header_bits ?hdr ! k = header_bits (vlba_header ts) ! (k - 32)"
      using False k by (simp add: nth_header_bits nth_append)
    then show ?thesis using sd(3) [of "k - 32" s] False k s by simp
  qed
  have "?hdr ! (0 + 4) = nibbles (digit 100 (vlba_mjd ts)) (digit 10 (vlba_mjd ts))"
    using vlba_le32(1) [OF ts w] by (simp add: vlba_header_def w Let_def nth_append)
  then have "check_header False (length ?hdr) (\<lambda>t. crc16_vlba (drop 4 t) = 0) h st frame' track
      = Inr (\<not> chk_crc st \<or> crc16_vlba (drop 4 ?hdr) = 0)"
  proof (rule check_header_rows [where p = 0, rotated -5])
    show "ntrack \<in> {8, 16, 32, 64}" by (rule f(1))
    show "8 * length ?hdr * ?step \<le> length frame'" using fit sd(2) by simp
  qed (use rows sp(2) f n8 ts in \<open>auto simp: digit_range vlba_parts_nonneg nth_append\<close>)
  then show ?thesis by (simp add: check_frame_def f check_vlba_def)
qed

definition ts_2020 :: highrestime where "ts_2020 = \<lparr>tv_sec = 1577836800, tv_subsecond = 0\<rparr>"

lemma vlba_words_2020: "vlba_words ts_2020 = (0x84900000, 0)"
  by (simp add: ts_2020_def vlba_words_def u32_of_def) code_simp

lemma crc_evals:
  "crc16_vlba [0, 0, 0x90, 0x84, 0, 0, 0, 0] = 51817"
  "crc16_vlba [0x84, 0x90, 0, 0, 0, 0, 0xca, 0x69] = 37220"
  unfolding crc16_vlba_def crc_of_division [of 16, simplified] by code_simp+

lemma vlba_header_2020: "vlba_header ts_2020 = [0x84, 0x90, 0, 0, 0, 0, 0xca, 0x69]"
proof -
  have "le32 0x84900000 = [0, 0, 0x90, 0x84]" "le32 0 = [0, 0, 0, 0]" "le32 (0 OR (51817 AND 0xffff)) = [0x69, 0xca, 0, 0]"
    by code_simp+
  then show ?thesis by (simp add: vlba_header_def vlba_words_2020 crc_evals)
qed

text \<open>C32: The checksum of an encoded VLBA frame is wrong: the frame written for midnight of 1 January 2020
  passes all checks without that of the checksum and fails with it, on every track. (The encoder computes
  the checksum over the words in memory order but writes their bytes in the opposite order.)\<close>

theorem vlba_encoder_crc_wrong:
  "\<exists>h frame'. headersearch_new fmt_vlba 8 16000000 0 = Inr h
    \<and> encode_timestamp h ts_2020 (replicate 96 0xff) = Inr frame'
    \<and> (\<forall>t. check_frame h frame' (strict_all\<lparr>chk_crc := False\<rparr>) (t mod 8) = Inr True
         \<and> check_frame h frame' strict_all (t mod 8) = Inr False)"
proof -
  obtain h where h: "headersearch_new fmt_vlba 8 16000000 0 = Inr h"
    by (simp add: headersearch_new_def Let_def layout_defs u32_mul_def power_of_two_def numerator_def denominator_def)
  obtain frame' where sp: "spread_header 8 32 (vlba_header ts_2020) (replicate 96 0xff) = Inr frame'"
    and enc: "encode_timestamp h ts_2020 (replicate 96 0xff) = Inr frame'" by (rule vlba_encodes [OF h])
  have sec: "0 \<le> tv_sec ts_2020" by (simp add: ts_2020_def)
  have "check_frame h frame' st track = Inr (\<not> chk_crc st)" if "track < 8" for st track
    using vlba_check [OF h sec sp that] by (simp add: vlba_header_2020 crc_evals)
  then show ?thesis using h enc by (intro exI [of _ h] exI [of _ frame']) (simp add: strict_all_def)
qed

theorem vlba_time_roundtrip_witness:
  "\<exists>h frame'. headersearch_new fmt_vlba 8 16000000 0 = Inr h
    \<and> encode_timestamp h \<lparr>tv_sec = 1577836800, tv_subsecond = 1 / 3\<rparr> (replicate 96 0) = Inr frame'
    \<and> decode_timestamp 1600000000 h frame' strict_all 5 m5b_state0
        = (m5b_state0, Inr \<lparr>tv_sec = 1577836800, tv_subsecond = 3333 / 10000\<rparr>)"
proof -
  obtain h where h: "headersearch_new fmt_vlba 8 16000000 0 = Inr h"
    by (simp add: headersearch_new_def Let_def layout_defs u32_mul_def power_of_two_def numerator_def denominator_def)
  from vlba_time_roundtrip [OF h, of "\<lparr>tv_sec = 1577836800, tv_subsecond = 1 / 3\<rparr>" 1600000000 "replicate 96 0"
      strict_all m5b_state0]
  moreover have "\<lfloor>10000 / 3 :: rat\<rfloor> = 3333" by (simp add: floor_eq_iff)
  ultimately show ?thesis using h by auto
qed

subsection \<open>VDIF frames\<close>

text \<open>The start of a half year, and the seconds in it.\<close>

lemma vdif_epoch_start:
  assumes "2000 \<le> get_current_year sec" "get_current_year sec \<le> 2031"
  shows "0 \<le> vdif_epoch sec" "vdif_epoch sec < 64" "vdif_tm_epoch sec \<le> sec" "sec - vdif_tm_epoch sec < 2 ^ 30"
    "mktime \<lparr>tm_sec = sec - vdif_tm_epoch sec + d, tm_min = 0, tm_hour = 0, tm_mday = 1,
       tm_mon = 6 * (vdif_epoch sec mod 2), tm_year = 100 + vdif_epoch sec div 2, tm_yday = 0\<rparr> = sec + d"
proof -
  obtain y k where g: "tm_year (gmtime sec) = y - 1900" "tm_mon (gmtime sec) = int k" "k < 12"
    "tm_yday (gmtime sec) = sum_list (take k (daysPerMonth (isLeapYear y))) + (tm_mday (gmtime sec) - 1)"
    "1 \<le> tm_mday (gmtime sec)" "sec div 86400 = days_to_year y + tm_yday (gmtime sec)"
    "tm_yday (gmtime sec) < (if isLeapYear y then 366 else 365)"
    by (rule gmtimeE [of sec]) blast
  define m where "m = (if 6 \<le> k then 6 else 0 :: nat)"
  have y: "2000 \<le> y" "y \<le> 2031" using assms g(1) by (simp_all add: get_current_year_def)
  have ep: "vdif_epoch sec = 2 * (y - 2000) + (if 6 \<le> k then 1 else 0)"
    using g(1,2) by (simp add: vdif_epoch_def Let_def)
  then show "0 \<le> vdif_epoch sec" "vdif_epoch sec < 64" using y by auto
  have "int k sdiv 6 = (if 6 \<le> k then 1 else 0)" using g(3) by (auto simp: sdiv_pos)
  then have mon: "int k sdiv 6 * 6 = int m" by (simp add: m_def)
  have te: "vdif_tm_epoch sec = 86400 * (days_to_year y + days_to_month y (int m))"
    using mon by (auto simp: vdif_tm_epoch_def Let_def mktime_def g(1,2) m_def)
  have "sum_list (take m (daysPerMonth (isLeapYear y))) \<le> sum_list (take k (daysPerMonth (isLeapYear y)))"
  proof -
    have "m \<le> k" by (simp add: m_def)
    then have "take k (daysPerMonth (isLeapYear y)) = take m (daysPerMonth (isLeapYear y)) @ drop m (take k (daysPerMonth (isLeapYear y)))"
      by (metis append_take_drop_id min.absorb1 take_take)
    moreover have "0 \<le> sum_list (drop m (take k (daysPerMonth (isLeapYear y))))"
      by (rule sum_list_nonneg) (auto dest!: in_set_dropD in_set_takeD simp: daysPerMonth_def)
    ultimately show ?thesis by (metis le_add_same_cancel1 sum_list_append)
  qed
  then have dm: "days_to_month y (int m) \<le> tm_yday (gmtime sec)" "0 \<le> days_to_month y (int m)"
    using g(4,5) by (auto simp: days_to_month_def m_def daysPerMonth_def)
  obtain r where s: "sec = 86400 * (days_to_year y + tm_yday (gmtime sec)) + r" "0 \<le> r" "r < 86400"
    using that [of "sec mod 86400"] mult_div_mod_eq [of 86400 sec] g(6) by simp
  have "vdif_tm_epoch sec \<le> 86400 * (days_to_year y + tm_yday (gmtime sec)) + r"
    unfolding te using dm(1) s(2) by simp
  then show "vdif_tm_epoch sec \<le> sec" by (simp only: s(1) [symmetric])
  have "tm_yday (gmtime sec) < 366" using g(7) by (auto split: if_splits)
  then have "86400 * (days_to_year y + tm_yday (gmtime sec)) + r - vdif_tm_epoch sec < 2 ^ 30"
    unfolding te using s(3) dm(2) by simp
  then show "sec - vdif_tm_epoch sec < 2 ^ 30" by (simp only: s(1) [symmetric])
  have dec: "vdif_epoch sec div 2 = y - 2000" "6 * (vdif_epoch sec mod 2) = int m"
  proof -
    have half: "(2 * q + (if c then 1 else 0)) div 2 = q" "6 * ((2 * q + (if c then 1 else 0)) mod 2) = (if c then 6 else 0)"
      for q :: int and c by auto
    show "vdif_epoch sec div 2 = y - 2000" "6 * (vdif_epoch sec mod 2) = int m"
      unfolding ep half by (simp_all add: m_def)
  qed
  have "int m div 12 = 0" "int m mod 12 = int m" by (simp_all add: m_def)
  then show "mktime \<lparr>tm_sec = sec - vdif_tm_epoch sec + d, tm_min = 0, tm_hour = 0, tm_mday = 1,
       tm_mon = 6 * (vdif_epoch sec mod 2), tm_year = 100 + vdif_epoch sec div 2, tm_yday = 0\<rparr> = sec + d"
    unfolding dec mktime_def Let_def te by (simp add: te)
qed

lemma uint_take_bit_word: "n \<le> 32 \<Longrightarrow> uint (take_bit n (word_of_int x :: 32 word)) = x mod 2 ^ n"
  by (simp add: unsigned_take_bit_eq uint_word_of_int_eq take_bit_take_bit min_def flip: take_bit_eq_mod)

text \<open>What is read from the words that are written.\<close>

lemma vdif_write_fields:
  fixes hdr :: headersearch and sec zero_sec framenum :: int
  assumes "16 \<le> length frame"
  defines "f \<equiv> vdif_write hdr sec zero_sec framenum frame"
  shows "uint (get_field 0 30 (get_le32 f 0)) = (zero_sec - vdif_tm_epoch sec) mod 2 ^ 30"
    "uint (get_field 0 24 (get_le32 f 4)) = framenum mod 2 ^ 24"
    "uint (get_field 24 6 (get_le32 f 4)) = vdif_epoch sec mod 64"
  using assms(1) uint_take_bit_word [of 30] uint_take_bit_word [of 24] uint_take_bit_word [of 6]
  by (simp_all add: f_def vdif_write_def Let_def get_put_same get_put_other get_set_same get_set_other del: of_int_diff)

lemma hr_new_carry: "0 \<le> ss \<Longrightarrow> ss < 1 \<Longrightarrow> d < 2 ^ 32 \<Longrightarrow> hr_new z (of_int d + ss) = \<lparr>tv_sec = z + d, tv_subsecond = ss\<rparr>"
proof -
  assume ss: "0 \<le> ss" "ss < 1" and d: "d < 2 ^ 32"
  have "\<lfloor>of_int d + ss\<rfloor> = d" using ss by (simp add: floor_eq_iff)
  moreover have "of_int d + ss \<noteq> UNKNOWN_SUBSECOND"
  proof -
    have "(of_int d :: rat) < of_int (2 ^ 32)" using d by (simp only: of_int_less_iff)
    then show ?thesis using ss by (simp add: UNKNOWN_SUBSECOND_def)
  qed
  ultimately show ?thesis by (simp add: hr_new_def hr_normalize_def)
qed

lemma vdif_decode_write:
  assumes year: "2000 \<le> get_current_year (tv_sec ts)" "get_current_year (tv_sec ts) \<le> 2031"
    and ss: "0 \<le> tv_subsecond ts" "tv_subsecond ts < 1"
    and num: "0 \<le> framenum" "framenum < 2 ^ 24"
      "of_int framenum * frametime = of_int (tv_sec ts - zero_sec) + tv_subsecond ts"
    and zero: "zero_sec \<le> tv_sec ts" "vdif_tm_epoch (tv_sec ts) - 2 ^ 30 \<le> zero_sec" "tv_sec ts - zero_sec < 2 ^ 32"
    and frame: "16 \<le> length frame" and rate: "0 < rate" "rate \<noteq> UNKNOWN_TRACKBITRATE"
  shows "vdif_frame_timestamp (vdif_write hdr (tv_sec ts) zero_sec framenum frame) rate frametime
    = Inr \<lparr>tv_sec = tv_sec ts + (if zero_sec < vdif_tm_epoch (tv_sec ts) then 2 ^ 30 else 0),
           tv_subsecond = tv_subsecond ts\<rparr>"
proof -
  let ?sec = "tv_sec ts" and ?e = "vdif_tm_epoch (tv_sec ts)"
  note f = vdif_write_fields [OF frame, of hdr ?sec zero_sec framenum] and st = vdif_epoch_start [OF year]
  define w where "w = (if zero_sec < ?e then 2 ^ 30 else 0 :: int)"
  have m: "(zero_sec - ?e) mod 2 ^ 30 = zero_sec - ?e + w"
  proof (cases "zero_sec < ?e")
    case True
    then have "(zero_sec - ?e + 2 ^ 30) mod 2 ^ 30 = zero_sec - ?e + 2 ^ 30"
      using zero by (intro mod_pos_pos_trivial) simp_all
    then show ?thesis using True by (simp add: w_def)
  next
    case False
    then show ?thesis using zero(1) st(4) by (simp add: w_def mod_pos_pos_trivial)
  qed
  have a: "zero_sec - ?e + w = ?sec - ?e + (zero_sec - ?sec + w)" "zero_sec + w = ?sec + (zero_sec - ?sec + w)"
    by simp_all
  have t: "mktime \<lparr>tm_sec = zero_sec - ?e + w, tm_min = 0, tm_hour = 0, tm_mday = 1,
       tm_mon = 6 * (vdif_epoch ?sec mod 2), tm_year = 100 + vdif_epoch ?sec div 2, tm_yday = 0\<rparr> = zero_sec + w"
    by (simp only: a st(5))
  have ep: "vdif_epoch ?sec mod 64 = vdif_epoch ?sec" and fn: "framenum mod 2 ^ 24 = framenum"
    using st(1,2) num(1,2) by (simp_all only: mod_pos_pos_trivial)
  have "hr_new (zero_sec + w) (of_int framenum * frametime) = \<lparr>tv_sec = ?sec + w, tv_subsecond = tv_subsecond ts\<rparr>"
    unfolding num(3) using hr_new_carry [OF ss zero(3), of "zero_sec + w"] by (simp add: algebra_simps)
  then show ?thesis
    unfolding vdif_frame_timestamp_def Let_def f m ep fn t using rate by (simp add: w_def)
qed

lemma vdif_fields:
  assumes "headersearch_new fmt ntrack rate pl = Inr h" "is_vdif fmt" "valid_samplerate rate" "0 < hs_framerate h"
  shows "hs_trackbitrate h = rate" "hs_ntrack h \<noteq> 0" "hs_frametime h = 1 / hs_framerate h" "hs_decoder h = Vdif"
    "hs_encoder h = (if denominator (hs_framerate h) = 1 then Vdif else Vdif2)"
    "rate \<noteq> 0" "rate \<noteq> UNKNOWN_TRACKBITRATE"
proof -
  show "rate \<noteq> 0" "rate \<noteq> UNKNOWN_TRACKBITRATE" using assms(3) by (auto simp: valid_samplerate_def)
  have fmt: "fmt \<noteq> fmt_mark5b" "fmt \<noteq> fmt_vlba" "fmt \<noteq> fmt_mark4" "fmt \<noteq> fmt_mark4_st" "fmt \<noteq> fmt_vlba_st"
    using assms(2) by (auto simp: is_vdif_def)
  let ?p = "PAYLOADSIZE_VDIF fmt ntrack pl"
  have h: "hs_ntrack h = ntrack" "hs_trackbitrate h = rate" "hs_framerate h = state_framerate ntrack rate ?p"
    "hs_frametime h = state_frametime ntrack rate ?p" "hs_decoder h = DECODERFN fmt"
    "hs_encoder h = ENCODERFN fmt (denominator (hs_framerate h))"
    using assms(1) by (auto simp: headersearch_new_def Let_def split: if_splits)
  show "hs_trackbitrate h = rate" by (rule h)
  have nz: "ntrack \<noteq> 0" "?p \<noteq> 0"
    using assms(4) unfolding h(3) state_framerate_def by (cases "ntrack = 0"; auto split: if_splits)+
  then show "hs_ntrack h \<noteq> 0" using h(1) by simp
  show "hs_frametime h = 1 / hs_framerate h"
    using nz assms(3) unfolding h(3,4) state_framerate_def state_frametime_def by simp
  show "hs_decoder h = Vdif" "hs_encoder h = (if denominator (hs_framerate h) = 1 then Vdif else Vdif2)"
    using fmt assms(2) by (simp_all add: h DECODERFN_def ENCODERFN_def)
qed

text \<open>C30: The time stamp of a VDIF frame, with a whole number of frames per second: every time on a frame
  boundary in the years 2000 to 2031 that the header can count is encoded and read back exactly.\<close>

theorem vdif_time_roundtrip:
  assumes new: "headersearch_new fmt ntrack rate pl = Inr h" "is_vdif fmt" "valid_samplerate rate" "0 < hs_framerate h"
    and rate: "0 < rate" "denominator (hs_framerate h) = 1"
    and year: "2000 \<le> get_current_year (tv_sec ts)" "get_current_year (tv_sec ts) \<le> 2031"
    and ss: "tv_subsecond ts = of_nat k / hs_framerate h" "of_nat k < hs_framerate h" "k < 2 ^ 24 - 1"
    and frame: "16 \<le> length frame"
  shows "\<exists>frame'. encode_timestamp h ts frame = Inr frame'
    \<and> decode_timestamp now h frame' st track s = (s, Inr ts)"
proof -
  note f = vdif_fields [OF new] and st = vdif_epoch_start [OF year]
  let ?frame = "vdif_write h (tv_sec ts) (tv_sec ts) (int k) frame"
  have e: "tv_subsecond ts / hs_frametime h = of_nat k" "hs_frametime h \<noteq> 0" using f(3) new(4) ss(1) by simp_all
  have nk: "numerator (of_nat k) = int k" "denominator (of_nat k) = 1" by (simp_all add: numerator_def denominator_def)
  have k: "int k < 2 ^ 24 - 1" using ss(3) by simp
  then have enc: "encode_timestamp h ts frame = Inr ?frame"
    unfolding encode_timestamp_def f(5) if_P [OF rate(2)] codec.case encode_vdif_timestamp_def Let_def e(1) nk
    using e(2) f by simp
  have "vdif_frame_timestamp ?frame rate (hs_frametime h)
      = Inr \<lparr>tv_sec = tv_sec ts + (if tv_sec ts < vdif_tm_epoch (tv_sec ts) then 2 ^ 30 else 0), tv_subsecond = tv_subsecond ts\<rparr>"
    by (rule vdif_decode_write) (use year ss new(4) k f st frame rate in simp_all)
  then have "decode_timestamp now h ?frame st track s = (s, Inr ts)"
    using st(3) by (simp add: decode_timestamp_def f)
  with enc show ?thesis by blast
qed

theorem vdif_time_roundtrip_witness:
  "\<exists>h frame'. headersearch_new fmt_vdif 16 4000000 8000 = Inr h
    \<and> encode_timestamp h \<lparr>tv_sec = 1577836800, tv_subsecond = 37 / 1000\<rparr> (replicate 16 0) = Inr frame'
    \<and> decode_timestamp 0 h frame' strict_all 0 m5b_state0
        = (m5b_state0, Inr \<lparr>tv_sec = 1577836800, tv_subsecond = 37 / 1000\<rparr>)"
proof -
  have y: "get_current_year 1577836800 = 2020" by code_simp
  obtain h where h: "headersearch_new fmt_vdif 16 4000000 8000 = Inr h" "hs_framerate h = 1000"
    by (simp add: headersearch_new_def Let_def layout_defs u32_mul_def numerator_def denominator_def
        state_framerate_def valid_samplerate_def UNKNOWN_TRACKBITRATE_def)
  from vdif_time_roundtrip [OF h(1), of "\<lparr>tv_sec = 1577836800, tv_subsecond = 37 / 1000\<rparr>" 37 "replicate 16 0" 0
      strict_all 0 m5b_state0]
  show ?thesis using h
    by (auto simp: y is_vdif_def valid_samplerate_def UNKNOWN_TRACKBITRATE_def denominator_def)
qed

text \<open>C33: With a frame rate that is not an integer, the time of frame zero that is written may lie before
  the half year the header counts from: then the seconds wrap in their 30 bits and the time read back
  is \<open>2\<^sup>3\<^sup>0\<close> seconds, 34 years, in the future; otherwise it is exact.\<close>

theorem vdif2_time_wraps:
  assumes new: "headersearch_new fmt ntrack rate pl = Inr h" "is_vdif fmt" "valid_samplerate rate" "0 < hs_framerate h"
    and rate: "0 < rate" "denominator (hs_framerate h) \<noteq> 1"
    and year: "2000 \<le> get_current_year (tv_sec ts)" "get_current_year (tv_sec ts) \<le> 2031"
    and ss: "0 \<le> tv_subsecond ts" "tv_subsecond ts < 1"
    and lut: "offset_lut h = Inr lut" "off = lut ! subsec_modulo (tv_subsecond ts) (hs_frametime h)" "off \<le> 0" "- (2 ^ 29) \<le> off"
    and frame: "16 \<le> length frame" and enc: "encode_timestamp h ts frame = Inr frame'"
  shows "decode_timestamp now h frame' st track s
    = (s, Inr \<lparr>tv_sec = tv_sec ts + (if tv_sec ts + off < vdif_tm_epoch (tv_sec ts) then 2 ^ 30 else 0),
               tv_subsecond = tv_subsecond ts\<rparr>)"
proof -
  note f = vdif_fields [OF new] and st = vdif_epoch_start [OF year]
  let ?zero = "tv_sec ts + off"
  have uk: "tv_subsecond ts \<noteq> UNKNOWN_SUBSECOND" "(0 :: rat) \<noteq> UNKNOWN_SUBSECOND"
    using ss by (auto simp: UNKNOWN_SUBSECOND_def)
  then have z: "hr_new ?zero 0 = \<lparr>tv_sec = ?zero, tv_subsecond = 0\<rparr>" by (simp add: hr_new_def hr_normalize_def)
  define d where "d = of_int (- off) + tv_subsecond ts"
  have diff: "hr_diff ts (hr_new ?zero 0) = Inr d"
    using uk ss by (simp add: hr_diff_def z d_def)
  from enc obtain den: "denominator (d / hs_frametime h) = 1" and num: "numerator (d / hs_frametime h) < 2 ^ 24 - 1"
    and fr: "frame' = vdif_write h (tv_sec ts) ?zero (numerator (d / hs_frametime h)) frame"
    using rate(2) lut(1)
    by (auto simp: encode_timestamp_def f(5) encode_vdif2_timestamp_def Let_def diff simp flip: lut(2) split: if_splits)
  have d0: "0 \<le> d" using ss lut(3) by (simp add: d_def)
  have ft: "0 < hs_frametime h" using f(3) new(4) by simp
  have q: "of_int (numerator (d / hs_frametime h)) = d / hs_frametime h"
    using den quotient_of_div [of "d / hs_frametime h" "numerator (d / hs_frametime h)" 1]
    by (simp add: numerator_def denominator_def prod_eq_iff)
  have n0: "0 \<le> numerator (d / hs_frametime h)"
  proof -
    have "0 \<le> (of_int (numerator (d / hs_frametime h)) :: rat)" unfolding q using d0 ft by simp
    then show ?thesis by simp
  qed
  have "vdif_frame_timestamp frame' rate (hs_frametime h)
      = Inr \<lparr>tv_sec = tv_sec ts + (if ?zero < vdif_tm_epoch (tv_sec ts) then 2 ^ 30 else 0), tv_subsecond = tv_subsecond ts\<rparr>"
    unfolding fr
  proof (rule vdif_decode_write [OF year ss n0 _ _ _ _ _ frame rate(1) f(7)])
    show "of_int (numerator (d / hs_frametime h)) * hs_frametime h = of_int (tv_sec ts - ?zero) + tv_subsecond ts"
      unfolding q using ft by (simp add: d_def)
  qed (use num lut(3,4) st(3) in simp_all)
  then show ?thesis by (simp add: decode_timestamp_def f)
qed

theorem vdif2_time_wraps_witness:
  "\<exists>h frame'. headersearch_new fmt_vdif 1 3000000 7000 = Inr h
    \<and> encode_timestamp h \<lparr>tv_sec = 1577836800, tv_subsecond = 2 / 125\<rparr> (replicate 16 0) = Inr frame'
    \<and> decode_timestamp 0 h frame' strict_all 0 m5b_state0
        = (m5b_state0, Inr \<lparr>tv_sec = 1577836800 + 2 ^ 30, tv_subsecond = 2 / 125\<rparr>)"
proof -
  have y: "get_current_year 1577836800 = 2020" by code_simp
  have e: "vdif_tm_epoch 1577836800 = 1577836800" by code_simp
  obtain h where h: "headersearch_new fmt_vdif 1 3000000 7000 = Inr h" "hs_framerate h = 375 / 7"
    by (simp add: headersearch_new_def Let_def layout_defs u32_mul_def numerator_def denominator_def
        state_framerate_def valid_samplerate_def UNKNOWN_TRACKBITRATE_def)
  have den: "denominator (375 / 7) = 7" by code_simp
  note f = vdif_fields [OF h(1), unfolded h(2)]
  have v: "valid_samplerate 3000000" "is_vdif fmt_vdif" by (simp_all add: is_vdif_def valid_samplerate_def UNKNOWN_TRACKBITRATE_def)
  have ft: "hs_frametime h = 7 / 375" using f(3) v by simp
  have lut: "compute_offset_lut (7 / 375) = Inr [0, - 5, - 3, - 1, - 6, - 4, - 2]" by code_simp
  have m: "subsec_modulo (2 / 125) (7 / 375) = 6" by code_simp
  have ol: "offset_lut h = Inr [0, - 5, - 3, - 1, - 6, - 4, - 2]"
    by (simp add: offset_lut_def ft h(2) den lut) (simp add: valid_samplerate_def UNKNOWN_TRACKBITRATE_def)
  have z: "hr_new 1577836798 0 = \<lparr>tv_sec = 1577836798, tv_subsecond = 0\<rparr>"
    by (simp add: hr_new_def hr_normalize_def UNKNOWN_SUBSECOND_def)
  let ?ts = "\<lparr>tv_sec = 1577836800, tv_subsecond = 2 / 125\<rparr> :: highrestime"
  have d: "hr_diff ?ts \<lparr>tv_sec = 1577836798, tv_subsecond = 0\<rparr> = Inr (252 / 125)"
    by (simp add: hr_diff_def UNKNOWN_SUBSECOND_def)
  have "numerator (252 / 125 / (7 / 375)) = 108" "denominator (252 / 125 / (7 / 375)) = 1" by code_simp+
  then have enc: "encode_timestamp h ?ts (replicate 16 0) = Inr (vdif_write h 1577836800 1577836798 108 (replicate 16 0))"
    using f v den by (simp add: encode_timestamp_def encode_vdif2_timestamp_def ol Let_def ft m z d)
  have "decode_timestamp 0 h (vdif_write h 1577836800 1577836798 108 (replicate 16 0)) strict_all 0 m5b_state0
    = (m5b_state0, Inr \<lparr>tv_sec = tv_sec ?ts + (if tv_sec ?ts + (- 2) < vdif_tm_epoch (tv_sec ?ts) then 2 ^ 30 else 0),
        tv_subsecond = tv_subsecond ?ts\<rparr>)"
    by (rule vdif2_time_wraps [OF h(1) _ _ _ _ _ _ _ _ _ ol _ _ _ _ enc]) (simp_all add: v h(2) den y ft m)
  then show ?thesis using h(1) enc e by (intro exI [of _ h] exI conjI) simp_all
qed

end
