(* ===== verification/BoyerMoore.thy ===== *)
theory BoyerMoore
  imports JPrelude
begin

text \<open>
  The sync word search of \<open>src/src/boyer_moore.cc\<close>: the tables of the bad character and good suffix
  heuristics, the search, and its equivalence with looking at every position. Indices are
  integers as in the code; the search loop, whose end depends on the tables, is a partial function.
\<close>

subsection \<open>Tables\<close>

definition at :: "'a list \<Rightarrow> int \<Rightarrow> 'a" where "at xs i = xs ! nat i"
definition upd :: "'a list \<Rightarrow> int \<Rightarrow> 'a \<Rightarrow> 'a list" where "upd xs i v = xs[nat i := v]"

text \<open>\<open>result[n[i]] = n_len - i - 1\<close> for \<open>i\<close> from 0 to \<open>n_len - 2\<close>.\<close>

definition prepare_badcharacter_heuristic :: "byte list \<Rightarrow> int list" where
  "prepare_badcharacter_heuristic n =
     (let n_len = int (length n)
      in fold (\<lambda>i result. result[unat (n ! i) := n_len - int i - 1]) [0..<length n - 1] (replicate 256 n_len))"

text \<open>\<open>while( g>=0 && n[g]==n[g + n_len - 1 - f] ) --g;\<close>\<close>

function suffix_match :: "byte list \<Rightarrow> int \<Rightarrow> int \<Rightarrow> int" where
  "suffix_match n f g =
     (if g \<ge> 0 \<and> at n g = at n (g + int (length n) - 1 - f) then suffix_match n f (g - 1) else g)"
  by pat_completeness auto
termination by (relation "measure (\<lambda>(n, f, g). nat (g + 1))") auto

declare suffix_match.simps [simp del]

text \<open>The loop over \<open>i\<close> downwards: the first argument counts the positions left.\<close>

fun suffixes_loop :: "byte list \<Rightarrow> nat \<Rightarrow> int \<Rightarrow> int \<Rightarrow> int list \<Rightarrow> int list" where
  "suffixes_loop n 0 f g result = result"
| "suffixes_loop n (Suc k) f g result =
     (let i = int k; n_len = int (length n)
      in if i > g \<and> at result (i + n_len - 1 - f) < i - g
         then suffixes_loop n k f g (upd result i (at result (i + n_len - 1 - f)))
         else let g' = suffix_match n i (if i < g then i else g)
              in suffixes_loop n k i g' (upd result i (i - g')))"

definition suffixes :: "byte list \<Rightarrow> int list" where
  "suffixes n =
     (let n_len = int (length n)
      in suffixes_loop n (length n - 1) (n_len - 1) (n_len - 1)
           ((replicate (length n) 0)[length n - 1 := n_len]))"

text \<open>\<open>for( ; j<end; ++j ) if( result[j]==n_len ) result[j] = n_len-1-i;\<close> with \<open>end = n_len-1-i\<close>.\<close>

function fill_shift :: "int \<Rightarrow> int \<Rightarrow> int \<Rightarrow> int list \<Rightarrow> int \<times> int list" where
  "fill_shift n_len bound j result =
     (if j < bound
      then fill_shift n_len bound (j + 1) (if at result j = n_len then upd result j bound else result)
      else (j, result))"
  by pat_completeness auto
termination by (relation "measure (\<lambda>(n_len, bound, j, result). nat (bound - j))") auto

declare fill_shift.simps [simp del]

text \<open>The first argument is \<open>i + 1\<close>.\<close>

fun prefix_loop :: "int list \<Rightarrow> int \<Rightarrow> nat \<Rightarrow> int \<Rightarrow> int list \<Rightarrow> int list" where
  "prefix_loop suff n_len 0 j result = snd (fill_shift n_len n_len j result)"
| "prefix_loop suff n_len (Suc k) j result =
     (if suff ! k = int k + 1
      then let (j', result') = fill_shift n_len (n_len - 1 - int k) j result in prefix_loop suff n_len k j' result'
      else prefix_loop suff n_len k j result)"

definition prepare_goodsuffix_heuristic :: "byte list \<Rightarrow> int list" where
  "prepare_goodsuffix_heuristic n =
     (let n_len = int (length n); suff = suffixes n;
          result = prefix_loop suff n_len (length n) 0 (replicate (length n) n_len)
      in fold (\<lambda>i result. upd result (n_len - 1 - suff ! i) (n_len - 1 - int i)) [0..<length n - 1] result)"

subsection \<open>The search\<close>

record boyer_moore =
  bm_badcharacter :: "int list"
  bm_goodsuffix :: "int list"
  bm_needle :: "byte list"

datatype bm_error = Needle_Longer_Than_INT_MAX | Haystack_Longer_Than_INT_MAX

definition INT_MAX :: nat where "INT_MAX = 2 ^ 31 - 1"

definition bm_new :: "byte list \<Rightarrow> bm_error + boyer_moore" where
  "bm_new pat =
     (if length pat \<ge> INT_MAX then Inl Needle_Longer_Than_INT_MAX
      else if length pat = 0 then Inr \<lparr>bm_badcharacter = [], bm_goodsuffix = [], bm_needle = []\<rparr>
      else Inr \<lparr>bm_badcharacter = prepare_badcharacter_heuristic pat,
                bm_goodsuffix = prepare_goodsuffix_heuristic pat, bm_needle = pat\<rparr>)"

text \<open>\<open>for( i=m-1; i>=0 && needle[i]==haystack[i+j]; --i )\<close>\<close>

fun compare_down :: "byte list \<Rightarrow> byte list \<Rightarrow> int \<Rightarrow> nat \<Rightarrow> int" where
  "compare_down needle haystack j 0 = - 1"
| "compare_down needle haystack j (Suc k) =
     (if needle ! k = at haystack (int k + j) then compare_down needle haystack j k else int k)"

definition bm_shift :: "boyer_moore \<Rightarrow> int \<Rightarrow> byte \<Rightarrow> int" where
  "bm_shift bm i c =
     max (at (bm_goodsuffix bm) i) (bm_badcharacter bm ! unat c - int (length (bm_needle bm)) + 1 + i)"

partial_function (option) bm_loop :: "boyer_moore \<Rightarrow> byte list \<Rightarrow> int \<Rightarrow> int option option" where
  "bm_loop bm haystack j =
     (if j \<le> int (length haystack) - int (length (bm_needle bm))
      then let i = compare_down (bm_needle bm) haystack j (length (bm_needle bm))
           in if i < 0 then Some (Some j)
              else bm_loop bm haystack (j + bm_shift bm i (at haystack (i + j)))
      else Some None)"

text \<open>\<open>None\<close>: the search does not end.\<close>

definition bm_search :: "boyer_moore \<Rightarrow> byte list \<Rightarrow> (bm_error + int option) option" where
  "bm_search bm haystack =
     (if length haystack \<ge> INT_MAX then Some (Inl Haystack_Longer_Than_INT_MAX)
      else if length haystack = 0 \<or> length (bm_needle bm) = 0 \<or> length (bm_needle bm) > length haystack
      then Some (Inr None)
      else map_option Inr (bm_loop bm haystack 0))"

text \<open>The reference: the first position at which the needle lies.\<close>

definition occurs_at :: "byte list \<Rightarrow> byte list \<Rightarrow> nat \<Rightarrow> bool" where
  "occurs_at needle haystack p \<longleftrightarrow> p + length needle \<le> length haystack \<and> take (length needle) (drop p haystack) = needle"

definition first_occurrence :: "byte list \<Rightarrow> byte list \<Rightarrow> nat option" where
  "first_occurrence needle haystack =
     List.find (occurs_at needle haystack) [0..<length haystack + 1 - length needle]"

declare bm_loop.simps [code]

subsection \<open>Common suffixes\<close>

lemma at_upd: "0 \<le> i \<Longrightarrow> 0 \<le> j \<Longrightarrow> i < int (length xs) \<Longrightarrow> at (upd xs i v) j = (if i = j then v else at xs j)"
  by (auto simp: at_def upd_def nth_list_update nat_eq_iff)

lemma length_upd [simp]: "length (upd xs i v) = length xs"
  by (simp add: upd_def)

text \<open>The positions \<open>(a, b]\<close> agree with those \<open>d\<close> further on.\<close>

definition agree :: "byte list \<Rightarrow> int \<Rightarrow> int \<Rightarrow> int \<Rightarrow> bool" where
  "agree n a b d \<longleftrightarrow> (\<forall>x. a < x \<and> x \<le> b \<longrightarrow> at n x = at n (x + d))"

text \<open>\<open>k\<close> is the length of the longest common suffix of the whole and of the part up to \<open>i\<close>.\<close>

definition is_sfx :: "byte list \<Rightarrow> int \<Rightarrow> int \<Rightarrow> bool" where
  "is_sfx n i k \<longleftrightarrow> 0 \<le> k \<and> k \<le> i + 1 \<and> agree n (i - k) i (int (length n) - 1 - i)
     \<and> (k = i + 1 \<or> at n (i - k) \<noteq> at n (i - k + int (length n) - 1 - i))"

lemma is_sfx_unique:
  assumes "is_sfx n i k" "is_sfx n i k'" shows "k = k'"
proof (rule ccontr)
  have shorter: False if "is_sfx n i a" "is_sfx n i b" "a < b" for a b
  proof -
    have "a \<noteq> i + 1" using that by (auto simp: is_sfx_def)
    then have "at n (i - a) \<noteq> at n (i - a + int (length n) - 1 - i)" using that(1) by (simp add: is_sfx_def)
    moreover have "i - b < i - a \<and> i - a \<le> i" using that by (auto simp: is_sfx_def)
    then have "at n (i - a) = at n (i - a + (int (length n) - 1 - i))" using that(2) by (simp add: is_sfx_def agree_def)
    moreover have "i - a + (int (length n) - 1 - i) = i - a + int (length n) - 1 - i" by simp
    ultimately show False by simp
  qed
  assume "k \<noteq> k'"
  then show False using shorter [OF assms] shorter [OF assms(2,1)] by linarith
qed

lemma suffix_match_is_sfx:
  "agree n g f (int (length n) - 1 - f) \<Longrightarrow> - 1 \<le> g \<Longrightarrow> g \<le> f \<Longrightarrow>
   let g' = suffix_match n f g in - 1 \<le> g' \<and> g' \<le> f \<and> agree n g' f (int (length n) - 1 - f) \<and> is_sfx n f (f - g')"
proof (induction n f g rule: suffix_match.induct)
  case (1 n f g)
  let ?c = "g \<ge> 0 \<and> at n g = at n (g + int (length n) - 1 - f)"
  show ?case
  proof (cases ?c)
    case True
    have "g + int (length n) - 1 - f = g + (int (length n) - 1 - f)" by simp
    then have "at n g = at n (g + (int (length n) - 1 - f))" using True by (simp only:)
    then have "at n x = at n (x + (int (length n) - 1 - f))" if "g - 1 < x" "x \<le> f" for x
      using that 1(2) by (cases "x = g") (auto simp: agree_def)
    then have "agree n (g - 1) f (int (length n) - 1 - f)" by (simp add: agree_def)
    with 1(1) [OF True] True 1(4) show ?thesis by (subst suffix_match.simps) (simp add: Let_def)
  next
    case False
    then have "suffix_match n f g = g" by (simp only: suffix_match.simps [of n f g] if_not_P if_False)
    moreover have "is_sfx n f (f - g)"
      using 1(2-4) False by (auto simp: is_sfx_def)
    ultimately show ?thesis using 1(2-4) by (simp add: Let_def)
  qed
qed

lemma suffixes_loop_sfx:
  assumes "0 < length n" "length result = length n"
    "\<And>p. int k \<le> p \<Longrightarrow> p < int (length n) \<Longrightarrow> is_sfx n p (at result p)"
    "int k \<le> f" "f < int (length n)" "- 1 \<le> g" "g \<le> f" "agree n g f (int (length n) - 1 - f)"
    "k < length n" "f = int (length n) - 1 \<longrightarrow> int k - 1 < g"
  shows "length (suffixes_loop n k f g result) = length n \<and>
    (\<forall>p. 0 \<le> p \<and> p < int (length n) \<longrightarrow> is_sfx n p (at (suffixes_loop n k f g result) p))"
  using assms(2-)
proof (induction k arbitrary: f g result)
  case 0
  then show ?case by simp
next
  case (Suc k)
  let ?i = "int k" and ?m = "int (length n)"
  let ?i' = "?i + ?m - 1 - f"
  show ?case
  proof (cases "?i > g \<and> at result ?i' < ?i - g")
    case True
    let ?v = "at result ?i'"
    have f: "f < ?m - 1" using Suc.prems(4,9) True by auto
    have i': "?i < ?i'" "?i' < ?m" using f Suc.prems(3) by auto
    have sfx': "is_sfx n ?i' ?v" using Suc.prems(2) [of ?i'] i' by simp
    have shift: "x + (?m - 1 - f) + (?m - 1 - ?i') = x + (?m - 1 - ?i)" for x by simp
    have ag: "at n x = at n (x + (?m - 1 - f))" if "g < x" "x \<le> ?i" for x
      using Suc.prems(7) Suc.prems(3) that by (auto simp: agree_def)
    have ag': "at n y = at n (y + (?m - 1 - ?i'))" if "?i' - ?v < y" "y \<le> ?i'" for y
      using sfx' that by (auto simp: is_sfx_def agree_def)
    have "is_sfx n ?i ?v"
      unfolding is_sfx_def
    proof (intro conjI)
      show "0 \<le> ?v" "?v \<le> ?i + 1" using sfx' True Suc.prems(5) by (auto simp: is_sfx_def)
      show "agree n (?i - ?v) ?i (?m - 1 - ?i)"
        unfolding agree_def
      proof (intro allI impI)
        fix x assume x: "?i - ?v < x \<and> x \<le> ?i"
        have "at n x = at n (x + (?m - 1 - f))" by (rule ag) (use x True in auto)
        also have "\<dots> = at n (x + (?m - 1 - f) + (?m - 1 - ?i'))" by (rule ag') (use x in auto)
        finally show "at n x = at n (x + (?m - 1 - ?i))" unfolding shift .
      qed
      have "?v \<noteq> ?i' + 1" using True i'(1) Suc.prems(5) by auto
      then have "at n (?i' - ?v) \<noteq> at n (?i' - ?v + ?m - 1 - ?i')" using sfx' by (simp add: is_sfx_def)
      moreover have "at n (?i - ?v) = at n (?i - ?v + (?m - 1 - f))" by (rule ag) (use True sfx' in \<open>auto simp: is_sfx_def\<close>)
      moreover have e: "?i - ?v + (?m - 1 - f) = ?i' - ?v" by simp
      moreover have e': "?i' - ?v + ?m - 1 - ?i' = ?i - ?v + ?m - 1 - ?i" by simp
      ultimately have "at n (?i - ?v) \<noteq> at n (?i - ?v + ?m - 1 - ?i)" unfolding e e' by metis
      then show "?v = ?i + 1 \<or> at n (?i - ?v) \<noteq> at n (?i - ?v + ?m - 1 - ?i)" ..
    qed
    then have "is_sfx n p (at (upd result ?i ?v) p)" if "?i \<le> p" "p < ?m" for p
      using Suc.prems(1,2,8) that by (cases "p = ?i") (simp_all add: at_upd)
    then have "length (suffixes_loop n k f g (upd result ?i ?v)) = length n \<and>
        (\<forall>p. 0 \<le> p \<and> p < ?m \<longrightarrow> is_sfx n p (at (suffixes_loop n k f g (upd result ?i ?v)) p))"
      using Suc.prems f by (intro Suc.IH) auto
    then show ?thesis using True by (simp add: Let_def)
  next
    case False
    let ?g = "if ?i < g then ?i else g"
    have win: "agree n ?g ?i (?m - 1 - ?i)"
    proof (cases "?i \<le> g")
      case True
      then show ?thesis by (auto simp: agree_def)
    next
      case less: False
      with Suc.prems(9) have f: "f < ?m - 1" using Suc.prems(4) by auto
      have i': "?i < ?i'" "?i' < ?m" using f Suc.prems(3) by auto
      have sfx': "is_sfx n ?i' (at result ?i')" using Suc.prems(2) [of ?i'] i' by simp
      have "at n x = at n (x + (?m - 1 - ?i))" if "g < x" "x \<le> ?i" for x
      proof -
        have "at n x = at n (x + (?m - 1 - f))" using Suc.prems(7) Suc.prems(3) that by (auto simp: agree_def)
        also have "\<dots> = at n (x + (?m - 1 - f) + (?m - 1 - ?i'))"
          using sfx' that False less by (auto simp: is_sfx_def agree_def)
        also have "x + (?m - 1 - f) + (?m - 1 - ?i') = x + (?m - 1 - ?i)" by simp
        finally show ?thesis .
      qed
      then show ?thesis using less by (simp add: agree_def)
    qed
    define g' where "g' = suffix_match n ?i ?g"
    have g': "- 1 \<le> g'" "g' \<le> ?i" "agree n g' ?i (?m - 1 - ?i)" "is_sfx n ?i (?i - g')"
      using suffix_match_is_sfx [OF win] Suc.prems(5) by (auto simp: g'_def Let_def)
    then have "is_sfx n p (at (upd result ?i (?i - g')) p)" if "?i \<le> p" "p < ?m" for p
      using Suc.prems(1,2,8) that by (cases "p = ?i") (simp_all add: at_upd)
    then have "length (suffixes_loop n k ?i g' (upd result ?i (?i - g'))) = length n \<and>
        (\<forall>p. 0 \<le> p \<and> p < ?m \<longrightarrow> is_sfx n p (at (suffixes_loop n k ?i g' (upd result ?i (?i - g'))) p))"
      using Suc.prems g' by (intro Suc.IH) auto
    moreover have "suffixes_loop n (Suc k) f g result = suffixes_loop n k ?i g' (upd result ?i (?i - g'))"
      by (simp only: suffixes_loop.simps Let_def if_not_P [OF False] g'_def)
    ultimately show ?thesis by simp
  qed
qed

lemma suffixes_sfx:
  assumes "0 < length n"
  shows "length (suffixes n) = length n" "p < length n \<Longrightarrow> is_sfx n (int p) (suffixes n ! p)"
proof -
  let ?m = "int (length n)" and ?r = "(replicate (length n) 0)[length n - 1 := int (length n)]"
  have "is_sfx n p (at ?r p)" if "int (length n - 1) \<le> p" "p < ?m" for p
  proof -
    have "p = ?m - 1" using that by linarith
    moreover have "nat (?m - 1) = length n - 1" using assms by simp
    ultimately show ?thesis using assms by (auto simp: is_sfx_def agree_def at_def)
  qed
  then have "length (suffixes_loop n (length n - 1) (?m - 1) (?m - 1) ?r) = length n \<and>
    (\<forall>p. 0 \<le> p \<and> p < ?m \<longrightarrow> is_sfx n p (at (suffixes_loop n (length n - 1) (?m - 1) (?m - 1) ?r) p))"
    using assms by (intro suffixes_loop_sfx) (auto simp: agree_def)
  then have s: "length (suffixes n) = length n" "\<And>p. 0 \<le> p \<and> p < ?m \<Longrightarrow> is_sfx n p (at (suffixes n) p)"
    by (auto simp: suffixes_def Let_def)
  show "length (suffixes n) = length n" by (rule s)
  show "p < length n \<Longrightarrow> is_sfx n (int p) (suffixes n ! p)" using s(2) [of "int p"] by (simp add: at_def)
qed

subsection \<open>The good suffix heuristic\<close>

lemma fill_shift_values:
  "0 \<le> j \<Longrightarrow> bound \<le> m \<Longrightarrow> int (length result) = m \<Longrightarrow> (\<And>q. j \<le> q \<Longrightarrow> q < m \<Longrightarrow> at result q = m) \<Longrightarrow>
   fill_shift m bound j result = (j', result') \<Longrightarrow>
   j' = max j bound \<and> length result' = length result
   \<and> (\<forall>q. 0 \<le> q \<and> q < m \<longrightarrow> at result' q = (if j \<le> q \<and> q < bound then bound else at result q))"
proof (induction m bound j result rule: fill_shift.induct)
  case (1 m bound j result)
  show ?case
  proof (cases "j < bound")
    case True
    then have j: "at result j = m" using 1(3,5) by simp
    have step: "fill_shift m bound (j + 1) (upd result j bound) = (j', result')"
      using 1(6) True j by (simp add: fill_shift.simps [of m bound j result])
    have "j' = max (j + 1) bound \<and> length result' = length (upd result j bound)
      \<and> (\<forall>q. 0 \<le> q \<and> q < m \<longrightarrow> at result' q = (if j + 1 \<le> q \<and> q < bound then bound else at (upd result j bound) q))"
      using 1(1) [OF True] 1(2-5) True step j by (simp add: at_upd)
    then show ?thesis using True 1(2-4) by (auto simp: at_upd)
  next
    case False
    then show ?thesis using 1(6) by (simp add: fill_shift.simps [of m bound j result])
  qed
qed

text \<open>What the loop over the borders of the needle keeps, \<open>k\<close> being the last position it looked at.\<close>

definition border_inv :: "int list \<Rightarrow> int \<Rightarrow> nat \<Rightarrow> int \<Rightarrow> int list \<Rightarrow> bool" where
  "border_inv suff m k j result \<longleftrightarrow> int (length result) = m \<and> 0 \<le> j \<and> j \<le> m
     \<and> (\<forall>q. 0 \<le> q \<and> q < j \<longrightarrow> 1 \<le> at result q \<and> at result q \<le> m - 1 - int k)
     \<and> (\<forall>q. j \<le> q \<and> q < m \<longrightarrow> at result q = m)
     \<and> (\<forall>p q. k \<le> p \<and> int p < m \<and> suff ! p = int p + 1 \<and> 0 \<le> q \<and> q < m - 1 - int p \<longrightarrow> at result q \<le> m - 1 - int p)"

lemma border_inv_low: "border_inv suff m k j result \<Longrightarrow> 0 \<le> q \<Longrightarrow> q < j \<Longrightarrow> 1 \<le> at result q \<and> at result q \<le> m - 1 - int k"
  by (simp add: border_inv_def)

lemma border_inv_high: "border_inv suff m k j result \<Longrightarrow> j \<le> q \<Longrightarrow> q < m \<Longrightarrow> at result q = m"
  by (simp add: border_inv_def)

lemma border_inv_border:
  "border_inv suff m k j result \<Longrightarrow> k \<le> p \<Longrightarrow> int p < m \<Longrightarrow> suff ! p = int p + 1 \<Longrightarrow> 0 \<le> q \<Longrightarrow> q < m - 1 - int p \<Longrightarrow>
   at result q \<le> m - 1 - int p"
  unfolding border_inv_def by blast

lemma border_inv_step:
  assumes "border_inv suff m (Suc k) j result" "int k < m" "suff ! k = int k + 1"
    "fill_shift m (m - 1 - int k) j result = (j', result')"
  shows "border_inv suff m k j' result'"
proof -
  note inv = assms(1) [unfolded border_inv_def]
  have f: "j' = max j (m - 1 - int k)" "length result' = length result"
      "\<And>q. 0 \<le> q \<Longrightarrow> q < m \<Longrightarrow> at result' q = (if j \<le> q \<and> q < m - 1 - int k then m - 1 - int k else at result q)"
    using fill_shift_values [OF _ _ _ _ assms(4)] inv by auto
  have old: "at result q \<le> m - 1 - int p" if "Suc k \<le> p" "int p < m" "suff ! p = int p + 1" "0 \<le> q" "q < m - 1 - int p" for p q
    using inv that by blast
  have "at result' q \<le> m - 1 - int p"
    if p: "k \<le> p" "int p < m" "suff ! p = int p + 1" "0 \<le> q" "q < m - 1 - int p" for p q
  proof (cases "p = k")
    case True
    have "at result q \<le> m - 1 - int k" if "q < j" using inv p that by fastforce
    then show ?thesis using True p f(3) [of q] by auto
  next
    case False
    then have le: "at result q \<le> m - 1 - int p" using old p by simp
    have "\<not> j \<le> q" using inv le p by fastforce
    then show ?thesis using le p f(3) [of q] by simp
  qed
  moreover have "1 \<le> at result' q \<and> at result' q \<le> m - 1 - int k" if "0 \<le> q" "q < j'" for q
  proof (cases "q < j")
    case True
    then have "1 \<le> at result q \<and> at result q \<le> m - 1 - int (Suc k)" using inv that by blast
    then show ?thesis using True f(3) [of q] inv that by auto
  next
    case False
    then show ?thesis using f(1) f(3) [of q] that by auto
  qed
  moreover have "at result' q = m" if "j' \<le> q" "q < m" for q
    using inv f(1) f(3) [of q] that by auto
  ultimately show ?thesis using inv f(1,2) by (auto simp: border_inv_def)
qed

lemma border_inv_skip:
  "border_inv suff m (Suc k) j result \<Longrightarrow> suff ! k \<noteq> int k + 1 \<Longrightarrow> border_inv suff m k j result"
proof -
  assume inv: "border_inv suff m (Suc k) j result" and neq: "suff ! k \<noteq> int k + 1"
  have "at result q \<le> m - 1 - int p" if "k \<le> p \<and> int p < m \<and> suff ! p = int p + 1 \<and> 0 \<le> q \<and> q < m - 1 - int p" for p q
  proof -
    have "Suc k \<le> p" using that neq by (cases "p = k") auto
    then show ?thesis using inv that unfolding border_inv_def by blast
  qed
  moreover have "1 \<le> at result q \<and> at result q \<le> m - 1 - int k" if "0 \<le> q \<and> q < j" for q
  proof -
    have "1 \<le> at result q \<and> at result q \<le> m - 1 - int (Suc k)" using inv that unfolding border_inv_def by blast
    then show ?thesis by simp
  qed
  ultimately show ?thesis using inv unfolding border_inv_def by blast
qed

definition border_done :: "int list \<Rightarrow> int \<Rightarrow> int list \<Rightarrow> bool" where
  "border_done suff m r \<longleftrightarrow> int (length r) = m
     \<and> (\<forall>q. 0 \<le> q \<and> q < m \<longrightarrow> 1 \<le> at r q \<and> at r q \<le> m)
     \<and> (\<forall>p q. int p < m \<and> suff ! p = int p + 1 \<and> 0 \<le> q \<and> q < m - 1 - int p \<longrightarrow> at r q \<le> m - 1 - int p)"

lemma border_done_fill:
  assumes "border_inv suff m 0 j result" "fill_shift m m j result = (j', r)"
  shows "border_done suff m r"
proof -
  note inv = assms(1) [unfolded border_inv_def]
  have keep: "\<And>q. j \<le> q \<Longrightarrow> q < m \<Longrightarrow> at result q = m" "0 \<le> j" "int (length result) = m" using inv by blast+
  have r: "length r = length result"
    "\<And>q. 0 \<le> q \<Longrightarrow> q < m \<Longrightarrow> at r q = (if j \<le> q then m else at result q)"
    using fill_shift_values [OF keep(2) order_refl keep(3) keep(1) assms(2)] by (simp, simp)
  have "1 \<le> at r q \<and> at r q \<le> m" if q: "0 \<le> q" "q < m" for q
  proof (cases "q < j")
    case True
    have "at r q = at result q" using r(2) [OF q] True by (simp only: not_le [symmetric] if_not_P)
    moreover have "1 \<le> at result q" "at result q \<le> m - 1 - int 0" using border_inv_low [OF assms(1) q(1) True] by auto
    ultimately show ?thesis by linarith
  next
    case False
    then show ?thesis using r(2) [OF q] q by simp
  qed
  moreover have "at r q \<le> m - 1 - int p" if p: "int p < m \<and> suff ! p = int p + 1 \<and> 0 \<le> q \<and> q < m - 1 - int p" for p q
  proof -
    have le: "at result q \<le> m - 1 - int p" by (rule border_inv_border [OF assms(1)]) (use p in auto)
    have q: "0 \<le> q" "q < m" using p by auto
    have "q < j"
    proof (rule ccontr)
      assume "\<not> q < j"
      then have "at result q = m" using border_inv_high [OF assms(1)] q by simp
      then show False using le by simp
    qed
    then show ?thesis using le r(2) [OF q] by simp
  qed
  ultimately show ?thesis using inv r(1) unfolding border_done_def by auto
qed

lemma prefix_loop_done:
  "border_inv suff m k j result \<Longrightarrow> int k \<le> m \<Longrightarrow> border_done suff m (prefix_loop suff m k j result)"
proof (induction k arbitrary: j result)
  case 0
  obtain j' r where f: "fill_shift m m j result = (j', r)" by fastforce
  then show ?case using border_done_fill [OF 0(1) f] by simp
next
  case (Suc k)
  show ?case
  proof (cases "suff ! k = int k + 1")
    case True
    obtain j' r where f: "fill_shift m (m - 1 - int k) j result = (j', r)" by fastforce
    have "border_inv suff m k j' r" using border_inv_step [OF Suc.prems(1) _ True f] Suc.prems(2) by simp
    then show ?thesis using Suc.IH Suc.prems(2) True f by simp
  next
    case False
    then show ?thesis using Suc.IH [OF border_inv_skip [OF Suc.prems(1) False]] Suc.prems(2) by simp
  qed
qed

text \<open>The loop that enters the matches inside the needle: the last one stays.\<close>

lemma inner_matches:
  fixes m :: int
  assumes "int (length result) = m" "int k \<le> m - 1" "\<And>p. p < k \<Longrightarrow> 0 \<le> suff ! p \<and> suff ! p \<le> m - 1"
  defines "r \<equiv> fold (\<lambda>i result. upd result (m - 1 - suff ! i) (m - 1 - int i)) [0..<k] result"
  shows "int (length r) = m \<and> (\<forall>q. 0 \<le> q \<and> q < m \<longrightarrow>
      (\<forall>p < k. suff ! p = m - 1 - q \<longrightarrow> at r q \<le> m - 1 - int p)
      \<and> (at r q = at result q \<or> (\<exists>p < k. suff ! p = m - 1 - q \<and> at r q = m - 1 - int p)))"
  unfolding r_def using assms(2,3)
proof (induction k)
  case 0
  then show ?case using assms(1) by simp
next
  case (Suc k)
  let ?r = "fold (\<lambda>i result. upd result (m - 1 - suff ! i) (m - 1 - int i)) [0..<k] result"
  have IH: "int (length ?r) = m"
      "\<And>q p. 0 \<le> q \<Longrightarrow> q < m \<Longrightarrow> p < k \<Longrightarrow> suff ! p = m - 1 - q \<Longrightarrow> at ?r q \<le> m - 1 - int p"
      "\<And>q. 0 \<le> q \<Longrightarrow> q < m \<Longrightarrow> at ?r q = at result q \<or> (\<exists>p < k. suff ! p = m - 1 - q \<and> at ?r q = m - 1 - int p)"
    using Suc.IH Suc.prems by auto
  have at_r: "at (upd ?r (m - 1 - suff ! k) (m - 1 - int k)) q = (if suff ! k = m - 1 - q then m - 1 - int k else at ?r q)"
    if "0 \<le> q" "q < m" for q
    using Suc.prems(2) [of k] IH(1) that by (auto simp: at_upd)
  show ?case
    using IH(1) by (auto simp: at_r less_Suc_eq IH(2)) (use IH(3) in blast)+
qed

text \<open>
  The needle moved by \<open>t\<close> past a mismatch at \<open>i\<close> can match only if the part after \<open>i\<close> lies \<open>t\<close>
  earlier in the needle, not preceded by the same byte.
\<close>

definition fits :: "byte list \<Rightarrow> int \<Rightarrow> int \<Rightarrow> bool" where
  "fits n i t \<longleftrightarrow> (\<forall>k. i < k \<and> k < int (length n) \<and> t \<le> k \<longrightarrow> at n (k - t) = at n k)
     \<and> (t \<le> i \<longrightarrow> at n (i - t) \<noteq> at n i)"

lemma fits_sfx:
  assumes "fits n i t" "0 \<le> i" "1 \<le> t" "t < int (length n)" "i < int (length n)"
  shows "is_sfx n (int (length n) - 1 - t) (if t \<le> i then int (length n) - 1 - i else int (length n) - t)"
proof -
  let ?m = "int (length n)"
  have eq: "at n x = at n (x + t)" if "i < x + t" "0 \<le> x" "x \<le> ?m - 1 - t" for x
  proof -
    have "at n (x + t - t) = at n (x + t)" using assms(1) that unfolding fits_def by (meson le_add_same_cancel2 order_le_less_trans zle_diff1_eq assms diff_add_cancel le_diff_eq)
    then show ?thesis by simp
  qed
  show ?thesis
  proof (cases "t \<le> i")
    case True
    have "at n (i - t) \<noteq> at n i" using assms(1) True by (simp add: fits_def)
    then have "at n (?m - 1 - t - (?m - 1 - i)) \<noteq> at n (?m - 1 - t - (?m - 1 - i) + ?m - 1 - (?m - 1 - t))" by simp
    moreover have "at n x = at n (x + (?m - 1 - (?m - 1 - t)))" if "?m - 1 - t - (?m - 1 - i) < x" "x \<le> ?m - 1 - t" for x
      using eq [of x] that True by simp
    ultimately show ?thesis using True assms by (simp add: is_sfx_def agree_def)
  next
    case False
    then show ?thesis using eq assms by (simp add: is_sfx_def agree_def)
  qed
qed

lemma goodsuffix_range:
  assumes "0 < length n"
  shows "int (length (prepare_goodsuffix_heuristic n)) = int (length n)"
    "0 \<le> i \<Longrightarrow> i < int (length n) \<Longrightarrow> 1 \<le> at (prepare_goodsuffix_heuristic n) i"
    "0 \<le> i \<Longrightarrow> i < int (length n) \<Longrightarrow> at (prepare_goodsuffix_heuristic n) i \<le> int (length n)"
    "0 \<le> i \<Longrightarrow> fits n i t \<Longrightarrow> 1 \<le> t \<Longrightarrow> i < int (length n) \<Longrightarrow> at (prepare_goodsuffix_heuristic n) i \<le> t"
proof -
  let ?m = "int (length n)" and ?gs = "prepare_goodsuffix_heuristic n"
  define r where "r = prefix_loop (suffixes n) ?m (length n) 0 (replicate (length n) ?m)"
  have "border_inv (suffixes n) ?m (length n) 0 (replicate (length n) ?m)"
    by (auto simp: border_inv_def at_def)
  then have r: "border_done (suffixes n) ?m r" unfolding r_def by (rule prefix_loop_done) simp
  have len: "int (length r) = ?m" using r by (simp add: border_done_def)
  have low: "1 \<le> at r q" "at r q \<le> ?m" if "0 \<le> q" "q < ?m" for q using r that by (auto simp: border_done_def)
  have border: "at r q \<le> ?m - 1 - int p" if "int p < ?m" "suffixes n ! p = int p + 1" "0 \<le> q" "q < ?m - 1 - int p" for p q
    using r that unfolding border_done_def by blast
  have sfx: "is_sfx n (int p) (suffixes n ! p)" if "p < length n" for p using suffixes_sfx(2) [OF assms that] .
  have "int (length ?gs) = ?m \<and> (\<forall>q. 0 \<le> q \<and> q < ?m \<longrightarrow>
      (\<forall>p < length n - 1. suffixes n ! p = ?m - 1 - q \<longrightarrow> at ?gs q \<le> ?m - 1 - int p)
      \<and> (at ?gs q = at r q \<or> (\<exists>p < length n - 1. suffixes n ! p = ?m - 1 - q \<and> at ?gs q = ?m - 1 - int p)))"
    unfolding prepare_goodsuffix_heuristic_def Let_def r_def [symmetric]
  proof (rule inner_matches [OF len])
    show "int (length n - 1) \<le> ?m - 1" using assms by simp
    fix p assume "p < length n - 1"
    then have "p < length n" "int p + 1 \<le> ?m - 1" by linarith+
    then show "0 \<le> suffixes n ! p \<and> suffixes n ! p \<le> ?m - 1" using sfx [of p] by (simp add: is_sfx_def)
  qed
  then have gs: "int (length ?gs) = ?m"
    "\<And>q p. 0 \<le> q \<Longrightarrow> q < ?m \<Longrightarrow> p < length n - 1 \<Longrightarrow> suffixes n ! p = ?m - 1 - q \<Longrightarrow> at ?gs q \<le> ?m - 1 - int p"
    "\<And>q. 0 \<le> q \<Longrightarrow> q < ?m \<Longrightarrow> at ?gs q = at r q \<or> (\<exists>p < length n - 1. suffixes n ! p = ?m - 1 - q \<and> at ?gs q = ?m - 1 - int p)"
    by blast+
  show "int (length ?gs) = ?m" by (rule gs)
  show range: "1 \<le> at ?gs i" "at ?gs i \<le> ?m" if "0 \<le> i" "i < ?m" for i
    using gs(3) [OF that] low [OF that] assms by auto
  show "at ?gs i \<le> t" if i: "0 \<le> i" and f: "fits n i t" and t: "1 \<le> t" and im: "i < ?m"
  proof (cases "t < ?m")
    case False
    then show ?thesis using range(2) [OF i im] by simp
  next
    case True
    define p where "p = nat (?m - 1 - t)"
    have p: "int p = ?m - 1 - t" "p < length n - 1" using True t by (auto simp: p_def)
    have s: "suffixes n ! p = (if t \<le> i then ?m - 1 - i else ?m - t)"
      by (rule is_sfx_unique [OF sfx]) (use p fits_sfx [OF f i t True im] in auto)
    show ?thesis
    proof (cases "t \<le> i")
      case True
      then show ?thesis using gs(2) [OF i im p(2)] s p(1) by simp
    next
      case False
      then have "at r i \<le> t" using border [of p i] s p i by simp
      moreover have "?m - 1 - int p' \<le> t" if "p' < length n - 1" "suffixes n ! p' = ?m - 1 - i" for p'
      proof -
        have "is_sfx n (int p') (?m - 1 - i)" using sfx [of p'] that by simp
        then show ?thesis using False by (simp add: is_sfx_def)
      qed
      ultimately show ?thesis using gs(3) [OF i im] by metis
    qed
  qed
qed

subsection \<open>The bad character heuristic\<close>

lemma unat_byte: "unat (c :: byte) < 256"
  using unsigned_less [of c] by simp

lemma badcharacter_fold:
  fixes m :: int
  assumes "k \<le> length n"
  defines "r \<equiv> fold (\<lambda>i result. result[unat (n ! i) := m - int i - 1]) [0..<k] (replicate 256 m)"
  shows "length r = 256 \<and> (\<forall>c :: byte. (r ! unat c = m \<or> (\<exists>p < k. r ! unat c = m - int p - 1))
      \<and> (\<forall>p < k. n ! p = c \<longrightarrow> r ! unat c \<le> m - int p - 1))"
  unfolding r_def using assms(1)
proof (induction k)
  case 0
  show ?case by (simp add: unat_byte)
next
  case (Suc k)
  let ?r = "fold (\<lambda>i result. result[unat (n ! i) := m - int i - 1]) [0..<k] (replicate 256 m)"
  have IH: "length ?r = 256" "\<And>c :: byte. ?r ! unat c = m \<or> (\<exists>p < k. ?r ! unat c = m - int p - 1)"
    "\<And>(c :: byte) p. p < k \<Longrightarrow> n ! p = c \<Longrightarrow> ?r ! unat c \<le> m - int p - 1"
    using Suc.IH Suc.prems by auto
  have at_r: "?r[unat (n ! k) := m - int k - 1] ! unat c = (if n ! k = c then m - int k - 1 else ?r ! unat c)" for c
    using IH(1) by (auto simp: nth_list_update unat_byte word_unat_eq_iff)
  show ?case using IH(1) by (auto simp: at_r less_Suc_eq) (use IH(2,3) in fastforce)+
qed

lemma badcharacter_le:
  assumes "0 < length n"
  shows "prepare_badcharacter_heuristic n ! unat c \<le> int (length n)"
    "0 \<le> q \<Longrightarrow> q < int (length n) - 1 \<Longrightarrow> at n q = c \<Longrightarrow>
     prepare_badcharacter_heuristic n ! unat c \<le> int (length n) - 1 - q"
proof -
  have bc: "prepare_badcharacter_heuristic n ! unat c = int (length n)
      \<or> (\<exists>p < length n - 1. prepare_badcharacter_heuristic n ! unat c = int (length n) - int p - 1)"
    "\<And>p. p < length n - 1 \<Longrightarrow> n ! p = c \<Longrightarrow> prepare_badcharacter_heuristic n ! unat c \<le> int (length n) - int p - 1"
    using badcharacter_fold [of "length n - 1" n "int (length n)"]
    by (auto simp: prepare_badcharacter_heuristic_def Let_def)
  show "prepare_badcharacter_heuristic n ! unat c \<le> int (length n)" using bc(1) by auto
  assume "0 \<le> q" "q < int (length n) - 1" "at n q = c"
  then show "prepare_badcharacter_heuristic n ! unat c \<le> int (length n) - 1 - q"
    using bc(2) [of "nat q"] by (fastforce simp: at_def)
qed

subsection \<open>The search\<close>

lemma compare_down_mismatch:
  "compare_down needle hay j k = i \<Longrightarrow> i < int k \<and> - 1 \<le> i
   \<and> (\<forall>x. i < x \<and> x < int k \<longrightarrow> at needle x = at hay (x + j)) \<and> (0 \<le> i \<longrightarrow> at needle i \<noteq> at hay (i + j))"
proof (induction k)
  case 0
  then show ?case by auto
next
  case (Suc k)
  have k: "at needle (int k) = needle ! k" by (simp add: at_def)
  show ?case
  proof (cases "needle ! k = at hay (int k + j)")
    case True
    then have IH: "i < int k \<and> - 1 \<le> i \<and> (\<forall>x. i < x \<and> x < int k \<longrightarrow> at needle x = at hay (x + j))
      \<and> (0 \<le> i \<longrightarrow> at needle i \<noteq> at hay (i + j))" using Suc by simp
    have "at needle x = at hay (x + j)" if "i < x" "x < int (Suc k)" for x
      using IH True k that by (cases "x = int k") auto
    then show ?thesis using IH by simp
  next
    case False
    then show ?thesis using Suc.prems k by auto
  qed
qed

lemma occurs_at_iff:
  "occurs_at needle hay p \<longleftrightarrow> p + length needle \<le> length hay
     \<and> (\<forall>x. 0 \<le> x \<and> x < int (length needle) \<longrightarrow> at needle x = at hay (x + int p))"
proof -
  have "take (length needle) (drop p hay) = needle \<longleftrightarrow> (\<forall>k < length needle. hay ! (p + k) = needle ! k)"
    if "p + length needle \<le> length hay"
    using that by (auto simp: list_eq_iff_nth_eq)
  moreover have "(\<forall>k < length needle. hay ! (p + k) = needle ! k)
      \<longleftrightarrow> (\<forall>x. 0 \<le> x \<and> x < int (length needle) \<longrightarrow> at needle x = at hay (x + int p))" (is "?l \<longleftrightarrow> ?r")
  proof
    show ?r if ?l
    proof (intro allI impI)
      fix x assume x: "0 \<le> x \<and> x < int (length needle)"
      then have "nat x < length needle" by linarith
      then have "hay ! (p + nat x) = needle ! nat x" using that by blast
      then show "at needle x = at hay (x + int p)" using x by (simp add: at_def nat_add_distrib add.commute)
    qed
    show ?l if ?r
    proof (intro allI impI)
      fix k assume "k < length needle"
      then have "at needle (int k) = at hay (int k + int p)" using that by simp
      then show "hay ! (p + k) = needle ! k" by (simp add: at_def nat_int_add add.commute)
    qed
  qed
  ultimately show ?thesis by (auto simp: occurs_at_def)
qed

lemma find_upt: "List.find P [0..<N] = Some p \<longleftrightarrow> p < N \<and> P p \<and> (\<forall>q < p. \<not> P q)"
proof -
  have "(\<forall>j < i. \<not> P ([0..<N] ! j)) \<longleftrightarrow> (\<forall>j < i. \<not> P j)" if "i < N" for i using that by auto
  then show ?thesis by (auto simp: find_Some_iff)
qed

lemma first_occurrence_Some:
  "first_occurrence needle hay = Some p \<longleftrightarrow> occurs_at needle hay p \<and> (\<forall>q < p. \<not> occurs_at needle hay q)"
proof -
  have "occurs_at needle hay q \<Longrightarrow> q < length hay + 1 - length needle" for q by (auto simp: occurs_at_def)
  then show ?thesis by (auto simp: first_occurrence_def find_upt)
qed

lemma first_occurrence_None: "first_occurrence needle hay = None \<longleftrightarrow> (\<forall>q. \<not> occurs_at needle hay q)"
proof -
  have "occurs_at needle hay q \<Longrightarrow> q < length hay + 1 - length needle" for q by (auto simp: occurs_at_def)
  then show ?thesis by (auto simp: first_occurrence_def find_None_iff)
qed

lemma occurs_fits:
  assumes "compare_down needle hay j (length needle) = i" "0 \<le> i" "0 \<le> j" "1 \<le> t"
    "occurs_at needle hay (nat (j + t))"
  shows "fits needle i t"
    "t \<le> i \<Longrightarrow> at needle (i - t) = at hay (i + j)"
proof -
  have occ: "at needle x = at hay (x + j + t)" if "0 \<le> x" "x < int (length needle)" for x
    using assms(3,4,5) that by (simp add: occurs_at_iff add.assoc)
  have cmp: "i < int (length needle)" "\<And>x. i < x \<Longrightarrow> x < int (length needle) \<Longrightarrow> at needle x = at hay (x + j)"
    "at needle i \<noteq> at hay (i + j)"
    using compare_down_mismatch [OF assms(1)] assms(2) by auto
  show bad: "at needle (i - t) = at hay (i + j)" if "t \<le> i"
    using occ [of "i - t"] cmp(1) assms(4) that by simp
  have "at needle (k - t) = at needle k" if "i < k" "k < int (length needle)" "t \<le> k" for k
    using occ [of "k - t"] cmp(2) [of k] assms(4) that by simp
  then show "fits needle i t" using bad cmp(3) by (simp add: fits_def)
qed

lemma bm_shift_skips:
  assumes "bm_new needle = Inr bm" "needle \<noteq> []" "compare_down needle hay j (length needle) = i" "0 \<le> i" "0 \<le> j"
  shows "1 \<le> bm_shift bm i (at hay (i + j))"
    "1 \<le> t \<Longrightarrow> t < bm_shift bm i (at hay (i + j)) \<Longrightarrow> \<not> occurs_at needle hay (nat (j + t))"
proof -
  let ?m = "int (length needle)" and ?c = "at hay (i + j)"
  have bm: "bm = \<lparr>bm_badcharacter = prepare_badcharacter_heuristic needle,
      bm_goodsuffix = prepare_goodsuffix_heuristic needle, bm_needle = needle\<rparr>"
    using assms(1,2) by (auto simp: bm_new_def split: if_splits)
  have len: "0 < length needle" using assms(2) by simp
  have i: "i < ?m" using compare_down_mismatch [OF assms(3)] by simp
  have "1 \<le> at (prepare_goodsuffix_heuristic needle) i" by (rule goodsuffix_range(2) [OF len assms(4) i])
  then show "1 \<le> bm_shift bm i ?c" by (simp add: bm_shift_def bm)
  assume t: "1 \<le> t" "t < bm_shift bm i ?c"
  show "\<not> occurs_at needle hay (nat (j + t))"
  proof
    assume occ: "occurs_at needle hay (nat (j + t))"
    note f = occurs_fits [OF assms(3-5) t(1) occ]
    have "at (prepare_goodsuffix_heuristic needle) i \<le> t" by (rule goodsuffix_range(4) [OF len assms(4) f(1) t(1) i])
    moreover have "prepare_badcharacter_heuristic needle ! unat ?c - ?m + 1 + i \<le> t"
    proof (cases "t \<le> i")
      case True
      then show ?thesis using badcharacter_le(2) [OF len, of "i - t" ?c] f(2) i t(1) by simp
    next
      case False
      then show ?thesis using badcharacter_le(1) [OF len, of ?c] by simp
    qed
    ultimately show False using t(2) by (simp add: bm_shift_def bm)
  qed
qed

lemma bm_loop_finds:
  assumes "bm_new needle = Inr bm" "needle \<noteq> []"
  shows "0 \<le> j \<Longrightarrow> (\<And>q. int q < j \<Longrightarrow> \<not> occurs_at needle hay q) \<Longrightarrow>
    bm_loop bm hay j = Some (map_option int (first_occurrence needle hay))"
proof (induction "nat (int (length hay) - j)" arbitrary: j rule: less_induct)
  case less
  have n: "bm_needle bm = needle" using assms by (auto simp: bm_new_def split: if_splits)
  have past: "first_occurrence needle hay = None" if "j > int (length hay) - int (length needle)"
  proof -
    have "\<not> occurs_at needle hay q" for q
      using less.prems(2) [of q] that by (cases "int q < j") (auto simp: occurs_at_def)
    then show ?thesis by (simp add: first_occurrence_None)
  qed
  show ?case
  proof (cases "j \<le> int (length hay) - int (length needle)")
    case False
    then show ?thesis using past by (subst bm_loop.simps) (simp add: n)
  next
    case True
    define i where "i = compare_down needle hay j (length needle)"
    note cmp = compare_down_mismatch [OF i_def [symmetric]]
    show ?thesis
    proof (cases "i < 0")
      case neg: True
      have "at needle x = at hay (x + j)" if "0 \<le> x" "x < int (length needle)" for x
        using cmp neg that by auto
      then have "occurs_at needle hay (nat j)" using True less.prems(1) by (auto simp: occurs_at_iff)
      then have "first_occurrence needle hay = Some (nat j)"
        using less.prems by (auto simp: first_occurrence_Some)
      then show ?thesis using True neg less.prems(1) by (subst bm_loop.simps) (simp add: n Let_def i_def)
    next
      case False
      define s where "s = bm_shift bm i (at hay (i + j))"
      have shift: "1 \<le> s" "\<And>t. 1 \<le> t \<Longrightarrow> t < s \<Longrightarrow> \<not> occurs_at needle hay (nat (j + t))"
        unfolding s_def using bm_shift_skips [OF assms i_def [symmetric] _ less.prems(1)] False by auto
      have "\<not> occurs_at needle hay (nat j)"
        using cmp False less.prems(1) by (auto simp: occurs_at_iff)
      then have "\<not> occurs_at needle hay q" if "int q < j + s" for q
        using less.prems(2) [of q] shift(2) [of "int q - j"] that
        by (cases "int q < j"; cases "int q = j") auto
      then have "bm_loop bm hay (j + s) = Some (map_option int (first_occurrence needle hay))"
      proof (intro less.hyps)
        have "0 < length needle" using assms(2) by simp
        then show "nat (int (length hay) - (j + s)) < nat (int (length hay) - j)" using True shift(1) by linarith
      qed (use less.prems(1) shift(1) in auto)
      then show ?thesis using True False
        by (subst bm_loop.simps) (simp add: n Let_def i_def [symmetric] s_def [symmetric])
    qed
  qed
qed

lemma bm_search_finds:
  assumes "bm_new needle = Inr bm" "length haystack < INT_MAX"
  shows "bm_search bm haystack =
    Some (Inr (if needle = [] then None else map_option int (first_occurrence needle haystack)))"
proof (cases "needle = []")
  case True
  then show ?thesis using assms by (auto simp: bm_new_def bm_search_def INT_MAX_def split: if_splits)
next
  case False
  have n: "bm_needle bm = needle" using assms(1) by (auto simp: bm_new_def split: if_splits)
  have "first_occurrence needle haystack = None" if "length needle > length haystack"
    using that by (auto simp: first_occurrence_None occurs_at_def)
  moreover have "bm_loop bm haystack 0 = Some (map_option int (first_occurrence needle haystack))"
    by (rule bm_loop_finds [OF assms(1) False]) simp_all
  ultimately show ?thesis using False assms(2) by (auto simp: bm_search_def n)
qed

subsection \<open>The search is right\<close>

text \<open>C16: For every needle the constructor accepts and every haystack shorter than \<open>INT_MAX\<close>, the
  search ends and returns the first position at which the needle lies in the haystack, or nothing when
  there is none or the needle is empty: it is the search that looks at every position.\<close>

theorem bm_search_first_occurrence:
  assumes "bm_new needle = Inr bm" "length haystack < INT_MAX"
  shows "bm_search bm haystack =
    Some (Inr (if needle = [] then None else map_option int (first_occurrence needle haystack)))"
  by (rule bm_search_finds [OF assms])

theorem bm_search_first_occurrence_witness:
  "bm_search (projr (bm_new [2, 1, 2, 2])) [1, 2, 1, 1, 2, 1, 2, 1, 2, 2] = Some (Inr (Some 6))"
proof -
  have "bm_new [2, 1, 2, 2] = Inr (projr (bm_new [2, 1, 2, 2]))" by (simp add: bm_new_def INT_MAX_def)
  from bm_search_first_occurrence [OF this, of "[1, 2, 1, 1, 2, 1, 2, 1, 2, 2]"]
  have "bm_search (projr (bm_new [2, 1, 2, 2])) [1, 2, 1, 1, 2, 1, 2, 1, 2, 2]
      = Some (Inr (map_option int (first_occurrence [2, 1, 2, 2] [1, 2, 1, 1, 2, 1, 2, 1, 2, 2])))"
    by (simp add: INT_MAX_def)
  moreover have "first_occurrence [2, 1, 2, 2] [1, 2, 1, 1, 2, 1, 2, 1, 2, 2] = Some 6" by code_simp
  ultimately show ?thesis by simp
qed

end
