(* ===== verification/Framer.thy ===== *)
theory Framer
  imports Timestamps BoyerMoore
begin

text \<open>
  The framer of \<open>src/src/tthreadfns.h\<close>: it cuts the data frames out of a stream of bytes that arrives
  in blocks of any size. Bytes of an unfinished frame are kept in a buffer of one frame. The order of
  the frames, their number and their times do not depend on where the blocks end.
\<close>

subsection \<open>State\<close>

datatype framer_error = Accu_Overrun | Search_Error bm_error | Check_Error ts_error | Decode_Error ts_error
  | Header_Larger_Than_Frame

record oframe =
  of_frametype :: format_type
  of_ntrack :: nat
  of_frametime :: highrestime
  of_framedata :: "byte list"

text \<open>
  \<open>fs_accu\<close> is what lies before \<open>ncached\<close> in the accumulation block. \<open>fs_counter\<close> is the step's
  statistics counter and \<open>fs_calls\<close> the number of times the clock was read.
\<close>

record framer_state =
  fs_accu :: "byte list"
  fs_to_next :: nat
  fs_dec :: m5b_state
  fs_calls :: nat
  fs_out :: "oframe list"
  fs_counter :: nat
  fs_stop :: bool

type_synonym ('e, 'a) result = "('e + 'a) option"

definition and_then :: "('e, 'a) result \<Rightarrow> ('a \<Rightarrow> ('e, 'b) result) \<Rightarrow> ('e, 'b) result" where
  "and_then m f = Option.bind m (\<lambda>r. case r of Inl e \<Rightarrow> Some (Inl e) | Inr a \<Rightarrow> f a)"

definition chk_default :: strict where
  "chk_default = \<lparr>chk_syncword = True, chk_crc = True, chk_strict = True, chk_consistent = True,
     chk_allow_dbe = False, chk_nothrow = False\<rparr>"

definition tm_decode_flg :: "bool \<Rightarrow> strict" where
  "tm_decode_flg st =
     (if st then chk_default
      else \<lparr>chk_syncword = False, chk_crc = False, chk_strict = False, chk_consistent = True,
             chk_allow_dbe = True, chk_nothrow = True\<rparr>)"

text \<open>
  What is fixed during a run: the header, \<open>strict\<close>, the search object, the clock by number of
  reading and which pushes downstream succeed.
\<close>

record framer_env =
  fe_hdr :: headersearch
  fe_strict :: bool
  fe_search :: "byte list \<Rightarrow> (bm_error, int option) result"
  fe_now :: "nat \<Rightarrow> int"
  fe_accepts :: "nat \<Rightarrow> bool"

definition syncword_area :: "headersearch \<Rightarrow> nat" where
  "syncword_area hdr = hs_syncwordoffset hdr + hs_syncwordsize hdr"

definition no_syncword :: "headersearch \<Rightarrow> bool" where
  "no_syncword hdr \<longleftrightarrow> hs_syncwordsize hdr = 0 \<or> SYNCWORD_ST (hs_frameformat hdr) = []"

definition find_syncword :: "framer_env \<Rightarrow> byte list \<Rightarrow> (framer_error, nat option) result" where
  "find_syncword env bytes =
     Option.bind (fe_search env bytes) (\<lambda>r. case r of Inl e \<Rightarrow> Some (Inl (Search_Error e))
       | Inr p \<Rightarrow> Some (Inr (map_option nat p)))"

definition passes_check :: "framer_env \<Rightarrow> byte list \<Rightarrow> framer_error + bool" where
  "passes_check env bytes =
     (if fe_strict env then case check_frame (fe_hdr env) bytes chk_default 5 of Inl e \<Rightarrow> Inl (Check_Error e) | Inr b \<Rightarrow> Inr b
      else Inr True)"

text \<open>Decoding the time of a frame; a frame without a time is dropped.\<close>

definition framer_emit :: "framer_env \<Rightarrow> bool \<Rightarrow> byte list \<Rightarrow> framer_state \<Rightarrow> framer_error + framer_state" where
  "framer_emit env count_refused f s =
     (let hdr = fe_hdr env;
          (d, r) = decode_timestamp (fe_now env (fs_calls s)) hdr f (tm_decode_flg (fe_strict env)) 0 (fs_dec s);
          s = s\<lparr>fs_dec := d, fs_calls := fs_calls s + 1\<rparr>
      in case r of
           Inl e \<Rightarrow> Inl (Decode_Error e)
         | Inr t \<Rightarrow>
             if tv_sec t \<noteq> 0
             then let ok = fe_accepts env (length (fs_out s));
                      counted = (if ok \<or> count_refused then hs_framesize hdr else 0)
                  in Inr (s\<lparr>fs_stop := \<not> ok,
                            fs_out := fs_out s @ (if ok then [\<lparr>of_frametype = hs_frameformat hdr, of_ntrack = hs_ntrack hdr,
                              of_frametime = t, of_framedata = f\<rparr>] else []),
                            fs_counter := fs_counter s + counted\<rparr>)
             else Inr s)"

subsection \<open>Completing a frame that started in an earlier block\<close>

text \<open>One turn of the first loop over the bytes of a block, from position \<open>ptr\<close> with \<open>ncached\<close> bytes kept.\<close>

definition fill_step :: "framer_env \<Rightarrow> byte list \<Rightarrow> nat \<Rightarrow> nat \<Rightarrow> framer_state \<Rightarrow>
    (framer_error, nat \<times> nat \<times> framer_state) result" where
  "fill_step env b ptr0 ncached0 s0 =
     (let hdr = fe_hdr env; area = syncword_area hdr;
          search = (ncached0 < area \<and> \<not> no_syncword hdr);
          navail = length b - ptr0;
          ncpy = (if search then min (2 * area - 1 - ncached0) navail else min (fs_to_next s0) navail)
      in if ncached0 + ncpy > hs_framesize hdr then Some (Inl Accu_Overrun)
         else
           let accu = take ncached0 (fs_accu s0) @ take ncpy (drop ptr0 b);
               s = s0\<lparr>fs_accu := accu, fs_to_next := fs_to_next s0 - ncpy\<rparr>;
               ptr = ptr0 + ncpy;
               ncached = ncached0 + ncpy;
               restart = (\<lambda>s. s\<lparr>fs_accu := [], fs_to_next := hs_framesize hdr\<rparr>)
           in case (if hs_headersize hdr \<le> ncached then passes_check env accu else Inr True) of
                Inl e \<Rightarrow> Some (Inl e)
              | Inr False \<Rightarrow> Some (Inr (if ptr > area then ptr - area else ptr, 0, restart s))
              | Inr True \<Rightarrow>
                  if fs_to_next s = 0
                  then (case framer_emit env True accu s of
                          Inl e \<Rightarrow> Some (Inl e)
                        | Inr s' \<Rightarrow> Some (Inr (ptr, 0, restart s')))
                  else if \<not> search then Some (Inr (ptr, ncached, s))
                  else and_then (find_syncword env accu) (\<lambda>sw. case sw of
                       None \<Rightarrow>
                         if ncpy \<ge> area - 1 then Some (Inr (0, 0, restart s))
                         else let nkeep = min (area - 1) ncached
                              in Some (Inr (ptr, nkeep, s\<lparr>fs_accu := drop (ncached - nkeep) accu,
                                                          fs_to_next := hs_framesize hdr - nkeep\<rparr>))
                     | Some swpos \<Rightarrow>
                         if swpos < hs_syncwordoffset hdr then Some (Inr (0, 0, restart s))
                         else let diff = swpos - hs_syncwordoffset hdr
                              in Some (Inr (ptr, ncached - diff, s\<lparr>fs_accu := drop diff accu,
                                                                   fs_to_next := fs_to_next s + diff\<rparr>))))"

partial_function (option) fill_loop :: "framer_env \<Rightarrow> byte list \<Rightarrow> nat \<Rightarrow> nat \<Rightarrow> framer_state \<Rightarrow>
    (framer_error, nat \<times> framer_state) result" where
  "fill_loop env b ptr ncached s =
     (if ncached \<noteq> 0 \<and> ptr < length b
      then Option.bind (fill_step env b ptr ncached s) (\<lambda>r. case r of
             Inl e \<Rightarrow> Some (Inl e)
           | Inr x \<Rightarrow> fill_loop env b (fst x) (fst (snd x)) (snd (snd x)))
      else Some (Inr (ptr, s)))"

subsection \<open>Frames inside a block\<close>

definition search_step :: "framer_env \<Rightarrow> byte list \<Rightarrow> nat \<Rightarrow> framer_state \<Rightarrow>
    (framer_error, nat \<times> framer_state) result" where
  "search_step env b ptr s =
     (let hdr = fe_hdr env; area = syncword_area hdr; navail = length b - ptr
      in and_then (if no_syncword hdr then Some (Inr (Some 0)) else find_syncword env (drop ptr b)) (\<lambda>sw. case sw of
           None \<Rightarrow>
             let nkeep = min (area - 1) navail
             in if nkeep > hs_framesize hdr then Some (Inl Accu_Overrun)
                else Some (Inr (length b, s\<lparr>fs_accu := drop (length b - nkeep) b, fs_to_next := hs_framesize hdr - nkeep\<rparr>))
         | Some swpos \<Rightarrow>
             if swpos < hs_syncwordoffset hdr then Some (Inr (ptr + swpos + hs_syncwordsize hdr, s))
             else
               let sof = ptr + swpos - hs_syncwordoffset hdr; num = length b - sof
               in if num < hs_framesize hdr
                  then Some (Inr (length b, s\<lparr>fs_accu := drop sof b, fs_to_next := hs_framesize hdr - num\<rparr>))
                  else case passes_check env (drop sof b) of
                         Inl e \<Rightarrow> Some (Inl e)
                       | Inr False \<Rightarrow> Some (Inr (sof + area, s))
                       | Inr True \<Rightarrow>
                           case framer_emit env False (take (hs_framesize hdr) (drop sof b)) s of
                             Inl e \<Rightarrow> Some (Inl e)
                           | Inr s' \<Rightarrow> Some (Inr (sof + hs_framesize hdr, s'))))"

partial_function (option) search_loop :: "framer_env \<Rightarrow> byte list \<Rightarrow> nat \<Rightarrow> framer_state \<Rightarrow>
    (framer_error, framer_state) result" where
  "search_loop env b ptr s =
     (if ptr < length b \<and> \<not> fs_stop s
      then Option.bind (search_step env b ptr s) (\<lambda>r. case r of
             Inl e \<Rightarrow> Some (Inl e)
           | Inr x \<Rightarrow> search_loop env b (fst x) (snd x))
      else Some (Inr s))"

subsection \<open>The step\<close>

definition framer_block :: "framer_env \<Rightarrow> byte list \<Rightarrow> framer_state \<Rightarrow> (framer_error, framer_state) result" where
  "framer_block env b s =
     and_then (fill_loop env b 0 (hs_framesize (fe_hdr env) - fs_to_next s) s) (\<lambda>(ptr, s).
       if fs_stop s \<or> ptr \<ge> length b then Some (Inr s) else search_loop env b ptr s)"

fun framer_blocks :: "framer_env \<Rightarrow> byte list list \<Rightarrow> framer_state \<Rightarrow> (framer_error, framer_state) result" where
  "framer_blocks env [] s = Some (Inr s)"
| "framer_blocks env (b # bs) s =
     (if fs_stop s then Some (Inr s) else and_then (framer_block env b s) (framer_blocks env bs))"

definition syncword_search :: "headersearch \<Rightarrow> bm_error + boyer_moore" where
  "syncword_search hdr = bm_new (take (hs_syncwordsize hdr) (SYNCWORD_ST (hs_frameformat hdr)))"

definition framer_start :: "headersearch \<Rightarrow> m5b_state \<Rightarrow> framer_state" where
  "framer_start hdr d =
     \<lparr>fs_accu = [], fs_to_next = hs_framesize hdr, fs_dec = d, fs_calls = 0, fs_out = [], fs_counter = 0, fs_stop = False\<rparr>"

text \<open>The blocks are those taken from the queue until it is closed; the decoder starts as \<open>d\<close>.\<close>

definition framer :: "(nat \<Rightarrow> int) \<Rightarrow> (nat \<Rightarrow> bool) \<Rightarrow> headersearch \<Rightarrow> bool \<Rightarrow> m5b_state \<Rightarrow> byte list list \<Rightarrow>
    (framer_error, framer_state) result" where
  "framer now accepts hdr st d blocks =
     (case syncword_search hdr of
        Inl e \<Rightarrow> Some (Inl (Search_Error e))
      | Inr bm \<Rightarrow>
          if \<not> hs_framesize hdr \<ge> hs_headersize hdr then Some (Inl Header_Larger_Than_Frame)
          else framer_blocks \<lparr>fe_hdr = hdr, fe_strict = st, fe_search = bm_search bm, fe_now = now, fe_accepts = accepts\<rparr>
                 blocks (framer_start hdr d))"

declare fill_loop.simps [code] search_loop.simps [code]

subsection \<open>Checks look at the header only\<close>

lemma match_bytes_more: "match_bytes f pos w = Inr r \<Longrightarrow> match_bytes (f @ x) pos w = Inr r"
  by (induction w arbitrary: pos) (auto simp: byte_at_def nth_append split: if_splits)

lemma skip_ones_more: "skip_ones f step k pos c = Inr r \<Longrightarrow> skip_ones (f @ x) step k pos c = Inr r"
proof (induction f step k pos c rule: skip_ones.induct)
  case (1 f step k pos c)
  show ?case
  proof (cases "k < 8")
    case False
    then show ?thesis using 1(2) by (simp add: skip_ones.simps [of _ step k])
  next
    case True
    then obtain c' where c': "byte_at f pos = Some c'"
      using 1(2) by (cases "byte_at f pos") (simp_all add: skip_ones.simps [of f step k])
    then have more: "byte_at (f @ x) pos = Some c'" by (auto simp: byte_at_def nth_append split: if_splits)
    show ?thesis
      using 1(1) [OF _ c'] 1(2) True c' more
      by (simp add: skip_ones.simps [of f step k pos c] skip_ones.simps [of "f @ x" step k pos c] split: if_splits)
  qed
qed

lemma extract_loop_more:
  "extract_loop strip step m f n cnt src dby dbi dst = Inr r \<Longrightarrow>
   extract_loop strip step m (f @ x) n cnt src dby dbi dst = Inr r"
  by (induction strip step m f n cnt src dby dbi dst rule: extract_loop.induct)
     (auto simp: Let_def nth_append split: if_splits)

lemma check_header_more:
  assumes "check_header strip len ok h st f track = Inr r"
  shows "check_header strip len ok h st (f @ x) track = Inr r"
proof -
  let ?sync = "\<lambda>f. if chk_syncword st then check_syncword h f else Inr True"
  let ?skip = "\<lambda>f. skip_ones f (hs_ntrack h div 8) 0 (hs_syncwordoffset h + hs_syncwordsize h) 0"
  let ?ext = "\<lambda>f. extract_bitstream strip (replicate len 0) track (hs_ntrack h) (len * 8) f"
  have sync: "?sync f = Inr b \<Longrightarrow> ?sync (f @ x) = Inr b" for b
    by (auto simp: check_syncword_def match_bytes_more split: if_splits)
  have skip: "?skip f = Inr p \<Longrightarrow> ?skip (f @ x) = Inr p" for p by (rule skip_ones_more)
  have ext: "?ext f = Inr t \<Longrightarrow> ?ext (f @ x) = Inr t" for t
    by (auto simp: extract_bitstream_def extract_loop_more split: if_splits)
  show ?thesis
  proof (cases "?sync f")
    case (Inr b)
    note sync' = Inr sync [OF Inr]
    show ?thesis
    proof (cases "b \<and> (\<exists>p. ?skip f = Inr p)")
      case False
      then show ?thesis using assms sync' unfolding check_header_def by (cases b; cases "?skip f") auto
    next
      case True
      then obtain p where p: "?skip f = Inr p" by blast
      note p' = p skip [OF p]
      show ?thesis
      proof (cases "?ext f")
        case (Inr t)
        then show ?thesis using assms sync' p' ext [OF Inr] True unfolding check_header_def by (auto split: prod.splits)
      next
        case (Inl e)
        then show ?thesis using assms sync' p' True unfolding check_header_def by (auto split: prod.splits if_splits)
      qed
    qed
  qed (use assms in \<open>simp add: check_header_def\<close>)
qed

lemma check_mark5b_more:
  assumes "check_mark5b h st f = Inr r"
  shows "check_mark5b h st (f @ x) = Inr r"
proof -
  define m where "m = (\<lambda>f :: byte list. map (\<lambda>i. f ! (8 + 4 * (i div 4) + (3 - i mod 4))) [0..<8])"
  have "m (f @ x) = m f" if "16 \<le> length f"
    unfolding m_def
  proof (intro map_cong refl)
    fix i assume "i \<in> set [0..<8 :: nat]"
    then have "i div 4 < 2" by (simp add: less_mult_imp_div_less)
    then have "8 + 4 * (i div 4) + (3 - i mod 4) < 16" by linarith
    then show "(f @ x) ! (8 + 4 * (i div 4) + (3 - i mod 4)) = f ! (8 + 4 * (i div 4) + (3 - i mod 4))"
      using that by (intro nth_append_left) linarith
  qed
  moreover have "check_syncword h f = Inr b \<Longrightarrow> check_syncword h (f @ x) = Inr b" for b
    by (simp add: check_syncword_def match_bytes_more)
  ultimately show ?thesis
    using assms unfolding check_mark5b_def m_def [THEN fun_cong, symmetric]
    by (cases "chk_syncword st"; cases "check_syncword h f") (simp_all split: if_splits bool.splits)
qed

lemma check_frame_more: "check_frame h f st track = Inr r \<Longrightarrow> check_frame h (f @ x) st track = Inr r"
  unfolding check_frame_def Let_def check_mark4_def check_vlba_def
  by (auto split: codec.splits sum.splits dest: check_header_more [where x = x] check_mark5b_more [where x = x])

lemma passes_check_more: "passes_check env f = Inr r \<Longrightarrow> passes_check env (f @ x) = Inr r"
  unfolding passes_check_def by (auto split: if_splits sum.splits dest: check_frame_more [where x = x])

subsection \<open>Streams of frames\<close>

definition needle_of :: "headersearch \<Rightarrow> byte list" where
  "needle_of hdr = take (hs_syncwordsize hdr) (SYNCWORD_ST (hs_frameformat hdr))"

text \<open>What the layout of the header has to provide.\<close>

definition framing :: "headersearch \<Rightarrow> bool" where
  "framing hdr \<longleftrightarrow> 0 < hs_framesize hdr \<and> hs_framesize hdr < INT_MAX \<and> hs_headersize hdr \<le> hs_framesize hdr
     \<and> (if no_syncword hdr then syncword_area hdr = 0
        else length (needle_of hdr) = hs_syncwordsize hdr \<and> 2 * syncword_area hdr \<le> hs_framesize hdr + 1)"

text \<open>
  A frame: the sync word occurs first where the header has it, and with \<open>strict\<close> its header passes the
  check. \<open>framed\<close>: whole frames and the beginning of one more.
\<close>

definition data_frame :: "framer_env \<Rightarrow> byte list \<Rightarrow> bool" where
  "data_frame env f \<longleftrightarrow> length f = hs_framesize (fe_hdr env)
     \<and> (\<not> no_syncword (fe_hdr env) \<longrightarrow> first_occurrence (needle_of (fe_hdr env)) f = Some (hs_syncwordoffset (fe_hdr env)))
     \<and> passes_check env (take (hs_headersize (fe_hdr env)) f) = Inr True"

definition framed :: "framer_env \<Rightarrow> byte list list \<Rightarrow> byte list \<Rightarrow> bool" where
  "framed env fs t \<longleftrightarrow> (\<forall>f \<in> set fs. data_frame env f)
     \<and> length t < hs_framesize (fe_hdr env) \<and> (\<exists>g. data_frame env g \<and> t = take (length t) g)"

fun emit_all :: "framer_env \<Rightarrow> byte list list \<Rightarrow> framer_state \<Rightarrow> framer_error + framer_state" where
  "emit_all env [] s = Inr s"
| "emit_all env (f # fs) s = (case framer_emit env False f s of Inl e \<Rightarrow> Inl e | Inr s' \<Rightarrow> emit_all env fs s')"

definition parked :: "framer_env \<Rightarrow> byte list \<Rightarrow> framer_state \<Rightarrow> framer_state" where
  "parked env p s = s\<lparr>fs_accu := p, fs_to_next := hs_framesize (fe_hdr env) - length p\<rparr>"

lemma parked_simps [simp]:
  "parked env p (parked env q s) = parked env p s" "fs_accu (parked env p s) = p"
  "fs_to_next (parked env p s) = hs_framesize (fe_hdr env) - length p" "fs_stop (parked env p s) = fs_stop s"
  by (simp_all add: parked_def)

lemma parked_iff: "s = parked env p s \<longleftrightarrow> fs_accu s = p \<and> fs_to_next s = hs_framesize (fe_hdr env) - length p"
  by (cases s) (auto simp: parked_def)

lemma emit_parked: "framer_emit env c f (parked env p s) = map_sum id (parked env p) (framer_emit env c f s)"
  by (simp add: framer_emit_def parked_def Let_def split: prod.split sum.split)

lemma emit_accepted:
  assumes "\<And>n. fe_accepts env n"
  shows "framer_emit env c f s = framer_emit env False f s"
    "framer_emit env False f s = Inr s' \<Longrightarrow> \<not> fs_stop s \<Longrightarrow> \<not> fs_stop s' \<and> fs_accu s' = fs_accu s \<and> fs_to_next s' = fs_to_next s"
  using assms by (auto simp: framer_emit_def Let_def split: prod.splits sum.splits if_splits)

lemma emit_all_append:
  "emit_all env (fs @ gs) s = (case emit_all env fs s of Inl e \<Rightarrow> Inl e | Inr s' \<Rightarrow> emit_all env gs s')"
  by (induction fs arbitrary: s) (auto split: sum.split)

lemma emit_all_parked: "emit_all env fs (parked env p s) = map_sum id (parked env p) (emit_all env fs s)"
  by (induction fs arbitrary: s) (auto simp: emit_parked split: sum.split)

text \<open>Bytes that agree with a frame as far as both go.\<close>

definition agrees :: "byte list \<Rightarrow> byte list \<Rightarrow> bool" where
  "agrees f x \<longleftrightarrow> take (length f) x = take (length x) f"

lemma agrees_take: "agrees f x \<Longrightarrow> agrees f (take n x)"
proof -
  assume "agrees f x"
  then have "take n (take (length f) x) = take n (take (length x) f)" by (simp add: agrees_def)
  then show ?thesis by (simp add: agrees_def min.commute)
qed

lemma agrees_append [simp]: "agrees f (f @ x)"
  by (simp add: agrees_def)

lemma agrees_start: "agrees f (take n f)"
  by (simp add: agrees_def min_def)

lemma agrees_whole: "agrees f x \<Longrightarrow> length f \<le> length x \<Longrightarrow> take (length f) x = f"
  by (simp add: agrees_def)

lemma agrees_part: "agrees f x \<Longrightarrow> length x \<le> length f \<Longrightarrow> x = take (length x) f"
  by (simp add: agrees_def)

lemma agrees_occurs:
  assumes "agrees f x" "q + length w \<le> length f" "q + length w \<le> length x"
  shows "occurs_at w x q \<longleftrightarrow> occurs_at w f q"
proof -
  have "take (length w) (drop q x) = take (length w) (drop q (take (length f) x))"
    using assms(2) by (simp add: take_drop min_def add.commute)
  also have "\<dots> = take (length w) (drop q (take (length x) f))" using assms(1) by (simp add: agrees_def)
  also have "\<dots> = take (length w) (drop q f)" using assms(3) by (simp add: take_drop min_def add.commute)
  finally show ?thesis using assms(2,3) by (simp add: occurs_at_def)
qed

lemma first_sync:
  assumes "agrees f x" "first_occurrence w f = Some off" "off + length w \<le> length f"
  shows "first_occurrence w x = (if off + length w \<le> length x then Some off else None)"
proof -
  have f: "occurs_at w f off" "\<And>q. q < off \<Longrightarrow> \<not> occurs_at w f q" using assms(2) by (auto simp: first_occurrence_Some)
  have before: "\<not> occurs_at w x q" if "q < off" for q
  proof
    assume o: "occurs_at w x q"
    then have "q + length w \<le> length x" by (simp add: occurs_at_def)
    then show False using agrees_occurs [OF assms(1), of q w] o f(2) [OF that] that assms(3) by simp
  qed
  show ?thesis
  proof (cases "off + length w \<le> length x")
    case True
    then have "occurs_at w x off" using agrees_occurs [OF assms(1,3)] f(1) by simp
    then show ?thesis using True before by (simp add: first_occurrence_Some)
  next
    case False
    then have "\<not> occurs_at w x q" for q using before by (cases "q < off") (auto simp: occurs_at_def)
    then show ?thesis using False by (simp add: first_occurrence_None)
  qed
qed

subsection \<open>The search the framer relies on\<close>

text \<open>What the framer needs from the search object: it is made for one needle and finds its first occurrence.\<close>

locale occurrence_search =
  fixes search :: "byte list \<Rightarrow> byte list \<Rightarrow> (bm_error, int option) result"
  assumes search_finds: "0 < length w \<Longrightarrow> length w < INT_MAX \<Longrightarrow> length hay < INT_MAX \<Longrightarrow>
    search w hay = Some (Inr (map_option int (first_occurrence w hay)))"
begin

lemma find_first:
  assumes "fe_search env = search (needle_of (fe_hdr env))" "framing (fe_hdr env)" "\<not> no_syncword (fe_hdr env)"
    "length x < INT_MAX"
  shows "find_syncword env x = Some (Inr (first_occurrence (needle_of (fe_hdr env)) x))"
proof -
  have "0 < length (needle_of (fe_hdr env))" using assms(3) by (auto simp: needle_of_def no_syncword_def)
  moreover have "length (needle_of (fe_hdr env)) < INT_MAX"
    using assms(2,3) by (auto simp: framing_def syncword_area_def)
  ultimately show ?thesis using assms(1,4) by (simp add: find_syncword_def search_finds option.map_comp comp_def option.map_ident)
qed

lemma find_sync:
  assumes "fe_search env = search (needle_of (fe_hdr env))" "framing (fe_hdr env)" "data_frame env f" "agrees f x"
    "length x < INT_MAX"
  shows "(if no_syncword (fe_hdr env) then Some (Inr (Some 0)) else find_syncword env x)
    = Some (Inr (if syncword_area (fe_hdr env) \<le> length x then Some (hs_syncwordoffset (fe_hdr env)) else None))"
proof (cases "no_syncword (fe_hdr env)")
  case True
  then show ?thesis using assms(2) by (auto simp: framing_def syncword_area_def)
next
  case False
  let ?w = "needle_of (fe_hdr env)"
  have w: "length ?w = hs_syncwordsize (fe_hdr env)" "2 * syncword_area (fe_hdr env) \<le> hs_framesize (fe_hdr env) + 1"
    using assms(2) False by (simp_all add: framing_def)
  have pos: "0 < syncword_area (fe_hdr env)" using False by (simp add: syncword_area_def no_syncword_def)
  have f: "length f = hs_framesize (fe_hdr env)" "first_occurrence ?w f = Some (hs_syncwordoffset (fe_hdr env))"
    using assms(3) False by (simp_all add: data_frame_def)
  have "hs_syncwordoffset (fe_hdr env) + length ?w \<le> length f"
    using w pos f(1) by (simp add: syncword_area_def)
  from first_sync [OF assms(4) f(2) this] show ?thesis
    using find_first [OF assms(1,2) False assms(5)] False by (simp add: w syncword_area_def)
qed

lemma search_step_stream:
  assumes "fe_search env = search (needle_of (fe_hdr env))" "framing (fe_hdr env)" "data_frame env f"
    "agrees f (drop ptr b)" "ptr < length b" "length b < INT_MAX"
  shows "search_step env b ptr s =
    (if length b - ptr < hs_framesize (fe_hdr env) then Some (Inr (length b, parked env (drop ptr b) s))
     else case framer_emit env False f s of Inl e \<Rightarrow> Some (Inl e)
          | Inr s' \<Rightarrow> Some (Inr (ptr + hs_framesize (fe_hdr env), s')))"
proof -
  let ?F = "hs_framesize (fe_hdr env)" and ?area = "syncword_area (fe_hdr env)"
  have area: "?area \<le> ?F" "0 < ?area \<or> no_syncword (fe_hdr env)"
    using assms(2) by (auto simp: framing_def syncword_area_def no_syncword_def split: if_splits)
  have found: "(if no_syncword (fe_hdr env) then Some (Inr (Some 0)) else find_syncword env (drop ptr b))
      = Some (Inr (if ?area \<le> length b - ptr then Some (hs_syncwordoffset (fe_hdr env)) else None))"
    using find_sync [OF assms(1-4)] assms(6) by simp
  show ?thesis
  proof (cases "?area \<le> length b - ptr")
    case False
    then have "min (?area - 1) (length b - ptr) = length b - ptr" by simp
    then show ?thesis using found False area assms(5) by (simp add: search_step_def and_then_def Let_def parked_def)
  next
    case True
    show ?thesis
    proof (cases "length b - ptr < ?F")
      case less: True
      then show ?thesis using found True by (simp add: search_step_def and_then_def Let_def parked_def)
    next
      case False
      then have whole: "take ?F (drop ptr b) = f"
        using agrees_whole [OF assms(4)] assms(3) by (simp add: data_frame_def)
      have "drop ptr b = take (hs_headersize (fe_hdr env)) f @ drop (hs_headersize (fe_hdr env)) f @ drop ?F (drop ptr b)"
        using whole by (metis append.assoc append_take_drop_id)
      then have "passes_check env (drop ptr b) = Inr True"
        using assms(3) passes_check_more unfolding data_frame_def by metis
      then show ?thesis using found True False whole by (simp add: search_step_def and_then_def Let_def)
    qed
  qed
qed

end

lemma framed_next:
  assumes "framed env fs t" "x = concat fs @ t"
  shows "\<exists>f. data_frame env f \<and> agrees f x \<and> (case fs of [] \<Rightarrow> True | g # _ \<Rightarrow> f = g)"
proof (cases fs)
  case Nil
  obtain g where g: "data_frame env g" "t = take (length t) g" using assms(1) by (auto simp: framed_def)
  then have "agrees g t" using agrees_start by metis
  then show ?thesis using g(1) assms(2) Nil by auto
next
  case (Cons f gs)
  then have "data_frame env f" "agrees f x" using assms by (auto simp: framed_def)
  then show ?thesis using Cons by auto
qed

lemma framed_Cons: "framed env (f # fs) t \<longleftrightarrow> data_frame env f \<and> framed env fs t"
  by (auto simp: framed_def)

lemma length_data_frame: "data_frame env f \<Longrightarrow> length f = hs_framesize (fe_hdr env)"
  by (simp add: data_frame_def)

context occurrence_search
begin

lemma search_loop_stream:
  assumes "fe_search env = search (needle_of (fe_hdr env))" "framing (fe_hdr env)" "\<And>n. fe_accepts env n"
    "length b < INT_MAX"
  shows "framed env fs t \<Longrightarrow> drop ptr b = concat fs @ t \<Longrightarrow> ptr \<le> length b \<Longrightarrow> \<not> fs_stop s \<Longrightarrow> s = parked env [] s \<Longrightarrow>
    search_loop env b ptr s = Some (map_sum id (parked env t) (emit_all env fs s))"
proof (induction fs arbitrary: ptr s)
  case Nil
  show ?case
  proof (cases "ptr < length b")
    case False
    then have "t = []" using Nil.prems(2) by simp
    then show ?thesis using False Nil.prems(5) by (simp add: search_loop.simps [of env b ptr])
  next
    case True
    obtain g where g: "data_frame env g" "agrees g (drop ptr b)"
      using framed_next [OF Nil.prems(1,2)] by auto
    have "length b - ptr = length t" using Nil.prems(2) by (metis concat.simps(1) append_Nil length_drop)
    moreover have "length t < hs_framesize (fe_hdr env)" using Nil.prems(1) by (simp add: framed_def)
    ultimately have "search_step env b ptr s = Some (Inr (length b, parked env t s))"
      using search_step_stream [OF assms(1,2) g True assms(4)] Nil.prems(2) by simp
    then show ?thesis using True Nil.prems(4)
      by (simp add: search_loop.simps [of env b ptr] search_loop.simps [of env b "length b"])
  qed
next
  case (Cons f fs)
  let ?F = "hs_framesize (fe_hdr env)"
  have f: "data_frame env f" "framed env fs t" using Cons.prems(1) by (simp_all add: framed_Cons)
  have x: "drop ptr b = f @ concat fs @ t" using Cons.prems(2) by simp
  then have len: "length b - ptr = ?F + length (concat fs @ t)"
    using length_data_frame [OF f(1)] by (metis length_append length_drop)
  have "0 < ?F" using assms(2) by (simp add: framing_def)
  then have ptr: "ptr < length b" using len by linarith
  have step: "search_step env b ptr s = (case framer_emit env False f s of Inl e \<Rightarrow> Some (Inl e)
      | Inr s' \<Rightarrow> Some (Inr (ptr + ?F, s')))"
    using search_step_stream [OF assms(1,2) f(1) _ ptr assms(4), of s] x len by simp
  show ?case
  proof (cases "framer_emit env False f s")
    case (Inl e)
    then show ?thesis using step ptr Cons.prems(4) by (simp add: search_loop.simps [of env b ptr])
  next
    case (Inr s')
    have s': "\<not> fs_stop s'" "s' = parked env [] s'"
      using emit_accepted(2) [OF assms(3) Inr Cons.prems(4)] Cons.prems(5) by (auto simp: parked_iff)
    have "drop (ptr + ?F) b = concat fs @ t"
      using x length_data_frame [OF f(1)] by (metis add.commute append_eq_conv_conj drop_drop)
    then have "search_loop env b (ptr + ?F) s' = Some (map_sum id (parked env t) (emit_all env fs s'))"
      by (rule Cons.IH [OF f(2) _ _ s']) (use len ptr in auto)
    then show ?thesis using step Inr ptr Cons.prems(4) by (simp add: search_loop.simps [of env b ptr] id_def)
  qed
qed

end

context occurrence_search
begin

lemma fill_step_stream:
  assumes "fe_search env = search (needle_of (fe_hdr env))" "framing (fe_hdr env)" "\<And>n. fe_accepts env n"
    "data_frame env f" "agrees f (p @ drop ptr b)" "p \<noteq> []" "length p < hs_framesize (fe_hdr env)" "ptr < length b"
    "s = parked env p s"
  shows "\<exists>k. 0 < k \<and> k \<le> length b - ptr \<and> length p + k \<le> hs_framesize (fe_hdr env) \<and>
    fill_step env b ptr (length p) s =
      (if length p + k = hs_framesize (fe_hdr env)
       then case framer_emit env False f s of Inl e \<Rightarrow> Some (Inl e) | Inr s' \<Rightarrow> Some (Inr (ptr + k, 0, parked env [] s'))
       else Some (Inr (ptr + k, length p + k, parked env (p @ take k (drop ptr b)) s)))"
proof -
  let ?hdr = "fe_hdr env"
  let ?F = "hs_framesize ?hdr" and ?area = "syncword_area ?hdr"
  define srch where "srch = (length p < ?area \<and> \<not> no_syncword ?hdr)"
  define k where "k = (if srch then min (2 * ?area - 1 - length p) (length b - ptr) else min (?F - length p) (length b - ptr))"
  define a where "a = p @ take k (drop ptr b)"
  have acc: "fs_accu s = p" "fs_to_next s = ?F - length p" using assms(9) by (metis parked_simps(2,3))+
  have area2: "srch \<Longrightarrow> 2 * ?area \<le> ?F + 1" using assms(2) by (simp add: framing_def srch_def)
  then have k: "0 < k" "k \<le> length b - ptr" "length p + k \<le> ?F" using assms(7,8) by (auto simp: k_def srch_def)
  then have la: "length a = length p + k" by (simp add: a_def)
  have lf: "length f = ?F" by (rule length_data_frame [OF assms(4)])
  have ag: "agrees f a"
    using agrees_take [OF assms(5), of "length p + k"] by (simp add: a_def)
  have af: "a = take (length a) f" using agrees_part [OF ag] la k(3) lf by simp
  have chk: "passes_check env a = Inr True" if "hs_headersize ?hdr \<le> length a"
  proof -
    have "a = take (hs_headersize ?hdr) f @ drop (hs_headersize ?hdr) a"
      using af that by (metis append_take_drop_id min.absorb1 take_take)
    then show ?thesis using assms(4) passes_check_more unfolding data_frame_def by metis
  qed
  have chk': "(if hs_headersize ?hdr \<le> length p + k then passes_check env a else Inr True) = Inr True"
    using chk la by simp
  have found: "find_syncword env a = Some (Inr (if ?area \<le> length a then Some (hs_syncwordoffset ?hdr) else None))" if srch
    using find_sync [OF assms(1,2,4) ag] that la k(3) assms(2) by (simp add: srch_def framing_def)
  have upd: "s\<lparr>fs_accu := a, fs_to_next := ?F - length p - k\<rparr> = parked env a s"
    by (simp add: parked_def la)
  have tp: "take (length p) p = p" by simp
  have restart: "s'\<lparr>fs_accu := [], fs_to_next := ?F\<rparr> = parked env [] s'" for s' by (simp add: parked_def)
  have step: "fill_step env b ptr (length p) s =
      (if ?F - length p - k = 0
       then case framer_emit env True a (parked env a s) of Inl e \<Rightarrow> Some (Inl e) | Inr s' \<Rightarrow> Some (Inr (ptr + k, 0, parked env [] s'))
       else if \<not> srch then Some (Inr (ptr + k, length p + k, parked env a s))
       else and_then (find_syncword env a) (\<lambda>sw. case sw of
           None \<Rightarrow> if k \<ge> ?area - 1 then Some (Inr (0, 0, parked env [] (parked env a s)))
             else let nkeep = min (?area - 1) (length p + k)
                  in Some (Inr (ptr + k, nkeep, (parked env a s)\<lparr>fs_accu := drop (length p + k - nkeep) a, fs_to_next := ?F - nkeep\<rparr>))
         | Some swpos \<Rightarrow> if swpos < hs_syncwordoffset ?hdr then Some (Inr (0, 0, parked env [] (parked env a s)))
             else let diff = swpos - hs_syncwordoffset ?hdr
                  in Some (Inr (ptr + k, length p + k - diff, (parked env a s)\<lparr>fs_accu := drop diff a, fs_to_next := fs_to_next (parked env a s) + diff\<rparr>))))"
    using k(3) unfolding fill_step_def Let_def acc tp srch_def [symmetric] k_def [symmetric] a_def [symmetric] upd restart
    by (simp add: chk' la)
  have "fill_step env b ptr (length p) s =
      (if length p + k = ?F
       then case framer_emit env False f s of Inl e \<Rightarrow> Some (Inl e) | Inr s' \<Rightarrow> Some (Inr (ptr + k, 0, parked env [] s'))
       else Some (Inr (ptr + k, length p + k, parked env a s)))"
  proof (cases "length p + k = ?F")
    case True
    then have "a = f" using af la lf by simp
    moreover have "hs_headersize ?hdr \<le> ?F" using assms(2) by (simp add: framing_def)
    ultimately show ?thesis
      using True step emit_accepted(1) [OF assms(3), of True f] by (simp add: emit_parked split: sum.split)
  next
    case False
    then have nz: "?F - length p - k \<noteq> 0" using k(3) by simp
    have small: "?area - 1 \<le> k \<Longrightarrow> ?area \<le> length a" using assms(6) by (cases p) (auto simp: la)
    consider "\<not> srch" | "srch" "?area \<le> length a" | "srch" "\<not> ?area \<le> length a" by blast
    then show ?thesis
    proof cases
      case 1
      then show ?thesis using False nz by (simp add: step)
    next
      case 2
      have "(parked env a s)\<lparr>fs_accu := a, fs_to_next := ?F - (length p + k)\<rparr> = parked env a s" by (simp add: parked_def la)
      then show ?thesis using 2 False nz found by (simp add: step and_then_def la)
    next
      case 3
      have "(parked env a s)\<lparr>fs_accu := a, fs_to_next := ?F - (length p + k)\<rparr> = parked env a s" by (simp add: parked_def la)
      moreover have "min (?area - 1) (length p + k) = length p + k" "\<not> ?area - 1 \<le> k" using 3 la small by auto
      ultimately show ?thesis using 3 False nz found by (simp add: step and_then_def Let_def)
    qed
  qed
  then show ?thesis using k unfolding a_def by blast
qed

end

lemma framed_split:
  "framed env fs t \<Longrightarrow> x @ y = concat fs @ t \<Longrightarrow>
   \<exists>fs1 fs2 t1. fs = fs1 @ fs2 \<and> x = concat fs1 @ t1 \<and> framed env fs1 t1 \<and> framed env fs2 t \<and> t1 @ y = concat fs2 @ t"
proof (induction fs arbitrary: x)
  case Nil
  obtain g where g: "data_frame env g" "t = take (length t) g" using Nil.prems(1) by (auto simp: framed_def)
  have t: "t = x @ y" using Nil.prems(2) by simp
  have "x = take (length x) t" using t by simp
  also have "take (length x) t = take (length x) (take (length t) g)" by (rule arg_cong [OF g(2)])
  also have "\<dots> = take (length x) g" unfolding t by (simp only: take_take length_append min.absorb1 le_add1)
  finally have "\<exists>g. data_frame env g \<and> x = take (length x) g" using g(1) by blast
  moreover have "length x < hs_framesize (fe_hdr env)" using Nil.prems(1) t by (simp add: framed_def)
  ultimately have "framed env [] x" unfolding framed_def by simp
  then have r: "[] = [] @ [] \<and> x = concat [] @ x \<and> framed env [] x \<and> framed env [] t \<and> x @ y = concat [] @ t"
    using Nil.prems(1) t by simp
  show ?case by (rule exI [of _ "[]"], rule exI [of _ "[]"], rule exI [of _ x], rule r)
next
  case (Cons f fs)
  let ?F = "hs_framesize (fe_hdr env)"
  have f: "data_frame env f" "framed env fs t" "length f = ?F" using Cons.prems(1) length_data_frame by (auto simp: framed_Cons)
  have e: "x @ y = f @ concat fs @ t" using Cons.prems(2) by simp
  show ?case
  proof (cases "length x < ?F")
    case True
    have "x = take (length x) (x @ y)" by simp
    also have "\<dots> = take (length x) f" unfolding e using True f(3) by simp
    finally have "framed env [] x" using f(1) True by (auto simp: framed_def)
    then have r: "f # fs = [] @ f # fs \<and> x = concat [] @ x \<and> framed env [] x \<and> framed env (f # fs) t
        \<and> x @ y = concat (f # fs) @ t" using Cons.prems by simp
    show ?thesis by (rule exI [of _ "[]"], rule exI [of _ "f # fs"], rule exI [of _ x], rule r)
  next
    case False
    define x' where "x' = drop ?F x"
    have "take ?F x = take ?F (x @ y)" using False by simp
    also have "\<dots> = f" unfolding e using f(3) by simp
    finally have x: "x = f @ x'" unfolding x'_def by (metis append_take_drop_id)
    then have "x' @ y = concat fs @ t" using e by simp
    from Cons.IH [OF f(2) this] obtain fs1 fs2 t1 where
      "fs = fs1 @ fs2" "x' = concat fs1 @ t1" "framed env fs1 t1" "framed env fs2 t" "t1 @ y = concat fs2 @ t" by blast
    then have r: "f # fs = (f # fs1) @ fs2 \<and> x = concat (f # fs1) @ t1 \<and> framed env (f # fs1) t1 \<and> framed env fs2 t
        \<and> t1 @ y = concat fs2 @ t" using x f(1) by (simp add: framed_Cons)
    show ?thesis by (rule exI [of _ "f # fs1"], rule exI [of _ fs2], rule exI [of _ t1], rule r)
  qed
qed

context occurrence_search
begin

lemma fill_loop_stream:
  assumes "fe_search env = search (needle_of (fe_hdr env))" "framing (fe_hdr env)" "\<And>n. fe_accepts env n"
    "data_frame env f"
  shows "agrees f (p @ drop ptr b) \<Longrightarrow> p \<noteq> [] \<Longrightarrow> length p < hs_framesize (fe_hdr env) \<Longrightarrow> ptr \<le> length b \<Longrightarrow>
    s = parked env p s \<Longrightarrow>
    fill_loop env b ptr (length p) s =
      Some (if length p + (length b - ptr) < hs_framesize (fe_hdr env) then Inr (length b, parked env (p @ drop ptr b) s)
        else map_sum id (\<lambda>s'. (ptr + (hs_framesize (fe_hdr env) - length p), parked env [] s')) (framer_emit env False f s))"
proof (induction "length b - ptr" arbitrary: p ptr s rule: less_induct)
  case less
  let ?F = "hs_framesize (fe_hdr env)"
  show ?case
  proof (cases "ptr < length b")
    case False
    then show ?thesis using less.prems(3,4) less.prems(5) [symmetric] by (subst fill_loop.simps) simp
  next
    case True
    obtain k where k: "0 < k" "k \<le> length b - ptr" "length p + k \<le> ?F"
      and step: "fill_step env b ptr (length p) s =
        (if length p + k = ?F
         then case framer_emit env False f s of Inl e \<Rightarrow> Some (Inl e) | Inr s' \<Rightarrow> Some (Inr (ptr + k, 0, parked env [] s'))
         else Some (Inr (ptr + k, length p + k, parked env (p @ take k (drop ptr b)) s)))"
      using fill_step_stream [OF assms less.prems(1,2,3) True less.prems(5)] by blast
    show ?thesis
    proof (cases "length p + k = ?F")
      case full: True
      then have "\<not> length p + (length b - ptr) < ?F" "k = ?F - length p" using k by auto
      then show ?thesis using step full True less.prems(2)
        by (cases "framer_emit env False f s") (simp_all add: fill_loop.simps [of env b ptr] fill_loop.simps [of env b _ 0])
    next
      case False
      let ?p = "p @ take k (drop ptr b)"
      have app: "?p @ drop (ptr + k) b = p @ drop ptr b"
        by (simp add: append_take_drop_id add.commute drop_drop [symmetric] del: drop_drop)
      have len: "length ?p = length p + k" using k(2) by simp
      have "fill_loop env b (ptr + k) (length ?p) (parked env ?p s) =
        Some (if length ?p + (length b - (ptr + k)) < ?F then Inr (length b, parked env (?p @ drop (ptr + k) b) (parked env ?p s))
          else map_sum id (\<lambda>s'. (ptr + k + (?F - length ?p), parked env [] s')) (framer_emit env False f (parked env ?p s)))"
      proof (rule less.hyps)
        show "length b - (ptr + k) < length b - ptr" using k True by simp
        show "agrees f (?p @ drop (ptr + k) b)" using less.prems(1) app by simp
      qed (use less.prems(2) k False len in auto)
      moreover have "fill_loop env b ptr (length p) s = fill_loop env b (ptr + k) (length ?p) (parked env ?p s)"
        using step False True less.prems(2) len by (simp add: fill_loop.simps [of env b ptr])
      moreover have "length ?p + (length b - (ptr + k)) = length p + (length b - ptr)"
        "ptr + k + (?F - length ?p) = ptr + (?F - length p)" using k len False by auto
      ultimately show ?thesis
        unfolding app by (cases "framer_emit env False f s") (simp_all add: emit_parked)
    qed
  qed
qed

end

lemma framed_short: "framed env fs t \<Longrightarrow> length (concat fs @ t) < hs_framesize (fe_hdr env) \<Longrightarrow> fs = []"
  by (cases fs) (auto simp: framed_Cons length_data_frame)

context occurrence_search
begin

lemma framer_block_stream:
  assumes "fe_search env = search (needle_of (fe_hdr env))" "framing (fe_hdr env)" "\<And>n. fe_accepts env n"
    "length b < INT_MAX" "framed env fs t" "p @ b = concat fs @ t" "length p < hs_framesize (fe_hdr env)"
    "\<not> fs_stop s" "s = parked env p s"
  shows "framer_block env b s = Some (map_sum id (parked env t) (emit_all env fs s))"
proof -
  let ?F = "hs_framesize (fe_hdr env)"
  have "fs_to_next s = ?F - length p" using assms(9) by (metis parked_simps(3))
  then have nc: "?F - fs_to_next s = length p" using assms(7) by simp
  note search = search_loop_stream [OF assms(1-4)]
  show ?thesis
  proof (cases "p = []")
    case True
    have fill: "fill_loop env b 0 0 s = Some (Inr (0, s))" by (simp add: fill_loop.simps)
    show ?thesis
    proof (cases "b = []")
      case True
      then have e: "concat fs @ t = []" using assms(6) \<open>p = []\<close> by simp
      moreover have "fs = []" by (rule framed_short [OF assms(5)]) (use assms(2) in \<open>simp only: e framing_def list.size\<close>)
      ultimately have "fs = []" "t = []" by simp_all
      then show ?thesis using fill nc \<open>p = []\<close> True assms(9) by (simp add: framer_block_def and_then_def)
    next
      case False
      have "search_loop env b 0 s = Some (map_sum id (parked env t) (emit_all env fs s))"
        by (rule search [OF assms(5)]) (use \<open>p = []\<close> assms(6,8,9) in auto)
      then show ?thesis using fill nc \<open>p = []\<close> False assms(8) by (simp add: framer_block_def and_then_def)
    qed
  next
    case False
    obtain f where f: "data_frame env f" "agrees f (p @ b)" "case fs of [] \<Rightarrow> True | g # _ \<Rightarrow> f = g"
      using framed_next [OF assms(5,6)] by blast
    have fill: "fill_loop env b 0 (length p) s =
      Some (if length p + length b < ?F then Inr (length b, parked env (p @ b) s)
        else map_sum id (\<lambda>s'. (?F - length p, parked env [] s')) (framer_emit env False f s))"
      using fill_loop_stream [OF assms(1-3) f(1), where p = p and b = b and ptr = 0 and s = s] f(2) False assms(7,9) by simp
    show ?thesis
    proof (cases "length p + length b < ?F")
      case True
      then have "fs = []" using framed_short [OF assms(5)] assms(6) by (metis length_append)
      then show ?thesis using fill True nc assms(6) by (simp add: framer_block_def and_then_def)
    next
      case big: False
      then obtain gs where gs: "fs = f # gs"
        using f(3) assms(5,6) by (cases fs) (auto simp: framed_def dest!: arg_cong [where f = length])
      have lf: "length f = ?F" by (rule length_data_frame [OF f(1)])
      have rest: "drop (?F - length p) b = concat gs @ t"
      proof -
        have "drop ?F (p @ b) = drop ?F (f @ concat gs @ t)" using assms(6) gs by simp
        then show ?thesis using lf assms(7) by simp
      qed
      show ?thesis
      proof (cases "framer_emit env False f s")
        case (Inl e)
        then show ?thesis using fill big nc gs by (simp add: framer_block_def and_then_def)
      next
        case (Inr s')
        have s': "\<not> fs_stop s'" using emit_accepted(2) [OF assms(3) Inr assms(8)] by simp
        have gs': "framed env gs t" using assms(5) gs by (simp add: framed_Cons)
        have "search_loop env b (?F - length p) (parked env [] s') = Some (map_sum id (parked env t) (emit_all env gs (parked env [] s')))"
          by (rule search [OF gs' rest]) (use big s' in auto)
        moreover have "map_sum id (parked env t) (emit_all env gs (parked env [] s')) = map_sum id (parked env t) (emit_all env gs s')"
          by (simp add: emit_all_parked sum.map_comp comp_def id_def)
        moreover have "concat gs @ t = []" if "length b \<le> ?F - length p" using rest that by simp
        moreover have "gs = []" if "concat gs @ t = []"
          using framed_short [OF gs'] that assms(2) by (simp add: framing_def)
        ultimately show ?thesis using fill big nc gs Inr s' by (auto simp: framer_block_def and_then_def)
      qed
    qed
  qed
qed

lemma framer_blocks_stream:
  assumes "fe_search env = search (needle_of (fe_hdr env))" "framing (fe_hdr env)" "\<And>n. fe_accepts env n"
  shows "(\<And>b. b \<in> set bs \<Longrightarrow> length b < INT_MAX) \<Longrightarrow> framed env fs t \<Longrightarrow> p @ concat bs = concat fs @ t \<Longrightarrow>
    length p < hs_framesize (fe_hdr env) \<Longrightarrow> \<not> fs_stop s \<Longrightarrow> s = parked env p s \<Longrightarrow>
    framer_blocks env bs s = Some (map_sum id (parked env t) (emit_all env fs s))"
proof (induction bs arbitrary: p fs s)
  case Nil
  then have "fs = []" using framed_short [OF Nil.prems(2)] by simp
  then show ?case using Nil.prems(3,6) by simp
next
  case (Cons b bs)
  have "(p @ b) @ concat bs = concat fs @ t" using Cons.prems(3) by simp
  from framed_split [OF Cons.prems(2) this] obtain fs1 fs2 t1 where
    sp: "fs = fs1 @ fs2" "p @ b = concat fs1 @ t1" "framed env fs1 t1" "framed env fs2 t" "t1 @ concat bs = concat fs2 @ t" by blast
  have block: "framer_block env b s = Some (map_sum id (parked env t1) (emit_all env fs1 s))"
    by (rule framer_block_stream [OF assms _ sp(3,2) Cons.prems(4,5,6)]) (use Cons.prems(1) in simp)
  show ?case
  proof (cases "emit_all env fs1 s")
    case (Inl e)
    then show ?thesis using block Cons.prems(5) sp(1) by (simp add: and_then_def emit_all_append)
  next
    case (Inr s1)
    have "\<not> fs_stop s1" using Inr Cons.prems(5)
    proof (induction fs1 arbitrary: s)
      case (Cons f fs1)
      then show ?case using emit_accepted(2) [OF assms(3)] by (auto split: sum.splits)
    qed simp
    moreover have "length t1 < hs_framesize (fe_hdr env)" using sp(3) by (simp add: framed_def)
    ultimately have "framer_blocks env bs (parked env t1 s1) = Some (map_sum id (parked env t) (emit_all env fs2 (parked env t1 s1)))"
      using Cons.prems(1) by (intro Cons.IH [OF _ sp(4,5)]) auto
    then show ?thesis using block Inr Cons.prems(5) sp(1)
      by (simp add: and_then_def emit_all_append emit_all_parked sum.map_comp comp_def)
  qed
qed

end

subsection \<open>The search of the program\<close>

definition bm_find :: "byte list \<Rightarrow> byte list \<Rightarrow> (bm_error, int option) result" where
  "bm_find w hay = (case bm_new w of Inl e \<Rightarrow> Some (Inl e) | Inr bm \<Rightarrow> bm_search bm hay)"

interpretation sync: occurrence_search bm_find
proof unfold_locales
  fix w hay :: "byte list"
  assume w: "0 < length w" "length w < INT_MAX" and h: "length hay < INT_MAX"
  obtain bm where "bm_new w = Inr bm" using w by (auto simp: bm_new_def)
  then show "bm_find w hay = Some (Inr (map_option int (first_occurrence w hay)))"
    using bm_search_finds h w by (auto simp: bm_find_def)
qed

lemma framing_new:
  assumes "headersearch_new fmt tracks rate pl = Inr hdr" "has_frames fmt" "pl + 32 < INT_MAX"
  shows "framing hdr"
proof -
  have pl: "pl + 32 < 2 ^ 32" using assms(3) by (simp add: INT_MAX_def)
  note h = headersearch_newD [OF assms(1)]
  note l = layout_cases [OF assms(2) h(1) h(2) pl]
  have st: "length st_syncword = 144" by (simp add: st_syncword_def length_concat sum_list_replicate)
  then have st_ne: "st_syncword \<noteq> []" by auto
  have "hs_framesize hdr < INT_MAX" using assms(2,3) h(1,2) unfolding h(9) has_frames_def
    by (cases fmt; simp add: layout_defs u32_simps INT_MAX_def mult.commute [of _ tracks])
  moreover have "if no_syncword hdr then syncword_area hdr = 0
      else length (needle_of hdr) = hs_syncwordsize hdr \<and> 2 * syncword_area hdr \<le> hs_framesize hdr + 1"
    using assms(2) h(1,2) pl unfolding h(3,6,7,9) no_syncword_def syncword_area_def needle_of_def has_frames_def
    by (cases fmt; simp add: layout_defs u32_simps SYNCWORD_ST_def mark4_syncword_def mark5b_syncword_def st st_ne
        mult.commute [of _ tracks])
  ultimately show ?thesis using l(3,4) by (simp add: framing_def h(8,9))
qed

text \<open>The framer on a queue that takes everything, with its own search.\<close>

lemma framer_blocks_framed:
  assumes "framing hdr" "\<And>b. b \<in> set blocks \<Longrightarrow> length b < INT_MAX"
    "framed \<lparr>fe_hdr = hdr, fe_strict = st, fe_search = bm_find (needle_of hdr), fe_now = now, fe_accepts = \<lambda>_. True\<rparr> fs t"
    "concat blocks = concat fs @ t"
  defines "env \<equiv> \<lparr>fe_hdr = hdr, fe_strict = st, fe_search = bm_find (needle_of hdr), fe_now = now, fe_accepts = \<lambda>_. True\<rparr>"
  shows "framer now (\<lambda>_. True) hdr st d blocks = Some (map_sum id (parked env t) (emit_all env fs (framer_start hdr d)))"
proof -
  have "length (needle_of hdr) < INT_MAX"
    using assms(1) by (auto simp: framing_def syncword_area_def needle_of_def no_syncword_def split: if_splits)
  then obtain bm where bm: "bm_new (needle_of hdr) = Inr bm"
    by (cases "needle_of hdr = []") (auto simp: bm_new_def)
  then have same: "bm_search bm = bm_find (needle_of hdr)" by (auto simp: bm_find_def)
  have "framer_blocks env blocks (framer_start hdr d) = Some (map_sum id (parked env t) (emit_all env fs (framer_start hdr d)))"
    by (rule sync.framer_blocks_stream [where p = "[]"])
      (use assms in \<open>auto simp: env_def framer_start_def parked_def framing_def\<close>)
  then show ?thesis
    using bm assms(1) unfolding framer_def syncword_search_def needle_of_def [symmetric]
    by (simp add: same env_def framing_def)
qed

subsection \<open>Any input\<close>

text \<open>Between two steps the buffer holds what is missing to one frame, and is never full.\<close>

definition accu_inv :: "framer_env \<Rightarrow> framer_state \<Rightarrow> bool" where
  "accu_inv env s \<longleftrightarrow> length (fs_accu s) + fs_to_next s = hs_framesize (fe_hdr env) \<and> 0 < fs_to_next s"

definition check_needs_syncword :: "framer_env \<Rightarrow> bool" where
  "check_needs_syncword env \<longleftrightarrow> no_syncword (fe_hdr env) \<longrightarrow> (\<forall>x. passes_check env x = Inr True)"

lemma framer_emit_outcome:
  "framer_emit env c f s \<noteq> Inl Accu_Overrun"
  "framer_emit env c f s = Inr s' \<Longrightarrow> fs_accu s' = fs_accu s \<and> fs_to_next s' = fs_to_next s"
  by (auto simp: framer_emit_def Let_def split: prod.splits sum.splits if_splits)

lemma passes_check_outcome: "passes_check env x \<noteq> Inl Accu_Overrun"
  by (simp add: passes_check_def split: sum.split)

context occurrence_search
begin

lemma fill_step_total:
  assumes "fe_search env = search (needle_of (fe_hdr env))" "framing (fe_hdr env)" "accu_inv env s"
    "nc = length (fs_accu s)" "0 < nc" "ptr < length b"
  shows "\<exists>r. fill_step env b ptr nc s = Some r \<and> r \<noteq> Inl Accu_Overrun \<and> (\<forall>ptr' nc' s'. r = Inr (ptr', nc', s') \<longrightarrow>
    accu_inv env s' \<and> nc' = length (fs_accu s') \<and> (nc' = 0 \<or> ptr < ptr'))"
proof -
  let ?hdr = "fe_hdr env"
  let ?F = "hs_framesize ?hdr" and ?area = "syncword_area ?hdr"
  define srch where "srch = (nc < ?area \<and> \<not> no_syncword ?hdr)"
  define k where "k = (if srch then min (2 * ?area - 1 - nc) (length b - ptr) else min (fs_to_next s) (length b - ptr))"
  define a where "a = take nc (fs_accu s) @ take k (drop ptr b)"
  have inv: "nc + fs_to_next s = ?F" "0 < fs_to_next s" "nc < ?F" "0 < ?F" using assms(3,4) by (auto simp: accu_inv_def)
  have area2: "srch \<Longrightarrow> 2 * ?area \<le> ?F + 1" using assms(2) by (simp add: framing_def srch_def)
  have k: "0 < k" "k \<le> length b - ptr" "nc + k \<le> ?F" using inv area2 assms(6) by (auto simp: k_def srch_def)
  have la: "length a = nc + k" using k assms(4) by (simp add: a_def)
  have fits: "\<not> ?F < nc + k" using k(3) by simp
  have "?F < INT_MAX" using assms(2) by (simp add: framing_def)
  then have found: "srch \<Longrightarrow> find_syncword env a = Some (Inr (first_occurrence (needle_of ?hdr) a))"
    by (intro find_first [OF assms(1,2)]) (use la k(3) in \<open>auto simp: srch_def\<close>)
  have occ: "srch \<Longrightarrow> first_occurrence (needle_of ?hdr) a = Some q \<Longrightarrow> q + hs_syncwordsize ?hdr \<le> nc + k" for q
    using assms(2) by (auto simp: first_occurrence_Some occurs_at_def framing_def srch_def la)
  note unfold = fill_step_def Let_def srch_def [symmetric] k_def [symmetric] a_def [symmetric]
  consider (err) e where "(if hs_headersize ?hdr \<le> nc + k then passes_check env a else Inr True) = Inl e"
    | (bad) "(if hs_headersize ?hdr \<le> nc + k then passes_check env a else Inr True) = Inr False"
    | (ok) "(if hs_headersize ?hdr \<le> nc + k then passes_check env a else Inr True) = Inr True"
    by (metis (full_types) sum.exhaust)
  then show ?thesis
  proof cases
    case err
    then have "e \<noteq> Accu_Overrun" using passes_check_outcome by (auto split: if_splits)
    then show ?thesis unfolding unfold err if_not_P [OF fits] by simp
  next
    case bad
    then show ?thesis unfolding unfold bad if_not_P [OF fits] using inv by (simp add: accu_inv_def)
  next
    case ok
    show ?thesis
    proof (cases "fs_to_next s = k")
      case True
      then show ?thesis unfolding unfold ok if_not_P [OF fits]
        using inv framer_emit_outcome(1) by (auto simp: accu_inv_def split: sum.split)
    next
      case False
      then have less: "k < fs_to_next s" using k(3) inv by linarith
      show ?thesis
      proof (cases srch)
        case no: False
        then show ?thesis unfolding unfold ok if_not_P [OF fits] using inv la k less by (simp add: accu_inv_def)
      next
        case True
        have F: "nc + k - (q - hs_syncwordoffset ?hdr) + (fs_to_next s - k + (q - hs_syncwordoffset ?hdr)) = ?F"
          if "first_occurrence (needle_of ?hdr) a = Some q" for q using occ [OF True that] inv less by linarith
        show ?thesis unfolding unfold ok if_not_P [OF fits]
          using True inv la k less area2 F
          by (cases "first_occurrence (needle_of ?hdr) a")
            (auto simp: found and_then_def accu_inv_def srch_def min_def)
      qed
    qed
  qed
qed

end

context occurrence_search
begin

lemma fill_loop_total:
  assumes "fe_search env = search (needle_of (fe_hdr env))" "framing (fe_hdr env)"
  shows "accu_inv env s \<Longrightarrow> nc = length (fs_accu s) \<Longrightarrow> \<exists>r. fill_loop env b ptr nc s = Some r \<and> r \<noteq> Inl Accu_Overrun
    \<and> (\<forall>ptr' s'. r = Inr (ptr', s') \<longrightarrow> accu_inv env s')"
proof (induction "if nc = 0 then 0 else 1 + (length b - ptr)" arbitrary: ptr nc s rule: less_induct)
  case less
  show ?case
  proof (cases "nc \<noteq> 0 \<and> ptr < length b")
    case False
    then have "fill_loop env b ptr nc s = Some (Inr (ptr, s))" by (subst fill_loop.simps) auto
    then show ?thesis using less.prems by simp
  next
    case True
    then obtain r where r: "fill_step env b ptr nc s = Some r" "r \<noteq> Inl Accu_Overrun"
      "\<And>ptr' nc' s'. r = Inr (ptr', nc', s') \<Longrightarrow> accu_inv env s' \<and> nc' = length (fs_accu s') \<and> (nc' = 0 \<or> ptr < ptr')"
      using fill_step_total [OF assms less.prems, of ptr b] by auto
    show ?thesis
    proof (cases r)
      case (Inl e)
      then show ?thesis using r True by (auto simp: fill_loop.simps [of env b ptr nc])
    next
      case (Inr x)
      obtain ptr' nc' s' where x: "x = (ptr', nc', s')" by (metis prod.exhaust)
      note s' = r(3) [OF Inr [unfolded x]]
      have "\<exists>r. fill_loop env b ptr' nc' s' = Some r \<and> r \<noteq> Inl Accu_Overrun
          \<and> (\<forall>ptr s. r = Inr (ptr, s) \<longrightarrow> accu_inv env s)"
        by (rule less.hyps) (use s' True in auto)
      then show ?thesis using r(1) True Inr x by (simp add: fill_loop.simps [of env b ptr nc])
    qed
  qed
qed

lemma search_step_total:
  assumes "fe_search env = search (needle_of (fe_hdr env))" "framing (fe_hdr env)" "accu_inv env s"
    "ptr < length b" "length b < INT_MAX" "check_needs_syncword env"
  shows "\<exists>r. search_step env b ptr s = Some r \<and> r \<noteq> Inl Accu_Overrun
    \<and> (\<forall>ptr' s'. r = Inr (ptr', s') \<longrightarrow> accu_inv env s' \<and> ptr < ptr')"
proof -
  let ?hdr = "fe_hdr env"
  let ?F = "hs_framesize ?hdr" and ?area = "syncword_area ?hdr"
  have F: "0 < ?F" "?area \<le> ?F" using assms(2) by (auto simp: framing_def split: if_splits)
  have pos: "\<not> no_syncword ?hdr \<Longrightarrow> 0 < hs_syncwordsize ?hdr" by (simp add: no_syncword_def)
  have off: "no_syncword ?hdr \<Longrightarrow> hs_syncwordoffset ?hdr = 0" using assms(2) by (simp add: framing_def syncword_area_def)
  have found: "find_syncword env (drop ptr b) = Some (Inr (first_occurrence (needle_of ?hdr) (drop ptr b)))"
    if "\<not> no_syncword ?hdr"
    by (rule find_first [OF assms(1,2) that]) (use assms(5) in simp)
  define sw where "sw = (if no_syncword ?hdr then Some 0 else first_occurrence (needle_of ?hdr) (drop ptr b))"
  have E: "(if no_syncword ?hdr then Some (Inr (Some 0)) else find_syncword env (drop ptr b)) = Some (Inr sw)"
    using found by (simp add: sw_def)
  have chk: "passes_check env x = Inr False \<Longrightarrow> 0 < ?area" for x
    using assms(6) pos by (cases "no_syncword ?hdr") (auto simp: check_needs_syncword_def syncword_area_def)
  have emit: "framer_emit env False x s \<noteq> Inl Accu_Overrun" for x by (rule framer_emit_outcome(1))
  have check: "passes_check env x \<noteq> Inl Accu_Overrun" for x by (rule passes_check_outcome)
  have inv: "framer_emit env False x s = Inr s' \<Longrightarrow> accu_inv env s'" for x s'
    using framer_emit_outcome(2) assms(3) by (metis accu_inv_def)
  show ?thesis
  proof (cases sw)
    case None
    then have "\<not> no_syncword ?hdr" by (auto simp: sw_def)
    then have "0 < ?area" using pos by (simp add: syncword_area_def)
    then have "min (?area - 1) (length b - ptr) < ?F" using F by linarith
    moreover have "min (?area - 1) (length b - ptr) \<le> length b" by simp
    moreover define nkeep where "nkeep = min (?area - 1) (length b - ptr)"
    ultimately show ?thesis using E None assms(4)
      unfolding search_step_def and_then_def Let_def nkeep_def [symmetric] by (simp add: accu_inv_def)
  next
    case (Some q)
    have q: "q < hs_syncwordoffset ?hdr \<Longrightarrow> 0 < hs_syncwordsize ?hdr" using off pos by force
    let ?sof = "ptr + q - hs_syncwordoffset ?hdr"
    consider "q < hs_syncwordoffset ?hdr" | "hs_syncwordoffset ?hdr \<le> q" "length b - ?sof < ?F"
      | "hs_syncwordoffset ?hdr \<le> q" "?F \<le> length b - ?sof" by linarith
    then show ?thesis
    proof cases
      case 1
      then show ?thesis using E Some q assms(3) by (simp add: search_step_def and_then_def Let_def)
    next
      case 2
      then show ?thesis using E Some assms(4) by (auto simp: search_step_def and_then_def Let_def accu_inv_def)
    next
      case 3
      then have "ptr \<le> ?sof" by simp
      then show ?thesis using E Some 3 F(1) assms(3) emit check
        by (auto simp: search_step_def and_then_def Let_def split: sum.split bool.split dest: chk inv)
    qed
  qed
qed

lemma search_loop_total:
  assumes "fe_search env = search (needle_of (fe_hdr env))" "framing (fe_hdr env)" "length b < INT_MAX"
    "check_needs_syncword env"
  shows "accu_inv env s \<Longrightarrow> \<exists>r. search_loop env b ptr s = Some r \<and> r \<noteq> Inl Accu_Overrun
    \<and> (\<forall>s'. r = Inr s' \<longrightarrow> accu_inv env s')"
proof (induction "length b - ptr" arbitrary: ptr s rule: less_induct)
  case less
  show ?case
  proof (cases "ptr < length b \<and> \<not> fs_stop s")
    case False
    then show ?thesis using less.prems by (auto simp: search_loop.simps [of env b ptr])
  next
    case True
    then obtain r where r: "search_step env b ptr s = Some r" "r \<noteq> Inl Accu_Overrun"
      "\<And>ptr' s'. r = Inr (ptr', s') \<Longrightarrow> accu_inv env s' \<and> ptr < ptr'"
      using search_step_total [OF assms(1,2) less.prems _ assms(3,4), of ptr] by blast
    show ?thesis
    proof (cases r)
      case (Inl e)
      then show ?thesis using r True by (auto simp: search_loop.simps [of env b ptr])
    next
      case (Inr x)
      obtain ptr' s' where x: "x = (ptr', s')" by (metis prod.exhaust)
      note s' = r(3) [OF Inr [unfolded x]]
      have "\<exists>r. search_loop env b ptr' s' = Some r \<and> r \<noteq> Inl Accu_Overrun \<and> (\<forall>s'. r = Inr s' \<longrightarrow> accu_inv env s')"
        by (rule less.hyps) (use s' True in auto)
      then show ?thesis using r(1) True Inr x by (simp add: search_loop.simps [of env b ptr])
    qed
  qed
qed

lemma framer_blocks_total:
  assumes "fe_search env = search (needle_of (fe_hdr env))" "framing (fe_hdr env)" "check_needs_syncword env"
  shows "(\<And>b. b \<in> set bs \<Longrightarrow> length b < INT_MAX) \<Longrightarrow> accu_inv env s \<Longrightarrow>
    \<exists>r. framer_blocks env bs s = Some r \<and> r \<noteq> Inl Accu_Overrun \<and> (\<forall>s'. r = Inr s' \<longrightarrow> accu_inv env s')"
proof (induction bs arbitrary: s)
  case (Cons b bs)
  have b: "length b < INT_MAX" using Cons.prems(1) by simp
  have nc: "hs_framesize (fe_hdr env) - fs_to_next s = length (fs_accu s)" using Cons.prems(2) unfolding accu_inv_def by linarith
  obtain r where r: "fill_loop env b 0 (length (fs_accu s)) s = Some r" "r \<noteq> Inl Accu_Overrun"
    "\<And>ptr' s'. r = Inr (ptr', s') \<Longrightarrow> accu_inv env s'"
    using fill_loop_total [OF assms(1,2) Cons.prems(2) refl, of b 0] by blast
  have "\<exists>r. framer_block env b s = Some r \<and> r \<noteq> Inl Accu_Overrun \<and> (\<forall>s'. r = Inr s' \<longrightarrow> accu_inv env s')"
  proof (cases r)
    case (Inl e)
    then show ?thesis using r nc by (simp add: framer_block_def and_then_def)
  next
    case (Inr x)
    then show ?thesis using r(1) r(3) nc search_loop_total [OF assms(1,2) b assms(3)]
      by (cases x) (auto simp: framer_block_def and_then_def)
  qed
  then obtain r where r: "framer_block env b s = Some r" "r \<noteq> Inl Accu_Overrun" "\<And>s'. r = Inr s' \<Longrightarrow> accu_inv env s'" by blast
  then show ?case
    using Cons.IH Cons.prems by (cases r) (auto simp: and_then_def)
qed simp

end

lemma framer_outcome:
  assumes "headersearch_new fmt tracks rate pl = Inr hdr" "has_frames fmt" "pl + 32 < INT_MAX"
    "\<And>b. b \<in> set blocks \<Longrightarrow> length b < INT_MAX"
  shows "\<exists>r. framer now accepts hdr st d blocks = Some r \<and> r \<noteq> Inl Accu_Overrun
    \<and> (\<forall>s. r = Inr s \<longrightarrow> length (fs_accu s) + fs_to_next s = hs_framesize hdr \<and> 0 < fs_to_next s)"
proof -
  have fr: "framing hdr" by (rule framing_new [OF assms(1-3)])
  let ?env = "\<lparr>fe_hdr = hdr, fe_strict = st, fe_search = bm_find (needle_of hdr), fe_now = now, fe_accepts = accepts\<rparr>"
  have "length (needle_of hdr) < INT_MAX"
    using fr by (auto simp: framing_def syncword_area_def needle_of_def no_syncword_def split: if_splits)
  then obtain bm where bm: "bm_new (needle_of hdr) = Inr bm"
    by (cases "needle_of hdr = []") (auto simp: bm_new_def)
  then have same: "bm_search bm = bm_find (needle_of hdr)" by (auto simp: bm_find_def)
  have vdif: "hs_checker hdr = Vdif" if "no_syncword hdr"
  proof -
    have "hs_checker hdr = CHECKFN fmt"
      using assms(1) by (auto simp: headersearch_new_def Let_def split: if_splits)
    then show ?thesis
      using that assms(2) headersearch_newD(1,2) [OF assms(1)]
      unfolding no_syncword_def has_frames_def headersearch_newD(3,6) [OF assms(1)]
      by (cases fmt; simp add: layout_defs u32_simps SYNCWORD_ST_def CHECKFN_def mark4_syncword_def mark5b_syncword_def st_syncword_def)
  qed
  have "\<exists>r. framer_blocks ?env blocks (framer_start hdr d) = Some r \<and> r \<noteq> Inl Accu_Overrun \<and> (\<forall>s'. r = Inr s' \<longrightarrow> accu_inv ?env s')"
  proof (rule sync.framer_blocks_total)
    show "check_needs_syncword ?env"
      by (simp add: check_needs_syncword_def passes_check_def check_frame_def vdif)
  qed (use fr assms(4) in \<open>auto simp: accu_inv_def framer_start_def framing_def\<close>)
  then show ?thesis
    using bm fr unfolding framer_def syncword_search_def needle_of_def [symmetric]
    by (simp add: same framing_def accu_inv_def)
qed

subsection \<open>What the framer guarantees\<close>

text \<open>C3: However a stream of frames, the last of them perhaps incomplete, is cut into blocks, the framer
  decodes and passes on exactly these frames, in order and undamaged, and keeps the incomplete one: the
  result is that of looking at one frame after the other.\<close>

theorem framer_independent_of_blocks:
  assumes "headersearch_new fmt tracks rate pl = Inr hdr" "has_frames fmt" "pl + 32 < INT_MAX"
    "\<And>b. b \<in> set blocks \<Longrightarrow> length b < INT_MAX"
    "env = \<lparr>fe_hdr = hdr, fe_strict = st, fe_search = bm_find (needle_of hdr), fe_now = now, fe_accepts = \<lambda>_. True\<rparr>"
    "framed env fs t" "concat blocks = concat fs @ t"
  shows "framer now (\<lambda>_. True) hdr st d blocks = Some (map_sum id (parked env t) (emit_all env fs (framer_start hdr d)))"
  unfolding assms(5)
  by (rule framer_blocks_framed [OF framing_new [OF assms(1-3)] assms(4) assms(6) [unfolded assms(5)] assms(7)])

text \<open>C17: On any bytes in any blocks the framer ends for every format with frames, never writes past the
  accumulation buffer, and between blocks the buffer holds exactly the bytes that \<open>bytes_to_next\<close> says,
  less than a frame.\<close>

theorem framer_total:
  assumes "headersearch_new fmt tracks rate pl = Inr hdr" "has_frames fmt" "pl + 32 < INT_MAX"
    "\<And>b. b \<in> set blocks \<Longrightarrow> length b < INT_MAX"
  shows "\<exists>r. framer now accepts hdr st d blocks = Some r \<and> r \<noteq> Inl Accu_Overrun
    \<and> (\<forall>s. r = Inr s \<longrightarrow> length (fs_accu s) + fs_to_next s = hs_framesize hdr \<and> 0 < fs_to_next s)"
  by (rule framer_outcome [OF assms])

text \<open>Two legacy VDIF frames of 24 bytes and a byte of a third, in blocks that end inside the frames.\<close>

definition sample_hdr :: headersearch where
  "sample_hdr = \<lparr>hs_frameformat = fmt_vdif_legacy, hs_ntrack = 8, hs_trackbitrate = UNKNOWN_TRACKBITRATE, hs_syncwordsize = 0,
     hs_syncwordoffset = 0, hs_headersize = 16, hs_framesize = 24, hs_payloadsize = 8, hs_payloadoffset = 16,
     hs_framerate = 0, hs_frametime = 0, hs_decoder = Vdif, hs_encoder = Vdif, hs_checker = Vdif\<rparr>"

definition sample_frame :: "byte \<Rightarrow> byte list" where
  "sample_frame i = [i, 0, 0, 0, 0, 0, 0, 10, 3, 0, 0, 1, 5, 6, 7, 8] @ replicate 8 i"

definition sample_env :: framer_env where
  "sample_env = \<lparr>fe_hdr = sample_hdr, fe_strict = True, fe_search = bm_find (needle_of sample_hdr), fe_now = \<lambda>_. 0,
     fe_accepts = \<lambda>_. True\<rparr>"

lemma sample_hdr_new: "headersearch_new fmt_vdif_legacy 8 UNKNOWN_TRACKBITRATE 8 = Inr sample_hdr"
  by (simp add: headersearch_new_def layout_defs u32_simps sample_hdr_def DECODERFN_def ENCODERFN_def CHECKFN_def
      state_framerate_def state_frametime_def valid_samplerate_def numerator_def denominator_def UNKNOWN_TRACKBITRATE_def)

lemma sample_data_frame: "data_frame sample_env (sample_frame i)"
  by (simp add: data_frame_def sample_env_def sample_hdr_def no_syncword_def passes_check_def check_frame_def sample_frame_def)

lemma sample_emitted:
  "map_sum id (\<lambda>s. (map of_framedata (fs_out s), fs_accu s))
     (map_sum id (parked sample_env [9]) (emit_all sample_env [sample_frame 1, sample_frame 2] (framer_start sample_hdr m5b_state0)))
   = Inr ([sample_frame 1, sample_frame 2], [9])"
  unfolding parked_def by code_simp

theorem framer_independent_of_blocks_witness:
  "map_option (map_sum id (\<lambda>s. (map of_framedata (fs_out s), fs_accu s)))
     (framer (\<lambda>_. 0) (\<lambda>_. True) sample_hdr True m5b_state0
        [sample_frame 1 @ take 10 (sample_frame 2), [], drop 10 (sample_frame 2) @ [9]])
   = Some (Inr ([sample_frame 1, sample_frame 2], [9]))"
proof -
  let ?blocks = "[sample_frame 1 @ take 10 (sample_frame 2), [], drop 10 (sample_frame 2) @ [9]]"
  have "data_frame sample_env (sample_frame 9) \<and> [9] = take (length [9 :: byte]) (sample_frame 9)"
    using sample_data_frame by (simp add: sample_frame_def)
  then have "\<exists>g. data_frame sample_env g \<and> [9] = take (length [9 :: byte]) g" by blast
  moreover have "length [9 :: byte] < hs_framesize (fe_hdr sample_env)" by (simp add: sample_env_def sample_hdr_def)
  ultimately have "framed sample_env [sample_frame 1, sample_frame 2] [9]"
    unfolding framed_def using sample_data_frame by simp
  moreover have "\<And>b. b \<in> set ?blocks \<Longrightarrow> length b < INT_MAX" by (auto simp: sample_frame_def INT_MAX_def)
  moreover have "concat ?blocks = concat [sample_frame 1, sample_frame 2] @ [9]" by (simp add: sample_frame_def)
  moreover have "has_frames fmt_vdif_legacy" "(8 :: nat) + 32 < INT_MAX" by (simp_all add: has_frames_def is_vdif_def INT_MAX_def)
  ultimately have "framer (\<lambda>_. 0) (\<lambda>_. True) sample_hdr True m5b_state0 ?blocks = Some (map_sum id (parked sample_env [9])
      (emit_all sample_env [sample_frame 1, sample_frame 2] (framer_start sample_hdr m5b_state0)))"
    using framer_independent_of_blocks [OF sample_hdr_new _ _ _ sample_env_def] by blast
  then show ?thesis using sample_emitted by simp
qed

theorem framer_total_witness:
  "\<exists>r. framer (\<lambda>_. 0) (\<lambda>_. False) sample_hdr False m5b_state0 [[1, 2, 3], sample_frame 1] = Some r \<and> r \<noteq> Inl Accu_Overrun"
proof -
  have "\<And>b. b \<in> set [[1, 2, 3], sample_frame 1] \<Longrightarrow> length b < INT_MAX" by (auto simp: sample_frame_def INT_MAX_def)
  moreover have "has_frames fmt_vdif_legacy" "(8 :: nat) + 32 < INT_MAX" by (simp_all add: has_frames_def is_vdif_def INT_MAX_def)
  ultimately show ?thesis using framer_total [OF sample_hdr_new] by blast
qed

end
