(* ===== verification/Vbs.thy ===== *)
theory Vbs
  imports JPrelude
begin

text \<open>
  Recordings of \<open>src/src/libvbs.cc\<close>: a recording is scattered over many chunks, files of their own
  (FlexBuff) or blocks inside Mark6 files, and is read as one file. The operations on open recordings,
  and the proof that they behave as \<open>read\<close> and \<open>lseek\<close> on the chunks put together.
\<close>

subsection \<open>Chunks\<close>

text \<open>A path is the list of its components. \<open>chunkFd\<close> is the invalid descriptor, one of the chunk's own, or that
  of the Mark6 file the chunk lies in (negated in the code).\<close>

type_synonym path = "string list"

datatype chunk_fd = Invalid_Fd | Own_Fd | Mk6_Fd

record filechunk =
  fc_path :: path
  fc_size :: int
  fc_pos :: int
  fc_fd :: chunk_fd
  fc_offset :: int
  fc_number :: nat
  fc_suffix :: nat

text \<open>The set of chunks is ordered by sequence number, then by the number of the suffix.\<close>

datatype chunk_key = Chunk_Key (key_number: nat) (key_suffix: nat)

instantiation chunk_key :: linorder
begin

definition less_chunk_key :: "chunk_key \<Rightarrow> chunk_key \<Rightarrow> bool" where
  "less_chunk_key l r \<longleftrightarrow>
     (if key_number l = key_number r then key_suffix l < key_suffix r else key_number l < key_number r)"

definition less_eq_chunk_key :: "chunk_key \<Rightarrow> chunk_key \<Rightarrow> bool" where
  "less_eq_chunk_key l r \<longleftrightarrow> l < r \<or> l = r"

instance
proof
  fix x y z :: chunk_key
  show "(x < y) = (x \<le> y \<and> \<not> y \<le> x)"
    by (cases x; cases y) (auto simp: less_chunk_key_def less_eq_chunk_key_def)
  show "x \<le> x" by (simp add: less_eq_chunk_key_def)
  show "x \<le> y \<Longrightarrow> y \<le> z \<Longrightarrow> x \<le> z"
    by (cases x; cases y; cases z) (auto simp: less_chunk_key_def less_eq_chunk_key_def split: if_splits)
  show "x \<le> y \<Longrightarrow> y \<le> x \<Longrightarrow> x = y"
    by (cases x; cases y) (auto simp: less_chunk_key_def less_eq_chunk_key_def split: if_splits)
  show "x \<le> y \<or> y \<le> x"
    by (cases x; cases y) (auto simp: less_chunk_key_def less_eq_chunk_key_def split: if_splits)
qed

end

definition chunk_key_of :: "filechunk \<Rightarrow> chunk_key" where
  "chunk_key_of c = Chunk_Key (fc_number c) (fc_suffix c)"

text \<open>\<open>std::set<filechunk_type>::insert\<close>; \<open>None\<close>: there is one already.\<close>

fun chunk_insert :: "filechunk \<Rightarrow> filechunk list \<Rightarrow> filechunk list option" where
  "chunk_insert c [] = Some [c]"
| "chunk_insert c (d # ds) =
     (if chunk_key_of c < chunk_key_of d then Some (c # d # ds)
      else if chunk_key_of d < chunk_key_of c then map_option ((#) d) (chunk_insert c ds)
      else None)"

text \<open>
  The system: what \<open>open\<close> gives to read, and how many of the \<open>n\<close> bytes there are the \<open>k\<close>-th call of
  \<open>read\<close> returns (\<open>None\<close>: it fails).
\<close>

record vbs_os =
  os_content :: "path \<Rightarrow> byte list option"
  os_read :: "nat \<Rightarrow> nat \<Rightarrow> nat option"

definition open_chunk :: "vbs_os \<Rightarrow> filechunk \<Rightarrow> (filechunk \<times> byte list) option" where
  "open_chunk os c =
     map_option (\<lambda>content. (if fc_fd c = Invalid_Fd then c\<lparr>fc_fd := Own_Fd\<rparr> else c, content)) (os_content os (fc_path c))"

definition close_chunk :: "filechunk \<Rightarrow> filechunk" where
  "close_chunk c = (if fc_fd c = Own_Fd then c\<lparr>fc_fd := Invalid_Fd\<rparr> else c)"

subsection \<open>Open recordings\<close>

record openfile =
  of_pointer :: int
  of_size :: int
  of_chunks :: "filechunk list"
  of_cur :: nat

fun set_offsets :: "int \<Rightarrow> filechunk list \<Rightarrow> filechunk list" where
  "set_offsets off [] = []"
| "set_offsets off (c # cs) = c\<lparr>fc_offset := off\<rparr> # set_offsets (off + fc_size c) cs"

definition openfile_new :: "filechunk list \<Rightarrow> openfile" where
  "openfile_new fcs = \<lparr>of_pointer = 0, of_size = sum_list (map fc_size fcs), of_chunks = set_offsets 0 fcs, of_cur = 0\<rparr>"

definition openfile_null :: "int \<Rightarrow> openfile" where
  "openfile_null maxsize = \<lparr>of_pointer = 0, of_size = maxsize, of_chunks = [], of_cur = 0\<rparr>"

text \<open>The map from descriptors to open recordings, in ascending order.\<close>

type_synonym openfiles = "(int \<times> openfile) list"

datatype vbs_errno = EBADF | EFAULT | EINVAL | ENOENT
datatype vbs_result = Vbs_Fails vbs_errno | Vbs_Throws | Vbs_Bytes "byte list" | Vbs_Offset int | Vbs_Fd int | Vbs_Done

definition new_fd :: "openfiles \<Rightarrow> int" where
  "new_fd tbl = (case tbl of [] \<Rightarrow> 2 ^ 31 - 1 | (fd, _) # _ \<Rightarrow> fd - 1)"

definition open_chunks :: "openfiles \<Rightarrow> filechunk list \<Rightarrow> openfiles \<times> vbs_result" where
  "open_chunks tbl chunks =
     (if chunks = [] then (tbl, Vbs_Fails ENOENT) else ((new_fd tbl, openfile_new chunks) # tbl, Vbs_Fd (new_fd tbl)))"

definition null_open :: "openfiles \<Rightarrow> int \<Rightarrow> openfiles \<times> vbs_result" where
  "null_open tbl maxsize = ((new_fd tbl, openfile_null maxsize) # tbl, Vbs_Fd (new_fd tbl))"

definition with_chunk :: "openfile \<Rightarrow> filechunk \<Rightarrow> openfile" where
  "with_chunk f c = f\<lparr>of_chunks := (of_chunks f)[of_cur f := c]\<rparr>"

text \<open>The loop of \<open>vbs_read\<close>, with the number of the next system call, the bytes still wanted and those read.\<close>

partial_function (option) read_loop :: "vbs_os \<Rightarrow> nat \<Rightarrow> openfile \<Rightarrow> nat \<Rightarrow> byte list \<Rightarrow>
    (nat \<times> openfile \<times> byte list option) option" where
  "read_loop os k f nr acc =
     (if nr = 0 \<or> of_cur f = length (of_chunks f) then Some (k, f, Some acc)
      else
        let c = of_chunks f ! of_cur f;
            n2r = min (int nr) (fc_offset c + fc_size c - of_pointer f)
        in if n2r \<le> 0
           then read_loop os k ((with_chunk f (close_chunk c))\<lparr>of_cur := of_cur f + 1\<rparr>) nr acc
           else (case open_chunk os c of
                   None \<Rightarrow> Some (k, f, Some acc)
                 | Some (c', content) \<Rightarrow>
                     let f' = with_chunk f c';
                         there = take (nat n2r) (drop (nat (of_pointer f - fc_offset c + fc_pos c)) content)
                     in (case os_read os k (length there) of
                           None \<Rightarrow> Some (k + 1, f', None)
                         | Some r \<Rightarrow>
                             let bytes = take r there
                             in read_loop os (k + 1) (f'\<lparr>of_pointer := of_pointer f + int (length bytes)\<rparr>)
                                  (nr - length bytes) (acc @ bytes))))"

definition set_file :: "openfiles \<Rightarrow> int \<Rightarrow> openfile \<Rightarrow> openfiles" where
  "set_file tbl fd f = map (\<lambda>(d, g). (d, if d = fd then f else g)) tbl"

definition vbs_read :: "vbs_os \<Rightarrow> nat \<Rightarrow> openfiles \<Rightarrow> int \<Rightarrow> bool \<Rightarrow> nat \<Rightarrow> (nat \<times> openfiles \<times> vbs_result) option" where
  "vbs_read os k tbl fd buf_null count =
     (case map_of tbl fd of
        None \<Rightarrow> Some (k, tbl, Vbs_Fails EBADF)
      | Some f \<Rightarrow>
          if buf_null then Some (k, tbl, Vbs_Fails EFAULT)
          else if count = 0 then Some (k, tbl, Vbs_Bytes [])
          else if of_chunks f = []
          then let nread = min count (nat (if of_pointer f < of_size f then of_size f - of_pointer f else 0))
               in Some (k, set_file tbl fd (f\<lparr>of_pointer := of_pointer f + int nread\<rparr>), Vbs_Bytes (replicate nread 0))
          else if of_cur f = length (of_chunks f) then Some (k, tbl, Vbs_Bytes [])
          else map_option (\<lambda>(k', f', r). (k', set_file tbl fd f', case r of None \<Rightarrow> Vbs_Throws | Some bytes \<Rightarrow> Vbs_Bytes bytes))
                 (read_loop os k f count []))"

datatype whence = SEEK_SET | SEEK_END | SEEK_CUR | Seek_Other

definition find_chunk :: "filechunk list \<Rightarrow> int \<Rightarrow> nat" where
  "find_chunk cs newfp = length (takeWhile (\<lambda>c. newfp > fc_offset c + fc_size c) cs)"

definition vbs_lseek :: "openfiles \<Rightarrow> int \<Rightarrow> int \<Rightarrow> whence \<Rightarrow> openfiles \<times> vbs_result" where
  "vbs_lseek tbl fd offset wh =
     (case map_of tbl fd of
        None \<Rightarrow> (tbl, Vbs_Fails EBADF)
      | Some f \<Rightarrow>
          (case (case wh of SEEK_SET \<Rightarrow> Some offset | SEEK_END \<Rightarrow> Some (of_size f + offset)
                 | SEEK_CUR \<Rightarrow> Some (of_pointer f + offset) | Seek_Other \<Rightarrow> None) of
             None \<Rightarrow> (tbl, Vbs_Fails EINVAL)
           | Some newfp \<Rightarrow>
               if newfp < 0 then (tbl, Vbs_Fails EINVAL)
               else if newfp = of_pointer f then (tbl, Vbs_Offset (of_pointer f))
               else
                 let newchunk = find_chunk (of_chunks f) newfp;
                     f' = (if of_cur f \<noteq> newchunk \<and> of_cur f \<noteq> length (of_chunks f)
                           then with_chunk f (close_chunk (of_chunks f ! of_cur f)) else f)
                 in (set_file tbl fd (f'\<lparr>of_pointer := newfp, of_cur := newchunk\<rparr>), Vbs_Offset newfp)))"

definition vbs_close :: "openfiles \<Rightarrow> int \<Rightarrow> openfiles \<times> vbs_result" where
  "vbs_close tbl fd =
     (if map_of tbl fd = None then (tbl, Vbs_Fails EBADF) else (filter (\<lambda>(d, _). d \<noteq> fd) tbl, Vbs_Done))"

declare read_loop.simps [code]

subsection \<open>A recording as one file\<close>

text \<open>Reads of a regular file return at least one and at most the bytes there are.\<close>

definition reads_progress :: "vbs_os \<Rightarrow> bool" where
  "reads_progress os \<longleftrightarrow> (\<forall>k n. \<exists>r. os_read os k n = Some r \<and> r \<le> n \<and> (0 < n \<longrightarrow> 0 < r))"

definition chunk_data :: "vbs_os \<Rightarrow> filechunk \<Rightarrow> byte list" where
  "chunk_data os c =
     (case os_content os (fc_path c) of None \<Rightarrow> [] | Some content \<Rightarrow> take (nat (fc_size c)) (drop (nat (fc_pos c)) content))"

definition chunk_valid :: "vbs_os \<Rightarrow> filechunk \<Rightarrow> bool" where
  "chunk_valid os c \<longleftrightarrow> 0 \<le> fc_size c \<and> 0 \<le> fc_pos c
     \<and> (\<exists>content. os_content os (fc_path c) = Some content \<and> fc_pos c + fc_size c \<le> int (length content))"

definition flat :: "vbs_os \<Rightarrow> filechunk list \<Rightarrow> byte list" where
  "flat os cs = concat (map (chunk_data os) cs)"

definition file_data :: "vbs_os \<Rightarrow> openfile \<Rightarrow> byte list" where
  "file_data os f = (if of_chunks f = [] then replicate (nat (of_size f)) 0 else flat os (of_chunks f))"

definition offsets_ok :: "vbs_os \<Rightarrow> filechunk list \<Rightarrow> bool" where
  "offsets_ok os cs \<longleftrightarrow> (\<forall>i < length cs. fc_offset (cs ! i) = int (length (flat os (take i cs))))"

text \<open>
  What holds of an open recording: the chunks are readable, their offsets and the size are right, the
  chunks before the current one are passed, and no other chunk than the current one is open.
\<close>

definition file_inv :: "vbs_os \<Rightarrow> openfile \<Rightarrow> bool" where
  "file_inv os f \<longleftrightarrow> (\<forall>c \<in> set (of_chunks f). chunk_valid os c) \<and> offsets_ok os (of_chunks f)
     \<and> of_size f = int (length (file_data os f)) \<and> 0 \<le> of_pointer f \<and> of_cur f \<le> length (of_chunks f)
     \<and> int (length (flat os (take (of_cur f) (of_chunks f)))) \<le> of_pointer f
     \<and> (\<forall>i < length (of_chunks f). fc_fd (of_chunks f ! i) = Own_Fd \<longrightarrow> i = of_cur f)"

lemma file_invI:
  assumes "\<And>c. c \<in> set (of_chunks f) \<Longrightarrow> chunk_valid os c" "offsets_ok os (of_chunks f)"
    "of_size f = int (length (file_data os f))" "0 \<le> of_pointer f" "of_cur f \<le> length (of_chunks f)"
    "int (length (flat os (take (of_cur f) (of_chunks f)))) \<le> of_pointer f"
    "\<And>i. i < length (of_chunks f) \<Longrightarrow> fc_fd (of_chunks f ! i) = Own_Fd \<Longrightarrow> i = of_cur f"
  shows "file_inv os f"
  unfolding file_inv_def using assms by blast

lemma file_invD:
  assumes "file_inv os f"
  shows "c \<in> set (of_chunks f) \<Longrightarrow> chunk_valid os c" "offsets_ok os (of_chunks f)"
    "of_size f = int (length (file_data os f))" "0 \<le> of_pointer f" "of_cur f \<le> length (of_chunks f)"
    "int (length (flat os (take (of_cur f) (of_chunks f)))) \<le> of_pointer f"
    "i < length (of_chunks f) \<Longrightarrow> fc_fd (of_chunks f ! i) = Own_Fd \<Longrightarrow> i = of_cur f"
  using assms unfolding file_inv_def by blast+

lemma length_chunk_data: "chunk_valid os c \<Longrightarrow> int (length (chunk_data os c)) = fc_size c"
  by (auto simp: chunk_valid_def chunk_data_def)

lemma flat_simps [simp]: "flat os [] = []" "flat os (c # cs) = chunk_data os c @ flat os cs"
  "flat os (cs @ ds) = flat os cs @ flat os ds"
  by (simp_all add: flat_def)

lemma chunk_data_fd [simp]: "chunk_data os (c\<lparr>fc_fd := x\<rparr>) = chunk_data os c"
  by (simp add: chunk_data_def split: option.split)

lemma chunk_valid_fd [simp]: "chunk_valid os (c\<lparr>fc_fd := x\<rparr>) = chunk_valid os c"
  by (simp add: chunk_valid_def)

lemma flat_update_fd:
  assumes "i < length cs"
  shows "flat os (take n (cs[i := (cs ! i)\<lparr>fc_fd := x\<rparr>])) = flat os (take n cs)"
proof -
  have "map (chunk_data os) (cs[i := (cs ! i)\<lparr>fc_fd := x\<rparr>]) = map (chunk_data os) cs"
    using assms by (simp add: map_update list_update_same_conv)
  then show ?thesis unfolding flat_def by (metis take_map)
qed

lemma flat_update_fd_all: "i < length cs \<Longrightarrow> flat os (cs[i := (cs ! i)\<lparr>fc_fd := x\<rparr>]) = flat os cs"
  using flat_update_fd [of i cs os "length cs" x] by simp

lemma flat_take_Suc: "i < length cs \<Longrightarrow> flat os (take (Suc i) cs) = flat os (take i cs) @ chunk_data os (cs ! i)"
  by (simp add: take_Suc_conv_app_nth)

lemma drop_flat:
  assumes "i < length cs" "d \<le> length (chunk_data os (cs ! i))"
  shows "drop (length (flat os (take i cs)) + d) (flat os cs) = drop d (chunk_data os (cs ! i)) @ flat os (drop (Suc i) cs)"
proof -
  have "flat os cs = flat os (take i cs) @ chunk_data os (cs ! i) @ flat os (drop (Suc i) cs)"
    using assms(1) by (metis append.assoc append_take_drop_id flat_simps(3) flat_take_Suc)
  then show ?thesis using assms(2) by simp
qed

text \<open>Changing the descriptor of the current chunk changes nothing else.\<close>

lemma with_fd_inv:
  fixes x :: chunk_fd
  assumes "file_inv os f" "of_cur f < length (of_chunks f)"
  defines "f' \<equiv> with_chunk f ((of_chunks f ! of_cur f)\<lparr>fc_fd := x\<rparr>)"
  shows "file_inv os f'" "file_data os f' = file_data os f"
    "flat os (of_chunks f') = flat os (of_chunks f)"
    "of_pointer f' = of_pointer f" "of_cur f' = of_cur f" "length (of_chunks f') = length (of_chunks f)" "of_size f' = of_size f"
proof -
  let ?c = "(of_chunks f ! of_cur f)\<lparr>fc_fd := x\<rparr>"
  have cs: "of_chunks f' = (of_chunks f)[of_cur f := ?c]" and rest: "of_pointer f' = of_pointer f" "of_cur f' = of_cur f" "of_size f' = of_size f"
    by (simp_all add: f'_def with_chunk_def)
  then show "of_pointer f' = of_pointer f" "of_cur f' = of_cur f" "of_size f' = of_size f"
    "length (of_chunks f') = length (of_chunks f)" by simp_all
  show flat': "flat os (of_chunks f') = flat os (of_chunks f)" using assms(2) by (simp add: cs flat_update_fd_all)
  then show data: "file_data os f' = file_data os f" using rest by (simp add: file_data_def cs)
  have valid: "\<forall>c \<in> set (of_chunks f'). chunk_valid os c"
  proof
    fix c assume "c \<in> set (of_chunks f')"
    then have "c = ?c \<or> c \<in> set (of_chunks f)" unfolding cs using set_update_subset_insert by fastforce
    then show "chunk_valid os c" using assms(1,2) by (auto simp: file_inv_def)
  qed
  have take': "flat os (take n (of_chunks f')) = flat os (take n (of_chunks f))" for n
    using assms(2) by (simp add: cs flat_update_fd)
  have "fc_offset (of_chunks f' ! i) = fc_offset (of_chunks f ! i)" if "i < length (of_chunks f)" for i
    using assms(2) that by (simp add: cs nth_list_update)
  then have off: "offsets_ok os (of_chunks f')"
    using file_invD(2) [OF assms(1)] take' by (simp add: offsets_ok_def cs)
  show "file_inv os f'"
  proof (rule file_invI)
    show "i = of_cur f'" if "i < length (of_chunks f')" "fc_fd (of_chunks f' ! i) = Own_Fd" for i
      using file_invD(7) [OF assms(1), of i] that rest by (cases "i = of_cur f") (simp_all add: cs)
  qed (use file_invD(3-6) [OF assms(1)] valid off take' data rest in \<open>simp_all add: cs\<close>)
qed

subsection \<open>Reading\<close>

lemma file_data_flat: "of_chunks f \<noteq> [] \<Longrightarrow> file_data os f = flat os (of_chunks f)"
  by (simp add: file_data_def)

lemma current_offset:
  assumes "file_inv os f" "of_cur f < length (of_chunks f)"
  shows "fc_offset (of_chunks f ! of_cur f) = int (length (flat os (take (of_cur f) (of_chunks f))))"
    "fc_offset (of_chunks f ! of_cur f) \<le> of_pointer f"
    "int (length (chunk_data os (of_chunks f ! of_cur f))) = fc_size (of_chunks f ! of_cur f)"
    "chunk_valid os (of_chunks f ! of_cur f)"
  using file_invD(1,2,6) [OF assms(1)] assms(2) by (simp_all add: offsets_ok_def length_chunk_data)

lemma next_chunk_inv:
  assumes "file_inv os f" "of_cur f < length (of_chunks f)"
    "fc_offset (of_chunks f ! of_cur f) + fc_size (of_chunks f ! of_cur f) \<le> of_pointer f"
  defines "f' \<equiv> (with_chunk f (close_chunk (of_chunks f ! of_cur f)))\<lparr>of_cur := of_cur f + 1\<rparr>"
  shows "file_inv os f'" "file_data os f' = file_data os f" "of_pointer f' = of_pointer f"
    "of_cur f' = of_cur f + 1" "length (of_chunks f') = length (of_chunks f)" "flat os (of_chunks f') = flat os (of_chunks f)"
proof -
  let ?c = "of_chunks f ! of_cur f"
  define g where "g = with_chunk f (?c\<lparr>fc_fd := (if fc_fd ?c = Own_Fd then Invalid_Fd else fc_fd ?c)\<rparr>)"
  note g = with_fd_inv [OF assms(1,2), of "if fc_fd ?c = Own_Fd then Invalid_Fd else fc_fd ?c", folded g_def]
  have "close_chunk ?c = ?c\<lparr>fc_fd := (if fc_fd ?c = Own_Fd then Invalid_Fd else fc_fd ?c)\<rparr>"
    by (simp add: close_chunk_def)
  then have f': "f' = g\<lparr>of_cur := of_cur f + 1\<rparr>" by (simp add: f'_def g_def)
  have "int (length (flat os (take (of_cur f + 1) (of_chunks g)))) \<le> of_pointer f"
  proof -
    have "flat os (take (of_cur f + 1) (of_chunks g)) = flat os (take (of_cur f) (of_chunks g)) @ chunk_data os (of_chunks g ! of_cur f)"
      using assms(2) g(6) by (simp add: flat_take_Suc)
    moreover have "chunk_data os (of_chunks g ! of_cur f) = chunk_data os ?c" using assms(2) by (simp add: g_def with_chunk_def)
    moreover have "flat os (take (of_cur f) (of_chunks g)) = flat os (take (of_cur f) (of_chunks f))"
      using assms(2) by (simp add: g_def with_chunk_def flat_update_fd)
    ultimately show ?thesis using current_offset [OF assms(1,2)] assms(3) by simp
  qed
  then have passed: "int (length (flat os (take (of_cur f') (of_chunks f')))) \<le> of_pointer f'" using g(4) by (simp add: f')
  have closed: "fc_fd (of_chunks g ! i) \<noteq> Own_Fd" if "i < length (of_chunks f)" for i
  proof (cases "i = of_cur f")
    case True
    then show ?thesis using assms(2) by (simp add: g_def with_chunk_def)
  next
    case False
    then show ?thesis using file_invD(7) [OF g(1), of i] g(5,6) that by auto
  qed
  show "file_inv os f'"
  proof (rule file_invI)
    show "c \<in> set (of_chunks f') \<Longrightarrow> chunk_valid os c" for c using file_invD(1) [OF g(1)] by (simp add: f')
    show "offsets_ok os (of_chunks f')" using file_invD(2) [OF g(1)] by (simp add: f')
    show "of_size f' = int (length (file_data os f'))" using file_invD(3) [OF g(1)]
      by (simp add: f' file_data_def split: if_splits)
    show "0 \<le> of_pointer f'" using file_invD(4) [OF g(1)] by (simp add: f')
    show "of_cur f' \<le> length (of_chunks f')" using assms(2) g(6) by (simp add: f')
    show "i = of_cur f'" if "i < length (of_chunks f')" "fc_fd (of_chunks f' ! i) = Own_Fd" for i
      using closed [of i] that g(6) by (simp add: f')
  qed (rule passed)
  have "file_data os f' = file_data os g" by (simp add: f' file_data_def)
  then show "file_data os f' = file_data os f" using g(2) by simp
  show "of_pointer f' = of_pointer f" "of_cur f' = of_cur f + 1" "length (of_chunks f') = length (of_chunks f)"
    "flat os (of_chunks f') = flat os (of_chunks f)" using g by (simp_all add: f')
qed

lemma advance_inv:
  assumes "file_inv os f"
  shows "file_inv os (f\<lparr>of_pointer := of_pointer f + int r\<rparr>)" "file_data os (f\<lparr>of_pointer := n\<rparr>) = file_data os f"
  using file_invD [OF assms] by (auto intro!: file_invI simp: file_data_def)

lemma read_loop_flat:
  assumes "reads_progress os"
  shows "file_inv os f \<Longrightarrow> of_chunks f \<noteq> [] \<Longrightarrow>
    \<exists>k' f'. read_loop os k f nr acc = Some (k', f', Some (acc @ take nr (drop (nat (of_pointer f)) (file_data os f))))
      \<and> file_inv os f' \<and> file_data os f' = file_data os f
      \<and> of_pointer f' = of_pointer f + int (length (take nr (drop (nat (of_pointer f)) (file_data os f))))"
proof (induction "nr + (length (of_chunks f) - of_cur f)" arbitrary: k f nr acc rule: less_induct)
  case less
  note inv = less.prems(1)
  let ?cur = "of_cur f" and ?cs = "of_chunks f" and ?p = "nat (of_pointer f)"
  have p: "0 \<le> of_pointer f" by (rule file_invD(4) [OF inv])
  show ?case
  proof (cases "nr = 0 \<or> ?cur = length ?cs")
    case True
    have "length (file_data os f) \<le> ?p" if "?cur = length ?cs"
      using file_invD(6) [OF inv] that less.prems(2) by (simp add: file_data_flat)
    then have none: "take nr (drop ?p (file_data os f)) = []" using True by auto
    have "read_loop os k f nr acc = Some (k, f, Some acc)" using True by (auto simp: read_loop.simps [of os k f nr])
    then show ?thesis unfolding none using inv by simp
  next
    case False
    then have cur: "?cur < length ?cs" using file_invD(5) [OF inv] by simp
    note c = current_offset [OF inv cur]
    let ?c = "?cs ! ?cur"
    define n2r where "n2r = min (int nr) (fc_offset ?c + fc_size ?c - of_pointer f)"
    show ?thesis
    proof (cases "n2r \<le> 0")
      case True
      then have "fc_offset ?c + fc_size ?c \<le> of_pointer f" using False unfolding n2r_def by linarith
      note g = next_chunk_inv [OF inv cur this]
      let ?g = "(with_chunk f (close_chunk ?c))\<lparr>of_cur := ?cur + 1\<rparr>"
      have "nr + (length (of_chunks ?g) - of_cur ?g) < nr + (length ?cs - ?cur)" using g(4,5) cur by simp
      moreover have "of_chunks ?g \<noteq> []" using g(5) less.prems(2) by (metis length_0_conv)
      moreover have "read_loop os k f nr acc = read_loop os k ?g nr acc"
        using False True by (simp add: read_loop.simps [of os k f nr] Let_def n2r_def)
      ultimately show ?thesis using less.hyps [of nr ?g k acc] g(1,2,3) by simp
    next
      case small: False
      obtain content where content: "os_content os (fc_path ?c) = Some content"
        "fc_pos ?c + fc_size ?c \<le> int (length content)" "0 \<le> fc_pos ?c"
        using c(4) by (auto simp: chunk_valid_def)
      define d where "d = nat (of_pointer f - fc_offset ?c)"
      have d: "int d = of_pointer f - fc_offset ?c" using c(2) by (simp add: d_def)
      define there where "there = take (nat n2r) (drop (nat (of_pointer f - fc_offset ?c + fc_pos ?c)) content)"
      have there: "there = take (nat n2r) (drop d (chunk_data os ?c))"
      proof -
        have "nat (of_pointer f - fc_offset ?c + fc_pos ?c) = nat (fc_pos ?c) + d" using d content(3) by linarith
        moreover have "nat n2r \<le> nat (fc_size ?c) - d" using d unfolding n2r_def by linarith
        ultimately show ?thesis by (simp add: there_def chunk_data_def content(1) drop_take min_absorb1 add.commute)
      qed
      have n2r: "nat n2r \<le> length (drop d (chunk_data os ?c))" "nat n2r \<le> nr"
        using c(3) d unfolding n2r_def by (simp_all add: nat_le_iff)
      have lt: "length there = nat n2r" using n2r(1) unfolding there by simp
      obtain r where r: "os_read os k (length there) = Some r" "r \<le> length there" "0 < r"
        using assms small unfolding reads_progress_def lt by (metis nat_0_less_mult_iff not_le zero_less_nat_eq)
      define f1 where "f1 = with_chunk f (if fc_fd ?c = Invalid_Fd then ?c\<lparr>fc_fd := Own_Fd\<rparr> else ?c)"
      have f1_eq: "f1 = with_chunk f (?c\<lparr>fc_fd := (if fc_fd ?c = Invalid_Fd then Own_Fd else fc_fd ?c)\<rparr>)"
        by (simp add: f1_def)
      note f1 = with_fd_inv [OF inv cur, of "if fc_fd ?c = Invalid_Fd then Own_Fd else fc_fd ?c", folded f1_eq]
      define g where "g = f1\<lparr>of_pointer := of_pointer f + int r\<rparr>"
      have "file_inv os (f1\<lparr>of_pointer := of_pointer f1 + int r\<rparr>)" by (rule advance_inv(1) [OF f1(1)])
      then have g: "file_inv os g" "file_data os g = file_data os f" "of_chunks g \<noteq> []" "of_cur g = ?cur"
        "length (of_chunks g) = length ?cs" "nat (of_pointer g) = ?p + r" "of_pointer g = of_pointer f + int r"
        using f1 p less.prems(2) by (auto simp: g_def advance_inv(2) [OF f1(1)])
      have step: "read_loop os k f nr acc = read_loop os (k + 1) g (nr - r) (acc @ take r there)"
        using False small r(1,2) content(1) unfolding there_def n2r_def
        by (simp add: read_loop.simps [of os k f nr] Let_def open_chunk_def g_def f1_def n2r_def min_absorb2)
      have "nr - r + (length (of_chunks g) - of_cur g) < nr + (length ?cs - ?cur)" using r n2r g(4,5) lt by simp
      from less.hyps [OF this g(1,3), of "k + 1" "acc @ take r there"] obtain k' f' where
        IH: "read_loop os (k + 1) g (nr - r) (acc @ take r there) =
            Some (k', f', Some ((acc @ take r there) @ take (nr - r) (drop (?p + r) (file_data os f))))"
          "file_inv os f'" "file_data os f' = file_data os f"
          "of_pointer f' = of_pointer f + int r + int (length (take (nr - r) (drop (?p + r) (file_data os f))))"
        unfolding g(6) unfolding g(2,7) by blast
      have "drop ?p (file_data os f) = drop d (chunk_data os ?c) @ flat os (drop (Suc ?cur) ?cs)"
      proof -
        have "?p = length (flat os (take ?cur ?cs)) + d" using c(1) d p by linarith
        moreover have "d \<le> length (chunk_data os ?c)" using n2r(1) small by (cases "d \<le> length (chunk_data os ?c)") auto
        ultimately show ?thesis using drop_flat [OF cur] less.prems(2) by (simp add: file_data_flat)
      qed
      then have "take r (drop ?p (file_data os f)) = take r there"
        using r(2) [unfolded lt] n2r(1) unfolding there by (simp add: min_absorb1)
      then have t: "take nr (drop ?p (file_data os f)) = take r there @ take (nr - r) (drop (?p + r) (file_data os f))"
        using r(2) n2r(2) lt by (metis add.commute drop_drop le_add_diff_inverse order_trans take_add)
      then show ?thesis using IH r(2) step by (auto simp: min_absorb2)
    qed
  qed
qed

subsection \<open>Positioning\<close>

lemma find_chunk_passed:
  assumes "file_inv os f" "0 \<le> newfp"
  shows "find_chunk (of_chunks f) newfp \<le> length (of_chunks f)"
    "int (length (flat os (take (find_chunk (of_chunks f) newfp) (of_chunks f)))) \<le> newfp"
proof -
  let ?cs = "of_chunks f" and ?n = "find_chunk (of_chunks f) newfp"
  show le: "?n \<le> length ?cs" by (simp add: find_chunk_def length_takeWhile_le)
  show "int (length (flat os (take ?n ?cs))) \<le> newfp"
  proof (cases ?n)
    case 0
    then show ?thesis using assms(2) by simp
  next
    case (Suc j)
    then have j: "j < length ?cs" using le by simp
    have "newfp > fc_offset (?cs ! j) + fc_size (?cs ! j)"
      using Suc nth_mem [of j "takeWhile (\<lambda>c. newfp > fc_offset c + fc_size c) ?cs"]
      by (metis (no_types, lifting) find_chunk_def lessI set_takeWhileD takeWhile_nth)
    moreover have "fc_offset (?cs ! j) = int (length (flat os (take j ?cs)))"
      using file_invD(2) [OF assms(1)] j by (simp add: offsets_ok_def)
    moreover have "int (length (chunk_data os (?cs ! j))) = fc_size (?cs ! j)"
      using file_invD(1) [OF assms(1)] j by (simp add: length_chunk_data)
    ultimately show ?thesis unfolding Suc using j by (simp add: flat_take_Suc)
  qed
qed

lemma seek_inv:
  assumes "file_inv os f" "0 \<le> newfp"
  defines "newchunk \<equiv> find_chunk (of_chunks f) newfp"
  defines "f' \<equiv> (if of_cur f \<noteq> newchunk \<and> of_cur f \<noteq> length (of_chunks f)
      then with_chunk f (close_chunk (of_chunks f ! of_cur f)) else f)"
  shows "file_inv os (f'\<lparr>of_pointer := newfp, of_cur := newchunk\<rparr>)"
    "file_data os (f'\<lparr>of_pointer := newfp, of_cur := newchunk\<rparr>) = file_data os f"
proof -
  let ?c = "of_chunks f ! of_cur f"
  have close: "close_chunk ?c = ?c\<lparr>fc_fd := (if fc_fd ?c = Own_Fd then Invalid_Fd else fc_fd ?c)\<rparr>"
    by (simp add: close_chunk_def)
  have g: "file_inv os f'" "file_data os f' = file_data os f" "length (of_chunks f') = length (of_chunks f)"
    "flat os (take newchunk (of_chunks f')) = flat os (take newchunk (of_chunks f))"
    "\<And>i. i < length (of_chunks f) \<Longrightarrow> fc_fd (of_chunks f' ! i) = Own_Fd \<Longrightarrow> i = newchunk"
  proof -
    have "file_inv os f' \<and> file_data os f' = file_data os f \<and> length (of_chunks f') = length (of_chunks f)
      \<and> flat os (take newchunk (of_chunks f')) = flat os (take newchunk (of_chunks f))
      \<and> (\<forall>i < length (of_chunks f). fc_fd (of_chunks f' ! i) = Own_Fd \<longrightarrow> i = newchunk)"
    proof (cases "of_cur f \<noteq> newchunk \<and> of_cur f \<noteq> length (of_chunks f)")
      case True
      then have cur: "of_cur f < length (of_chunks f)" using file_invD(5) [OF assms(1)] by simp
      have f': "f' = with_chunk f (?c\<lparr>fc_fd := (if fc_fd ?c = Own_Fd then Invalid_Fd else fc_fd ?c)\<rparr>)"
        using True by (simp only: f'_def close if_True simp_thms)
      note w = with_fd_inv [OF assms(1) cur, of "if fc_fd ?c = Own_Fd then Invalid_Fd else fc_fd ?c", folded f']
      have "flat os (take newchunk (of_chunks f')) = flat os (take newchunk (of_chunks f))"
        using cur by (simp add: f' with_chunk_def flat_update_fd)
      moreover have "fc_fd (of_chunks f' ! i) \<noteq> Own_Fd" if "i < length (of_chunks f)" for i
      proof (cases "i = of_cur f")
        case True
        then show ?thesis using cur by (simp add: f' with_chunk_def)
      next
        case False
        then show ?thesis using file_invD(7) [OF assms(1), of i] that by (auto simp: f' with_chunk_def)
      qed
      ultimately show ?thesis using w by blast
    next
      case False
      then have "i = newchunk" if "i < length (of_chunks f)" "fc_fd (of_chunks f ! i) = Own_Fd" for i
        using file_invD(7) [OF assms(1) that] that by auto
      then show ?thesis using assms(1) False by (auto simp: f'_def)
    qed
    then show "file_inv os f'" "file_data os f' = file_data os f" "length (of_chunks f') = length (of_chunks f)"
      "flat os (take newchunk (of_chunks f')) = flat os (take newchunk (of_chunks f))"
      "\<And>i. i < length (of_chunks f) \<Longrightarrow> fc_fd (of_chunks f' ! i) = Own_Fd \<Longrightarrow> i = newchunk" by blast+
  qed
  let ?g = "f'\<lparr>of_pointer := newfp, of_cur := newchunk\<rparr>"
  have data: "file_data os ?g = file_data os f'" by (simp add: file_data_def)
  then show "file_data os ?g = file_data os f" using g(2) by simp
  note fc = find_chunk_passed [OF assms(1,2), folded newchunk_def]
  show "file_inv os ?g"
  proof (rule file_invI)
    show "c \<in> set (of_chunks ?g) \<Longrightarrow> chunk_valid os c" for c using file_invD(1) [OF g(1)] by simp
    show "offsets_ok os (of_chunks ?g)" using file_invD(2) [OF g(1)] by simp
    show "of_size ?g = int (length (file_data os ?g))" unfolding data using file_invD(3) [OF g(1)] by simp
  qed (use assms(2) fc g(3,4,5) in auto)
qed

subsection \<open>The operations on the table\<close>

lemma map_of_set_file:
  "map_of (set_file tbl fd g) x = (if x = fd then map_option (\<lambda>_. g) (map_of tbl fd) else map_of tbl x)"
  unfolding set_file_def by (induction tbl) auto

lemma map_of_set_file_Some: "map_of tbl fd = Some f \<Longrightarrow> map_of (set_file tbl fd g) = (map_of tbl)(fd \<mapsto> g)"
  by (simp add: fun_eq_iff map_of_set_file)

text \<open>A plain file: its bytes and the position.\<close>

type_synonym flat_file = "byte list \<times> nat"

definition flat_read :: "nat \<Rightarrow> flat_file \<Rightarrow> flat_file \<times> vbs_result" where
  "flat_read n fp = (let bytes = take n (drop (snd fp) (fst fp)) in ((fst fp, snd fp + length bytes), Vbs_Bytes bytes))"

definition flat_lseek :: "int \<Rightarrow> whence \<Rightarrow> flat_file \<Rightarrow> flat_file \<times> vbs_result" where
  "flat_lseek off wh fp =
     (let to = (case wh of SEEK_SET \<Rightarrow> Some off | SEEK_END \<Rightarrow> Some (int (length (fst fp)) + off)
                | SEEK_CUR \<Rightarrow> Some (int (snd fp) + off) | Seek_Other \<Rightarrow> None)
      in case to of None \<Rightarrow> (fp, Vbs_Fails EINVAL)
         | Some p \<Rightarrow> if p < 0 then (fp, Vbs_Fails EINVAL) else ((fst fp, nat p), Vbs_Offset p))"

definition file_view :: "vbs_os \<Rightarrow> openfile \<Rightarrow> flat_file" where
  "file_view os f = (file_data os f, nat (of_pointer f))"

lemma vbs_read_flat:
  assumes "reads_progress os" "map_of tbl fd = Some f" "file_inv os f"
  shows "\<exists>k' tbl' f'. vbs_read os k tbl fd False n = Some (k', tbl', snd (flat_read n (file_view os f)))
    \<and> map_of tbl' = (map_of tbl)(fd \<mapsto> f') \<and> file_inv os f' \<and> file_view os f' = fst (flat_read n (file_view os f))"
proof -
  have p: "0 \<le> of_pointer f" by (rule file_invD(4) [OF assms(3)])
  have same: ?thesis if "vbs_read os k tbl fd False n = Some (k, tbl, Vbs_Bytes [])" "take n (drop (nat (of_pointer f)) (file_data os f)) = []"
  proof -
    have "flat_read n (file_view os f) = (file_view os f, Vbs_Bytes [])"
      unfolding flat_read_def file_view_def Let_def fst_conv snd_conv that(2) by simp
    moreover have "map_of tbl = (map_of tbl)(fd \<mapsto> f)" using assms(2) by (simp add: map_upd_triv)
    ultimately show ?thesis using that(1) assms(3) by (metis fst_conv snd_conv)
  qed
  consider "n = 0" | "n \<noteq> 0" "of_chunks f = []" | "n \<noteq> 0" "of_chunks f \<noteq> []" "of_cur f = length (of_chunks f)"
    | "n \<noteq> 0" "of_chunks f \<noteq> []" "of_cur f \<noteq> length (of_chunks f)" by blast
  then show ?thesis
  proof cases
    case 1
    then show ?thesis using assms(2) by (intro same) (simp_all add: vbs_read_def)
  next
    case 2
    let ?n = "min n (nat (if of_pointer f < of_size f then of_size f - of_pointer f else 0))"
    let ?f = "f\<lparr>of_pointer := of_pointer f + int ?n\<rparr>"
    have "take n (drop (nat (of_pointer f)) (file_data os f)) = replicate ?n 0"
      using 2 p by (auto simp: file_data_def min_def nat_diff_distrib)
    then have "flat_read n (file_view os f) = (file_view os ?f, Vbs_Bytes (replicate ?n 0))"
      unfolding flat_read_def file_view_def Let_def fst_conv snd_conv advance_inv(2) [OF assms(3)]
      using p by (simp add: nat_add_distrib)
    moreover have "vbs_read os k tbl fd False n = Some (k, set_file tbl fd ?f, Vbs_Bytes (replicate ?n 0))"
      using 2 assms(2) by (simp add: vbs_read_def Let_def)
    ultimately show ?thesis using map_of_set_file_Some [OF assms(2)] advance_inv(1) [OF assms(3), of ?n]
      by (metis fst_conv snd_conv)
  next
    case 3
    have "length (file_data os f) \<le> nat (of_pointer f)" using file_invD(6) [OF assms(3)] 3 by (simp add: file_data_flat)
    then show ?thesis using assms(2) 3 by (intro same) (simp_all add: vbs_read_def)
  next
    case 4
    obtain k' f' where loop: "read_loop os k f n [] = Some (k', f', Some ([] @ take n (drop (nat (of_pointer f)) (file_data os f))))"
      "file_inv os f'" "file_data os f' = file_data os f"
      "of_pointer f' = of_pointer f + int (length (take n (drop (nat (of_pointer f)) (file_data os f))))"
      using read_loop_flat [OF assms(1,3) 4(2)] by blast
    have "vbs_read os k tbl fd False n = Some (k', set_file tbl fd f',
        Vbs_Bytes (take n (drop (nat (of_pointer f)) (file_data os f))))"
      using 4 assms(2) loop(1) by (simp add: vbs_read_def)
    moreover have "flat_read n (file_view os f) = (file_view os f', Vbs_Bytes (take n (drop (nat (of_pointer f)) (file_data os f))))"
      using loop(3,4) p by (simp add: flat_read_def file_view_def Let_def nat_add_distrib)
    ultimately show ?thesis using map_of_set_file_Some [OF assms(2)] loop(2) by (metis fst_conv snd_conv)
  qed
qed

lemma vbs_lseek_flat:
  assumes "map_of tbl fd = Some f" "file_inv os f"
  shows "\<exists>tbl' f'. vbs_lseek tbl fd off wh = (tbl', snd (flat_lseek off wh (file_view os f)))
    \<and> map_of tbl' = (map_of tbl)(fd \<mapsto> f') \<and> file_inv os f' \<and> file_view os f' = fst (flat_lseek off wh (file_view os f))"
proof -
  have triv: "map_of tbl = (map_of tbl)(fd \<mapsto> f)" using assms(1) by (simp add: map_upd_triv)
  have p: "0 \<le> of_pointer f" by (rule file_invD(4) [OF assms(2)])
  define to where "to = (case wh of SEEK_SET \<Rightarrow> Some off | SEEK_END \<Rightarrow> Some (of_size f + off)
                 | SEEK_CUR \<Rightarrow> Some (of_pointer f + off) | Seek_Other \<Rightarrow> None)"
  have flat_to: "(case wh of SEEK_SET \<Rightarrow> Some off | SEEK_END \<Rightarrow> Some (int (length (fst (file_view os f))) + off)
                | SEEK_CUR \<Rightarrow> Some (int (snd (file_view os f)) + off) | Seek_Other \<Rightarrow> None) = to"
    unfolding to_def file_view_def using file_invD(3) [OF assms(2)] p by (cases wh) simp_all
  show ?thesis
  proof (cases to)
    case None
    then have "vbs_lseek tbl fd off wh = (tbl, Vbs_Fails EINVAL)" "flat_lseek off wh (file_view os f) = (file_view os f, Vbs_Fails EINVAL)"
      using assms(1) flat_to by (simp_all add: vbs_lseek_def flat_lseek_def to_def [symmetric] Let_def)
    then show ?thesis using triv assms(2) by (metis fst_conv snd_conv)
  next
    case (Some newfp)
    consider "newfp < 0" | "0 \<le> newfp" "newfp = of_pointer f" | "0 \<le> newfp" "newfp \<noteq> of_pointer f" by linarith
    then show ?thesis
    proof cases
      case 1
      then have "vbs_lseek tbl fd off wh = (tbl, Vbs_Fails EINVAL)" "flat_lseek off wh (file_view os f) = (file_view os f, Vbs_Fails EINVAL)"
        using assms(1) Some flat_to by (simp_all add: vbs_lseek_def flat_lseek_def to_def [symmetric] Let_def)
      then show ?thesis using triv assms(2) by (metis fst_conv snd_conv)
    next
      case 2
      then have "vbs_lseek tbl fd off wh = (tbl, Vbs_Offset newfp)"
        using assms(1) Some by (simp add: vbs_lseek_def to_def [symmetric] Let_def)
      moreover have "flat_lseek off wh (file_view os f) = ((fst (file_view os f), nat newfp), Vbs_Offset newfp)"
        using 2 Some flat_to by (simp add: flat_lseek_def Let_def)
      moreover have "(fst (file_view os f), nat newfp) = file_view os f" using 2 by (simp add: file_view_def)
      ultimately have "vbs_lseek tbl fd off wh = (tbl, Vbs_Offset newfp)" "flat_lseek off wh (file_view os f) = (file_view os f, Vbs_Offset newfp)"
        by simp_all
      then show ?thesis using triv assms(2) by (metis fst_conv snd_conv)
    next
      case 3
      define newchunk where "newchunk = find_chunk (of_chunks f) newfp"
      define f' where "f' = (if of_cur f \<noteq> newchunk \<and> of_cur f \<noteq> length (of_chunks f)
          then with_chunk f (close_chunk (of_chunks f ! of_cur f)) else f)\<lparr>of_pointer := newfp, of_cur := newchunk\<rparr>"
      note seek = seek_inv [OF assms(2) 3(1), folded newchunk_def, folded f'_def]
      have "vbs_lseek tbl fd off wh = (set_file tbl fd f', Vbs_Offset newfp)"
        using 3 assms(1) Some by (simp add: vbs_lseek_def to_def [symmetric] Let_def f'_def newchunk_def)
      moreover have "flat_lseek off wh (file_view os f) = (file_view os f', Vbs_Offset newfp)"
      proof -
        have "flat_lseek off wh (file_view os f) = ((fst (file_view os f), nat newfp), Vbs_Offset newfp)"
          using 3 Some flat_to by (simp add: flat_lseek_def Let_def)
        moreover have "of_pointer f' = newfp" by (simp add: f'_def)
        ultimately show ?thesis using seek(2) by (simp add: file_view_def)
      qed
      ultimately show ?thesis using map_of_set_file_Some [OF assms(1)] seek(1) by (metis fst_conv snd_conv)
    qed
  qed
qed

subsection \<open>Sequences of operations\<close>

datatype vbs_op = Op_Read nat | Op_Seek int whence

fun run_vbs :: "vbs_os \<Rightarrow> nat \<Rightarrow> openfiles \<Rightarrow> int \<Rightarrow> vbs_op list \<Rightarrow> (openfiles \<times> vbs_result list) option" where
  "run_vbs os k tbl fd [] = Some (tbl, [])"
| "run_vbs os k tbl fd (Op_Read n # ops) =
     Option.bind (vbs_read os k tbl fd False n) (\<lambda>(k', tbl', r).
       map_option (\<lambda>(t, rs). (t, r # rs)) (run_vbs os k' tbl' fd ops))"
| "run_vbs os k tbl fd (Op_Seek off wh # ops) =
     (let (tbl', r) = vbs_lseek tbl fd off wh in map_option (\<lambda>(t, rs). (t, r # rs)) (run_vbs os k tbl' fd ops))"

fun run_flat :: "flat_file \<Rightarrow> vbs_op list \<Rightarrow> vbs_result list" where
  "run_flat fp [] = []"
| "run_flat fp (Op_Read n # ops) = snd (flat_read n fp) # run_flat (fst (flat_read n fp)) ops"
| "run_flat fp (Op_Seek off wh # ops) = snd (flat_lseek off wh fp) # run_flat (fst (flat_lseek off wh fp)) ops"

lemma run_vbs_flat:
  assumes "reads_progress os"
  shows "map_of tbl fd = Some f \<Longrightarrow> file_inv os f \<Longrightarrow>
    \<exists>tbl' f'. run_vbs os k tbl fd ops = Some (tbl', run_flat (file_view os f) ops)
      \<and> map_of tbl' = (map_of tbl)(fd \<mapsto> f') \<and> file_inv os f'"
proof (induction ops arbitrary: k tbl f)
  case Nil
  then have "map_of tbl = (map_of tbl)(fd \<mapsto> f)" by (simp add: map_upd_triv)
  then show ?case using Nil(2) by (metis run_flat.simps(1) run_vbs.simps(1))
next
  case (Cons op ops)
  show ?case
  proof (cases op)
    case (Op_Read n)
    obtain k' tbl' f' where s: "vbs_read os k tbl fd False n = Some (k', tbl', snd (flat_read n (file_view os f)))"
      "map_of tbl' = (map_of tbl)(fd \<mapsto> f')" "file_inv os f'" "file_view os f' = fst (flat_read n (file_view os f))"
      using vbs_read_flat [OF assms Cons.prems] by blast
    have "map_of tbl' fd = Some f'" using s(2) by simp
    from Cons.IH [OF this s(3), of k'] obtain tbl2 f2 where
      r: "run_vbs os k' tbl' fd ops = Some (tbl2, run_flat (file_view os f') ops)" "map_of tbl2 = (map_of tbl')(fd \<mapsto> f2)" "file_inv os f2"
      by blast
    have "run_vbs os k tbl fd (op # ops) = Some (tbl2, run_flat (file_view os f) (op # ops))" using s r(1) by (simp add: Op_Read)
    moreover have "map_of tbl2 = (map_of tbl)(fd \<mapsto> f2)" using r(2) s(2) by simp
    ultimately show ?thesis using r(3) by blast
  next
    case (Op_Seek off wh)
    obtain tbl' f' where s: "vbs_lseek tbl fd off wh = (tbl', snd (flat_lseek off wh (file_view os f)))"
      "map_of tbl' = (map_of tbl)(fd \<mapsto> f')" "file_inv os f'" "file_view os f' = fst (flat_lseek off wh (file_view os f))"
      using vbs_lseek_flat [OF Cons.prems] by blast
    have "map_of tbl' fd = Some f'" using s(2) by simp
    from Cons.IH [OF this s(3), of k] obtain tbl2 f2 where
      r: "run_vbs os k tbl' fd ops = Some (tbl2, run_flat (file_view os f') ops)" "map_of tbl2 = (map_of tbl')(fd \<mapsto> f2)" "file_inv os f2"
      by blast
    have "run_vbs os k tbl fd (op # ops) = Some (tbl2, run_flat (file_view os f) (op # ops))" using s r(1) by (simp add: Op_Seek)
    moreover have "map_of tbl2 = (map_of tbl)(fd \<mapsto> f2)" using r(2) s(2) by simp
    ultimately show ?thesis using r(3) by blast
  qed
qed

lemma set_offsets_nth:
  "i < length cs \<Longrightarrow> set_offsets off cs ! i = (cs ! i)\<lparr>fc_offset := off + sum_list (map fc_size (take i cs))\<rparr>"
  by (induction cs arbitrary: off i) (auto simp: nth_Cons' take_Cons' algebra_simps)

lemma length_set_offsets [simp]: "length (set_offsets off cs) = length cs"
  by (induction cs arbitrary: off) simp_all

lemma chunk_offset_irrelevant [simp]:
  "chunk_data os (c\<lparr>fc_offset := x\<rparr>) = chunk_data os c" "chunk_valid os (c\<lparr>fc_offset := x\<rparr>) = chunk_valid os c"
  by (simp_all add: chunk_data_def chunk_valid_def split: option.split)

lemma flat_set_offsets: "flat os (take n (set_offsets off cs)) = flat os (take n cs)"
  by (induction cs arbitrary: off n) (simp_all add: take_Cons')

lemma sum_sizes: "(\<And>c. c \<in> set cs \<Longrightarrow> chunk_valid os c) \<Longrightarrow> sum_list (map fc_size cs) = int (length (flat os cs))"
  by (induction cs) (simp_all add: length_chunk_data)

lemma openfile_new_inv:
  assumes "cs \<noteq> []" "\<And>c. c \<in> set cs \<Longrightarrow> chunk_valid os c" "\<And>c. c \<in> set cs \<Longrightarrow> fc_fd c \<noteq> Own_Fd"
  shows "file_inv os (openfile_new cs)" "file_view os (openfile_new cs) = (flat os cs, 0)"
proof -
  let ?f = "openfile_new cs"
  have ne: "set_offsets 0 cs \<noteq> []" using assms(1) by (cases cs) simp_all
  have data: "file_data os ?f = flat os cs"
    using ne flat_set_offsets [of os "length cs" 0 cs] by (simp add: file_data_def openfile_new_def)
  then show "file_view os ?f = (flat os cs, 0)" by (simp add: file_view_def openfile_new_def)
  have nth: "of_chunks ?f ! i = (cs ! i)\<lparr>fc_offset := int (length (flat os (take i cs)))\<rparr>" if "i < length cs" for i
  proof -
    have "sum_list (map fc_size (take i cs)) = int (length (flat os (take i cs)))"
      by (rule sum_sizes) (use assms(2) in \<open>auto dest: in_set_takeD\<close>)
    then show ?thesis using that by (simp add: openfile_new_def set_offsets_nth)
  qed
  show "file_inv os ?f"
  proof (rule file_invI)
    show "chunk_valid os c" if c: "c \<in> set (of_chunks ?f)" for c
    proof -
      have "length (of_chunks ?f) = length cs" by (simp add: openfile_new_def)
      moreover obtain i where "i < length (of_chunks ?f)" "of_chunks ?f ! i = c" using c unfolding in_set_conv_nth by blast
      ultimately have i: "i < length cs" "c = of_chunks ?f ! i" by simp_all
      have "chunk_valid os (cs ! i)" by (rule assms(2)) (use i(1) in simp)
      then show ?thesis unfolding i(2) nth [OF i(1)] by simp
    qed
    show "offsets_ok os (of_chunks ?f)"
    proof -
      have "of_chunks ?f = set_offsets 0 cs" by (simp add: openfile_new_def)
      then have "flat os (take i (of_chunks ?f)) = flat os (take i cs)" "length (of_chunks ?f) = length cs" for i
        by (simp_all add: flat_set_offsets)
      then show ?thesis unfolding offsets_ok_def using nth by simp
    qed
    show "of_size ?f = int (length (file_data os ?f))" 
      unfolding data using sum_sizes [OF assms(2), of cs] by (simp add: openfile_new_def)
    show "i = of_cur ?f" if "i < length (of_chunks ?f)" "fc_fd (of_chunks ?f ! i) = Own_Fd" for i
    proof -
      have "i < length cs" using that(1) by (simp add: openfile_new_def)
      then show ?thesis using that(2) assms(3) [of "cs ! i"] unfolding nth [OF \<open>i < length cs\<close>] by simp
    qed
  qed (simp_all add: openfile_new_def)
qed

lemma null_open_inv:
  assumes "0 \<le> maxsize"
  shows "file_inv os (openfile_null maxsize)" "file_view os (openfile_null maxsize) = (replicate (nat maxsize) 0, 0)"
  using assms by (auto simp: openfile_null_def file_view_def file_data_def offsets_ok_def intro!: file_invI)

text \<open>A recording just opened is the chunks put together.\<close>

lemma opened_flat:
  assumes "reads_progress os" "cs \<noteq> []" "\<And>c. c \<in> set cs \<Longrightarrow> chunk_valid os c" "\<And>c. c \<in> set cs \<Longrightarrow> fc_fd c \<noteq> Own_Fd"
    "open_chunks tbl cs = (tbl1, Vbs_Fd fd)"
  shows "\<exists>tbl2 f. run_vbs os k tbl1 fd ops = Some (tbl2, run_flat (flat os cs, 0) ops)
    \<and> map_of tbl2 = (map_of tbl1)(fd \<mapsto> f) \<and> file_inv os f"
proof -
  have "map_of tbl1 fd = Some (openfile_new cs)" using assms(2,5) by (auto simp: open_chunks_def)
  from run_vbs_flat [OF assms(1) this openfile_new_inv(1) [OF assms(2-4)], of k ops] openfile_new_inv(2) [OF assms(2-4)]
  show ?thesis by simp
qed

subsection \<open>Reading past the end of a truncated chunk\<close>

definition stuck :: "vbs_os \<Rightarrow> openfile \<Rightarrow> bool" where
  "stuck os f \<longleftrightarrow> of_cur f < length (of_chunks f)
     \<and> (let c = of_chunks f ! of_cur f
        in of_pointer f < fc_offset c + fc_size c
         \<and> (\<exists>content. os_content os (fc_path c) = Some content
              \<and> int (length content) \<le> of_pointer f - fc_offset c + fc_pos c))"

lemma read_loop_stuck:
  assumes "\<And>k. os_read os k 0 = Some 0" "stuck os f" "0 < nr"
  shows "read_loop os k f nr acc = None"
proof -
  have no: "(\<forall>k. os_read os k 0 = Some 0) \<longrightarrow> \<not> (stuck os f \<and> 0 < nr)" if "read_loop os k f nr acc = Some y" for os k f nr acc y
    using that
  proof (induction rule: read_loop.raw_induct [rotated 1, consumes 1])
    case (1 loop os k f nr acc y)
    show ?case
    proof (intro impI notI)
      assume zero: "\<forall>k. os_read os k 0 = Some 0" and s: "stuck os f \<and> 0 < nr"
      let ?c = "of_chunks f ! of_cur f"
      obtain content where c: "of_cur f < length (of_chunks f)" "of_pointer f < fc_offset ?c + fc_size ?c"
        "os_content os (fc_path ?c) = Some content" "int (length content) \<le> of_pointer f - fc_offset ?c + fc_pos ?c"
        using s by (auto simp: stuck_def Let_def)
      define c' where "c' = (if fc_fd ?c = Invalid_Fd then ?c\<lparr>fc_fd := Own_Fd\<rparr> else ?c)"
      have "loop os (k + 1) ((with_chunk f c')\<lparr>of_pointer := of_pointer f\<rparr>) nr acc = Some y"
        using 1(2) s c zero by (simp add: Let_def open_chunk_def c'_def split: if_splits)
      from 1(1) [OF this] have "\<not> stuck os ((with_chunk f c')\<lparr>of_pointer := of_pointer f\<rparr>)" using s zero by simp
      moreover have "stuck os ((with_chunk f c')\<lparr>of_pointer := of_pointer f\<rparr>)"
        using c by (simp add: stuck_def with_chunk_def c'_def)
      ultimately show False by simp
    qed
  qed
  show ?thesis using no [of os k f nr acc] assms by (cases "read_loop os k f nr acc") auto
qed

subsection \<open>What reading promises\<close>

text \<open>C5: A recording just opened, whose chunks are all readable, behaves under any sequence of reads and
  seeks as one file that holds the chunks in their order: every byte count, every position and every
  error is that of the plain file. No other open recording changes, and never is a chunk but the
  current one left open.\<close>

theorem vbs_reads_one_file:
  assumes "reads_progress os" "cs \<noteq> []" "\<And>c. c \<in> set cs \<Longrightarrow> chunk_valid os c \<and> fc_fd c \<noteq> Own_Fd"
    "open_chunks tbl cs = (tbl1, Vbs_Fd fd)"
  shows "\<exists>tbl2 f. run_vbs os k tbl1 fd ops = Some (tbl2, run_flat (flat os cs, 0) ops)
    \<and> map_of tbl2 = (map_of tbl1)(fd \<mapsto> f)
    \<and> (\<forall>i < length (of_chunks f). fc_fd (of_chunks f ! i) = Own_Fd \<longrightarrow> i = of_cur f)"
  using opened_flat [OF assms(1,2) _ _ assms(4), of k ops] assms(3) file_invD(7) by meson

text \<open>C35: When a file has become shorter than the chunk it holds, reading at the missing bytes never
  returns: the call of \<open>read\<close> gives no bytes, which is neither an error nor an end.\<close>

theorem vbs_read_hangs_on_truncated_chunk:
  assumes "\<And>k. os_read os k 0 = Some 0" "map_of tbl fd = Some f" "stuck os f" "0 < count"
  shows "vbs_read os k tbl fd False count = None"
proof -
  have "of_chunks f \<noteq> []" "of_cur f \<noteq> length (of_chunks f)" using assms(3) by (auto simp: stuck_def)
  then show ?thesis using assms(2,4) read_loop_stuck [OF assms(1,3,4), of k "[]"] by (simp add: vbs_read_def)
qed

text \<open>A recording of three chunks, one of them inside a larger file, and reads of at most two bytes.\<close>

definition sample_os :: vbs_os where
  "sample_os = \<lparr>os_content = (\<lambda>p. if p = [''d0'', ''r.0''] then Some [1, 2, 3] else if p = [''d1'', ''m''] then Some [9, 9, 4, 5, 9] else None),
     os_read = (\<lambda>k n. Some (min n 2))\<rparr>"

definition sample_chunks :: "filechunk list" where
  "sample_chunks =
    [\<lparr>fc_path = [''d0'', ''r.0''], fc_size = 3, fc_pos = 0, fc_fd = Invalid_Fd, fc_offset = 0, fc_number = 0, fc_suffix = 0\<rparr>,
     \<lparr>fc_path = [''d1'', ''m''], fc_size = 0, fc_pos = 1, fc_fd = Mk6_Fd, fc_offset = 0, fc_number = 1, fc_suffix = 0\<rparr>,
     \<lparr>fc_path = [''d1'', ''m''], fc_size = 2, fc_pos = 2, fc_fd = Mk6_Fd, fc_offset = 0, fc_number = 2, fc_suffix = 0\<rparr>]"

theorem vbs_reads_one_file_witness:
  "\<exists>tbl. run_vbs sample_os 0 [(7, openfile_new sample_chunks), (8, openfile_null 0)] 7 [Op_Read 4, Op_Seek (- 2) SEEK_END, Op_Read 10, Op_Seek (- 9) SEEK_CUR]
    = Some (tbl, [Vbs_Bytes [1, 2, 3, 4], Vbs_Offset 3, Vbs_Bytes [4, 5], Vbs_Fails EINVAL])"
proof -
  let ?ops = "[Op_Read 4, Op_Seek (- 2) SEEK_END, Op_Read 10, Op_Seek (- 9) SEEK_CUR]"
  have "reads_progress sample_os" by (auto simp: reads_progress_def sample_os_def)
  moreover have "chunk_valid sample_os c \<and> fc_fd c \<noteq> Own_Fd" if "c \<in> set sample_chunks" for c
    using that by (auto simp: sample_chunks_def chunk_valid_def sample_os_def)
  moreover have "open_chunks [(8, openfile_null 0)] sample_chunks
      = ([(7, openfile_new sample_chunks), (8, openfile_null 0)], Vbs_Fd 7)"
    by (simp add: open_chunks_def new_fd_def sample_chunks_def)
  moreover have "sample_chunks \<noteq> []" by (simp add: sample_chunks_def)
  ultimately have "\<exists>tbl. run_vbs sample_os 0 [(7, openfile_new sample_chunks), (8, openfile_null 0)] 7 ?ops
      = Some (tbl, run_flat (flat sample_os sample_chunks, 0) ?ops)"
    using vbs_reads_one_file by blast
  moreover have "run_flat (flat sample_os sample_chunks, 0) ?ops
      = [Vbs_Bytes [1, 2, 3, 4], Vbs_Offset 3, Vbs_Bytes [4, 5], Vbs_Fails EINVAL]"
    by (simp add: flat_def sample_os_def sample_chunks_def chunk_data_def flat_read_def flat_lseek_def Let_def)
  ultimately show ?thesis by (simp only:)
qed

theorem vbs_read_hangs_on_truncated_chunk_witness:
  "vbs_read (sample_os\<lparr>os_content := \<lambda>p. Some [1]\<rparr>) 0 [(7, (openfile_new sample_chunks)\<lparr>of_pointer := 1\<rparr>)] 7 False 5 = None"
  by (rule vbs_read_hangs_on_truncated_chunk [where f = "(openfile_new sample_chunks)\<lparr>of_pointer := 1\<rparr>"])
    (simp_all add: sample_os_def stuck_def openfile_new_def sample_chunks_def)

end
