(* ===== verification/VbsScan.thy ===== *)
theory VbsScan
  imports Vbs "HOL-Library.List_Lexorder" "HOL-Library.Char_ord"
begin

unbundle bit_operations_syntax

text \<open>
  Finding the chunks of a recording on the mount points (\<open>src/src/libvbs.cc\<close>): directories of
  numbered files for FlexBuff recordings, blocks in a file per mount point for Mark6 recordings.
\<close>

subsection \<open>The file system\<close>

text \<open>The files by path, their contents; a directory exists when a file lies below it.\<close>

type_synonym filesys = "(path \<times> byte list) list"

definition is_below :: "path \<Rightarrow> path \<Rightarrow> bool" where
  "is_below d p \<longleftrightarrow> length d < length p \<and> take (length d) p = d"

definition dir_entries :: "filesys \<Rightarrow> path \<Rightarrow> string list" where
  "dir_entries fs d = sort (remdups (map (\<lambda>(p, _). p ! length d) (filter (\<lambda>(p, _). is_below d p) fs)))"

definition is_directory :: "filesys \<Rightarrow> path \<Rightarrow> bool" where
  "is_directory fs d \<longleftrightarrow> list_ex (\<lambda>(p, _). is_below d p) fs"

definition path_string :: "path \<Rightarrow> string" where
  "path_string p = concat (map (\<lambda>c. CHR ''/'' # c) p)"

subsection \<open>Names\<close>

definition is_digit :: "char \<Rightarrow> bool" where
  "is_digit c \<longleftrightarrow> 48 \<le> (of_char c :: nat) \<and> (of_char c :: nat) \<le> 57"

text \<open>\<open>strtoul(..., 10)\<close> of a string of digits.\<close>

definition decimal :: "string \<Rightarrow> nat" where
  "decimal s = foldl (\<lambda>n c. 10 * n + ((of_char c :: nat) - 48)) 0 s"

definition has_sub :: "string \<Rightarrow> string \<Rightarrow> bool" where
  "has_sub pat s \<longleftrightarrow> list_ex (\<lambda>i. take (length pat) (drop i s) = pat) [0..<length s + 1]"

text \<open>The regular expressions: \<open>^name(_ds[^_\.]+)?$\<close>, the part in parentheses only when the name has no
  \<open>_ds\<close> itself; and \<open>^name\.[0-9]{8}$\<close>. They are POSIX ones, where a backslash in brackets is a
  character like any other (\<open>CHR 0x5C\<close>).\<close>

definition isRecordingEntry :: "string \<Rightarrow> string \<Rightarrow> bool" where
  "isRecordingEntry recname entry \<longleftrightarrow>
     entry = recname
     \<or> (\<not> has_sub ''_ds'' recname \<and> take (length recname + 3) entry = recname @ ''_ds''
        \<and> drop (length recname + 3) entry \<noteq> []
        \<and> list_all (\<lambda>c. c \<noteq> CHR ''_'' \<and> c \<noteq> CHR ''.'' \<and> c \<noteq> CHR 0x5C) (drop (length recname + 3) entry))"

definition isRecordingChunk :: "string \<Rightarrow> string \<Rightarrow> bool" where
  "isRecordingChunk recname entry \<longleftrightarrow>
     take (length recname + 1) entry = recname @ ''.''
     \<and> length (drop (length recname + 1) entry) = 8 \<and> list_all is_digit (drop (length recname + 1) entry)"

text \<open>\<open>^.+/[^/\.]+\.([0-9]{8})$\<close>: the digits, when the last component has the form.\<close>

definition chunk_digits :: "path \<Rightarrow> string option" where
  "chunk_digits p =
     (let name = last p; stem = takeWhile (\<lambda>c. c \<noteq> CHR ''.'') name; digits = drop (length stem + 1) name
      in if length p \<ge> 2 \<and> stem \<noteq> [] \<and> CHR 0x5C \<notin> set stem \<and> length name > length stem \<and> length digits = 8 \<and> list_all is_digit digits
         then Some digits else None)"

text \<open>The leftmost \<open>_ds\<close> with at least one character that may follow, and all of these; else nothing.\<close>

fun find_label :: "char list \<Rightarrow> string \<Rightarrow> string" where
  "find_label stops [] = []"
| "find_label stops (c # s) =
     (if take 3 (c # s) = ''_ds'' \<and> takeWhile (\<lambda>x. x \<notin> set stops) (drop 3 (c # s)) \<noteq> []
      then ''_ds'' @ takeWhile (\<lambda>x. x \<notin> set stops) (drop 3 (c # s))
      else find_label stops s)"

text \<open>The numbers given to the labels seen so far: the position in the list.\<close>

definition suffix_id :: "string list \<Rightarrow> string \<Rightarrow> string list \<times> nat" where
  "suffix_id labels0 l =
     (let labels = (if labels0 = [] then [''''] else labels0)
      in if l \<in> set labels then (labels, length (takeWhile (\<lambda>x. x \<noteq> l) labels)) else (labels @ [l], length labels))"

subsection \<open>FlexBuff recordings\<close>

datatype scan_error = Not_A_Chunk | Open_Failed | Duplicate_Chunk | Bogus_Block

definition flexbuff_chunk :: "filesys \<Rightarrow> string list \<Rightarrow> path \<Rightarrow> scan_error + string list \<times> filechunk" where
  "flexbuff_chunk fs labels p =
     (case chunk_digits p of
        None \<Rightarrow> Inl Not_A_Chunk
      | Some digits \<Rightarrow>
          (case map_of fs p of
             None \<Rightarrow> Inl Open_Failed
           | Some content \<Rightarrow>
               let (labels', sid) = suffix_id labels (find_label [CHR ''_'', CHR ''.'', CHR ''/'', CHR 0x5C] (path_string p))
               in Inr (labels', \<lparr>fc_path = p, fc_size = int (length content), fc_pos = 0, fc_fd = Invalid_Fd,
                                 fc_offset = 0, fc_number = decimal digits, fc_suffix = sid\<rparr>)))"

type_synonym scan_state = "string list \<times> filechunk list"

definition then_scan :: "('a \<Rightarrow> scan_state \<Rightarrow> scan_error + scan_state) \<Rightarrow> 'a \<Rightarrow>
    scan_error + scan_state \<Rightarrow> scan_error + scan_state" where
  "then_scan f x r = (case r of Inl e \<Rightarrow> Inl e | Inr st \<Rightarrow> f x st)"

definition scan_chunk :: "filesys \<Rightarrow> path \<Rightarrow> scan_state \<Rightarrow> scan_error + scan_state" where
  "scan_chunk fs p st =
     (case flexbuff_chunk fs (fst st) p of
        Inl e \<Rightarrow> Inl e
      | Inr (labels, c) \<Rightarrow>
          (case chunk_insert c (snd st) of None \<Rightarrow> Inl Duplicate_Chunk | Some fcs \<Rightarrow> Inr (labels, fcs)))"

definition scanRecordingDirectory :: "filesys \<Rightarrow> string \<Rightarrow> path \<Rightarrow> scan_state \<Rightarrow> scan_error + scan_state" where
  "scanRecordingDirectory fs recname dir st =
     fold (then_scan (scan_chunk fs)) (map (\<lambda>n. dir @ [n]) (filter (isRecordingChunk recname) (dir_entries fs dir))) (Inr st)"

definition scanRecordingMountpoint :: "filesys \<Rightarrow> string \<Rightarrow> path \<Rightarrow> scan_state \<Rightarrow> scan_error + scan_state" where
  "scanRecordingMountpoint fs recname mp st =
     fold (then_scan (\<lambda>e. scanRecordingDirectory fs e (mp @ [e])))
       (filter (\<lambda>e. isRecordingEntry recname e \<and> is_directory fs (mp @ [e])) (dir_entries fs mp)) (Inr st)"

definition mountpoint_set :: "path list \<Rightarrow> path list" where
  "mountpoint_set rootdirs = sort_key path_string (remdups rootdirs)"

definition scanRecording :: "filesys \<Rightarrow> string \<Rightarrow> path list \<Rightarrow> scan_state \<Rightarrow> scan_error + scan_state" where
  "scanRecording fs recname mps st = fold (then_scan (scanRecordingMountpoint fs recname)) mps (Inr st)"

definition vbs_open :: "filesys \<Rightarrow> string list \<Rightarrow> openfiles \<Rightarrow> string \<Rightarrow> path list \<Rightarrow> string list \<times> openfiles \<times> vbs_result" where
  "vbs_open fs labels tbl recname rootdirs =
     (if recname = [] then (labels, tbl, Vbs_Fails EINVAL)
      else case scanRecording fs recname (mountpoint_set rootdirs) (labels, []) of
             Inl e \<Rightarrow> (labels, tbl, Vbs_Throws)
           | Inr (labels', chunks) \<Rightarrow> (labels', open_chunks tbl chunks))"

subsection \<open>Mark6 recordings\<close>

text \<open>Little endian numbers at a position.\<close>

definition le32 :: "byte list \<Rightarrow> nat \<Rightarrow> 32 word" where
  "le32 bs pos = word_rcat [bs ! (pos + 3), bs ! (pos + 2), bs ! (pos + 1), bs ! pos]"

definition MARK6_SG_SYNC_WORD :: "32 word" where "MARK6_SG_SYNC_WORD = 0xfeed6666"

text \<open>Sizes of \<open>mk6_file_header\<close> and \<open>mk6_wb_header_v2\<close>.\<close>

definition fh_size :: nat where "fh_size = 20"
definition wb_size :: nat where "wb_size = 8"

function scan_blocks :: "path \<Rightarrow> nat \<Rightarrow> byte list \<Rightarrow> nat \<Rightarrow> filechunk list \<Rightarrow> scan_error + filechunk list" where
  "scan_blocks p sid content fpos rv =
     (if fpos + wb_size > length content then Inr rv
      else
        let blocknum = sint (le32 content fpos); size = sint (le32 content (fpos + 4))
        in if \<not> (blocknum \<ge> 0 \<and> size > 0) then Inl Bogus_Block
           else (case chunk_insert \<lparr>fc_path = p, fc_size = size - int wb_size, fc_pos = int fpos + int wb_size, fc_fd = Mk6_Fd,
                                    fc_offset = 0, fc_number = nat blocknum, fc_suffix = sid\<rparr> rv of
                   None \<Rightarrow> Inl Duplicate_Chunk
                 | Some rv' \<Rightarrow> scan_blocks p sid content (fpos + nat size) rv'))"
  by pat_completeness auto
termination
  by (relation "measure (\<lambda>(p, sid, content, fpos, rv). Suc (length content) - fpos)") (auto simp: wb_size_def)

declare scan_blocks.simps [simp del]

definition scanMk6RecordingFile :: "filesys \<Rightarrow> path \<Rightarrow> string list \<Rightarrow> scan_error + scan_state" where
  "scanMk6RecordingFile fs p labels =
     (case map_of fs p of
        None \<Rightarrow> Inl Open_Failed
      | Some content \<Rightarrow>
          if length content < fh_size \<or> le32 content 0 \<noteq> MARK6_SG_SYNC_WORD \<or> sint (le32 content 4) \<noteq> 2
          then Inr (labels, [])
          else let (labels', sid) = suffix_id labels (find_label [CHR ''_'', CHR ''.'', CHR 0x5C] (path_string p))
               in (case scan_blocks p sid content fh_size [] of Inl e \<Rightarrow> Inl e | Inr rv \<Rightarrow> Inr (labels', rv)))"

text \<open>The chunks of a file are added to those of the others; a duplicate is only reported.\<close>

definition merge_chunk :: "filechunk \<Rightarrow> filechunk list \<Rightarrow> filechunk list" where
  "merge_chunk c fcs = (case chunk_insert c fcs of None \<Rightarrow> fcs | Some fcs' \<Rightarrow> fcs')"

definition scanMk6File :: "filesys \<Rightarrow> path \<Rightarrow> scan_state \<Rightarrow> scan_error + scan_state" where
  "scanMk6File fs p st =
     (case scanMk6RecordingFile fs p (fst st) of
        Inl e \<Rightarrow> Inl e
      | Inr (labels, lcl) \<Rightarrow> Inr (labels, fold merge_chunk lcl (snd st)))"

text \<open>One thread per mount point; here they run one after the other.\<close>

definition scanMk6RecordingMountpoint :: "filesys \<Rightarrow> string \<Rightarrow> path \<Rightarrow> scan_state \<Rightarrow> scan_error + scan_state" where
  "scanMk6RecordingMountpoint fs recname mp st =
     fold (then_scan (\<lambda>e. scanMk6File fs (mp @ [e])))
       (filter (\<lambda>e. isRecordingEntry recname e \<and> map_of fs (mp @ [e]) \<noteq> None) (dir_entries fs mp)) (Inr st)"

definition scanMk6Recording :: "filesys \<Rightarrow> string \<Rightarrow> path list \<Rightarrow> scan_state \<Rightarrow> scan_error + scan_state" where
  "scanMk6Recording fs recname mps st = fold (then_scan (scanMk6RecordingMountpoint fs recname)) mps (Inr st)"

definition mk6_open :: "filesys \<Rightarrow> string list \<Rightarrow> openfiles \<Rightarrow> string \<Rightarrow> path list \<Rightarrow> string list \<times> openfiles \<times> vbs_result" where
  "mk6_open fs labels tbl recname rootdirs =
     (if recname = [] then (labels, tbl, Vbs_Fails EINVAL)
      else case scanMk6Recording fs recname (mountpoint_set rootdirs) (labels, []) of
             Inl e \<Rightarrow> (labels, tbl, Vbs_Throws)
           | Inr (labels', chunks) \<Rightarrow> (labels', open_chunks tbl chunks))"

end
