(* ===== verification/Recorder.thy ===== *)
theory Recorder
  imports VbsScan
begin

text \<open>
  Recording: the names of chunks (\<open>src/src/threadfns/chunkmakers.h\<close>) and the writer that puts them on
  whatever mount point is free (\<open>parallelwriter\<close> in \<open>src/src/threadfns/multisend.cc\<close>). What one
  writer thread does; a mount point is used by one thread at a time.
\<close>

subsection \<open>Names of chunks\<close>

record filemetadata =
  fm_size :: int
  fm_seq :: nat
  fm_name :: path

type_synonym chunk_t = "filemetadata \<times> byte list"

fun dec :: "nat \<Rightarrow> string" where
  "dec n = (if n < 10 then [char_of (48 + n)] else dec (n div 10) @ [char_of (48 + n mod 10)])"

declare dec.simps [simp del]

text \<open>\<open>format("%08u", n)\<close>\<close>

definition format08 :: "nat \<Rightarrow> string" where
  "format08 n = replicate (8 - length (dec n)) (CHR ''0'') @ dec n"

text \<open>Per tag the next sequence number and the name.\<close>

type_synonym bsn_map = "(nat \<times> nat \<times> string) list"

datatype namer = VBSNamer | MK6Namer

definition no_tag :: nat where "no_tag = 2 ^ 32 - 1"

definition next_bsn :: "(nat \<Rightarrow> string) \<Rightarrow> string \<Rightarrow> bsn_map \<Rightarrow> nat \<Rightarrow> nat \<times> string \<times> bsn_map" where
  "next_bsn suffix recname bsn tag =
     (let (n, base) = (case map_of bsn tag of None \<Rightarrow> (0, recname @ suffix tag) | Some e \<Rightarrow> e)
      in (n, base, (tag, (n + 1) mod 2 ^ 32, base) # bsn))"

definition chunk_name :: "namer \<Rightarrow> string \<Rightarrow> nat \<Rightarrow> path" where
  "chunk_name nm base n = (case nm of VBSNamer \<Rightarrow> [base, base @ ''.'' @ format08 n] | MK6Namer \<Rightarrow> [base])"

fun chunkmaker :: "namer \<Rightarrow> (nat \<Rightarrow> string) \<Rightarrow> string \<Rightarrow> bsn_map \<Rightarrow> (nat \<times> byte list) list \<Rightarrow> chunk_t list" where
  "chunkmaker nm suffix recname bsn [] = []"
| "chunkmaker nm suffix recname bsn ((tag, b) # bs) =
     (let (n, base, bsn') = next_bsn suffix recname bsn tag
      in (\<lparr>fm_size = int (length b), fm_seq = n, fm_name = chunk_name nm base n\<rparr>, b)
         # chunkmaker nm suffix recname bsn' bs)"

subsection \<open>Headers of Mark6 files\<close>

definition le_bytes :: "32 word \<Rightarrow> byte list" where
  "le_bytes w = map (\<lambda>i. ucast (drop_bit (8 * i) w)) [0..<4]"

definition mk6_file_header :: "nat \<Rightarrow> int \<Rightarrow> int \<Rightarrow> byte list" where
  "mk6_file_header bs pf ps =
     concat (map le_bytes [MARK6_SG_SYNC_WORD, 2, word_of_nat (bs + wb_size), word_of_int pf,
       (if ps = 0 then word_of_nat bs else word_of_int ps)])"

definition mk6_wb_header :: "nat \<Rightarrow> nat \<Rightarrow> byte list" where
  "mk6_wb_header bn ws = concat (map le_bytes [word_of_nat bn, word_of_nat (ws + wb_size)])"

subsection \<open>The writer\<close>

text \<open>What the system does at the \<open>k\<close>-th attempt: whether the directory and the file can be made, and
  how many bytes of the file header, the block header and the data get written.\<close>

record write_env =
  we_mkpath :: "nat \<Rightarrow> bool"
  we_open :: "nat \<Rightarrow> bool"
  we_fh :: "nat \<Rightarrow> nat"
  we_wb :: "nat \<Rightarrow> nat"
  we_data :: "nat \<Rightarrow> nat"

record mark6_vars =
  mv_mk6 :: bool
  mv_packet_size :: int
  mv_packet_format :: int

text \<open>The open file of a mount point; \<open>None\<close> stands for -1.\<close>

record writer =
  pw_filelist :: "path list"
  pw_listlength :: nat
  pw_fdmap :: "(path \<times> path option) list"
  pw_fs :: filesys
  pw_attempts :: nat

definition fs_put :: "filesys \<Rightarrow> path \<Rightarrow> byte list \<Rightarrow> filesys" where
  "fs_put fs p content = (p, content) # filter (\<lambda>(q, _). q \<noteq> p) fs"

definition fs_append :: "path \<Rightarrow> byte list \<Rightarrow> writer \<Rightarrow> writer" where
  "fs_append p bytes st =
     st\<lparr>pw_fs := fs_put (pw_fs st) p ((case map_of (pw_fs st) p of None \<Rightarrow> [] | Some c \<Rightarrow> c) @ bytes)\<rparr>"

definition fs_unlink :: "path \<Rightarrow> writer \<Rightarrow> writer" where
  "fs_unlink p st = st\<lparr>pw_fs := filter (\<lambda>(q, _). q \<noteq> p) (pw_fs st)\<rparr>"

definition mark_bad :: "writer \<Rightarrow> writer" where
  "mark_bad st = st\<lparr>pw_listlength := pw_listlength st - 1\<rparr>"

text \<open>With an open file: the block header, then the data. \<open>bytes_written\<close> is also set when the header fails.\<close>

definition write_block :: "write_env \<Rightarrow> mark6_vars \<Rightarrow> nat \<Rightarrow> chunk_t \<Rightarrow> path \<Rightarrow> path \<Rightarrow> writer \<Rightarrow> bool \<times> writer" where
  "write_block env mk6vars k ch mountpoint fd st0 =
     (let len = length (snd ch);
          (skip, st1) = (if mv_mk6 mk6vars
            then let nw = min (we_wb env k) wb_size
                 in (if nw \<noteq> wb_size then len else 0, fs_append fd (take nw (mk6_wb_header (fm_seq (fst ch)) len)) st0)
            else (0, st0));
          n = (if skip < len then min (we_data env k) len else 0);
          st2 = (if skip < len then fs_append fd (take n (snd ch)) st1 else st1);
          written = (skip + n = len)
      in if written
         then (True, st2\<lparr>pw_filelist := pw_filelist st2 @ [mountpoint],
                         pw_fdmap := (if map_of (pw_fdmap st2) mountpoint = None
                           then (mountpoint, if mv_mk6 mk6vars then Some fd else None) # pw_fdmap st2 else pw_fdmap st2)\<rparr>)
         else (False, let st3 = mark_bad st2 in if mv_mk6 mk6vars then st3 else fs_unlink fd st3))"

definition attempt :: "write_env \<Rightarrow> mark6_vars \<Rightarrow> chunk_t \<Rightarrow> path \<Rightarrow> writer \<Rightarrow> bool \<times> writer" where
  "attempt env mk6vars ch mountpoint st0 =
     (let k = pw_attempts st0; st = st0\<lparr>pw_attempts := k + 1\<rparr>; fn = mountpoint @ fm_name (fst ch)
      in case (if mv_mk6 mk6vars then Option.bind (map_of (pw_fdmap st) mountpoint) id else None) of
           Some fd \<Rightarrow> write_block env mk6vars k ch mountpoint fd st
         | None \<Rightarrow>
             if \<not> we_mkpath env k then (False, mark_bad st)
             else if \<not> we_open env k \<or> map_of (pw_fs st) fn \<noteq> None then (False, mark_bad st)
             else
               let st1 = fs_append fn [] st
               in if mv_mk6 mk6vars
                  then let nw = min (we_fh env k) fh_size;
                           st2 = fs_append fn (take nw (mk6_file_header (length (snd ch)) (mv_packet_format mk6vars)
                             (mv_packet_size mk6vars))) st1
                       in if nw \<noteq> fh_size then (False, mark_bad st2) else write_block env mk6vars k ch mountpoint fn st2
                  else write_block env mk6vars k ch mountpoint fn st1)"

text \<open>Trying mount points until the chunk is written; \<open>None\<close>: waiting for one that another thread has.\<close>

partial_function (option) write_chunk :: "write_env \<Rightarrow> mark6_vars \<Rightarrow> chunk_t \<Rightarrow> path list \<Rightarrow> writer \<Rightarrow> (bool \<times> writer) option" where
  "write_chunk env mk6vars ch mp_seen st =
     (case pw_filelist st of
        [] \<Rightarrow> if pw_listlength st > 0 then None else Some (False, st)
      | mountpoint # rest \<Rightarrow>
          let st1 = st\<lparr>pw_filelist := rest\<rparr>
          in if mountpoint \<in> set mp_seen
             then let st2 = st1\<lparr>pw_filelist := rest @ [mountpoint]\<rparr>
                  in if length mp_seen \<ge> pw_listlength st then Some (False, st2)
                     else write_chunk env mk6vars ch mp_seen st2
             else let r = attempt env mk6vars ch mountpoint st1
                  in if fst r then Some (True, snd r) else write_chunk env mk6vars ch (mountpoint # mp_seen) (snd r))"

fun parallelwriter :: "write_env \<Rightarrow> mark6_vars \<Rightarrow> chunk_t list \<Rightarrow> writer \<Rightarrow> (bool \<times> writer) option" where
  "parallelwriter env mk6vars [] st = Some (True, st)"
| "parallelwriter env mk6vars (ch # chs) st =
     Option.bind (write_chunk env mk6vars ch [] st) (\<lambda>(written, st').
       if written then parallelwriter env mk6vars chs st' else Some (False, st'))"

definition writer_start :: "path list \<Rightarrow> writer" where
  "writer_start mps = \<lparr>pw_filelist = mps, pw_listlength = length mps, pw_fdmap = [], pw_fs = [], pw_attempts = 0\<rparr>"

declare write_chunk.simps [code]

end
