(* ===== verification/RecordPlay.thy ===== *)
theory RecordPlay
  imports Recorder "HOL-Library.Multiset"
begin

text \<open>
  Recording and playing back together: what \<open>chunkmakert\<close> and \<open>parallelwriter\<close> leave on the mount
  points is what \<open>vbs_open\<close> and \<open>vbs_read\<close> give back.
\<close>

subsection \<open>Numbers in names\<close>

lemma length_dec: "n < 10 ^ Suc k \<Longrightarrow> length (dec n) \<le> Suc k"
proof (induction k arbitrary: n)
  case 0
  then show ?case by (simp add: dec.simps)
next
  case (Suc k)
  then have "n div 10 < 10 ^ Suc k" by simp
  from Suc.IH [OF this] show ?case by (subst dec.simps) simp
qed

lemma decimal_snoc: "decimal (s @ [c]) = 10 * decimal s + ((of_char c :: nat) - 48)"
  by (simp add: decimal_def)

lemma of_char_digit: "k < 10 \<Longrightarrow> (of_char (char_of (48 + k) :: char) :: nat) = 48 + k"
  by simp

lemma decimal_dec [simp]: "decimal (dec n) = n"
proof (induction n rule: dec.induct)
  case (1 n)
  show ?case
  proof (cases "n < 10")
    case True
    then show ?thesis by (subst dec.simps) (simp add: decimal_def of_char_digit)
  next
    case False
    then show ?thesis using 1 by (subst dec.simps) (simp add: decimal_snoc of_char_digit)
  qed
qed

lemma digits_dec: "list_all is_digit (dec n)"
proof (induction n rule: dec.induct)
  case (1 n)
  have "n mod 10 < 10" by simp
  then have "is_digit (char_of (48 + n mod 10))" unfolding is_digit_def of_char_digit [OF \<open>n mod 10 < 10\<close>] by simp
  moreover have "n < 10 \<Longrightarrow> is_digit (char_of (48 + n))" by (simp add: is_digit_def of_char_digit)
  ultimately show ?case using 1 by (subst dec.simps) (simp del: of_char_of)
qed

lemma decimal_zeros: "decimal (replicate k (CHR ''0'') @ s) = decimal s"
proof (induction k)
  case (Suc k)
  have "decimal (CHR ''0'' # t) = decimal t" for t by (simp add: decimal_def)
  then show ?case using Suc by simp
qed simp

lemma format08_facts:
  assumes "n < 10 ^ 8"
  shows "length (format08 n) = 8" "list_all is_digit (format08 n)" "decimal (format08 n) = n"
proof -
  have "length (dec n) \<le> 8" using length_dec [of n 7] assms by simp
  then show "length (format08 n) = 8" by (simp add: format08_def)
  show "list_all is_digit (format08 n)" "decimal (format08 n) = n"
    by (simp_all add: format08_def decimal_zeros digits_dec) (simp add: list_all_iff is_digit_def)
qed

lemma format08_inj: "m < 10 ^ 8 \<Longrightarrow> n < 10 ^ 8 \<Longrightarrow> format08 m = format08 n \<Longrightarrow> m = n"
  using format08_facts(3) by metis

lemma chunk_digits_name:
  assumes "base \<noteq> []" "CHR ''.'' \<notin> set base" "CHR 0x5C \<notin> set base" "n < 10 ^ 8"
  shows "chunk_digits (mp @ [base, base @ ''.'' @ format08 n]) = Some (format08 n)"
proof -
  have "takeWhile (\<lambda>c. c \<noteq> CHR ''.'') (base @ CHR ''.'' # format08 n) = base"
    using assms(2) by (induction base) auto
  then show ?thesis using assms(1,3) format08_facts [OF assms(4)] by (simp add: chunk_digits_def Let_def)
qed

lemma isRecordingChunk_name: "n < 10 ^ 8 \<Longrightarrow> isRecordingChunk base (base @ ''.'' @ format08 n)"
  using format08_facts [of n] by (simp add: isRecordingChunk_def)

subsection \<open>The set of chunks\<close>

lemma chunk_insert_insort:
  assumes "chunk_key_of c \<notin> chunk_key_of ` set fcs"
  shows "chunk_insert c fcs = Some (insort_key chunk_key_of c fcs)"
  using assms by (induction fcs) auto

lemma chunk_key_le: "chunk_key_of c \<le> chunk_key_of d \<Longrightarrow> fc_number c \<le> fc_number d"
  by (auto simp: chunk_key_of_def less_eq_chunk_key_def less_chunk_key_def split: if_splits)

lemma sorted_numbers: "sorted (map chunk_key_of fcs) \<Longrightarrow> sorted (map fc_number fcs)"
  by (induction fcs) (auto dest: chunk_key_le)

text \<open>What a chunk is, but for the number given to its label.\<close>

definition unlabelled :: "filechunk \<Rightarrow> filechunk" where
  "unlabelled c = c\<lparr>fc_suffix := 0\<rparr>"

definition chunk_at :: "filesys \<Rightarrow> path \<Rightarrow> filechunk" where
  "chunk_at fs p = \<lparr>fc_path = p, fc_size = int (length (the (map_of fs p))), fc_pos = 0, fc_fd = Invalid_Fd,
     fc_offset = 0, fc_number = decimal (the (chunk_digits p)), fc_suffix = 0\<rparr>"

lemma then_scan_Inr: "then_scan f x (Inr st) = f x st"
  by (simp add: then_scan_def)

lemma then_scan_Inl: "then_scan f x (Inl e) = Inl e"
  by (simp add: then_scan_def)

lemma scan_chunks:
  assumes "\<And>p. p \<in> set ps \<Longrightarrow> chunk_digits p \<noteq> None \<and> map_of fs p \<noteq> None"
    "distinct (map (fc_number \<circ> chunk_at fs) ps)"
    "fc_number ` set fcs \<inter> (fc_number \<circ> chunk_at fs) ` set ps = {}" "sorted (map chunk_key_of fcs)"
  shows "\<exists>labels' fcs'. fold (then_scan (scan_chunk fs)) ps (Inr (labels, fcs)) = Inr (labels', fcs')
    \<and> sorted (map chunk_key_of fcs')
    \<and> mset (map unlabelled fcs') = mset (map unlabelled fcs) + mset (map (chunk_at fs) ps)"
  using assms
proof (induction ps arbitrary: labels fcs)
  case Nil
  then show ?case by simp
next
  case (Cons p ps)
  obtain digits content where p: "chunk_digits p = Some digits" "map_of fs p = Some content" using Cons.prems(1) [of p] by auto
  obtain labels1 sid where sid: "suffix_id labels (find_label [CHR ''_'', CHR ''.'', CHR ''/'', CHR 0x5C] (path_string p)) = (labels1, sid)" by fastforce
  define c where "c = (chunk_at fs p)\<lparr>fc_suffix := sid\<rparr>"
  have c: "fc_number c = (fc_number \<circ> chunk_at fs) p" "unlabelled c = chunk_at fs p"
    by (simp_all add: c_def unlabelled_def chunk_at_def)
  have "chunk_key_of c \<notin> chunk_key_of ` set fcs" using Cons.prems(3) by (auto simp: c(1) chunk_key_of_def)
  then have step: "scan_chunk fs p (labels, fcs) = Inr (labels1, insort_key chunk_key_of c fcs)"
    by (simp add: scan_chunk_def flexbuff_chunk_def p sid chunk_insert_insort c_def chunk_at_def)
  have "\<exists>labels' fcs'. fold (then_scan (scan_chunk fs)) ps (Inr (labels1, insort_key chunk_key_of c fcs)) = Inr (labels', fcs')
    \<and> sorted (map chunk_key_of fcs')
    \<and> mset (map unlabelled fcs') = mset (map unlabelled (insort_key chunk_key_of c fcs)) + mset (map (chunk_at fs) ps)"
  proof (rule Cons.IH)
    show "fc_number ` set (insort_key chunk_key_of c fcs) \<inter> (fc_number \<circ> chunk_at fs) ` set ps = {}"
      using Cons.prems(2,3) by (auto simp: set_insort_key c(1))
    show "sorted (map chunk_key_of (insort_key chunk_key_of c fcs))" by (rule sorted_insort_key [THEN iffD2]) (rule Cons.prems(4))
  qed (use Cons.prems in auto)
  then show ?case by (simp add: then_scan_Inr step c(2))
qed

lemma fold_then_scan_Inl [simp]: "fold (then_scan f) xs (Inl e) = Inl e"
  by (induction xs) (simp_all add: then_scan_Inl)

lemma fold_then_scan_concat:
  "fold (then_scan (\<lambda>x st. fold (then_scan g) (h x) (Inr st))) xs r = fold (then_scan g) (concat (map h xs)) r"
proof (induction xs arbitrary: r)
  case (Cons x xs)
  have step: "then_scan (\<lambda>x st. fold (then_scan g) (h x) (Inr st)) x r = fold (then_scan g) (h x) r"
    by (cases r) (simp_all add: then_scan_Inl then_scan_Inr)
  show ?case by (simp add: step Cons)
qed simp

text \<open>The chunks of a recording, in the order in which they are looked at.\<close>

definition directory_paths :: "filesys \<Rightarrow> string \<Rightarrow> path \<Rightarrow> path list" where
  "directory_paths fs recname dir = map (\<lambda>n. dir @ [n]) (filter (isRecordingChunk recname) (dir_entries fs dir))"

definition mountpoint_paths :: "filesys \<Rightarrow> string \<Rightarrow> path \<Rightarrow> path list" where
  "mountpoint_paths fs recname mp =
     concat (map (\<lambda>e. directory_paths fs e (mp @ [e]))
       (filter (\<lambda>e. isRecordingEntry recname e \<and> is_directory fs (mp @ [e])) (dir_entries fs mp)))"

lemma scanRecording_paths:
  "scanRecording fs recname mps st = fold (then_scan (scan_chunk fs)) (concat (map (mountpoint_paths fs recname) mps)) (Inr st)"
proof -
  have dir: "(\<lambda>e. scanRecordingDirectory fs e (mp @ [e]))
      = (\<lambda>e st. fold (then_scan (scan_chunk fs)) (directory_paths fs e (mp @ [e])) (Inr st))" for mp
    by (intro ext) (simp only: scanRecordingDirectory_def directory_paths_def)
  have "scanRecordingMountpoint fs recname mp
      = (\<lambda>st. fold (then_scan (scan_chunk fs)) (mountpoint_paths fs recname mp) (Inr st))" for mp
    by (intro ext) (simp only: scanRecordingMountpoint_def dir fold_then_scan_concat mountpoint_paths_def)
  then have eq: "scanRecordingMountpoint fs recname
      = (\<lambda>mp st. fold (then_scan (scan_chunk fs)) (mountpoint_paths fs recname mp) (Inr st))" by (rule ext)
  show ?thesis unfolding scanRecording_def eq by (rule fold_then_scan_concat)
qed

subsection \<open>What the writer leaves\<close>

lemma filter_absent: "map_of fs p = None \<Longrightarrow> filter (\<lambda>(q, _). q \<noteq> p) fs = fs"
  by (induction fs) (auto split: if_splits)

text \<open>Not recording as a Mark6: a failed attempt leaves nothing behind and uses up the mount point, a
  successful one adds the file and puts the mount point back.\<close>

lemma attempt_flexbuff:
  assumes "\<not> mv_mk6 mk6vars" "attempt env mk6vars ch mp st = (ok, st')"
  shows "if ok then pw_fs st' = (mp @ fm_name (fst ch), snd ch) # pw_fs st \<and> map_of (pw_fs st) (mp @ fm_name (fst ch)) = None
      \<and> pw_filelist st' = pw_filelist st @ [mp] \<and> pw_listlength st' = pw_listlength st
    else pw_fs st' = pw_fs st \<and> pw_filelist st' = pw_filelist st \<and> pw_listlength st' = pw_listlength st - 1"
  using assms
  by (auto simp: attempt_def Let_def mark_bad_def write_block_def fs_append_def fs_put_def fs_unlink_def filter_absent
      split: if_splits)

lemma write_chunk_flexbuff:
  assumes "write_chunk env mk6vars ch seen st = Some (ok, st')" "\<not> mv_mk6 mk6vars" "set (pw_filelist st) \<subseteq> mps"
  shows "set (pw_filelist st') \<subseteq> mps
    \<and> (if ok then \<exists>mp \<in> mps. pw_fs st' = (mp @ fm_name (fst ch), snd ch) # pw_fs st
                  \<and> map_of (pw_fs st) (mp @ fm_name (fst ch)) = None
       else pw_fs st' = pw_fs st)"
  using assms
proof (induction env mk6vars ch seen st "(ok, st')" arbitrary: ok st' rule: write_chunk.raw_induct [rotated 1, consumes 1])
  case (1 loop env mk6vars ch seen st)
  show ?case
  proof (cases "pw_filelist st")
    case Nil
    then show ?thesis using 1 by (auto split: if_splits)
  next
    case (Cons mp rest)
    let ?st1 = "st\<lparr>pw_filelist := rest\<rparr>"
    obtain b st2 where a: "attempt env mk6vars ch mp ?st1 = (b, st2)" by fastforce
    note af = attempt_flexbuff [OF 1(3) a]
    show ?thesis
    proof (cases "mp \<in> set seen")
      case True
      then show ?thesis using 1(1) [of env mk6vars ch seen "?st1\<lparr>pw_filelist := rest @ [mp]\<rparr>"] 1(2-4)
        by (auto simp: Cons Let_def split: if_splits)
    next
      case False
      then show ?thesis using 1(1) [of env mk6vars ch "mp # seen" st2] 1(2-4) af
        by (cases b) (auto simp: Cons Let_def a)
    qed
  qed
qed

text \<open>Whatever fails, a single writer never waits: it tries each mount point once, and gives up only when
  none is left.\<close>

definition mounts_inv :: "writer \<Rightarrow> bool" where
  "mounts_inv st \<longleftrightarrow> distinct (pw_filelist st) \<and> pw_listlength st = length (pw_filelist st)"

definition uses_up :: "path \<Rightarrow> writer \<Rightarrow> bool \<times> writer \<Rightarrow> bool" where
  "uses_up mp st r \<longleftrightarrow> (if fst r
     then pw_filelist (snd r) = pw_filelist st @ [mp] \<and> pw_listlength (snd r) = pw_listlength st
     else pw_filelist (snd r) = pw_filelist st \<and> pw_listlength (snd r) = pw_listlength st - 1)"

lemma fs_append_lists [simp]: "pw_filelist (fs_append p bs st) = pw_filelist st" "pw_listlength (fs_append p bs st) = pw_listlength st"
  by (simp_all add: fs_append_def)

lemma fs_unlink_lists [simp]: "pw_filelist (fs_unlink p st) = pw_filelist st" "pw_listlength (fs_unlink p st) = pw_listlength st"
  by (simp_all add: fs_unlink_def)

lemma uses_up_bad: "pw_filelist st' = pw_filelist st \<Longrightarrow> pw_listlength st' = pw_listlength st \<Longrightarrow> uses_up mp st (False, mark_bad st')"
  by (simp add: uses_up_def mark_bad_def)

lemma uses_up_write_block:
  assumes "pw_filelist st0 = pw_filelist st" "pw_listlength st0 = pw_listlength st"
  shows "uses_up mp st (write_block env mk6vars k ch mp fd st0)"
  using assms by (simp add: write_block_def Let_def uses_up_def mark_bad_def)

lemma attempt_mounts: "uses_up mp st (attempt env mk6vars ch mp st)"
  unfolding attempt_def Let_def by (simp add: uses_up_bad uses_up_write_block split: option.split)

lemma write_chunk_returns:
  assumes "mounts_inv st" "set seen \<inter> set (pw_filelist st) = {}"
  shows "\<exists>ok st'. write_chunk env mk6vars ch seen st = Some (ok, st') \<and> mounts_inv st' \<and> (\<not> ok \<longrightarrow> pw_filelist st' = [])"
  using assms
proof (induction "length (pw_filelist st)" arbitrary: seen st)
  case 0
  then show ?case by (subst write_chunk.simps) (auto simp: mounts_inv_def)
next
  case (Suc n)
  then obtain mp rest where fl: "pw_filelist st = mp # rest" by (cases "pw_filelist st") auto
  let ?st1 = "st\<lparr>pw_filelist := rest\<rparr>"
  obtain b st2 where a: "attempt env mk6vars ch mp ?st1 = (b, st2)" by fastforce
  have step: "write_chunk env mk6vars ch seen st = (if b then Some (True, st2) else write_chunk env mk6vars ch (mp # seen) st2)"
    using Suc.prems(2) by (subst write_chunk.simps) (simp add: fl Let_def a)
  have dist: "mp \<notin> set rest" "distinct rest" "pw_listlength st = Suc (length rest)" using Suc.prems(1) by (auto simp: mounts_inv_def fl)
  show ?case
  proof (cases b)
    case True
    then have "mounts_inv st2" using attempt_mounts [of mp ?st1 env mk6vars ch] dist a by (simp add: mounts_inv_def uses_up_def)
    then show ?thesis using True step by auto
  next
    case False
    then have "mounts_inv st2" and fl2: "pw_filelist st2 = rest" using attempt_mounts [of mp ?st1 env mk6vars ch] dist a by (simp_all add: mounts_inv_def uses_up_def)
    moreover have "n = length (pw_filelist st2)" using Suc.hyps(2) fl2 by (simp add: fl)
    moreover have "set (mp # seen) \<inter> set (pw_filelist st2) = {}" using Suc.prems(2) dist(1) fl2 by (auto simp: fl)
    ultimately show ?thesis using Suc.hyps(1) [of st2 "mp # seen"] False step by auto
  qed
qed

lemma parallelwriter_returns:
  "mounts_inv st \<Longrightarrow> \<exists>ok st'. parallelwriter env mk6vars chs st = Some (ok, st') \<and> (\<not> ok \<longrightarrow> pw_filelist st' = [])"
proof (induction chs arbitrary: st)
  case (Cons ch chs)
  obtain ok st' where w: "write_chunk env mk6vars ch [] st = Some (ok, st')" "mounts_inv st'" "\<not> ok \<longrightarrow> pw_filelist st' = []"
    using write_chunk_returns [OF Cons.prems, of "[]" env mk6vars ch] by auto
  show ?case using Cons.IH [OF w(2)] w by (cases ok) auto
next
  case Nil
  then show ?case by (intro exI [of _ True]) simp
qed

text \<open>Where the chunks are: a mount point for each.\<close>

definition stored :: "path list \<Rightarrow> chunk_t list \<Rightarrow> filesys" where
  "stored locs chs = map (\<lambda>(mp, ch). (mp @ fm_name (fst ch), snd ch)) (zip locs chs)"

lemma stored_simps [simp]: "stored [] chs = []" "stored (mp # locs) (ch # chs) = (mp @ fm_name (fst ch), snd ch) # stored locs chs"
  by (simp_all add: stored_def)

lemma parallelwriter_stores:
  assumes "parallelwriter env mk6vars chs st = Some (True, st')" "\<not> mv_mk6 mk6vars" "set (pw_filelist st) \<subseteq> mps"
  shows "\<exists>locs. length locs = length chs \<and> set locs \<subseteq> mps \<and> pw_fs st' = rev (stored locs chs) @ pw_fs st
    \<and> distinct (map fst (stored locs chs)) \<and> (\<forall>p \<in> fst ` set (stored locs chs). map_of (pw_fs st) p = None)"
  using assms
proof (induction chs arbitrary: st)
  case Nil
  then show ?case by simp
next
  case (Cons ch chs)
  obtain st1 where w: "write_chunk env mk6vars ch [] st = Some (True, st1)" "parallelwriter env mk6vars chs st1 = Some (True, st')"
    using Cons.prems(1) by (cases "write_chunk env mk6vars ch [] st") (auto split: if_splits)
  obtain mp where mp: "mp \<in> mps" "pw_fs st1 = (mp @ fm_name (fst ch), snd ch) # pw_fs st" "map_of (pw_fs st) (mp @ fm_name (fst ch)) = None"
    and fl: "set (pw_filelist st1) \<subseteq> mps"
    using write_chunk_flexbuff [OF w(1) Cons.prems(2,3)] by auto
  obtain locs where l: "length locs = length chs" "set locs \<subseteq> mps" "pw_fs st' = rev (stored locs chs) @ pw_fs st1"
    "distinct (map fst (stored locs chs))" "\<forall>p \<in> fst ` set (stored locs chs). map_of (pw_fs st1) p = None"
    using Cons.IH [OF w(2) Cons.prems(2) fl] by blast
  have "map_of (pw_fs st) p = None \<and> p \<noteq> mp @ fm_name (fst ch)" if "p \<in> fst ` set (stored locs chs)" for p
    using bspec [OF l(5) that] by (simp add: mp(2) split: if_splits)
  then show ?case using l mp by (intro exI [of _ "mp # locs"]) auto
qed

text \<open>The chunks made of the blocks of one stream.\<close>

definition chunk_of_block :: "namer \<Rightarrow> string \<Rightarrow> nat \<times> byte list \<Rightarrow> chunk_t" where
  "chunk_of_block nm base ib = (\<lparr>fm_size = int (length (snd ib)), fm_seq = fst ib, fm_name = chunk_name nm base (fst ib)\<rparr>, snd ib)"

lemma chunkmaker_enumerate:
  assumes "(case map_of bsn tag of None \<Rightarrow> (0, recname @ suffix tag) | Some e \<Rightarrow> e) = (n, base)" "n + length bs \<le> 2 ^ 32"
  shows "chunkmaker nm suffix recname bsn (map (Pair tag) bs) = map (chunk_of_block nm base) (enumerate n bs)"
  using assms
proof (induction bs arbitrary: bsn n)
  case (Cons b bs)
  let ?bsn = "(tag, ((n + 1) mod 2 ^ 32, base)) # bsn"
  have "chunkmaker nm suffix recname ?bsn (map (Pair tag) bs) = map (chunk_of_block nm base) (enumerate (Suc n) bs)"
  proof (cases bs)
    case (Cons b' bs')
    show ?thesis by (rule Cons.IH) (use Cons.prems Cons in auto)
  qed simp
  then show ?case using Cons.prems(1) by (simp add: next_bsn_def chunk_of_block_def)
qed simp

subsection \<open>Finding what was written\<close>

text \<open>The files of a recording at the mount points \<open>locs\<close>, one block in each.\<close>

definition rec_path :: "string \<Rightarrow> path \<Rightarrow> nat \<Rightarrow> path" where
  "rec_path recname mp i = mp @ [recname, recname @ ''.'' @ format08 i]"

definition valid_name :: "string \<Rightarrow> bool" where
  "valid_name recname \<longleftrightarrow> recname \<noteq> [] \<and> CHR ''.'' \<notin> set recname \<and> CHR ''/'' \<notin> set recname \<and> CHR 0x5C \<notin> set recname"

text \<open>Nothing of that name is on the mount points yet, and none lies inside another.\<close>

definition fresh_on :: "path list \<Rightarrow> string \<Rightarrow> filesys \<Rightarrow> bool" where
  "fresh_on mps recname fs \<longleftrightarrow>
     (\<forall>mp \<in> set mps. \<forall>(p, c) \<in> set fs. is_below mp p \<longrightarrow> \<not> isRecordingEntry recname (p ! length mp))"

definition separate :: "path list \<Rightarrow> bool" where
  "separate mps \<longleftrightarrow> distinct mps \<and> (\<forall>mp \<in> set mps. \<forall>mp' \<in> set mps. \<not> is_below mp mp')"

text \<open>The file system after the recording.\<close>

definition recorded :: "string \<Rightarrow> path list \<Rightarrow> filesys \<Rightarrow> path list \<Rightarrow> byte list list \<Rightarrow> filesys" where
  "recorded recname mps fs0 locs blocks =
     rev (map (\<lambda>i. (rec_path recname (locs ! i) i, blocks ! i)) [0..<length blocks]) @ fs0"

lemma is_below_append: "is_below d (d @ x) \<longleftrightarrow> x \<noteq> []"
  by (auto simp: is_below_def)

lemma is_below_iff: "is_below d p \<longleftrightarrow> (\<exists>x. x \<noteq> [] \<and> p = d @ x)"
proof
  assume b: "is_below d p"
  then have "p = d @ drop (length d) p" by (metis append_take_drop_id is_below_def)
  moreover have "drop (length d) p \<noteq> []" using b by (simp add: is_below_def)
  ultimately show "\<exists>x. x \<noteq> [] \<and> p = d @ x" by blast
qed (auto simp: is_below_append)

lemma below_separate:
  assumes "separate mps" "mp \<in> set mps" "mp' \<in> set mps" "is_below mp (mp' @ x)"
  shows "mp = mp'"
proof -
  have no: "\<not> is_below mp mp'" "\<not> is_below mp' mp" using assms(1-3) by (auto simp: separate_def)
  obtain y where "mp' @ x = mp @ y" using assms(4) is_below_iff by blast
  then obtain z where "mp' = mp @ z \<or> mp = mp' @ z" unfolding append_eq_append_conv2 by blast
  then show ?thesis using no by (cases "z = []") (auto simp: is_below_append)
qed

lemma set_dir_entries: "set (dir_entries fs d) = {p ! length d |p c. (p, c) \<in> set fs \<and> is_below d p}"
  by (auto simp: dir_entries_def image_iff)

lemma distinct_dir_entries: "distinct (dir_entries fs d)"
  by (simp add: dir_entries_def)

lemma recording_entries:
  assumes sep: "separate mps" and fresh: "fresh_on mps recname fs0" and locs: "set locs \<subseteq> set mps" "length locs = length blocks"
    and mp: "mp \<in> set mps"
  shows "set (filter (\<lambda>e. isRecordingEntry recname e \<and> is_directory fs (mp @ [e])) (dir_entries (recorded recname mps fs0 locs blocks) mp))
    \<subseteq> {recname}"
proof
  let ?fs = "recorded recname mps fs0 locs blocks"
  fix e assume "e \<in> set (filter (\<lambda>e. isRecordingEntry recname e \<and> is_directory fs (mp @ [e])) (dir_entries ?fs mp))"
  then obtain p c where p: "(p, c) \<in> set ?fs" "is_below mp p" "e = p ! length mp" "isRecordingEntry recname e"
    by (auto simp: set_dir_entries)
  have "(p, c) \<notin> set fs0" using fresh p mp by (auto simp: fresh_on_def)
  then obtain i where i: "i < length blocks" "p = rec_path recname (locs ! i) i" using p(1) by (auto simp: recorded_def)
  have "locs ! i \<in> set mps" using i(1) locs by (auto dest: nth_mem)
  then have "mp = locs ! i" using below_separate [OF sep mp, of "locs ! i"] p(2) i(2) by (simp add: rec_path_def)
  then show "e \<in> {recname}" using p(3) i(2) by (simp add: rec_path_def)
qed

lemma isRecordingEntry_self [simp]: "isRecordingEntry recname recname"
  by (simp add: isRecordingEntry_def)

lemma dir_entriesI: "(d @ n # x, c) \<in> set fs \<Longrightarrow> n \<in> set (dir_entries fs d)"
  unfolding set_dir_entries by (rule CollectI, rule exI [of _ "d @ n # x"]) (auto simp: is_below_append)

lemma is_directoryI: "(d @ n # x, c) \<in> set fs \<Longrightarrow> is_directory fs d"
  unfolding is_directory_def list_ex_iff by (rule bexI [of _ "(d @ n # x, c)"]) (simp_all add: is_below_append)

lemma rec_path_inj: "rec_path recname mp i = rec_path recname mp' j \<Longrightarrow> i < 10 ^ 8 \<Longrightarrow> j < 10 ^ 8 \<Longrightarrow> mp = mp' \<and> i = j"
  using format08_inj [of i j] by (auto simp: rec_path_def)

lemma mountpoint_paths_recorded:
  assumes sep: "separate mps" and fresh: "fresh_on mps recname fs0" and locs: "set locs \<subseteq> set mps" "length locs = length blocks"
    and n: "length blocks \<le> 10 ^ 8" and mp: "mp \<in> set mps"
  defines "fs \<equiv> recorded recname mps fs0 locs blocks"
  shows "set (mountpoint_paths fs recname mp) = {rec_path recname mp i |i. i < length blocks \<and> locs ! i = mp}"
    and "distinct (mountpoint_paths fs recname mp)"
proof -
  let ?es = "filter (\<lambda>e. isRecordingEntry recname e \<and> is_directory fs (mp @ [e])) (dir_entries fs mp)"
  have es: "set ?es \<subseteq> {recname}"
    unfolding fs_def by (rule recording_entries [OF sep fresh locs mp])
  have "distinct ?es" by (simp add: distinct_dir_entries)
  then consider "?es = []" | "?es = [recname]" using es by (cases ?es; cases "tl ?es") auto
  then have paths: "?es = [] \<and> mountpoint_paths fs recname mp = [] \<or>
      ?es = [recname] \<and> mountpoint_paths fs recname mp = directory_paths fs recname (mp @ [recname])"
    unfolding mountpoint_paths_def by cases simp_all
  have "distinct (directory_paths fs recname (mp @ [recname]))"
    by (simp add: directory_paths_def distinct_map distinct_dir_entries inj_on_def)
  then show "distinct (mountpoint_paths fs recname mp)" using paths by auto
  have sub: "set (directory_paths fs recname (mp @ [recname])) \<subseteq> {rec_path recname mp i |i. i < length blocks \<and> locs ! i = mp}"
  proof
    fix q assume "q \<in> set (directory_paths fs recname (mp @ [recname]))"
    then obtain p c where q: "(p, c) \<in> set fs" "is_below (mp @ [recname]) p" "q = mp @ [recname, p ! length (mp @ [recname])]"
      by (auto simp: directory_paths_def set_dir_entries)
    obtain x where x: "p = mp @ recname # x" "x \<noteq> []" using q(2) unfolding is_below_iff by auto
    have "\<not> isRecordingEntry recname (p ! length mp)" if "(p, c) \<in> set fs0"
      using fresh mp that x(1) is_below_append [of mp "recname # x"] unfolding fresh_on_def by blast
    then have "(p, c) \<notin> set fs0" using x(1) by auto
    then obtain i where i: "i < length blocks" "p = rec_path recname (locs ! i) i" using q(1) by (auto simp: fs_def recorded_def)
    have "locs ! i \<in> set mps" using i(1) locs by (auto dest: nth_mem)
    then have "locs ! i = mp" using below_separate [OF sep mp, of "locs ! i" "[recname, recname @ ''.'' @ format08 i]"] x(1) i(2)
        is_below_append [of mp "recname # x"] by (simp add: rec_path_def)
    then show "q \<in> {rec_path recname mp i |i. i < length blocks \<and> locs ! i = mp}" using i q(3) by (auto simp: rec_path_def nth_append)
  qed
  have sup: "rec_path recname mp i \<in> set (mountpoint_paths fs recname mp)" if i: "i < length blocks" "locs ! i = mp" for i
  proof -
    let ?name = "recname @ ''.'' @ format08 i"
    have there: "(mp @ recname # [?name], blocks ! i) \<in> set fs" "((mp @ [recname]) @ ?name # [], blocks ! i) \<in> set fs"
      using i by (auto simp: fs_def recorded_def rec_path_def)
    have "recname \<in> set ?es" using dir_entriesI [OF there(1)] is_directoryI [OF there(2)] by simp
    then have "mountpoint_paths fs recname mp = directory_paths fs recname (mp @ [recname])" using paths by (metis empty_iff empty_set)
    then show ?thesis using dir_entriesI [OF there(2)] isRecordingChunk_name [of i recname] i n
      by (auto simp: directory_paths_def rec_path_def)
  qed
  show "set (mountpoint_paths fs recname mp) = {rec_path recname mp i |i. i < length blocks \<and> locs ! i = mp}"
    using sub sup paths by auto
qed

lemma map_of_recorded:
  assumes "length blocks \<le> 10 ^ 8" "i < length blocks"
  shows "map_of (recorded recname mps fs0 locs blocks) (rec_path recname (locs ! i) i) = Some (blocks ! i)"
proof -
  let ?new = "rev (map (\<lambda>i. (rec_path recname (locs ! i) i, blocks ! i)) [0..<length blocks])"
  have "inj_on (\<lambda>i. rec_path recname (locs ! i) i) {0..<length blocks}"
    using assms(1) by (intro inj_onI) (auto dest!: rec_path_inj)
  then have "distinct (map fst ?new)" by (simp add: rev_map [symmetric] comp_def distinct_map)
  then have "map_of ?new (rec_path recname (locs ! i) i) = Some (blocks ! i)"
    using assms(2) by (intro map_of_is_SomeI) auto
  then show ?thesis by (simp add: recorded_def)
qed

lemma concat_disjoint:
  assumes "distinct xs" "\<And>x. x \<in> set xs \<Longrightarrow> distinct (f x)"
    "\<And>x y. x \<in> set xs \<Longrightarrow> y \<in> set xs \<Longrightarrow> x \<noteq> y \<Longrightarrow> set (f x) \<inter> set (f y) = {}"
  shows "distinct (concat (map f xs))"
  using assms
proof (induction xs)
  case (Cons x xs)
  then have "distinct (concat (map f xs))" by simp
  moreover have "set (f x) \<inter> set (f y) = {}" if "y \<in> set xs" for y
    using Cons.prems(1) Cons.prems(3) [of x y] that by auto
  ultimately show ?case using Cons.prems(2) [of x] by auto
qed simp

text \<open>The chunks of the recording, one per block and in their order.\<close>

lemma scanRecording_recorded:
  assumes name: "valid_name recname" and sep: "separate mps" and fresh: "fresh_on mps recname fs0"
    and locs: "set locs \<subseteq> set mps" "length locs = length blocks" and n: "length blocks \<le> 10 ^ 8" and mps': "set mps' = set mps" "distinct mps'"
  defines "fs \<equiv> recorded recname mps fs0 locs blocks"
  shows "\<exists>labels' fcs. scanRecording fs recname mps' (labels, []) = Inr (labels', fcs)
    \<and> map unlabelled fcs = map (\<lambda>i. chunk_at fs (rec_path recname (locs ! i) i)) [0..<length blocks]"
proof -
  let ?p = "\<lambda>i. rec_path recname (locs ! i) i" and ?ps = "concat (map (mountpoint_paths fs recname) mps')"
  note paths = mountpoint_paths_recorded [OF sep fresh locs n, folded fs_def]
  have digits: "chunk_digits (?p i) = Some (format08 i)" if "i < length blocks" for i
    unfolding rec_path_def by (rule chunk_digits_name) (use name that n in \<open>auto simp: valid_name_def\<close>)
  have number: "fc_number (chunk_at fs (?p i)) = i" if "i < length blocks" for i
    using digits [OF that] format08_facts(3) [of i] that n by (simp add: chunk_at_def)
  have "locs ! i \<in> set mps'" if "i < length blocks" for i using that locs mps'(1) by (auto dest: nth_mem)
  then have set_ps: "set ?ps = ?p ` {0..<length blocks}" using paths(1) mps'(1) by fastforce
  have dist_ps: "distinct ?ps"
  proof (rule concat_disjoint)
    show "set (mountpoint_paths fs recname x) \<inter> set (mountpoint_paths fs recname y) = {}"
      if "x \<in> set mps'" "y \<in> set mps'" "x \<noteq> y" for x y
      using that paths(1) [of x] paths(1) [of y] mps'(1) n by (auto dest!: rec_path_inj)
  qed (use paths(2) mps' in auto)
  have inj: "inj_on (fc_number \<circ> chunk_at fs) (set ?ps)" unfolding set_ps by (rule inj_onI) (auto simp: number)
  have "\<exists>labels' fcs. fold (then_scan (scan_chunk fs)) ?ps (Inr (labels, [])) = Inr (labels', fcs)
    \<and> sorted (map chunk_key_of fcs) \<and> mset (map unlabelled fcs) = mset (map unlabelled []) + mset (map (chunk_at fs) ?ps)"
  proof (rule scan_chunks)
    show "chunk_digits p \<noteq> None \<and> map_of fs p \<noteq> None" if p: "p \<in> set ?ps" for p
    proof -
      obtain i where "i < length blocks" "p = ?p i" using p unfolding set_ps by auto
      then show ?thesis using digits map_of_recorded [OF n] by (simp add: fs_def)
    qed
    show "distinct (map (fc_number \<circ> chunk_at fs) ?ps)" using dist_ps inj by (simp add: distinct_map)
  qed simp_all
  then obtain labels' fcs where scan: "scanRecording fs recname mps' (labels, []) = Inr (labels', fcs)"
    and sorted: "sorted (map chunk_key_of fcs)" and found: "mset (map unlabelled fcs) = mset (map (chunk_at fs) ?ps)"
    unfolding scanRecording_paths by auto
  let ?want = "map (\<lambda>i. chunk_at fs (?p i)) [0..<length blocks]"
  have unl: "map fc_number (map unlabelled fcs) = map fc_number fcs" by (simp add: unlabelled_def)
  have want: "map fc_number ?want = [0..<length blocks]" using number by (intro nth_equalityI) simp_all
  have same: "set (map unlabelled fcs) = set ?want" using mset_eq_setD [OF found] set_ps by (auto simp: image_comp)
  have "map unlabelled fcs = ?want"
  proof (rule map_sorted_distinct_set_unique [of fc_number])
    have "distinct (map fc_number (map (chunk_at fs) ?ps))" using dist_ps inj by (simp add: distinct_map comp_def inj_on_def)
    then show "distinct (map fc_number (map unlabelled fcs))"
      using arg_cong [OF found, of "image_mset fc_number"] mset_eq_imp_distinct_iff by (metis mset_map)
    show "sorted (map fc_number (map unlabelled fcs))" unfolding unl by (rule sorted_numbers [OF sorted])
    show "sorted (map fc_number ?want)" "distinct (map fc_number ?want)" unfolding want by simp_all
    show "inj_on fc_number (set (map unlabelled fcs) \<union> set ?want)" unfolding same by (rule inj_onI) (auto simp: number)
  qed (rule same)
  then show ?thesis using scan by blast
qed

lemma chunk_data_unlabelled [simp]: "chunk_data os (unlabelled c) = chunk_data os c" "chunk_valid os (unlabelled c) = chunk_valid os c"
  "fc_fd (unlabelled c) = fc_fd c"
  by (simp_all add: unlabelled_def chunk_data_def chunk_valid_def split: option.split)

subsection \<open>What recording and playing promise\<close>

text \<open>A single writer that records blocks without a data stream leaves the file system above.\<close>

lemma parallelwriter_recorded:
  assumes "parallelwriter env mk6vars (chunkmaker VBSNamer (\<lambda>_. []) recname [] (map (Pair no_tag) blocks)) st = Some (True, st')"
    "\<not> mv_mk6 mk6vars" "set (pw_filelist st) \<subseteq> set mps" "length blocks \<le> 10 ^ 8"
  shows "\<exists>locs. length locs = length blocks \<and> set locs \<subseteq> set mps \<and> pw_fs st' = recorded recname mps (pw_fs st) locs blocks"
proof -
  let ?chs = "map (chunk_of_block VBSNamer recname) (enumerate 0 blocks)"
  have "chunkmaker VBSNamer (\<lambda>_. []) recname [] (map (Pair no_tag) blocks) = ?chs"
    by (rule chunkmaker_enumerate) (use assms(4) in simp_all)
  then obtain locs where l: "length locs = length blocks" "set locs \<subseteq> set mps" "pw_fs st' = rev (stored locs ?chs) @ pw_fs st"
    using parallelwriter_stores [of env mk6vars ?chs st st' "set mps"] assms(1-3) by auto
  have "stored locs ?chs = map (\<lambda>i. (rec_path recname (locs ! i) i, blocks ! i)) [0..<length blocks]"
    using l(1) by (intro nth_equalityI) (simp_all add: stored_def nth_enumerate_eq chunk_of_block_def chunk_name_def rec_path_def)
  then show ?thesis using l by (auto simp: recorded_def)
qed

lemma recorded_open:
  assumes "valid_name recname" "separate mps" "fresh_on mps recname fs0" "set locs \<subseteq> set mps" "length locs = length blocks"
    "length blocks \<le> 10 ^ 8" "blocks \<noteq> []"
  defines "fs \<equiv> recorded recname mps fs0 locs blocks"
  shows "\<exists>labels' cs. vbs_open fs labels tbl recname mps = (labels', (new_fd tbl, openfile_new cs) # tbl, Vbs_Fd (new_fd tbl))
    \<and> cs \<noteq> [] \<and> (\<forall>os. os_content os = map_of fs \<longrightarrow> flat os cs = concat blocks \<and> (\<forall>c \<in> set cs. chunk_valid os c \<and> fc_fd c \<noteq> Own_Fd))"
proof -
  let ?p = "\<lambda>i. rec_path recname (locs ! i) i"
  have "set (mountpoint_set mps) = set mps" "distinct (mountpoint_set mps)" by (simp_all add: mountpoint_set_def)
  from scanRecording_recorded [OF assms(1-6) this] obtain labels' cs where
    scan: "scanRecording fs recname (mountpoint_set mps) (labels, []) = Inr (labels', cs)"
    and cs: "map unlabelled cs = map (\<lambda>i. chunk_at fs (?p i)) [0..<length blocks]" unfolding fs_def by blast
  have len: "length cs = length blocks" using arg_cong [OF cs, of length] by simp
  have content: "map_of fs (?p i) = Some (blocks ! i)" if "i < length blocks" for i
    unfolding fs_def using map_of_recorded [OF assms(6) that] .
  have cs_i: "unlabelled (cs ! i) = chunk_at fs (?p i)" if "i < length blocks" for i
    using arg_cong [OF cs, of "\<lambda>xs. xs ! i"] that len by simp
  have data: "chunk_data os (cs ! i) = blocks ! i" "chunk_valid os (cs ! i)" "fc_fd (cs ! i) \<noteq> Own_Fd"
    if "i < length blocks" "os_content os = map_of fs" for i os
  proof -
    have "chunk_data os (unlabelled (cs ! i)) = blocks ! i" "chunk_valid os (unlabelled (cs ! i))" "fc_fd (unlabelled (cs ! i)) \<noteq> Own_Fd"
      unfolding cs_i [OF that(1)] using that(2) content [OF that(1)] by (simp_all add: chunk_data_def chunk_valid_def chunk_at_def)
    then show "chunk_data os (cs ! i) = blocks ! i" "chunk_valid os (cs ! i)" "fc_fd (cs ! i) \<noteq> Own_Fd" by simp_all
  qed
  have "flat os cs = concat blocks" if "os_content os = map_of fs" for os
  proof -
    have "map (chunk_data os) cs = blocks" using data(1) [OF _ that] len by (intro nth_equalityI) simp_all
    then show ?thesis by (simp add: flat_def)
  qed
  moreover have "chunk_valid os c \<and> fc_fd c \<noteq> Own_Fd" if "os_content os = map_of fs" "c \<in> set cs" for os c
    using that(2) data(2,3) [OF _ that(1)] len by (auto simp: in_set_conv_nth)
  moreover have "cs \<noteq> []" using len assms(7) by auto
  moreover have "recname \<noteq> []" using assms(1) by (simp add: valid_name_def)
  ultimately show ?thesis using scan by (auto simp: vbs_open_def open_chunks_def)
qed


text \<open>Three blocks, two disks, the first of which fails after one byte of the third block.\<close>

definition sample_env :: write_env where
  "sample_env = \<lparr>we_mkpath = (\<lambda>_. True), we_open = (\<lambda>_. True), we_fh = (\<lambda>_. 20), we_wb = (\<lambda>_. 8),
     we_data = (\<lambda>k. if k = 2 then 1 else 99)\<rparr>"

definition sample_disks :: "path list" where
  "sample_disks = [[''disk0''], [''disk1'']]"

definition flexbuff_vars :: mark6_vars where
  "flexbuff_vars = \<lparr>mv_mk6 = False, mv_packet_size = 0, mv_packet_format = 0\<rparr>"

lemma sample_chunks:
  "chunkmaker VBSNamer (\<lambda>_. []) ''r1'' [] (map (Pair no_tag) [[1, 2], [3], [4, 5]])
   = [(\<lparr>fm_size = 2, fm_seq = 0, fm_name = [''r1'', ''r1.00000000'']\<rparr>, [1, 2]),
      (\<lparr>fm_size = 1, fm_seq = 1, fm_name = [''r1'', ''r1.00000001'']\<rparr>, [3]),
      (\<lparr>fm_size = 2, fm_seq = 2, fm_name = [''r1'', ''r1.00000002'']\<rparr>, [4, 5])]"
proof -
  have "format08 0 = ''00000000''" "format08 1 = ''00000001''" "format08 2 = ''00000002''"
    by code_simp+
  moreover have "chunkmaker VBSNamer (\<lambda>_. []) ''r1'' [] (map (Pair no_tag) [[1, 2], [3], [4, 5]])
      = map (chunk_of_block VBSNamer ''r1'') (enumerate 0 [[1, 2], [3], [4, 5]])"
    by (rule chunkmaker_enumerate) simp_all
  ultimately show ?thesis by (simp add: chunk_of_block_def chunk_name_def numeral_2_eq_2 [symmetric])
qed

lemma sample_recorded:
  "\<exists>st. parallelwriter sample_env flexbuff_vars (chunkmaker VBSNamer (\<lambda>_. []) ''r1'' [] (map (Pair no_tag) [[1, 2], [3], [4, 5]]))
        ((writer_start sample_disks)\<lparr>pw_fs := []\<rparr>) = Some (True, st)
   \<and> map fst (pw_fs st) = [[''disk1'', ''r1'', ''r1.00000002''], [''disk1'', ''r1'', ''r1.00000001''],
                  [''disk0'', ''r1'', ''r1.00000000'']]"
  unfolding sample_chunks
  by (simp add: write_chunk.simps attempt_def write_block_def sample_env_def flexbuff_vars_def writer_start_def sample_disks_def
      fs_append_def fs_put_def fs_unlink_def mark_bad_def Let_def)


end
