(* ===== verification/Mk6Play.thy ===== *)
theory Mk6Play
  imports RecordPlay
begin

text \<open>
  Mark6 recordings written by \<open>parallelwriter\<close> and found again by \<open>scanMk6RecordingFile\<close>: a file per mount
  point, with a header and blocks. The round trip, and where the writer loses or mixes data.
\<close>

subsection \<open>Mark6 recordings\<close>

lemma map_of_fs_append:
  "map_of (pw_fs (fs_append p bs st)) =
     (map_of (pw_fs st))(p \<mapsto> (case map_of (pw_fs st) p of None \<Rightarrow> [] | Some c \<Rightarrow> c) @ bs)"
proof
  fix q
  have "map_of (filter (\<lambda>(q, _). q \<noteq> p) fs) q = (if q = p then None else map_of fs q)" for fs :: filesys
    by (induction fs) auto
  then show "map_of (pw_fs (fs_append p bs st)) q =
     ((map_of (pw_fs st))(p \<mapsto> (case map_of (pw_fs st) p of None \<Rightarrow> [] | Some c \<Rightarrow> c) @ bs)) q"
    by (simp add: fs_append_def fs_put_def)
qed

lemma length_le_bytes [simp]: "length (le_bytes w) = 4"
  by (simp add: le_bytes_def)

lemma length_mk6_wb_header [simp]: "length (mk6_wb_header bn ws) = wb_size"
  by (simp add: mk6_wb_header_def wb_size_def)

text \<open>Writing to the open file of a mount point: what is appended depends on the block header only.\<close>

lemma write_to_open_file:
  assumes "mv_mk6 mk6vars" "pw_filelist st = mp # rest" "mp \<notin> set seen" "map_of (pw_fdmap st) mp = Some (Some fd)"
    "map_of (pw_fs st) fd = Some old" "wb_size \<le> we_wb env (pw_attempts st) \<Longrightarrow> length data \<le> we_data env (pw_attempts st)"
  defines "nw \<equiv> we_wb env (pw_attempts st)"
  shows "\<exists>st'. write_chunk env mk6vars (fm, data) seen st = Some (True, st')
    \<and> map_of (pw_fs st') = (map_of (pw_fs st))(fd \<mapsto>
        old @ (if nw < wb_size then take nw (mk6_wb_header (fm_seq fm) (length data)) else mk6_wb_header (fm_seq fm) (length data) @ data))"
  using assms
  by (subst write_chunk.simps) (auto simp: Let_def attempt_def write_block_def map_of_fs_append min_def nw_def)

text \<open>C36: When the header of a Mark6 block cannot be written, the block is counted as written: the writer
  goes on with the next block although nothing of the data is in any file.\<close>

theorem mk6_block_lost:
  assumes "mv_mk6 mk6vars" "pw_filelist st = mp # rest" "mp \<notin> set seen" "map_of (pw_fdmap st) mp = Some (Some fd)"
    "map_of (pw_fs st) fd = Some old" "we_wb env (pw_attempts st) < wb_size"
  shows "\<exists>st'. write_chunk env mk6vars (fm, data) seen st = Some (True, st')
    \<and> map_of (pw_fs st') = (map_of (pw_fs st))(fd \<mapsto> old @ take (we_wb env (pw_attempts st)) (mk6_wb_header (fm_seq fm) (length data)))"
  using write_to_open_file [OF assms(1-5), of env data fm] assms(6) by simp

text \<open>In a Mark6 recording of several data streams only the first block on a mount point decides
  the name of the file there. The blocks of every other stream are appended to that file, whatever
  their own file name is.\<close>

theorem mk6_streams_share_file:
  assumes "mv_mk6 mk6vars" "pw_filelist st = mp # rest" "mp \<notin> set seen" "map_of (pw_fdmap st) mp = Some (Some fd)"
    "map_of (pw_fs st) fd = Some old" "length data \<le> we_data env (pw_attempts st)" "wb_size \<le> we_wb env (pw_attempts st)"
  shows "\<exists>st'. write_chunk env mk6vars (\<lparr>fm_size = sz, fm_seq = n, fm_name = name\<rparr>, data) seen st = Some (True, st')
    \<and> map_of (pw_fs st') = (map_of (pw_fs st))(fd \<mapsto> old @ mk6_wb_header n (length data) @ data)"
  using write_to_open_file [OF assms(1-5), of env data "\<lparr>fm_size = sz, fm_seq = n, fm_name = name\<rparr>"] assms(6,7) by simp

definition mk6_vars :: mark6_vars where
  "mk6_vars = \<lparr>mv_mk6 = True, mv_packet_size = 0, mv_packet_format = 0\<rparr>"

definition open_writer :: writer where
  "open_writer = \<lparr>pw_filelist = [[''disk0'']], pw_listlength = 1, pw_fdmap = [([''disk0''], Some [''disk0'', ''r_dsA''])],
     pw_fs = [([''disk0'', ''r_dsA''], [])], pw_attempts = 1\<rparr>"

theorem mk6_block_lost_witness:
  "\<exists>st'. write_chunk (sample_env\<lparr>we_wb := \<lambda>_. 0\<rparr>) mk6_vars (\<lparr>fm_size = 3, fm_seq = 1, fm_name = [''r_dsA'']\<rparr>, [1, 2, 3]) [] open_writer
      = Some (True, st') \<and> map_of (pw_fs st') [''disk0'', ''r_dsA''] = Some []"
  using mk6_block_lost [where mk6vars = mk6_vars and st = open_writer and mp = "[''disk0'']" and rest = "[]" and seen = "[]"
      and fd = "[''disk0'', ''r_dsA'']" and old = "[]" and env = "sample_env\<lparr>we_wb := \<lambda>_. 0\<rparr>" and data = "[1, 2, 3]"
      and fm = "\<lparr>fm_size = 3, fm_seq = 1, fm_name = [''r_dsA'']\<rparr>"]
  by (auto simp: mk6_vars_def open_writer_def sample_env_def wb_size_def)

text \<open>A block of another stream ends up in the file of the first, and nothing is found of the other stream.\<close>

theorem mk6_streams_share_file_witness:
  "\<exists>st'. write_chunk sample_env mk6_vars (\<lparr>fm_size = 1, fm_seq = 0, fm_name = [''r_dsB'']\<rparr>, [7]) [] open_writer = Some (True, st')
    \<and> map_of (pw_fs st') [''disk0'', ''r_dsA''] = Some [0, 0, 0, 0, 9, 0, 0, 0, 7] \<and> map_of (pw_fs st') [''disk0'', ''r_dsB''] = None"
  using mk6_streams_share_file [of mk6_vars open_writer "[''disk0'']" "[]" "[]" "[''disk0'', ''r_dsA'']" "[]" "[7]" sample_env 1 0 "[''r_dsB'']"]
  by (auto simp: mk6_vars_def open_writer_def sample_env_def wb_size_def mk6_wb_header_def le_bytes_def upt_rec)

subsection \<open>Reading headers back\<close>

lemma four_bytes:
  fixes u :: int
  assumes "0 \<le> u" "u < 2 ^ 32"
  shows "u mod 256 + 256 * (u div 256 mod 256 + 256 * (u div 65536 mod 256 + 256 * (u div 16777216 mod 256))) = u"
proof -
  have "u div 65536 = u div 256 div 256" "u div 16777216 = u div 256 div 256 div 256" by (simp_all add: zdiv_zmult2_eq [symmetric])
  moreover have "u div 256 div 256 div 256 mod 256 = u div 256 div 256 div 256" using assms by simp
  ultimately show ?thesis by (simp add: mult_div_mod_eq add.commute)
qed

lemma rcat_bytes:
  fixes a b c d :: byte
  shows "(word_rcat [a, b, c, d] :: 32 word) = word_of_int (uint d + 256 * (uint c + 256 * (uint b + 256 * uint a)))"
  by (simp add: word_rcat_def)

lemma le32_le_bytes: "le32 (xs @ le_bytes w @ ys) (length xs) = w"
proof -
  let ?b = "\<lambda>i. ucast (drop_bit (8 * i) w) :: byte"
  have byte: "uint (?b i) = uint w div 2 ^ (8 * i) mod 256" for i
  proof -
    have "uint (?b i) = take_bit 8 (uint (drop_bit (8 * i) w))" by (simp only: unsigned_ucast_eq) simp
    also have "uint (drop_bit (8 * i) w) = drop_bit (8 * i) (take_bit LENGTH(32) (uint w))" by (rule unsigned_drop_bit_eq)
    also have "take_bit LENGTH(32) (uint w) = uint w" by (rule take_bit_int_eq_self [OF uint_ge_0 uint_lt2p])
    finally show ?thesis by (simp add: drop_bit_eq_div take_bit_eq_mod)
  qed
  have "le32 (xs @ le_bytes w @ ys) (length xs) = word_rcat [?b 3, ?b 2, ?b 1, ?b 0]"
    by (simp add: le32_def le_bytes_def nth_append upt_rec)
  also have "(word_rcat [?b 3, ?b 2, ?b 1, ?b 0] :: 32 word) = word_of_int (uint (?b 0) + 256 * (uint (?b 1) + 256 * (uint (?b 2) + 256 * uint (?b 3))))"
    by (rule rcat_bytes)
  also have "uint (?b 0) + 256 * (uint (?b 1) + 256 * (uint (?b 2) + 256 * uint (?b 3))) = uint w"
  proof -
    obtain u where u: "u = uint w" by simp
    have "0 \<le> u" "u < 2 ^ 32" using uint_lt2p [of w] by (simp_all add: u)
    have p: "2 ^ (8 * 0) = (1::int)" "2 ^ (8 * 1) = (256::int)" "2 ^ (8 * 2) = (65536::int)" "2 ^ (8 * 3) = (16777216::int)"
      by simp_all
    show ?thesis unfolding byte u [symmetric] p div_by_1 by (rule four_bytes) fact+
  qed
  finally show ?thesis by simp
qed

lemma sint_word_of_nat: "n < 2 ^ 31 \<Longrightarrow> sint (word_of_nat n :: 32 word) = int n"
  by (simp add: signed_of_nat signed_take_bit_int_eq_self)

text \<open>The bytes of a block with its header.\<close>

definition mk6_block :: "nat \<Rightarrow> byte list \<Rightarrow> byte list" where
  "mk6_block i b = mk6_wb_header i (length b) @ b"

lemma length_mk6_block [simp]: "length (mk6_block i b) = wb_size + length b"
  by (simp add: mk6_block_def)

lemma block_header:
  assumes "i < 2 ^ 31" "length b + wb_size < 2 ^ 31"
  shows "sint (le32 (pre @ mk6_block i b @ post) (length pre)) = int i"
    "sint (le32 (pre @ mk6_block i b @ post) (length pre + 4)) = int (length b + wb_size)"
proof -
  let ?l = "word_of_nat (length b + wb_size) :: 32 word"
  have split: "pre @ mk6_block i b @ post = pre @ le_bytes (word_of_nat i) @ (le_bytes ?l @ b @ post)"
    "pre @ mk6_block i b @ post = (pre @ le_bytes (word_of_nat i)) @ le_bytes ?l @ (b @ post)"
    by (simp_all add: mk6_block_def mk6_wb_header_def)
  show "sint (le32 (pre @ mk6_block i b @ post) (length pre)) = int i"
    unfolding split(1) le32_le_bytes using assms(1) by (rule sint_word_of_nat)
  have "le32 (pre @ mk6_block i b @ post) (length (pre @ le_bytes (word_of_nat i))) = ?l"
    unfolding split(2) by (rule le32_le_bytes)
  then show "sint (le32 (pre @ mk6_block i b @ post) (length pre + 4)) = int (length b + wb_size)"
    using sint_word_of_nat [OF assms(2)] by simp
qed

definition mk6_blocks :: "(nat \<times> byte list) list \<Rightarrow> byte list" where
  "mk6_blocks ibs = concat (map (\<lambda>(i, b). mk6_block i b) ibs)"

lemma mk6_blocks_simps [simp]: "mk6_blocks [] = []" "mk6_blocks ((i, b) # ibs) = mk6_block i b @ mk6_blocks ibs"
  "mk6_blocks (ibs @ jbs) = mk6_blocks ibs @ mk6_blocks jbs"
  by (simp_all add: mk6_blocks_def)

text \<open>A chunk that is block \<open>i\<close> in a file.\<close>

definition block_chunk :: "path \<Rightarrow> byte list \<Rightarrow> filechunk \<Rightarrow> byte list \<Rightarrow> bool" where
  "block_chunk p content c b \<longleftrightarrow> fc_path c = p \<and> fc_fd c = Mk6_Fd \<and> fc_size c = int (length b)
     \<and> (\<exists>pre post. content = pre @ b @ post \<and> fc_pos c = int (length pre))"

lemma scan_blocks_found:
  assumes "distinct (map fst ibs)" "fc_number ` set rv \<inter> fst ` set ibs = {}"
    "\<And>i b. (i, b) \<in> set ibs \<Longrightarrow> i < 2 ^ 31 \<and> length b + wb_size < 2 ^ 31"
  shows "\<exists>rv'. scan_blocks p sid (pre @ mk6_blocks ibs) (length pre) rv = Inr rv'
    \<and> mset (map fc_number rv') = mset (map fc_number rv) + mset (map fst ibs)
    \<and> (\<forall>c \<in> set rv' - set rv. \<exists>b. (fc_number c, b) \<in> set ibs \<and> block_chunk p (pre @ mk6_blocks ibs) c b)"
  using assms
proof (induction ibs arbitrary: pre rv)
  case Nil
  show ?case by (subst scan_blocks.simps) (simp add: wb_size_def)
next
  case (Cons ib ibs)
  obtain i b where ib: "ib = (i, b)" by (cases ib)
  let ?content = "pre @ mk6_blocks (ib # ibs)" and ?pre' = "pre @ mk6_block i b"
  define c where "c = \<lparr>fc_path = p, fc_size = int (length b), fc_pos = int (length pre) + int wb_size, fc_fd = Mk6_Fd,
    fc_offset = 0, fc_number = i, fc_suffix = sid\<rparr>"
  have bounds: "i < 2 ^ 31" "length b + wb_size < 2 ^ 31" using Cons.prems(3) [of i b] by (simp_all add: ib)
  note h = block_header [OF bounds, of pre "mk6_blocks ibs"]
  have same: "?content = ?pre' @ mk6_blocks ibs" by (simp add: ib)
  have "chunk_key_of c \<notin> chunk_key_of ` set rv" using Cons.prems(2) by (auto simp: ib c_def chunk_key_of_def)
  then have "scan_blocks p sid ?content (length pre) rv
      = scan_blocks p sid ?content (length ?pre') (insort_key chunk_key_of c rv)"
    using h bounds by (subst scan_blocks.simps) (simp add: ib Let_def chunk_insert_insort c_def add.commute wb_size_def nat_int_add [of "length b" 8, simplified])
  moreover have "\<exists>rv'. scan_blocks p sid (?pre' @ mk6_blocks ibs) (length ?pre') (insort_key chunk_key_of c rv) = Inr rv'
      \<and> mset (map fc_number rv') = mset (map fc_number (insort_key chunk_key_of c rv)) + mset (map fst ibs)
      \<and> (\<forall>d \<in> set rv' - set (insort_key chunk_key_of c rv). \<exists>b. (fc_number d, b) \<in> set ibs \<and> block_chunk p (?pre' @ mk6_blocks ibs) d b)"
  proof (rule Cons.IH)
    show "fc_number ` set (insort_key chunk_key_of c rv) \<inter> fst ` set ibs = {}"
      using Cons.prems(1,2) by (auto simp: set_insort_key ib c_def)
  qed (use Cons.prems in auto)
  ultimately obtain rv' where rv': "scan_blocks p sid ?content (length pre) rv = Inr rv'"
    "mset (map fc_number rv') = mset (map fc_number (insort_key chunk_key_of c rv)) + mset (map fst ibs)"
    "\<And>d. d \<in> set rv' - set (insort_key chunk_key_of c rv) \<Longrightarrow> \<exists>b. (fc_number d, b) \<in> set ibs \<and> block_chunk p ?content d b"
    unfolding same by auto
  have "?content = (pre @ mk6_wb_header i (length b)) @ b @ mk6_blocks ibs" "fc_pos c = int (length (pre @ mk6_wb_header i (length b)))"
    by (simp_all add: ib mk6_block_def c_def)
  then have "\<exists>pre post. ?content = pre @ b @ post \<and> fc_pos c = int (length pre)" by blast
  then have "block_chunk p ?content c b" by (simp add: block_chunk_def c_def)
  then have "\<exists>b. (fc_number d, b) \<in> set (ib # ibs) \<and> block_chunk p ?content d b" if "d \<in> set rv' - set rv" for d
    using rv'(3) [of d] that by (cases "d = c") (auto simp: ib c_def set_insort_key)
  then show ?case using rv'(1,2) by (auto simp: ib c_def)
qed

lemma length_mk6_file_header [simp]: "length (mk6_file_header bs pf ps) = fh_size"
  by (simp add: mk6_file_header_def fh_size_def)

lemma scan_file_found:
  assumes "map_of fs p = Some (mk6_file_header bs pf ps @ mk6_blocks ibs)" "distinct (map fst ibs)"
    "\<And>i b. (i, b) \<in> set ibs \<Longrightarrow> i < 2 ^ 31 \<and> length b + wb_size < 2 ^ 31"
  shows "\<exists>labels' lcl. scanMk6RecordingFile fs p labels = Inr (labels', lcl)
    \<and> mset (map fc_number lcl) = mset (map fst ibs)
    \<and> (\<forall>c \<in> set lcl. \<exists>b. (fc_number c, b) \<in> set ibs \<and> block_chunk p (mk6_file_header bs pf ps @ mk6_blocks ibs) c b)"
proof -
  let ?content = "mk6_file_header bs pf ps @ mk6_blocks ibs"
  obtain rest where rest: "mk6_file_header bs pf ps = le_bytes MARK6_SG_SYNC_WORD @ le_bytes 2 @ rest"
    by (simp add: mk6_file_header_def)
  have "le32 ?content 0 = MARK6_SG_SYNC_WORD" using le32_le_bytes [of "[]" MARK6_SG_SYNC_WORD] by (simp add: rest)
  moreover have "le32 ?content 4 = 2" using le32_le_bytes [of "le_bytes MARK6_SG_SYNC_WORD" 2] by (simp add: rest)
  moreover obtain labels' sid where "suffix_id labels (find_label [CHR ''_'', CHR ''.'', CHR 0x5C] (path_string p)) = (labels', sid)"
    by fastforce
  moreover obtain lcl where "scan_blocks p sid ?content fh_size [] = Inr lcl" "mset (map fc_number lcl) = mset (map fst ibs)"
    "\<forall>c \<in> set lcl. \<exists>b. (fc_number c, b) \<in> set ibs \<and> block_chunk p ?content c b"
    using scan_blocks_found [OF assms(2) _ assms(3), of "[]" p sid "mk6_file_header bs pf ps"] by auto
  ultimately show ?thesis using assms(1) by (simp add: scanMk6RecordingFile_def)
qed

lemma merge_found:
  assumes "distinct (map fc_number lcl)" "fc_number ` set fcs \<inter> fc_number ` set lcl = {}" "sorted (map chunk_key_of fcs)"
  shows "sorted (map chunk_key_of (fold merge_chunk lcl fcs)) \<and> mset (fold merge_chunk lcl fcs) = mset fcs + mset lcl"
  using assms
proof (induction lcl arbitrary: fcs)
  case (Cons c lcl)
  have "chunk_key_of c \<notin> chunk_key_of ` set fcs" using Cons.prems(2) by (auto simp: chunk_key_of_def)
  then have m: "merge_chunk c fcs = insort_key chunk_key_of c fcs" by (simp add: merge_chunk_def chunk_insert_insort)
  have "sorted (map chunk_key_of (fold merge_chunk lcl (insort_key chunk_key_of c fcs)))
      \<and> mset (fold merge_chunk lcl (insort_key chunk_key_of c fcs)) = mset (insort_key chunk_key_of c fcs) + mset lcl"
  proof (rule Cons.IH)
    show "fc_number ` set (insort_key chunk_key_of c fcs) \<inter> fc_number ` set lcl = {}" using Cons.prems(1,2) by (auto simp: set_insort_key)
    show "sorted (map chunk_key_of (insort_key chunk_key_of c fcs))" by (rule sorted_insort_key [THEN iffD2]) (rule Cons.prems(3))
  qed (use Cons.prems(1) in simp)
  then show ?case by (simp add: m)
qed simp

subsection \<open>What the writer leaves\<close>

text \<open>Files and directories may fail to be made; what is written is written in full.\<close>

definition full_writes :: "write_env \<Rightarrow> byte list set \<Rightarrow> bool" where
  "full_writes env bs \<longleftrightarrow> (\<forall>k. fh_size \<le> we_fh env k \<and> wb_size \<le> we_wb env k \<and> (\<forall>b \<in> bs. length b \<le> we_data env k))"

text \<open>The blocks written so far, each with its mount point; those on one mount point.\<close>

type_synonym written_blocks = "((nat \<times> byte list) \<times> path) list"

definition blocks_on :: "path \<Rightarrow> written_blocks \<Rightarrow> (nat \<times> byte list) list" where
  "blocks_on mp ws = map fst (filter (\<lambda>x. snd x = mp) ws)"

definition mk6_mount :: "string \<Rightarrow> written_blocks \<Rightarrow> writer \<Rightarrow> path \<Rightarrow> bool" where
  "mk6_mount recname ws st mp \<longleftrightarrow>
     (if blocks_on mp ws = [] then map_of (pw_fs st) (mp @ [recname]) = None \<and> map_of (pw_fdmap st) mp = None
      else map_of (pw_fdmap st) mp = Some (Some (mp @ [recname]))
        \<and> (\<exists>bs pf ps. map_of (pw_fs st) (mp @ [recname]) = Some (mk6_file_header bs pf ps @ mk6_blocks (blocks_on mp ws))))"

definition mk6_written :: "path set \<Rightarrow> string \<Rightarrow> filesys \<Rightarrow> written_blocks \<Rightarrow> writer \<Rightarrow> bool" where
  "mk6_written mps recname fs0 ws st \<longleftrightarrow>
     (\<forall>mp \<in> mps. mk6_mount recname ws st mp)
     \<and> (\<forall>p. (\<forall>mp \<in> mps. p \<noteq> mp @ [recname]) \<longrightarrow> map_of (pw_fs st) p = map_of fs0 p)"

lemma blocks_on_simps [simp]: "blocks_on mp [] = []" "blocks_on mp (ws @ [(ib, mp')]) = (if mp' = mp then blocks_on mp ws @ [ib] else blocks_on mp ws)"
  by (simp_all add: blocks_on_def)

lemma mk6_mount_cong:
  "map_of (pw_fs st') (mp @ [recname]) = map_of (pw_fs st) (mp @ [recname]) \<Longrightarrow> map_of (pw_fdmap st') mp = map_of (pw_fdmap st) mp
    \<Longrightarrow> blocks_on mp ws' = blocks_on mp ws \<Longrightarrow> mk6_mount recname ws' st' mp = mk6_mount recname ws st mp"
  by (simp add: mk6_mount_def)

lemma mk6_written_cong:
  "pw_fs st' = pw_fs st \<Longrightarrow> pw_fdmap st' = pw_fdmap st \<Longrightarrow> mk6_written mps recname fs0 ws st' = mk6_written mps recname fs0 ws st"
  by (simp add: mk6_written_def mk6_mount_def)

text \<open>One block more in the file of one mount point.\<close>

lemma mk6_written_step:
  assumes "mk6_written mps recname fs0 ws st" "mp \<in> mps"
    "map_of (pw_fs st') = (map_of (pw_fs st))(mp @ [recname] \<mapsto> old @ mk6_block i b)"
    "map_of (pw_fdmap st') = (map_of (pw_fdmap st))(mp \<mapsto> Some (mp @ [recname]))"
    "old = mk6_file_header bs pf ps @ mk6_blocks (blocks_on mp ws)"
  shows "mk6_written mps recname fs0 (ws @ [((i, b), mp)]) st'"
  unfolding mk6_written_def
proof (intro conjI ballI allI impI)
  fix mp' assume mp': "mp' \<in> mps"
  show "mk6_mount recname (ws @ [((i, b), mp)]) st' mp'"
  proof (cases "mp' = mp")
    case True
    then show ?thesis using assms(3-5) by (auto simp: mk6_mount_def)
  next
    case False
    then show ?thesis using mk6_mount_cong [of st' mp' recname st "ws @ [((i, b), mp)]" ws] assms(1,3,4) mp' by (auto simp: mk6_written_def)
  qed
next
  fix p assume "\<forall>mp \<in> mps. p \<noteq> mp @ [recname]"
  then show "map_of (pw_fs st') p = map_of fs0 p" using assms(1-3) by (auto simp: mk6_written_def)
qed

lemma write_block_mk6:
  assumes "full_writes env bs" "mv_mk6 mk6vars" "snd ch \<in> bs"
  shows "\<exists>st'. write_block env mk6vars k ch mp fd st = (True, st')
    \<and> map_of (pw_fs st') = (map_of (pw_fs st))(fd \<mapsto>
        (case map_of (pw_fs st) fd of None \<Rightarrow> [] | Some c \<Rightarrow> c) @ mk6_block (fm_seq (fst ch)) (snd ch))
    \<and> map_of (pw_fdmap st') = (if map_of (pw_fdmap st) mp = None then (map_of (pw_fdmap st))(mp \<mapsto> Some fd) else map_of (pw_fdmap st))"
proof -
  have w: "min (we_wb env k) wb_size = wb_size" "min (we_data env k) (length (snd ch)) = length (snd ch)"
    using assms(1,3) by (auto simp: full_writes_def min_def dest: antisym)
  have fd: "pw_fdmap (fs_append p x s) = pw_fdmap s" for p x s by (simp add: fs_append_def)
  show ?thesis using assms(2) by (auto simp: write_block_def Let_def w map_of_fs_append mk6_block_def fd)
qed

lemma attempt_mk6:
  assumes env: "full_writes env bs" "mv_mk6 mk6vars" and b: "b \<in> bs" and inv: "mk6_written mps recname fs0 ws st" and mp: "mp \<in> mps"
    and a: "attempt env mk6vars (chunk_of_block MK6Namer recname (i, b)) mp st = (ok, st')"
  shows "mk6_written mps recname fs0 (if ok then ws @ [((i, b), mp)] else ws) st'"
proof -
  let ?ch = "chunk_of_block MK6Namer recname (i, b)" and ?k = "pw_attempts st" and ?st = "st\<lparr>pw_attempts := pw_attempts st + 1\<rparr>"
  have ch: "snd ?ch \<in> bs" "fm_seq (fst ?ch) = i" "snd ?ch = b" "fm_name (fst ?ch) = [recname]" using b by (simp_all add: chunk_of_block_def chunk_name_def)
  have mount: "mk6_mount recname ws st mp" using inv mp by (simp add: mk6_written_def)
  note wb = write_block_mk6 [OF env ch(1), of ?k mp "mp @ [recname]"]
  show ?thesis
  proof (cases "blocks_on mp ws = []")
    case False
    then obtain h pf ps where f: "map_of (pw_fdmap st) mp = Some (Some (mp @ [recname]))"
      "map_of (pw_fs st) (mp @ [recname]) = Some (mk6_file_header h pf ps @ mk6_blocks (blocks_on mp ws))"
      using mount by (auto simp: mk6_mount_def)
    then have "attempt env mk6vars ?ch mp st = write_block env mk6vars ?k ?ch mp (mp @ [recname]) ?st"
      using env(2) by (simp add: attempt_def Let_def)
    moreover obtain st2 where st2: "write_block env mk6vars ?k ?ch mp (mp @ [recname]) ?st = (True, st2)"
      "map_of (pw_fs st2) = (map_of (pw_fs st))(mp @ [recname] \<mapsto> (mk6_file_header h pf ps @ mk6_blocks (blocks_on mp ws)) @ mk6_block i b)"
      "map_of (pw_fdmap st2) = map_of (pw_fdmap st)"
      using wb [of ?st] f ch by auto
    ultimately have ok: "ok" "st' = st2" using a by simp_all
    have "map_of (pw_fdmap st2) = (map_of (pw_fdmap st))(mp \<mapsto> Some (mp @ [recname]))" using st2(3) f(1) by (simp add: map_upd_triv)
    from mk6_written_step [OF inv mp st2(2) this refl] show ?thesis using ok by simp
  next
    case True
    then have none: "map_of (pw_fdmap st) mp = None" "map_of (pw_fs st) (mp @ [recname]) = None"
      using mount by (auto simp: mk6_mount_def)
    let ?h = "mk6_file_header (length b) (mv_packet_format mk6vars) (mv_packet_size mk6vars)"
    let ?st1 = "fs_append (mp @ [recname]) ?h (fs_append (mp @ [recname]) [] ?st)"
    have fh: "min (we_fh env ?k) fh_size = fh_size" using env(1) by (simp add: full_writes_def min_absorb2)
    show ?thesis
    proof (cases "we_mkpath env ?k \<and> we_open env ?k")
      case True
      then have "attempt env mk6vars ?ch mp st = write_block env mk6vars ?k ?ch mp (mp @ [recname]) ?st1"
        using env(2) none ch by (simp add: attempt_def Let_def fh)
      moreover obtain st2 where st2: "write_block env mk6vars ?k ?ch mp (mp @ [recname]) ?st1 = (True, st2)"
        "map_of (pw_fs st2) = (map_of (pw_fs st))(mp @ [recname] \<mapsto> ?h @ mk6_block i b)"
        "map_of (pw_fdmap st2) = (map_of (pw_fdmap st))(mp \<mapsto> Some (mp @ [recname]))"
      proof -
        have fd: "pw_fdmap ?st1 = pw_fdmap st" by (simp add: fs_append_def)
        have "map_of (pw_fs ?st1) = (map_of (pw_fs st))(mp @ [recname] \<mapsto> ?h)" using none by (simp add: map_of_fs_append)
        with fd show ?thesis using wb [of ?st1] none ch that by auto
      qed
      ultimately have ok: "ok" "st' = st2" using a by simp_all
      show ?thesis using mk6_written_step [OF inv mp st2(2,3)] ok \<open>blocks_on mp ws = []\<close> by simp
    next
      case False
      then have "attempt env mk6vars ?ch mp st = (False, mark_bad ?st)" using env(2) none ch by (simp add: attempt_def Let_def)
      then show ?thesis using a inv mk6_written_cong [of "mark_bad ?st" st] by (simp add: mark_bad_def)
    qed
  qed
qed

lemma write_chunk_mk6:
  assumes "write_chunk env mk6vars (chunk_of_block MK6Namer recname (i, b)) seen st = Some (ok, st')"
    "full_writes env bs \<and> mv_mk6 mk6vars \<and> b \<in> bs" "set (pw_filelist st) \<subseteq> mps" "mk6_written mps recname fs0 ws st"
  shows "set (pw_filelist st') \<subseteq> mps \<and> (\<exists>mp \<in> mps. mk6_written mps recname fs0 (if ok then ws @ [((i, b), mp)] else ws) st') \<or>
    \<not> ok \<and> pw_filelist st' = []"
  using assms
proof (induction env mk6vars "chunk_of_block MK6Namer recname (i, b)" seen st "(ok, st')" arbitrary: ok st'
    rule: write_chunk.raw_induct [rotated 1, consumes 1])
  case (1 loop env mk6vars seen st)
  show ?case
  proof (cases "pw_filelist st")
    case Nil
    then show ?thesis using 1 by (auto split: if_splits)
  next
    case (Cons mp rest)
    let ?ch = "chunk_of_block MK6Namer recname (i, b)" and ?st1 = "st\<lparr>pw_filelist := rest\<rparr>"
    have mp: "mp \<in> mps" "set rest \<subseteq> mps" using 1(4) Cons by auto
    have inv1: "mk6_written mps recname fs0 ws ?st1" using 1(5) mk6_written_cong [of ?st1 st] by simp
    obtain a st2 where a: "attempt env mk6vars ?ch mp ?st1 = (a, st2)" by fastforce
    have inv2: "mk6_written mps recname fs0 (if a then ws @ [((i, b), mp)] else ws) st2"
      using attempt_mk6 [OF _ _ _ inv1 mp(1) a] 1(3) by blast
    have fl: "set (pw_filelist st2) \<subseteq> mps"
      using attempt_mounts [of mp ?st1 env mk6vars ?ch] a mp by (auto simp: uses_up_def split: if_splits)
    show ?thesis
    proof (cases "mp \<in> set seen")
      case True
      let ?st3 = "?st1\<lparr>pw_filelist := rest @ [mp]\<rparr>"
      have "mk6_written mps recname fs0 ws ?st3" using 1(5) mk6_written_cong [of ?st3 st] by simp
      then show ?thesis using 1(1) [of env mk6vars seen ?st3] 1(2,3) mp True
        by (auto simp: Cons Let_def split: if_splits)
    next
      case False
      then show ?thesis using 1(1) [of env mk6vars "mp # seen" st2] 1(2,3) fl inv2 mp(1)
        by (cases a) (auto simp: Cons Let_def a)
    qed
  qed
qed

lemma parallelwriter_mk6:
  assumes "parallelwriter env mk6vars (map (chunk_of_block MK6Namer recname) ibs) st = Some (True, st')"
    "full_writes env (snd ` set ibs)" "mv_mk6 mk6vars" "set (pw_filelist st) \<subseteq> mps" "mk6_written mps recname fs0 ws st"
  shows "\<exists>locs. length locs = length ibs \<and> set locs \<subseteq> mps \<and> mk6_written mps recname fs0 (ws @ zip ibs locs) st'"
  using assms
proof (induction ibs arbitrary: st ws)
  case Nil
  then show ?case by simp
next
  case (Cons ib ibs)
  obtain i b where ib: "ib = (i, b)" by (cases ib)
  obtain st1 where w: "write_chunk env mk6vars (chunk_of_block MK6Namer recname (i, b)) [] st = Some (True, st1)"
    "parallelwriter env mk6vars (map (chunk_of_block MK6Namer recname) ibs) st1 = Some (True, st')"
    using Cons.prems(1) by (cases "write_chunk env mk6vars (chunk_of_block MK6Namer recname (i, b)) [] st") (auto simp: ib split: if_splits)
  have "full_writes env (snd ` set (ib # ibs)) \<and> mv_mk6 mk6vars \<and> b \<in> snd ` set (ib # ibs)" using Cons.prems(2,3) by (simp add: ib)
  from write_chunk_mk6 [OF w(1) this Cons.prems(4,5)] obtain mp where
    mp: "mp \<in> mps" "mk6_written mps recname fs0 (ws @ [((i, b), mp)]) st1" "set (pw_filelist st1) \<subseteq> mps" by auto
  have "full_writes env (snd ` set ibs)" using Cons.prems(2) by (auto simp: full_writes_def)
  from Cons.IH [OF w(2) this Cons.prems(3) mp(3,2)] obtain locs where
    "length locs = length ibs" "set locs \<subseteq> mps" "mk6_written mps recname fs0 ((ws @ [((i, b), mp)]) @ zip ibs locs) st'" by blast
  then show ?case using mp(1) by (intro exI [of _ "mp # locs"]) (simp add: ib)
qed

subsection \<open>Finding it again\<close>

definition mk6_entries :: "filesys \<Rightarrow> string \<Rightarrow> path \<Rightarrow> string list" where
  "mk6_entries fs recname mp = filter (\<lambda>e. isRecordingEntry recname e \<and> map_of fs (mp @ [e]) \<noteq> None) (dir_entries fs mp)"

lemma mk6_entries_written:
  assumes "separate mps" "fresh_on mps recname fs0" "mk6_written (set mps) recname fs0 ws st" "mp \<in> set mps"
  shows "mk6_entries (pw_fs st) recname mp = (if blocks_on mp ws = [] then [] else [recname])"
proof -
  let ?fs = "pw_fs st" and ?es = "mk6_entries (pw_fs st) recname mp"
  have mount: "mk6_mount recname ws st mp" using assms(3,4) by (simp add: mk6_written_def)
  have sub: "e = recname \<and> blocks_on mp ws \<noteq> []" if e: "e \<in> set ?es" for e
  proof -
    obtain p c where p: "(p, c) \<in> set ?fs" "is_below mp p" "e = p ! length mp" "isRecordingEntry recname e" "map_of ?fs (mp @ [e]) \<noteq> None"
      using e by (auto simp: mk6_entries_def set_dir_entries)
    have "map_of ?fs p \<noteq> None" using p(1) by (metis weak_map_of_SomeI option.distinct(1))
    have "\<exists>mp' \<in> set mps. p = mp' @ [recname]"
    proof (rule ccontr)
      assume "\<not> (\<exists>mp' \<in> set mps. p = mp' @ [recname])"
      then have "map_of fs0 p \<noteq> None" using assms(3) \<open>map_of ?fs p \<noteq> None\<close> by (auto simp: mk6_written_def)
      then obtain c' where "(p, c') \<in> set fs0" by (meson map_of_SomeD not_None_eq)
      then show False using assms(2,4) p(2-4) by (auto simp: fresh_on_def)
    qed
    then obtain mp' where mp': "mp' \<in> set mps" "p = mp' @ [recname]" by blast
    then have "mp = mp'" using below_separate [OF assms(1,4) mp'(1)] p(2) by simp
    then have "e = recname" using mp'(2) p(3) by simp
    then show ?thesis using p(5) mount by (auto simp: mk6_mount_def split: if_splits)
  qed
  have "distinct ?es" by (simp add: mk6_entries_def distinct_dir_entries)
  show ?thesis
  proof (cases "blocks_on mp ws = []")
    case True
    then show ?thesis using sub by (cases ?es) auto
  next
    case False
    then obtain c where c: "map_of ?fs (mp @ [recname]) = Some c" using mount by (auto simp: mk6_mount_def)
    then have "recname \<in> set (dir_entries ?fs mp)" using map_of_SomeD [of ?fs "mp @ [recname]"] by (auto intro: dir_entriesI)
    then have "recname \<in> set ?es" using c by (simp add: mk6_entries_def)
    moreover have "set ?es \<subseteq> {recname}" using sub by auto
    ultimately have "?es = [recname]" using \<open>distinct ?es\<close> by (cases ?es; cases "tl ?es") auto
    then show ?thesis using False by simp
  qed
qed

text \<open>A chunk of the file of one of the mount points.\<close>

definition found_in :: "filesys \<Rightarrow> string \<Rightarrow> written_blocks \<Rightarrow> path list \<Rightarrow> filechunk \<Rightarrow> bool" where
  "found_in fs recname ws mps c \<longleftrightarrow>
     (\<exists>mp \<in> set mps. \<exists>b content. map_of fs (mp @ [recname]) = Some content \<and> (fc_number c, b) \<in> set (blocks_on mp ws)
        \<and> block_chunk (mp @ [recname]) content c b)"

definition numbers_on :: "written_blocks \<Rightarrow> path list \<Rightarrow> nat list" where
  "numbers_on ws mps = concat (map (\<lambda>mp. map fst (blocks_on mp ws)) mps)"

definition writable_blocks :: "written_blocks \<Rightarrow> bool" where
  "writable_blocks ws \<longleftrightarrow> distinct (map (fst \<circ> fst) ws) \<and> (\<forall>((i, b), mp) \<in> set ws. i < 2 ^ 31 \<and> length b + wb_size < 2 ^ 31)"

lemma blocks_on_writable:
  assumes "writable_blocks ws"
  shows "distinct (map fst (blocks_on mp ws))" "(i, b) \<in> set (blocks_on mp ws) \<Longrightarrow> i < 2 ^ 31 \<and> length b + wb_size < 2 ^ 31"
proof -
  have "distinct (map (fst \<circ> fst) (filter (\<lambda>x. snd x = mp) ws))" using assms distinct_map_filter unfolding writable_blocks_def by blast
  then show "distinct (map fst (blocks_on mp ws))" by (simp add: blocks_on_def comp_def)
  show "(i, b) \<in> set (blocks_on mp ws) \<Longrightarrow> i < 2 ^ 31 \<and> length b + wb_size < 2 ^ 31"
    using assms by (auto simp: blocks_on_def writable_blocks_def)
qed

lemma scan_mount_found:
  assumes sep: "separate mps" and fresh: "fresh_on mps recname fs0" and wr: "mk6_written (set mps) recname fs0 ws st"
    and ok: "writable_blocks ws" and mp: "mp \<in> set mps" and sorted: "sorted (map chunk_key_of fcs)"
    and new: "fc_number ` set fcs \<inter> fst ` set (blocks_on mp ws) = {}"
  shows "\<exists>labels' fcs'. scanMk6RecordingMountpoint (pw_fs st) recname mp (labels, fcs) = Inr (labels', fcs')
    \<and> sorted (map chunk_key_of fcs') \<and> mset (map fc_number fcs') = mset (map fc_number fcs) + mset (map fst (blocks_on mp ws))
    \<and> (\<forall>c \<in> set fcs'. c \<in> set fcs \<or> found_in (pw_fs st) recname ws [mp] c)"
proof -
  have es: "scanMk6RecordingMountpoint (pw_fs st) recname mp (labels, fcs)
      = fold (then_scan (\<lambda>e. scanMk6File (pw_fs st) (mp @ [e]))) (if blocks_on mp ws = [] then [] else [recname]) (Inr (labels, fcs))"
    using mk6_entries_written [OF sep fresh wr mp] by (simp add: scanMk6RecordingMountpoint_def mk6_entries_def)
  show ?thesis
  proof (cases "blocks_on mp ws = []")
    case True
    then show ?thesis using es sorted by simp
  next
    case False
    have "mk6_mount recname ws st mp" using wr mp by (simp add: mk6_written_def)
    then obtain bs pf ps where f: "map_of (pw_fs st) (mp @ [recname]) = Some (mk6_file_header bs pf ps @ mk6_blocks (blocks_on mp ws))"
      using False by (auto simp: mk6_mount_def)
    from scan_file_found [OF f blocks_on_writable(1) [OF ok] blocks_on_writable(2) [OF ok, where mp = mp], of labels] obtain labels' lcl where
      l: "scanMk6RecordingFile (pw_fs st) (mp @ [recname]) labels = Inr (labels', lcl)"
      "mset (map fc_number lcl) = mset (map fst (blocks_on mp ws))"
      "\<forall>c \<in> set lcl. \<exists>b. (fc_number c, b) \<in> set (blocks_on mp ws)
         \<and> block_chunk (mp @ [recname]) (mk6_file_header bs pf ps @ mk6_blocks (blocks_on mp ws)) c b" by blast
    have nums: "fc_number ` set lcl = fst ` set (blocks_on mp ws)" using mset_eq_setD [OF l(2)] by simp
    have dist: "distinct (map fc_number lcl)" using mset_eq_imp_distinct_iff [OF l(2)] blocks_on_writable(1) [OF ok] by blast
    have m: "sorted (map chunk_key_of (fold merge_chunk lcl fcs))" "mset (fold merge_chunk lcl fcs) = mset fcs + mset lcl"
      using merge_found [OF dist _ sorted] new nums by auto
    have "scanMk6RecordingMountpoint (pw_fs st) recname mp (labels, fcs) = Inr (labels', fold merge_chunk lcl fcs)"
      using es False by (simp add: then_scan_Inr scanMk6File_def l(1))
    moreover have "c \<in> set fcs \<or> found_in (pw_fs st) recname ws [mp] c" if c: "c \<in> set (fold merge_chunk lcl fcs)" for c
    proof -
      have "c \<in> set fcs \<or> c \<in> set lcl" using mset_eq_setD [of "fold merge_chunk lcl fcs" "fcs @ lcl"] m(2) c by auto
      then show ?thesis using l(3) f by (auto simp: found_in_def)
    qed
    moreover have "mset (map fc_number (fold merge_chunk lcl fcs)) = mset (map fc_number fcs) + mset (map fst (blocks_on mp ws))"
      using m(2) l(2) by (simp add: mset_map)
    ultimately show ?thesis using m(1) by blast
  qed
qed

lemma scanMk6Recording_found:
  assumes sep: "separate mps" and fresh: "fresh_on mps recname fs0" and wr: "mk6_written (set mps) recname fs0 ws st"
    and ok: "writable_blocks ws"
  shows "set mps' \<subseteq> set mps \<Longrightarrow> distinct (map fc_number fcs @ numbers_on ws mps') \<Longrightarrow> sorted (map chunk_key_of fcs)
    \<Longrightarrow> \<exists>labels' fcs'. fold (then_scan (scanMk6RecordingMountpoint (pw_fs st) recname)) mps' (Inr (labels, fcs)) = Inr (labels', fcs')
      \<and> sorted (map chunk_key_of fcs') \<and> mset (map fc_number fcs') = mset (map fc_number fcs) + mset (numbers_on ws mps')
      \<and> (\<forall>c \<in> set fcs'. c \<in> set fcs \<or> found_in (pw_fs st) recname ws mps' c)"
proof (induction mps' arbitrary: labels fcs)
  case Nil
  then show ?case by (simp add: numbers_on_def)
next
  case (Cons mp mps')
  have mp: "mp \<in> set mps" using Cons.prems(1) by simp
  have nums: "numbers_on ws (mp # mps') = map fst (blocks_on mp ws) @ numbers_on ws mps'" by (simp add: numbers_on_def)
  have "fc_number ` set fcs \<inter> fst ` set (blocks_on mp ws) = {}" using Cons.prems(2) unfolding nums by auto
  from scan_mount_found [OF sep fresh wr ok mp Cons.prems(3) this] obtain labels1 fcs1 where
    s: "scanMk6RecordingMountpoint (pw_fs st) recname mp (labels, fcs) = Inr (labels1, fcs1)" "sorted (map chunk_key_of fcs1)"
    "mset (map fc_number fcs1) = mset (map fc_number fcs) + mset (map fst (blocks_on mp ws))"
    "\<forall>c \<in> set fcs1. c \<in> set fcs \<or> found_in (pw_fs st) recname ws [mp] c" by blast
  have "mset (map fc_number fcs1 @ numbers_on ws mps') = mset (map fc_number fcs @ numbers_on ws (mp # mps'))"
    using s(3) by (simp add: nums)
  then have "distinct (map fc_number fcs1 @ numbers_on ws mps')" using Cons.prems(2) mset_eq_imp_distinct_iff by blast
  from Cons.IH [OF _ this s(2), of labels1] Cons.prems(1) obtain labels' fcs' where
    r: "fold (then_scan (scanMk6RecordingMountpoint (pw_fs st) recname)) mps' (Inr (labels1, fcs1)) = Inr (labels', fcs')"
    "sorted (map chunk_key_of fcs')" "mset (map fc_number fcs') = mset (map fc_number fcs1) + mset (numbers_on ws mps')"
    "\<forall>c \<in> set fcs'. c \<in> set fcs1 \<or> found_in (pw_fs st) recname ws mps' c" by auto
  have "c \<in> set fcs \<or> found_in (pw_fs st) recname ws (mp # mps') c" if "c \<in> set fcs'" for c
    using bspec [OF r(4) that] s(4) by (auto simp: found_in_def)
  moreover have "mset (map fc_number fcs') = mset (map fc_number fcs) + mset (numbers_on ws (mp # mps'))" using r(3) s(3) by (simp add: nums)
  moreover have "fold (then_scan (scanMk6RecordingMountpoint (pw_fs st) recname)) (mp # mps') (Inr (labels, fcs)) = Inr (labels', fcs')"
    using r(1) s(1) by (simp add: then_scan_Inr)
  ultimately show ?case using r(2) by blast
qed

lemma numbers_on_all:
  assumes "distinct (map (fst \<circ> fst) ws)" "snd ` set ws \<subseteq> set mps'" "distinct mps'"
  shows "mset (numbers_on ws mps') = mset (map (fst \<circ> fst) ws)" "distinct (numbers_on ws mps')"
proof -
  have on: "set (map fst (blocks_on mp ws)) = (fst \<circ> fst) ` {x \<in> set ws. snd x = mp}" for mp
    by (auto simp: blocks_on_def)
  have inj: "inj_on (fst \<circ> fst) (set ws)" using assms(1) by (simp add: distinct_map)
  show dist: "distinct (numbers_on ws mps')"
    unfolding numbers_on_def
  proof (rule concat_disjoint [OF assms(3)])
    show "distinct (map fst (blocks_on mp ws))" for mp
    proof -
      have "distinct (map (fst \<circ> fst) (filter (\<lambda>x. snd x = mp) ws))" using assms(1) distinct_map_filter by blast
      then show ?thesis by (simp add: blocks_on_def comp_def)
    qed
    show "set (map fst (blocks_on x ws)) \<inter> set (map fst (blocks_on y ws)) = {}" if ne: "x \<noteq> y" for x y
    proof -
      have "u = v" if "u \<in> set ws" "v \<in> set ws" "(fst \<circ> fst) u = (fst \<circ> fst) v" for u v
        using inj that by (simp add: inj_on_def)
      then show ?thesis unfolding on using ne by fastforce
    qed
  qed
  have "set (numbers_on ws mps') = (\<Union>mp \<in> set mps'. (fst \<circ> fst) ` {x \<in> set ws. snd x = mp})" by (simp add: numbers_on_def on [unfolded set_map] image_image)
  also have "\<dots> = set (map (fst \<circ> fst) ws)" using assms(2) by force
  finally show "mset (numbers_on ws mps') = mset (map (fst \<circ> fst) ws)"
    using dist assms(1) set_eq_iff_mset_eq_distinct by blast
qed

lemma block_chunk_data:
  assumes "block_chunk p content c b" "os_content os p = Some content"
  shows "chunk_data os c = b" "chunk_valid os c" "fc_fd c \<noteq> Own_Fd"
  using assms by (auto simp: block_chunk_def chunk_data_def chunk_valid_def)

lemma mk6_written_start:
  assumes "fresh_on mps recname fs0" "pw_fs st = fs0" "pw_fdmap st = []"
  shows "mk6_written (set mps) recname fs0 [] st"
proof -
  have "map_of fs0 (mp @ [recname]) = None" if mp: "mp \<in> set mps" for mp
  proof (rule ccontr)
    assume "map_of fs0 (mp @ [recname]) \<noteq> None"
    then obtain c where "(mp @ [recname], c) \<in> set fs0" by (meson map_of_SomeD not_None_eq)
    moreover have "is_below mp (mp @ [recname])" "(mp @ [recname]) ! length mp = recname" by (simp_all add: is_below_append)
    ultimately have "\<not> isRecordingEntry recname recname" using assms(1) mp unfolding fresh_on_def by fastforce
    then show False by simp
  qed
  then show ?thesis using assms(2,3) by (simp add: mk6_written_def mk6_mount_def)
qed

lemma mk6_open_written:
  assumes name: "recname \<noteq> []" and sep: "separate mps" and fresh: "fresh_on mps recname fs0" and locs: "set locs \<subseteq> set mps" "length locs = length blocks"
    and wr: "mk6_written (set mps) recname fs0 (zip (enumerate 0 blocks) locs) st" and n: "length blocks \<le> 2 ^ 31" "blocks \<noteq> []"
    and small: "\<forall>b \<in> set blocks. length b + wb_size < 2 ^ 31"
  shows "\<exists>labels' cs. mk6_open (pw_fs st) labels tbl recname mps = (labels', (new_fd tbl, openfile_new cs) # tbl, Vbs_Fd (new_fd tbl))
    \<and> cs \<noteq> [] \<and> (\<forall>os. os_content os = map_of (pw_fs st) \<longrightarrow> flat os cs = concat blocks \<and> (\<forall>c \<in> set cs. chunk_valid os c \<and> fc_fd c \<noteq> Own_Fd))"
proof -
  let ?ws = "zip (enumerate 0 blocks) locs" and ?mps = "mountpoint_set mps"
  have numbers: "map (fst \<circ> fst) ?ws = [0..<length blocks]"
    using locs(2) by (intro nth_equalityI) (simp_all add: nth_enumerate_eq)
  have member: "i < length blocks \<and> b = blocks ! i" if "((i, b), mp) \<in> set ?ws" for i b mp
    using that by (auto simp: set_zip nth_enumerate_eq)
  have ok: "writable_blocks ?ws"
    unfolding writable_blocks_def numbers using member n(1) small by (fastforce dest: nth_mem)
  have mps: "set ?mps = set mps" "distinct ?mps" by (simp_all add: mountpoint_set_def)
  have on: "snd ` set ?ws \<subseteq> set ?mps" using locs mps(1) by (auto dest: set_zip_rightD)
  note nums = numbers_on_all [of ?ws ?mps, unfolded numbers, OF _ on mps(2)]
  obtain labels' cs where scan: "scanMk6Recording (pw_fs st) recname ?mps (labels, []) = Inr (labels', cs)"
    and sorted: "sorted (map chunk_key_of cs)" and found: "mset (map fc_number cs) = mset [0..<length blocks]"
    and found_c: "\<forall>c \<in> set cs. found_in (pw_fs st) recname ?ws ?mps c"
    using scanMk6Recording_found [OF sep fresh wr ok, of ?mps "[]" labels] mps(1) nums by (auto simp: scanMk6Recording_def)
  have cs: "map fc_number cs = [0..<length blocks]"
    using found sorted_numbers [OF sorted] by (metis properties_for_sort sorted_upt)
  then have len: "length cs = length blocks" by (metis length_map length_upt minus_nat.diff_0)
  have data: "chunk_data os (cs ! i) = blocks ! i" "chunk_valid os (cs ! i)" "fc_fd (cs ! i) \<noteq> Own_Fd"
    if i: "i < length blocks" and os: "os_content os = map_of (pw_fs st)" for i os
  proof -
    have ci: "cs ! i \<in> set cs" "fc_number (cs ! i) = i" using i len arg_cong [OF cs, of "\<lambda>xs. xs ! i"] by simp_all
    then obtain mp b content where c: "map_of (pw_fs st) (mp @ [recname]) = Some content" "(i, b) \<in> set (blocks_on mp ?ws)"
      "block_chunk (mp @ [recname]) content (cs ! i) b" using found_c by (auto simp: found_in_def)
    have "b = blocks ! i" using c(2) member by (auto simp: blocks_on_def)
    then show "chunk_data os (cs ! i) = blocks ! i" "chunk_valid os (cs ! i)" "fc_fd (cs ! i) \<noteq> Own_Fd"
      using block_chunk_data [OF c(3), of os] c(1) os by simp_all
  qed
  have "flat os cs = concat blocks" if "os_content os = map_of (pw_fs st)" for os
  proof -
    have "map (chunk_data os) cs = blocks" using data(1) [OF _ that] len by (intro nth_equalityI) simp_all
    then show ?thesis by (simp add: flat_def)
  qed
  moreover have "chunk_valid os c \<and> fc_fd c \<noteq> Own_Fd" if "os_content os = map_of (pw_fs st)" "c \<in> set cs" for os c
    using that(2) data(2,3) [OF _ that(1)] len by (auto simp: in_set_conv_nth)
  moreover have "cs \<noteq> []" using len n(2) by auto
  ultimately show ?thesis using scan name by (auto simp: mk6_open_def open_chunks_def)
qed

text \<open>C2: The same for Mark6 recordings, where each mount point has one file with a block after the
  other: if files and directories may fail to be made but what is written is written in full,
  opening the recording finds every block, and reads and seeks give what they would give on one file
  that holds the blocks in the order they were recorded.\<close>

theorem mk6_record_then_play:
  assumes "recname \<noteq> []" "separate mps" "fresh_on mps recname fs0" "mv_mk6 mk6vars" "full_writes env (set blocks)"
    "blocks \<noteq> []" "length blocks \<le> 2 ^ 31" "\<forall>b \<in> set blocks. length b + wb_size < 2 ^ 31"
  shows "\<exists>ok st. parallelwriter env mk6vars (chunkmaker MK6Namer (\<lambda>_. []) recname [] (map (Pair no_tag) blocks))
        ((writer_start mps)\<lparr>pw_fs := fs0\<rparr>) = Some (ok, st)
    \<and> (\<not> ok \<longrightarrow> pw_filelist st = [])
    \<and> (ok \<longrightarrow> (\<exists>labels' tbl' fd. mk6_open (pw_fs st) labels tbl recname mps = (labels', tbl', Vbs_Fd fd)
        \<and> (\<forall>os k ops. os_content os = map_of (pw_fs st) \<and> reads_progress os
             \<longrightarrow> (\<exists>tbl2. run_vbs os k tbl' fd ops = Some (tbl2, run_flat (concat blocks, 0) ops)))))"
proof -
  let ?ibs = "enumerate 0 blocks" and ?st0 = "(writer_start mps)\<lparr>pw_fs := fs0\<rparr>"
  let ?chs = "map (chunk_of_block MK6Namer recname) ?ibs"
  have chs: "chunkmaker MK6Namer (\<lambda>_. []) recname [] (map (Pair no_tag) blocks) = ?chs"
    by (rule chunkmaker_enumerate) (use assms(7) in simp_all)
  have "mounts_inv ?st0" using assms(2) by (simp add: mounts_inv_def writer_start_def separate_def)
  then obtain ok st where w: "parallelwriter env mk6vars ?chs ?st0 = Some (ok, st)" "\<not> ok \<longrightarrow> pw_filelist st = []"
    using parallelwriter_returns by blast
  have "\<exists>labels' tbl' fd. mk6_open (pw_fs st) labels tbl recname mps = (labels', tbl', Vbs_Fd fd)
        \<and> (\<forall>os k ops. os_content os = map_of (pw_fs st) \<and> reads_progress os
             \<longrightarrow> (\<exists>tbl2. run_vbs os k tbl' fd ops = Some (tbl2, run_flat (concat blocks, 0) ops)))" if ok: ok
  proof -
    have "snd ` set ?ibs = set blocks" by (metis map_snd_enumerate set_map)
    then have env: "full_writes env (snd ` set ?ibs)" using assms(5) by simp
    have start: "mk6_written (set mps) recname fs0 [] ?st0" by (rule mk6_written_start [OF assms(3)]) (simp_all add: writer_start_def)
    obtain locs where l: "length locs = length blocks" "set locs \<subseteq> set mps" "mk6_written (set mps) recname fs0 (zip ?ibs locs) st"
      using parallelwriter_mk6 [OF _ env assms(4) _ start, of st] w(1) ok by (auto simp: writer_start_def)
    obtain labels' cs where o: "mk6_open (pw_fs st) labels tbl recname mps = (labels', (new_fd tbl, openfile_new cs) # tbl, Vbs_Fd (new_fd tbl))"
      "cs \<noteq> []" "\<And>os. os_content os = map_of (pw_fs st) \<Longrightarrow> flat os cs = concat blocks \<and> (\<forall>c \<in> set cs. chunk_valid os c \<and> fc_fd c \<noteq> Own_Fd)"
      using mk6_open_written [OF assms(1-3) l(2,1,3) assms(7,6,8), of labels tbl] by blast
    have "\<exists>tbl2. run_vbs os k ((new_fd tbl, openfile_new cs) # tbl) (new_fd tbl) ops = Some (tbl2, run_flat (concat blocks, 0) ops)"
      if "os_content os = map_of (pw_fs st) \<and> reads_progress os" for os k ops
      using opened_flat [of os cs tbl "(new_fd tbl, openfile_new cs) # tbl" "new_fd tbl" k ops] o(2,3) that
      by (auto simp: open_chunks_def)
    then show ?thesis using o(1) by blast
  qed
  then show ?thesis using w unfolding chs by blast
qed

text \<open>Three blocks, two disks, on the first of which the file cannot be made.\<close>

lemma sample_mk6_recorded:
  "\<exists>st. parallelwriter (sample_env\<lparr>we_open := \<lambda>k. k \<noteq> 0, we_data := \<lambda>_. 9\<rparr>) mk6_vars
      (chunkmaker MK6Namer (\<lambda>_. []) ''r1'' [] (map (Pair no_tag) [[1, 2], [3], [4, 5]])) ((writer_start sample_disks)\<lparr>pw_fs := []\<rparr>)
    = Some (True, st)"
proof -
  have "chunkmaker MK6Namer (\<lambda>_. []) ''r1'' [] (map (Pair no_tag) [[1, 2], [3], [4, 5]])
      = map (chunk_of_block MK6Namer ''r1'') (enumerate 0 [[1, 2], [3], [4, 5]])"
    by (rule chunkmaker_enumerate) simp_all
  then show ?thesis
    by (simp add: write_chunk.simps attempt_def write_block_def sample_env_def mk6_vars_def writer_start_def sample_disks_def
        fs_append_def fs_put_def mark_bad_def Let_def chunk_of_block_def chunk_name_def fh_size_def wb_size_def)
qed

theorem mk6_record_then_play_witness:
  "\<exists>st labels' tbl' fd tbl2. parallelwriter (sample_env\<lparr>we_open := \<lambda>k. k \<noteq> 0, we_data := \<lambda>_. 9\<rparr>) mk6_vars
        (chunkmaker MK6Namer (\<lambda>_. []) ''r1'' [] (map (Pair no_tag) [[1, 2], [3], [4, 5]])) ((writer_start sample_disks)\<lparr>pw_fs := []\<rparr>)
      = Some (True, st)
    \<and> mk6_open (pw_fs st) [] [] ''r1'' sample_disks = (labels', tbl', Vbs_Fd fd)
    \<and> run_vbs \<lparr>os_content = map_of (pw_fs st), os_read = \<lambda>k n. Some (min n 2)\<rparr> 0 tbl' fd [Op_Seek (- 3) SEEK_END, Op_Read 9]
      = Some (tbl2, [Vbs_Offset 2, Vbs_Bytes [3, 4, 5]])"
proof -
  let ?blocks = "[[1, 2], [3], [4, 5]] :: byte list list" and ?ops = "[Op_Seek (- 3) SEEK_END, Op_Read 9]"
  let ?env = "sample_env\<lparr>we_open := \<lambda>k. k \<noteq> 0, we_data := \<lambda>_. 9\<rparr>"
  let ?os = "\<lambda>st. \<lparr>os_content = map_of (pw_fs st), os_read = \<lambda>k n. Some (min n 2)\<rparr>"
  have "''r1'' \<noteq> []" "separate sample_disks" "fresh_on sample_disks ''r1'' []" "mv_mk6 mk6_vars" "full_writes ?env (set ?blocks)"
    "?blocks \<noteq> []" "length ?blocks \<le> 2 ^ 31" "\<forall>b \<in> set ?blocks. length b + wb_size < 2 ^ 31"
    by (simp_all add: separate_def sample_disks_def is_below_def fresh_on_def mk6_vars_def full_writes_def sample_env_def fh_size_def wb_size_def)
  note promise = mk6_record_then_play [OF this, of "[]" "[]"]
  obtain st where w: "parallelwriter ?env mk6_vars (chunkmaker MK6Namer (\<lambda>_. []) ''r1'' [] (map (Pair no_tag) ?blocks))
      ((writer_start sample_disks)\<lparr>pw_fs := []\<rparr>) = Some (True, st)" using sample_mk6_recorded by blast
  obtain labels' tbl' fd where o: "mk6_open (pw_fs st) [] [] ''r1'' sample_disks = (labels', tbl', Vbs_Fd fd)"
    "\<forall>os k ops. os_content os = map_of (pw_fs st) \<and> reads_progress os
       \<longrightarrow> (\<exists>tbl2. run_vbs os k tbl' fd ops = Some (tbl2, run_flat (concat ?blocks, 0) ops))"
    using promise unfolding w by auto
  have "reads_progress (?os st)" by (auto simp: reads_progress_def)
  then obtain tbl2 where "run_vbs (?os st) 0 tbl' fd ?ops = Some (tbl2, run_flat (concat ?blocks, 0) ?ops)"
    using o(2) [rule_format, of "?os st" 0 ?ops] by auto
  moreover have "run_flat (concat ?blocks, 0) ?ops = [Vbs_Offset 2, Vbs_Bytes [3, 4, 5]]"
    by (simp add: flat_read_def flat_lseek_def Let_def)
  ultimately show ?thesis using w o(1) by (metis (no_types, lifting))
qed

end
