(* ===== verification/Spec2Isabelle.thy ===== *)
theory Spec2Isabelle
  imports ChainProps Blocks UdpsStats Transfermode Constraints BQueue WordTimes Framer Mk6Play
begin

text \<open>
  Verification library of jive5ab, the program that records, transports and plays back VLBI data.

  \<^bold>\<open>The program.\<close> Data enter as datagrams, from a network or from disks, as a stream of bytes. They are
  cut into blocks that travel through a chain of threads connected by blocking queues: receivers put
  datagrams in order, framers cut the stream into data frames of a known format, checkers decode
  the time stamps in the frame headers, reducers throw away tracks, writers spread blocks as chunks over
  many disks, readers find the chunks again and present them as one file. The sizes of blocks,
  reads, writes and datagrams that fit all of these steps are computed beforehand from constraints.
  The library models these parts, with the functions of \<open>src/src\<close> translated one by one, and proves
  what they promise to each other.

  \<^bold>\<open>Theories, sources and lemmas.\<close>

  \<^item> \<open>JPrelude\<close>: unsigned arithmetic with its wrap-around, copying array ranges, the collections
    \<open>u32_simps\<close> and \<open>inv_intros\<close>.
  \<^item> \<open>CircularBuffer\<close> (\<open>circular_buffer.h\<close>): the ring buffer as array, read and write position;
    invariant, and refinement of a bounded history through the locale \<open>bounded_history\<close>.
  \<^item> \<open>UdpsReader\<close>, \<open>UdpsWindow\<close>, \<open>UdpsStats\<close> (\<open>threadfns/udpsreader.cc\<close>): the receiver of numbered
    datagrams. The first has the state and its steps, the second the refinement of a window that
    slides over the stream, the third the loss and reordering statistics, the acknowledgements and what
    happens when receiving ends.
  \<^item> \<open>Transfermode\<close> (\<open>transfermode.h\<close>, \<open>transfermode.cc\<close>): transfer modes, their names and their sets of
    submode flags.
  \<^item> \<open>NetParms\<close> (\<open>netparms.h\<close>, \<open>netparms.cc\<close>): protocol, MTU, hosts and ports.
  \<^item> \<open>BitCount\<close>, \<open>Solution\<close> (\<open>bittwiddlinghacks.h\<close>, \<open>trackmask.h\<close>, \<open>trackmask.cc\<close>): counting bits, and the
    solver that packs the selected tracks of a word.
  \<^item> \<open>Formats\<close> (\<open>headersearch.h\<close>, \<open>headersearch.cc\<close>): data formats, the layout of their frames and
    the text form of a format.
  \<^item> \<open>Crc\<close>, \<open>TrackBits\<close> (\<open>headersearch.cc\<close>, \<open>headersearch.impl\<close>): header checksums against polynomial
    division, spreading header bits over tracks and extracting them.
  \<^item> \<open>Calendar\<close>, \<open>Timestamps\<close>, \<open>FrameTimes\<close>, \<open>WordTimes\<close> (\<open>timezooi.cc\<close>, \<open>dayconversion.cc\<close>,
    \<open>highrestime.cc\<close>, \<open>headersearch.cc\<close>): days and dates, the encoders and decoders of the time stamps of
    the Mark4, VLBA, Mark5B and VDIF formats, and the round trips between them.
  \<^item> \<open>BoyerMoore\<close> (\<open>boyer_moore.cc\<close>): the search for sync words and its two shift tables.
  \<^item> \<open>Framer\<close> (\<open>tthreadfns.h\<close>): cutting frames out of blocks. Its lemmas stand in a locale about a search
    that gives the first occurrence, interpreted on the search of \<open>BoyerMoore\<close>.
  \<^item> \<open>Constraints\<close> (\<open>constraints.h\<close>, \<open>constraints.cc\<close>): the sizes of a transfer.
  \<^item> \<open>BQueue\<close> (\<open>bqueue.h\<close>): the blocking queue; the sections under the lock are functions on the state, the
    threads take turns in a step relation.
  \<^item> \<open>Chain\<close>, \<open>ChainRun\<close>, \<open>ChainProps\<close> (\<open>chain.h\<close>, \<open>chain.cc\<close>): processing chains, the threads of their steps joined by
    the queues of \<open>BQueue\<close>. The first has the operations and the step relation, the second the invariants, the third what
    follows: no chain gets stuck, final functions run once and last, user data outlive the threads.
  \<^item> \<open>Blocks\<close> (\<open>block.cc\<close>, \<open>blockpool.cc\<close>): reference counted blocks of memory, the pools they come from and the
    garbage can; every operation is a step on the whole memory, and the invariant that each counter is the
    number of blocks using it is kept by all of them. In the other theories a block is the list of its bytes.
  \<^item> \<open>Vbs\<close>, \<open>VbsScan\<close>, \<open>Recorder\<close>, \<open>RecordPlay\<close>, \<open>Mk6Play\<close> (\<open>libvbs.cc\<close>, \<open>mk6info.cc\<close>, \<open>threadfns/chunkmakers.h\<close>,
    \<open>threadfns/multisend.cc\<close>): reading a scattered recording as one file, finding its chunks, naming
    and writing them, and the composition: what was recorded is what is played.

  \<^bold>\<open>State and operations.\<close> A class or struct is a record with the source's members (with a prefix),
  a member function takes the record and returns the changed one. Exceptions, failing assertions
  and error returns are the left side of a sum or \<open>None\<close>, or a value of a result type. Values of
  \<open>unsigned int\<close>, \<open>uint64_t\<close> and \<open>size_t\<close> whose wrap-around can matter are natural numbers reduced by
  \<open>u32_add\<close> and its companions, or words where bits are handled. Floating point values (constraint
  factors, seconds and frame rates) are the rational numbers they stand for: rounding is not modelled.

  \<^bold>\<open>Loops, bounds and fuel.\<close> Loops are structural recursions or come with a termination proof. Those that
  may not end are partial functions, where \<open>None\<close> is not returning: the sync word search, the framer, the
  reading of a recording and the writer of chunks; that they return is a theorem, and for a truncated
  chunk that they do not. The search for a write size in \<open>Constraints\<close> is given \<open>2 ^ 29 + 1\<close> rounds, and
  each round lowers a multiple of 8 below \<open>2 ^ 32\<close>.

  \<^bold>\<open>The environment.\<close> What the operating system does is a parameter: the datagrams that arrive, the bytes a
  call of \<open>read\<close> returns, the success of each attempt to write, the current time. Files are an association
  list from paths to bytes. Mutual exclusion is that of the locks in the source: a section under a lock
  is one step, but \<open>run\<close> and \<open>stop\<close> of a chain, which hold its lock while threads start and end, are a
  list of steps. The function of each step of a chain is a parameter, and system calls in it return. The writer of chunks is one thread, the scan of Mark6 mount points runs its threads
  in turn.

  \<^bold>\<open>Not modelled.\<close> The vendored libraries (\<open>src/src/boost\<close>, \<open>libudt5ab\<close>); the drivers and the interface of
  the StreamStor disk system and the I/O board, whose behaviour is in closed code and hardware; the
  machine code of the channel extractors (assembler, and code generated at run time), which HOL has no
  semantics for; sockets and signals (pure input and output); the parsers of the text commands, which call
  the parts modelled here with a run time that holds them; messages, counters of the progress of a chain
  and debug output.
\<close>

end
